(* ===== verification/Prelude.thy ===== *)
theory Prelude
  imports Main "HOL-Library.Monad_Syntax" "HOL-Library.Word"
begin

unbundle bit_operations_syntax

text \<open>
  Shared vocabulary of the development: the Rust standard-library notions the editor's core
  uses (three-way comparison, \<^verbatim>\<open>Vec::resize\<close>, zipped in-place iteration, checked
  subtraction on \<^verbatim>\<open>usize\<close>), the collections of facts the component proofs share, and generic
  lemmas on lists and options.

  Conventions.  A computation that may panic has type \<open>'a option\<close>: \<open>None\<close> is the panic.  Lengths,
  offsets and indices of type \<^verbatim>\<open>usize\<close> are natural numbers, and a subtraction that would go below
  zero is \<open>None\<close>, so a theorem whose conclusion is \<open>Some\<close> shows in passing that no such
  subtraction happens.  Integers of a fixed width are words and wrap as the release build does.
\<close>

section \<open>Three-way comparison\<close>

datatype cmp_ordering = Less | Equal | Greater

definition cmp :: "'a::linorder \<Rightarrow> 'a \<Rightarrow> cmp_ordering" where
  "cmp a b = (if a < b then Less else if a = b then Equal else Greater)"

definition then_with :: "cmp_ordering \<Rightarrow> cmp_ordering \<Rightarrow> cmp_ordering" where
  "then_with o1 o2 = (case o1 of Equal \<Rightarrow> o2 | _ \<Rightarrow> o1)"

lemma cmp_Less_iff [simp]: "cmp a b = Less \<longleftrightarrow> a < b"
  by (auto simp: cmp_def)

lemma cmp_Equal_iff [simp]: "cmp a b = Equal \<longleftrightarrow> a = b"
  by (auto simp: cmp_def)

lemma cmp_Greater_iff [simp]: "cmp a b = Greater \<longleftrightarrow> b < a"
  by (auto simp: cmp_def)

lemma then_with_simps [simp]:
  "then_with Less o2 = Less" "then_with Greater o2 = Greater" "then_with Equal o2 = o2"
  by (simp_all add: then_with_def)

section \<open>Vectors\<close>

text \<open>\<^verbatim>\<open>Vec::resize\<close>: truncates, or pads with the given value.\<close>

definition vec_resize :: "'a list \<Rightarrow> nat \<Rightarrow> 'a \<Rightarrow> 'a list" where
  "vec_resize xs n v =
     (if n \<le> length xs then take n xs else xs @ replicate (n - length xs) v)"

text \<open>\<^verbatim>\<open>for (l, r) in xs.iter_mut().zip(ys) { *l = f(l, r) }\<close>: the tail of the longer left
  vector is left alone.\<close>

fun zip_mut :: "('a \<Rightarrow> 'b \<Rightarrow> 'a) \<Rightarrow> 'a list \<Rightarrow> 'b list \<Rightarrow> 'a list" where
  "zip_mut f (x # xs) (y # ys) = f x y # zip_mut f xs ys"
| "zip_mut f xs ys = xs"

lemma length_vec_resize [simp]: "length (vec_resize xs n v) = n"
  by (simp add: vec_resize_def)

lemma nth_vec_resize:
  "i < n \<Longrightarrow> vec_resize xs n v ! i = (if i < length xs then xs ! i else v)"
  by (auto simp: vec_resize_def nth_append)

lemma length_zip_mut [simp]: "length (zip_mut f xs ys) = length xs"
  by (induction f xs ys rule: zip_mut.induct) auto

lemma nth_zip_mut:
  "i < length xs \<Longrightarrow> zip_mut f xs ys ! i = (if i < length ys then f (xs ! i) (ys ! i) else xs ! i)"
proof (induction f xs ys arbitrary: i rule: zip_mut.induct)
  case (1 f x xs y ys)
  then show ?case by (cases i) auto
qed auto

section \<open>Checked subtraction and options\<close>

definition usize_sub :: "nat \<Rightarrow> nat \<Rightarrow> nat option" where
  "usize_sub a b = (if b \<le> a then Some (a - b) else None)"

lemma usize_sub_Some_iff [simp]: "usize_sub a b = Some c \<longleftrightarrow> b \<le> a \<and> c = a - b"
  by (auto simp: usize_sub_def)

lemma usize_sub_Some [simp]: "b \<le> a \<Longrightarrow> usize_sub a b = Some (a - b)"
  by (simp add: usize_sub_def)

lemma usize_sub_None_iff [simp]: "usize_sub a b = None \<longleftrightarrow> a < b"
  by (auto simp: usize_sub_def)

section \<open>Packing two words into one\<close>

text \<open>\<^verbatim>\<open>(hi as u64) << 32 | lo as u64\<close> is the number with the two words as digits, so comparing
  packed words compares the pairs lexicographically.\<close>

lemma unat_less_power: "unat (w :: 'a::len word) < 2 ^ LENGTH('a)"
  by (rule unsigned_less)

lemma unat_ucast_up:
  assumes "LENGTH('a::len) \<le> LENGTH('b::len)"
  shows "unat (ucast (w :: 'a word) :: 'b word) = unat w"
proof -
  have "unat w < 2 ^ LENGTH('a)" by (rule unat_less_power)
  also have "\<dots> \<le> 2 ^ LENGTH('b)" using assms by (rule power_increasing) simp
  finally show ?thesis by (simp add: unsigned_ucast_eq take_bit_nat_eq_self)
qed

lemma unat_pack_u64:
  assumes "LENGTH('a::len) \<le> 32"
  shows "unat (push_bit 32 (ucast (hi :: 32 word)) OR ucast (lo :: 'a word) :: 64 word)
    = unat hi * 2 ^ 32 + unat lo"
proof -
  have hi: "unat hi < 2 ^ 32" using unat_less_power [of hi] by simp
  have "unat lo < 2 ^ LENGTH('a)" by (rule unat_less_power)
  also have "\<dots> \<le> 2 ^ 32" using assms by (rule power_increasing) simp
  finally have lo: "unat lo < 2 ^ 32" .
  have "push_bit 32 (ucast hi) OR ucast lo = push_bit 32 (ucast hi :: 64 word) + ucast lo"
    by (rule disjunctive_add_eq_or [symmetric], rule bit_eqI)
      (use assms in \<open>auto simp: bit_simps dest!: bit_imp_le_length\<close>)
  moreover have "unat (push_bit 32 (ucast hi :: 64 word)) = unat hi * 2 ^ 32"
    using hi by (simp add: push_bit_eq_mult unat_word_ariths unat_ucast_up)
  ultimately show ?thesis
    using hi lo assms by (simp add: unat_word_ariths unat_ucast_up)
qed

lemma pack_less_iff:
  fixes a b c d :: nat
  assumes "b < 2 ^ 32" "d < 2 ^ 32"
  shows "a * 2 ^ 32 + b < c * 2 ^ 32 + d \<longleftrightarrow> a < c \<or> (a = c \<and> b < d)"
proof (cases "a = c")
  case False
  then have "a + 1 \<le> c \<or> c + 1 \<le> a" by linarith
  then show ?thesis using assms by auto
qed simp

lemma word_less_plus_1:
  assumes "(x :: 'a::len word) \<noteq> - 1"
  shows "x < x + 1"
proof -
  have "unat x + 1 < 2 ^ LENGTH('a)"
    using assms unat_less_power [of x]
    by (metis Suc_eq_plus1 Suc_lessI add_eq_0_iff2 of_nat_Suc of_nat_unat
        word_exp_length_eq_0 of_nat_power of_nat_numeral ucast_id add.commute)
  then show ?thesis
    by (simp add: word_less_nat_alt unat_word_ariths)
qed

end
