(* ===== verification/Locator.thy ===== *)
theory Locator
  imports Prelude "HOL-Library.List_Lexorder"
begin

text \<open>
  \<^verbatim>\<open>crates/text/src/locator.rs\<close>: the identifiers that order the fragments of a buffer.  A locator
  is a non-empty vector of 64-bit digits under the derived (lexicographic) order, and
  \<^verbatim>\<open>Locator::between\<close> makes one strictly between two others.
\<close>

section \<open>Locators\<close>

type_synonym locator = "64 word list"

definition locator_min :: locator where
  "locator_min = [0]"

definition locator_max :: locator where
  "locator_max = [- 1]"

text \<open>\<^verbatim>\<open>assign\<close> resizes the vector to the other's length and copies it.\<close>

definition locator_assign :: "locator \<Rightarrow> locator \<Rightarrow> locator" where
  "locator_assign self other =
     zip_mut (\<lambda>_ r. r) (vec_resize self (length other) 0) other"

definition saturating_sub :: "'a::len word \<Rightarrow> 'a word \<Rightarrow> 'a word" where
  "saturating_sub a b = (if a < b then 0 else a - b)"

text \<open>The digit the loop pushes: the left digit moved right by a 2^-48 fraction of the gap.\<close>

definition locator_mid :: "64 word \<Rightarrow> 64 word \<Rightarrow> 64 word" where
  "locator_mid l r = l + drop_bit 48 (saturating_sub r l)"

definition digit_or :: "64 word \<Rightarrow> locator \<Rightarrow> 64 word" where
  "digit_or d xs = (case xs of [] \<Rightarrow> d | x # _ \<Rightarrow> x)"

text \<open>The loop of \<^verbatim>\<open>between\<close> over the two digit sequences, the left one continued with
  \<^verbatim>\<open>u64::MIN\<close> and the right one with \<^verbatim>\<open>u64::MAX\<close>.  Once both vectors are exhausted the gap is
  the whole range, so the loop stops there at the latest.\<close>

lemma locator_mid_exhausted: "0 < locator_mid 0 (- 1)"
  by (simp add: locator_mid_def saturating_sub_def mask_eq_exp_minus_1)

function between :: "locator \<Rightarrow> locator \<Rightarrow> locator" where
  "between lhs rhs =
     (let l = digit_or 0 lhs; r = digit_or (- 1) rhs; mid = locator_mid l r
      in mid # (if l < mid then [] else between (tl lhs) (tl rhs)))"
  by pat_completeness auto
termination
proof (relation "measure (\<lambda>(lhs, rhs). length lhs + length rhs)", simp)
  fix lhs rhs :: locator and l r mid
  assume l: "l = digit_or 0 lhs" and r: "r = digit_or (- 1) rhs" and mid: "mid = locator_mid l r"
    and more: "\<not> l < mid"
  have "lhs \<noteq> [] \<or> rhs \<noteq> []"
    using more locator_mid_exhausted by (auto simp: l r mid digit_or_def)
  then show "((tl lhs, tl rhs), (lhs, rhs)) \<in> measure (\<lambda>(lhs, rhs). length lhs + length rhs)"
    by (cases lhs; cases rhs) auto
qed

declare between.simps [simp del]

section \<open>Digits\<close>

lemma locator_assign_eq [simp]: "locator_assign a b = b"
  by (auto simp: locator_assign_def list_eq_iff_nth_eq nth_zip_mut)

lemma unat_locator_mid:
  "l \<le> r \<Longrightarrow> unat (locator_mid l r) = unat l + (unat r - unat l) div 2 ^ 48"
proof -
  assume le: "l \<le> r"
  have "(unat r - unat l) div 2 ^ 48 \<le> unat r - unat l" by (rule div_le_dividend)
  with le have "unat l + (unat r - unat l) div 2 ^ 48 \<le> unat r"
    by (simp add: word_le_nat_alt)
  then have "unat l + (unat r - unat l) div 2 ^ 48 < 2 ^ 64"
    using unat_less_power [of r] by simp
  moreover have "unat (drop_bit 48 (saturating_sub r l)) = (unat r - unat l) div 2 ^ 48"
    using le by (simp add: saturating_sub_def unat_drop_bit_eq unat_sub not_less drop_bit_nat_def)
  ultimately show ?thesis
    by (simp add: locator_mid_def unat_word_ariths)
qed

lemma locator_mid_ge: "l \<le> locator_mid l r"
proof (cases "l \<le> r")
  case True
  then show ?thesis by (simp add: word_le_nat_alt unat_locator_mid)
next
  case False
  then show ?thesis by (simp add: locator_mid_def saturating_sub_def)
qed

lemma locator_mid_less:
  assumes "l < r"
  shows "locator_mid l r < r"
proof -
  from assms have "unat l < unat r" by (simp add: word_less_nat_alt)
  then have "(unat r - unat l) div 2 ^ 48 < unat r - unat l"
    by (intro div_less_dividend) simp_all
  with assms \<open>unat l < unat r\<close> show ?thesis
    unfolding word_less_nat_alt [of "locator_mid l r"] by (subst unat_locator_mid) simp_all
qed

lemma locator_mid_same [simp]: "locator_mid l l = l"
  by (simp add: locator_mid_def saturating_sub_def)

section \<open>Between\<close>

text \<open>A locator is valid as a right neighbour when its last digit is not 0; every locator
  \<^verbatim>\<open>between\<close> makes is valid, and so is \<^verbatim>\<open>Locator::max()\<close>.\<close>

definition locator_valid :: "locator \<Rightarrow> bool" where
  "locator_valid r = (r \<noteq> [] \<and> last r \<noteq> 0)"

lemma between_stop:
  "digit_or 0 lhs < locator_mid (digit_or 0 lhs) (digit_or (- 1) rhs)
    \<Longrightarrow> between lhs rhs = [locator_mid (digit_or 0 lhs) (digit_or (- 1) rhs)]"
  by (subst between.simps) (simp add: Let_def)

lemma between_step:
  assumes "\<not> digit_or 0 lhs < locator_mid (digit_or 0 lhs) (digit_or (- 1) rhs)"
  shows "between lhs rhs = digit_or 0 lhs # between (tl lhs) (tl rhs)"
    and "lhs \<noteq> [] \<or> rhs \<noteq> []"
proof -
  have "locator_mid (digit_or 0 lhs) (digit_or (- 1) rhs) = digit_or 0 lhs"
    using assms locator_mid_ge by (metis order_le_less)
  then show "between lhs rhs = digit_or 0 lhs # between (tl lhs) (tl rhs)"
    by (subst between.simps) (simp add: Let_def)
  show "lhs \<noteq> [] \<or> rhs \<noteq> []"
    using assms locator_mid_exhausted by (auto simp: digit_or_def)
qed

lemma between_nonempty [simp]: "between lhs rhs \<noteq> []"
  by (subst between.simps) (simp add: Let_def)

lemma between_induct [case_names stop step]:
  assumes "\<And>lhs rhs. digit_or 0 lhs < locator_mid (digit_or 0 lhs) (digit_or (- 1) rhs) \<Longrightarrow> P lhs rhs"
    and "\<And>lhs rhs. \<not> digit_or 0 lhs < locator_mid (digit_or 0 lhs) (digit_or (- 1) rhs)
      \<Longrightarrow> P (tl lhs) (tl rhs) \<Longrightarrow> P lhs rhs"
  shows "P lhs rhs"
  by (rule between.induct) (use assms in blast)

lemma between_greater: "lhs < between lhs rhs"
proof (induction lhs rhs rule: between_induct)
  case (stop lhs rhs)
  then show ?case by (cases lhs) (auto simp: between_stop digit_or_def)
next
  case (step lhs rhs)
  then show ?case by (cases lhs) (auto simp: between_step(1) digit_or_def)
qed

lemma locator_valid_Cons [simp]:
  "locator_valid (y # ys) \<longleftrightarrow> (if ys = [] then y \<noteq> 0 else locator_valid ys)"
  by (simp add: locator_valid_def)

lemma between_less: "lhs < rhs \<Longrightarrow> locator_valid rhs \<Longrightarrow> between lhs rhs < rhs"
proof (induction lhs rhs rule: between_induct)
  case (stop lhs rhs)
  then obtain r rs where rhs: "rhs = r # rs" by (cases rhs) auto
  have "digit_or 0 lhs \<noteq> r" using stop.hyps by (auto simp: rhs digit_or_def)
  moreover have "digit_or 0 lhs \<le> r"
    using stop.prems rhs by (cases lhs) (auto simp: digit_or_def)
  ultimately have "locator_mid (digit_or 0 lhs) r < r" by (intro locator_mid_less) simp
  with stop.hyps show ?case by (simp add: between_stop rhs digit_or_def)
next
  case (step lhs rhs)
  then obtain r rs where rhs: "rhs = r # rs" by (cases rhs) auto
  have "digit_or 0 lhs < r \<or> digit_or 0 lhs = r \<and> tl lhs < rs \<and> locator_valid rs"
    using step.prems rhs
    by (cases lhs; cases rs) (auto simp: digit_or_def word_gt_0 split: if_splits)
  with step.IH step.hyps show ?case by (auto simp: between_step(1) rhs)
qed

lemma between_valid: "locator_valid (between lhs rhs)"
proof (induction lhs rhs rule: between_induct)
  case (stop lhs rhs)
  then show ?case by (auto simp: between_stop)
next
  case (step lhs rhs)
  then show ?case by (simp add: between_step(1))
qed

lemma locator_valid_max: "locator_valid locator_max"
  by (simp add: locator_max_def)

lemma between_length: "length (between lhs rhs) \<le> Suc (max (length lhs) (length rhs))"
proof (induction lhs rhs rule: between_induct)
  case (stop lhs rhs)
  then show ?case by (simp add: between_stop)
next
  case (step lhs rhs)
  have "Suc (max (length (tl lhs)) (length (tl rhs))) \<le> max (length lhs) (length rhs)"
    using between_step(2) [OF step.hyps] by (cases lhs; cases rhs) auto
  with step.IH show ?case unfolding between_step(1) [OF step.hyps] by simp
qed

text \<open>Sequential typing keeps locators at one digit while 2^48 values are left on the right.\<close>

lemma between_single:
  assumes "unat l + 2 ^ 48 \<le> unat r"
  shows "length (between [l] [r]) = 1"
proof -
  have "2 ^ 48 \<le> unat r - unat l" using assms by simp
  then have "0 < (unat r - unat l) div 2 ^ 48" by (simp only: div_greater_zero_iff) simp
  moreover have "l \<le> r" using assms by (simp add: word_le_nat_alt)
  ultimately have "l < locator_mid l r"
    unfolding word_less_nat_alt by (subst unat_locator_mid) simp_all
  then show ?thesis by (simp add: between_stop digit_or_def)
qed

section \<open>Dense identifiers\<close>

text \<open>What the fragment builders rely on.  \<open>chain\<close> is the sequence of identifiers they hand out
  when they insert several fragments before the same right neighbour.\<close>

locale dense_ids =
  fixes mid :: "'i::linorder \<Rightarrow> 'i \<Rightarrow> 'i"
    and valid :: "'i \<Rightarrow> bool"
  assumes mid_greater: "a < mid a b"
    and mid_less: "a < b \<Longrightarrow> valid b \<Longrightarrow> mid a b < b"
    and mid_valid: "valid (mid a b)"
begin

fun chain :: "nat \<Rightarrow> 'i \<Rightarrow> 'i \<Rightarrow> 'i list" where
  "chain 0 a b = []"
| "chain (Suc n) a b = mid a b # chain n (mid a b) b"

lemma chain_greater: "x \<in> set (chain n a b) \<Longrightarrow> a < x"
  by (induction n arbitrary: a) (auto intro: mid_greater less_trans [OF mid_greater])

lemma chain_less: "a < b \<Longrightarrow> valid b \<Longrightarrow> x \<in> set (chain n a b) \<Longrightarrow> x < b"
  by (induction n arbitrary: a) (auto intro: mid_less)

lemma chain_sorted: "sorted_wrt (<) (chain n a b)"
  by (induction n arbitrary: a) (auto dest: chain_greater)

lemma chain_valid: "x \<in> set (chain n a b) \<Longrightarrow> valid x"
  by (induction n arbitrary: a) (auto intro: mid_valid)

end

interpretation loc: dense_ids between locator_valid
  by unfold_locales (auto intro: between_greater between_less between_valid)

end
