(* ===== verification/Points.thy ===== *)
theory Points
  imports Prelude
begin

text \<open>
  Positions in a text: \<^verbatim>\<open>crates/rope/src/point.rs\<close>, \<^verbatim>\<open>point_utf16.rs\<close>, \<^verbatim>\<open>offset_utf16.rs\<close> and
  \<^verbatim>\<open>unclipped.rs\<close>.  \<^verbatim>\<open>Point\<close> and \<^verbatim>\<open>PointUtf16\<close> are the same code over two units of the column, so
  they are one record here, with two type synonyms.  Rows and columns are 32-bit words and wrap.
  A \<^verbatim>\<open>str\<close> is the list of its bytes (\<open>char\<close> is an 8-bit character), so lengths are byte lengths.

  The lemmas show that the packed 64-bit comparison is the lexicographic order, that addition is
  what concatenation of texts does to extents, and that subtraction undoes it.
\<close>

section \<open>Points\<close>

record point =
  row :: "32 word"
  column :: "32 word"

type_synonym point_utf16 = point

definition point_new :: "32 word \<Rightarrow> 32 word \<Rightarrow> point" where
  "point_new r c = \<lparr>row = r, column = c\<rparr>"

definition point_MAX :: point where
  "point_MAX = \<lparr>row = - 1, column = - 1\<rparr>"

definition row_range :: "32 word \<times> 32 word \<Rightarrow> point \<times> point" where
  "row_range r = (\<lparr>row = fst r, column = 0\<rparr>, \<lparr>row = snd r, column = 0\<rparr>)"

definition point_zero :: point where
  "point_zero = point_new 0 0"

text \<open>\<^verbatim>\<open>str::split\<close> on a newline: always at least one piece.\<close>

fun split_lines :: "char list \<Rightarrow> char list list" where
  "split_lines [] = [[]]"
| "split_lines (ch # s) =
     (if ch = CHR 0x0A then [] # split_lines s
      else (case split_lines s of l # ls \<Rightarrow> (ch # l) # ls | [] \<Rightarrow> [[ch]]))"

fun parse_lines :: "nat \<Rightarrow> char list list \<Rightarrow> point \<Rightarrow> point" where
  "parse_lines r [] p = p"
| "parse_lines r (l # ls) p = parse_lines (r + 1) ls \<lparr>row = of_nat r, column = of_nat (length l)\<rparr>"

definition parse_str :: "char list \<Rightarrow> point" where
  "parse_str s = parse_lines 0 (split_lines s) point_zero"

definition is_zero :: "point \<Rightarrow> bool" where
  "is_zero p = (row p = 0 \<and> column p = 0)"

definition point_packed :: "point \<Rightarrow> 64 word" where
  "point_packed p = push_bit 32 (ucast (row p)) OR ucast (column p)"

definition point_cmp :: "point \<Rightarrow> point \<Rightarrow> cmp_ordering" where
  "point_cmp p q = cmp (point_packed p) (point_packed q)"

text \<open>The comparison of a 32-bit target.\<close>

definition point_cmp_32 :: "point \<Rightarrow> point \<Rightarrow> cmp_ordering" where
  "point_cmp_32 p q = (case cmp (row p) (row q) of Equal \<Rightarrow> cmp (column p) (column q) | comparison \<Rightarrow> comparison)"

definition point_add :: "point \<Rightarrow> point \<Rightarrow> point" where
  "point_add p q =
     (if row q = 0 then point_new (row p) (column p + column q)
      else point_new (row p + row q) (column q))"

definition point_add_assign :: "point \<Rightarrow> point \<Rightarrow> point" where
  "point_add_assign p q =
     (if row q = 0 then p\<lparr>column := column p + column q\<rparr>
      else p\<lparr>row := row p + row q, column := column q\<rparr>)"

text \<open>The \<^verbatim>\<open>debug_assert\<close> of \<^verbatim>\<open>sub\<close> is not part of a release build, where the subtraction wraps.\<close>

definition point_sub :: "point \<Rightarrow> point \<Rightarrow> point" where
  "point_sub p q =
     (if row p = row q then point_new 0 (column p - column q)
      else point_new (row p - row q) (column p))"

definition point_saturating_sub :: "point \<Rightarrow> point \<Rightarrow> point" where
  "point_saturating_sub p q = (if point_cmp p q = Less then point_zero else point_sub p q)"

section \<open>Order\<close>

instantiation point_ext :: (linorder) linorder
begin

definition less_point_ext :: "'a point_scheme \<Rightarrow> 'a point_scheme \<Rightarrow> bool" where
  "less_point_ext p q = (row p < row q \<or> row p = row q \<and> (column p < column q
     \<or> column p = column q \<and> point.more p < point.more q))"

definition less_eq_point_ext :: "'a point_scheme \<Rightarrow> 'a point_scheme \<Rightarrow> bool" where
  "less_eq_point_ext p q = (row p < row q \<or> row p = row q \<and> (column p < column q
     \<or> column p = column q \<and> point.more p \<le> point.more q))"

instance
  by standard (auto simp: less_point_ext_def less_eq_point_ext_def)

end

lemma point_less_iff: "(p :: point) < q \<longleftrightarrow> row p < row q \<or> row p = row q \<and> column p < column q"
  by (simp add: less_point_ext_def)

lemma point_le_iff: "(p :: point) \<le> q \<longleftrightarrow> row p < row q \<or> row p = row q \<and> column p \<le> column q"
  by (auto simp: less_eq_point_ext_def)

lemma unat_point_packed: "unat (point_packed p) = unat (row p) * 2 ^ 32 + unat (column p)"
  unfolding point_packed_def by (rule unat_pack_u64) simp

lemma point_packed_less: "point_packed p < point_packed q \<longleftrightarrow> p < q"
proof -
  have "unat (column p) < 2 ^ 32" "unat (column q) < 2 ^ 32"
    using unat_less_power [of "column p"] unat_less_power [of "column q"] by simp_all
  then have "point_packed p < point_packed q \<longleftrightarrow>
      unat (row p) < unat (row q) \<or> unat (row p) = unat (row q) \<and> unat (column p) < unat (column q)"
    unfolding word_less_nat_alt unat_point_packed by (rule pack_less_iff)
  then show ?thesis by (simp add: point_less_iff word_less_nat_alt word_unat_eq_iff)
qed

lemma point_cmp_eq: "point_cmp p q = cmp p q"
proof -
  have "point_packed p = point_packed q \<longleftrightarrow> p = q"
    using point_packed_less [of p q] point_packed_less [of q p] by (metis less_irrefl neqE)
  then show ?thesis by (simp add: point_cmp_def cmp_def point_packed_less)
qed

lemma point_cmp_32_eq: "point_cmp_32 p q = cmp p q"
  by (cases p; cases q) (auto simp: point_cmp_32_def cmp_def point_less_iff)

section \<open>Arithmetic\<close>

lemma point_new_sel [simp]: "row (point_new r c) = r" "column (point_new r c) = c"
  by (simp_all add: point_new_def)

lemma point_add_assign_eq: "point_add_assign p q = point_add p q"
  by (cases p) (simp add: point_add_assign_def point_add_def point_new_def)

lemma point_add_zero [simp]: "point_add p point_zero = p" "point_add point_zero p = p"
  by (cases p; simp add: point_add_def point_zero_def point_new_def)+

lemma word_add_eq_0_iff:
  assumes "unat (a :: 'a::len word) + unat b < 2 ^ LENGTH('a)"
  shows "a + b = 0 \<longleftrightarrow> a = 0 \<and> b = 0"
proof -
  have "unat (a + b) = unat a + unat b"
    using assms by (simp add: unat_word_ariths)
  then show ?thesis by (metis add_is_0 unat_eq_zero)
qed

lemma point_add_assoc:
  assumes "unat (row q) + unat (row r) < 2 ^ 32"
  shows "point_add (point_add p q) r = point_add p (point_add q r)"
proof -
  have "row q + row r = 0 \<longleftrightarrow> row q = 0 \<and> row r = 0"
    using assms by (intro word_add_eq_0_iff) simp
  then show ?thesis by (auto simp: point_add_def)
qed

lemma point_sub_add:
  assumes "q \<le> p"
  shows "point_add q (point_sub p q) = p"
  using assms by (cases p; cases q) (auto simp: point_add_def point_sub_def point_new_def)

lemma point_add_sub: "point_sub (point_add p q) p = q"
  by (cases q) (auto simp: point_add_def point_sub_def point_new_def)

lemma saturating_sub_add:
  "point_add q (point_saturating_sub p q) = max p q"
  by (auto simp: point_saturating_sub_def point_cmp_eq point_sub_add max_def)

section \<open>Points of texts\<close>

lemma split_lines_nonempty [simp]: "split_lines s \<noteq> []"
  by (cases s) (auto split: list.splits)

lemma parse_lines_last:
  "ls \<noteq> [] \<Longrightarrow> parse_lines r ls p = \<lparr>row = of_nat (r + length ls - 1), column = of_nat (length (last ls))\<rparr>"
  by (induction r ls p rule: parse_lines.induct) (auto simp: neq_Nil_conv)

lemma length_split_lines: "length (split_lines s) = count_list s (CHR 0x0A) + 1"
  by (induction s) (auto split: list.splits)

lemma parse_str_eq:
  "parse_str s = \<lparr>row = of_nat (count_list s (CHR 0x0A)), column = of_nat (length (last (split_lines s)))\<rparr>"
  by (simp add: parse_str_def parse_lines_last length_split_lines del: of_nat_add)

lemma split_lines_last_append:
  "last (split_lines (s @ t)) =
     (if CHR 0x0A \<in> set t then last (split_lines t) else last (split_lines s) @ t)"
proof (induction s)
  case Nil
  have "CHR 0x0A \<notin> set t \<Longrightarrow> split_lines t = [t]" by (induction t) auto
  then show ?case by simp
next
  case (Cons ch s)
  obtain l ls where l: "split_lines (s @ t) = l # ls" by (cases "split_lines (s @ t)") auto
  obtain k ks where k: "split_lines s = k # ks" by (cases "split_lines s") auto
  have len: "length ls = length ks + count_list t (CHR 0x0A)"
    using length_split_lines [of "s @ t"] length_split_lines [of s] l k by simp
  have cnt: "count_list t (CHR 0x0A) = 0 \<longleftrightarrow> CHR 0x0A \<notin> set t" by (simp add: count_list_0_iff)
  have ht: "ls = [] \<Longrightarrow> ks = [] \<and> CHR 0x0A \<notin> set t" using len cnt by auto
  show ?case
  proof (cases "ks = [] \<and> ls \<noteq> []")
    case True
    then have "CHR 0x0A \<in> set t" using len cnt by auto
    with True Cons l k show ?thesis by auto
  next
    case False
    with ht Cons l k show ?thesis by auto
  qed
qed

text \<open>The point of a concatenation is the sum of the points, as long as the rows of the right part
  fit the row counter.\<close>

lemma parse_str_append:
  assumes "count_list t (CHR 0x0A) < 2 ^ 32"
  shows "parse_str (s @ t) = point_add (parse_str s) (parse_str t)"
proof -
  have "(of_nat (count_list t (CHR 0x0A)) :: 32 word) = 0 \<longleftrightarrow> count_list t (CHR 0x0A) = 0"
    using assms by (simp add: word_of_nat_eq_0_iff dvd_imp_le)
      (metis dvd_imp_le gr_zeroI not_le dvd_0_right)
  moreover have "count_list t (CHR 0x0A) = 0 \<longleftrightarrow> CHR 0x0A \<notin> set t" by (simp add: count_list_0_iff)
  moreover have "CHR 0x0A \<notin> set t \<Longrightarrow> split_lines t = [t]" by (induction t) auto
  ultimately show ?thesis
    by (auto simp: parse_str_eq point_add_def point_new_def split_lines_last_append)
qed

section \<open>UTF-16 offsets and unclipped positions\<close>

datatype offset_utf16 = OffsetUtf16 (the_offset: nat)

definition offset_utf16_add :: "offset_utf16 \<Rightarrow> offset_utf16 \<Rightarrow> offset_utf16" where
  "offset_utf16_add a b = OffsetUtf16 (the_offset a + the_offset b)"

definition offset_utf16_sub :: "offset_utf16 \<Rightarrow> offset_utf16 \<Rightarrow> offset_utf16 option" where
  "offset_utf16_sub a b = map_option OffsetUtf16 (usize_sub (the_offset a) (the_offset b))"

datatype 'a unclipped = Unclipped (clip_of: 'a)

definition unclipped_add :: "('a \<Rightarrow> 'a \<Rightarrow> 'a) \<Rightarrow> 'a unclipped \<Rightarrow> 'a unclipped \<Rightarrow> 'a unclipped" where
  "unclipped_add plus_op a b = Unclipped (plus_op (clip_of a) (clip_of b))"

definition unclipped_sub :: "('a \<Rightarrow> 'a \<Rightarrow> 'a) \<Rightarrow> 'a unclipped \<Rightarrow> 'a unclipped \<Rightarrow> 'a unclipped" where
  "unclipped_sub minus_op a b = Unclipped (minus_op (clip_of a) (clip_of b))"

lemma offset_utf16_add_sub: "offset_utf16_sub (offset_utf16_add a b) a = Some b"
  by (cases a; cases b) (simp add: offset_utf16_sub_def offset_utf16_add_def)

end
