(* ===== verification/Selection.thy ===== *)
theory Selection
  imports Prelude
begin

text \<open>
  \<^verbatim>\<open>crates/text/src/selection.rs\<close>: a selection is a range of positions with a direction.  Every
  operation that sets one of its ends keeps \<open>start \<le> end\<close>, except \<^verbatim>\<open>swap_head_tail\<close>, whose behaviour
  is stated as it is in the code.
\<close>

section \<open>Operations\<close>

text \<open>Floating-point payloads are never inspected; their types are parameters.\<close>

datatype ('f64, 'f32) selection_goal =
    NoGoal
  | HorizontalPosition 'f64
  | HorizontalRange 'f64 'f64
  | WrappedHorizontalPosition "32 word" 'f32

record ('t, 'g) selection =
  sel_id :: nat
  sel_start :: 't
  sel_end :: 't
  reversed :: bool
  goal :: 'g

definition head :: "('t, 'g) selection \<Rightarrow> 't" where
  "head s = (if reversed s then sel_start s else sel_end s)"

definition tail :: "('t, 'g) selection \<Rightarrow> 't" where
  "tail s = (if reversed s then sel_end s else sel_start s)"

definition selection_map :: "('t \<Rightarrow> 's) \<Rightarrow> ('t, 'g) selection \<Rightarrow> ('s, 'g) selection" where
  "selection_map f s =
     \<lparr>sel_id = sel_id s, sel_start = f (sel_start s), sel_end = f (sel_end s), reversed = reversed s, goal = goal s\<rparr>"

definition collapse_to :: "'t \<Rightarrow> 'g \<Rightarrow> ('t, 'g) selection \<Rightarrow> ('t, 'g) selection" where
  "collapse_to p new_goal s = s\<lparr>sel_start := p, sel_end := p, goal := new_goal, reversed := False\<rparr>"

definition selection_is_empty :: "('t, 'g) selection \<Rightarrow> bool" where
  "selection_is_empty s = (sel_start s = sel_end s)"

definition set_head :: "'t::linorder \<Rightarrow> 'g \<Rightarrow> ('t, 'g) selection \<Rightarrow> ('t, 'g) selection" where
  "set_head h new_goal s =
     (let s' =
        (if cmp h (tail s) = Less then
           (let s = (if \<not> reversed s then s\<lparr>sel_end := sel_start s, reversed := True\<rparr> else s)
            in s\<lparr>sel_start := h\<rparr>)
         else
           (let s = (if reversed s then s\<lparr>sel_start := sel_end s, reversed := False\<rparr> else s)
            in s\<lparr>sel_end := h\<rparr>))
      in s'\<lparr>goal := new_goal\<rparr>)"

definition set_tail :: "'t::linorder \<Rightarrow> 'g \<Rightarrow> ('t, 'g) selection \<Rightarrow> ('t, 'g) selection" where
  "set_tail t new_goal s =
     (let s' =
        (if cmp t (head s) \<noteq> Greater then
           (let s = (if reversed s then s\<lparr>sel_end := sel_start s, reversed := False\<rparr> else s)
            in s\<lparr>sel_start := t\<rparr>)
         else
           (let s = (if \<not> reversed s then s\<lparr>sel_start := sel_end s, reversed := True\<rparr> else s)
            in s\<lparr>sel_end := t\<rparr>))
      in s'\<lparr>goal := new_goal\<rparr>)"

definition set_head_tail :: "'t::linorder \<Rightarrow> 't \<Rightarrow> 'g \<Rightarrow> ('t, 'g) selection \<Rightarrow> ('t, 'g) selection" where
  "set_head_tail h t new_goal s =
     (let s' = (if h < t then s\<lparr>reversed := True, sel_start := h, sel_end := t\<rparr>
                else s\<lparr>reversed := False, sel_start := t, sel_end := h\<rparr>)
      in s'\<lparr>goal := new_goal\<rparr>)"

definition swap_head_tail :: "('t, 'g) selection \<Rightarrow> ('t, 'g) selection" where
  "swap_head_tail s =
     (if reversed s then s\<lparr>reversed := False\<rparr>
      else s\<lparr>sel_start := sel_end s, sel_end := sel_start s\<rparr>)"

definition selection_range :: "('t, 'g) selection \<Rightarrow> 't \<times> 't" where
  "selection_range s = (sel_start s, sel_end s)"

definition selection_equals :: "'t \<times> 't \<Rightarrow> ('t, 'g) selection \<Rightarrow> bool" where
  "selection_equals r s = (sel_start s = fst r \<and> sel_end s = snd r)"

definition selection_len :: "(nat, 'g) selection \<Rightarrow> nat option" where
  "selection_len s = usize_sub (sel_end s) (sel_start s)"

section \<open>Properties\<close>

definition selection_wf :: "('t::linorder, 'g) selection \<Rightarrow> bool" where
  "selection_wf s = (sel_start s \<le> sel_end s)"

lemma set_head_ok:
  assumes "selection_wf s"
  shows "selection_wf (set_head h g s)" "head (set_head h g s) = h" "tail (set_head h g s) = tail s"
    "goal (set_head h g s) = g" "sel_id (set_head h g s) = sel_id s"
  using assms by (auto simp: set_head_def head_def tail_def selection_wf_def Let_def)

lemma set_tail_ok:
  assumes "selection_wf s"
  shows "selection_wf (set_tail t g s)" "tail (set_tail t g s) = t" "head (set_tail t g s) = head s"
    "goal (set_tail t g s) = g" "sel_id (set_tail t g s) = sel_id s"
  using assms by (auto simp: set_tail_def head_def tail_def selection_wf_def Let_def)

lemma set_head_tail_ok:
  "selection_wf (set_head_tail h t g s)" "head (set_head_tail h t g s) = h" "tail (set_head_tail h t g s) = t"
  "goal (set_head_tail h t g s) = g" "sel_id (set_head_tail h t g s) = sel_id s"
  by (auto simp: set_head_tail_def head_def tail_def selection_wf_def Let_def)

lemma collapse_to_ok:
  "selection_wf (collapse_to p g s)" "head (collapse_to p g s) = p" "tail (collapse_to p g s) = p"
  "selection_is_empty (collapse_to p g s)"
  by (auto simp: collapse_to_def head_def tail_def selection_wf_def selection_is_empty_def)

lemma selection_map_ok:
  assumes "mono f"
  shows "selection_wf s \<Longrightarrow> selection_wf (selection_map f s)"
    and "head (selection_map f s) = f (head s)" "tail (selection_map f s) = f (tail s)"
  using assms by (auto simp: selection_map_def head_def tail_def selection_wf_def mono_def)

text \<open>Head and tail are exchanged for every selection, but a non-empty forward selection ends up
  with \<open>end < start\<close>.\<close>

lemma swap_head_tail_swaps:
  "head (swap_head_tail s) = tail s" "tail (swap_head_tail s) = head s"
  by (auto simp: swap_head_tail_def head_def tail_def)

lemma swap_head_tail_breaks_wf:
  assumes "selection_wf s"
  shows "selection_wf (swap_head_tail s) \<longleftrightarrow> reversed s \<or> selection_is_empty s"
  using assms by (auto simp: swap_head_tail_def selection_wf_def selection_is_empty_def)

lemma selection_len_ok: "selection_wf s \<Longrightarrow> selection_len s = Some (sel_end s - sel_start s)"
  by (simp add: selection_len_def selection_wf_def)

end
