(* ===== verification/LineEnding.thy ===== *)
theory LineEnding
  imports Points
begin

text \<open>
  Line endings and indentation of \<^verbatim>\<open>crates/text/src/text.rs\<close>: \<^verbatim>\<open>LineEnding\<close> (detection, normalisation,
  writing a buffer out with its own line ending) and \<^verbatim>\<open>LineIndent\<close>.  A \<^verbatim>\<open>str\<close> is the list of its UTF-8
  bytes.  The \<^verbatim>\<open>regex\<close> crate is a parameter: \<open>replace_all\<close> is the call
  \<^verbatim>\<open>LINE_SEPARATORS_REGEX.replace_all(text, "\n")\<close>, and \<open>replaces_line_separators\<close> is its documented
  behaviour on the pattern \<^verbatim>\<open>\r\n|\r\<close>: leftmost, non-overlapping matches, the first alternative
  preferred, and the borrowed input when there is no match.

  The lemmas show that normalising leaves no carriage return, is idempotent and distributes over
  concatenation except across a split \<^verbatim>\<open>\r\n\<close>, and that a normalised text written with either line
  ending, however it is chunked, is read back unchanged.
\<close>

abbreviation LF :: char where "LF \<equiv> CHR 0x0A"
abbreviation CR :: char where "CR \<equiv> CHR 0x0D"

section \<open>Bytes of a string\<close>

text \<open>\<^verbatim>\<open>str::is_char_boundary\<close>: a continuation byte is \<^verbatim>\<open>0b10xxxxxx\<close>.\<close>

definition is_continuation :: "char \<Rightarrow> bool" where
  "is_continuation b = (0x80 \<le> (of_char b :: nat) \<and> (of_char b :: nat) < 0xC0)"

definition is_char_boundary :: "char list \<Rightarrow> nat \<Rightarrow> bool" where
  "is_char_boundary s ix =
     (ix = 0 \<or> ix = length s \<or> ix < length s \<and> \<not> is_continuation (s ! ix))"

fun back_to_boundary :: "char list \<Rightarrow> nat \<Rightarrow> nat" where
  "back_to_boundary s 0 = 0"
| "back_to_boundary s (Suc n) =
     (if is_char_boundary s (Suc n) then Suc n else back_to_boundary s n)"

text \<open>\<^verbatim>\<open>str::find\<close> of a one-byte character.\<close>

fun find_byte :: "char \<Rightarrow> char list \<Rightarrow> nat option" where
  "find_byte ch [] = None"
| "find_byte ch (b # s) = (if b = ch then Some 0 else map_option Suc (find_byte ch s))"

section \<open>Line endings\<close>

datatype line_ending = Unix | Windows

text \<open>The default of a unix build.\<close>

definition default_line_ending :: line_ending where
  "default_line_ending = Unix"

fun as_str :: "line_ending \<Rightarrow> char list" where
  "as_str Unix = [LF]"
| "as_str Windows = [CR, LF]"

fun line_ending_label :: "line_ending \<Rightarrow> char list" where
  "line_ending_label Unix = ''LF''"
| "line_ending_label Windows = ''CRLF''"

definition detect :: "char list \<Rightarrow> line_ending" where
  "detect text =
     (let max_ix = back_to_boundary text (min (length text) 1000) in
      case find_byte LF (take max_ix text) of
        Some ix \<Rightarrow> if ix > 0 \<and> text ! (ix - 1) = CR then Windows else Unix
      | None \<Rightarrow> default_line_ending)"

datatype cow = Borrowed | Owned "char list"

definition normalize :: "(char list \<Rightarrow> cow) \<Rightarrow> char list \<Rightarrow> char list" where
  "normalize replace_all text =
     (case replace_all text of Owned replaced \<Rightarrow> replaced | Borrowed \<Rightarrow> text)"

text \<open>What the regular expression is documented to do.\<close>

fun separators_to_newlines :: "char list \<Rightarrow> char list" where
  "separators_to_newlines [] = []"
| "separators_to_newlines (b # s) =
     (if b = CR
      then LF # (case s of LF' # s' \<Rightarrow> if LF' = LF then separators_to_newlines s' else separators_to_newlines s
                 | [] \<Rightarrow> [])
      else b # separators_to_newlines s)"

definition replaces_line_separators :: "(char list \<Rightarrow> cow) \<Rightarrow> bool" where
  "replaces_line_separators replace_all \<longleftrightarrow>
     (\<forall>s. replace_all s = (if CR \<in> set s then Owned (separators_to_newlines s) else Borrowed))"

text \<open>A concrete engine for this pattern, to run the model on.\<close>

definition scan_separators :: "char list \<Rightarrow> cow" where
  "scan_separators s = (if CR \<in> set s then Owned (separators_to_newlines s) else Borrowed)"

text \<open>\<^verbatim>\<open>str::lines\<close>: the pieces between newlines, without a trailing carriage return, and without a
  last empty piece.\<close>

definition strip_cr :: "char list \<Rightarrow> char list" where
  "strip_cr l = (if l \<noteq> [] \<and> last l = CR then butlast l else l)"

definition str_lines :: "char list \<Rightarrow> char list list" where
  "str_lines s =
     (let ls = split_lines s in
      if last ls = [] then map strip_cr (butlast ls) else map strip_cr (butlast ls) @ [last ls])"

text \<open>The closure of \<^verbatim>\<open>chunks_with_line_ending\<close>: \<open>newline\<close> is false for the first line of a chunk only.\<close>

fun lines_with_ending :: "line_ending \<Rightarrow> bool \<Rightarrow> char list list \<Rightarrow> char list list" where
  "lines_with_ending e newline [] = []"
| "lines_with_ending e newline (l # ls) =
     (if newline then [as_str e] else []) @ [l] @ lines_with_ending e True ls"

definition chunk_with_line_ending :: "line_ending \<Rightarrow> char list \<Rightarrow> char list list" where
  "chunk_with_line_ending e chunk =
     lines_with_ending e False (str_lines chunk)
     @ (if chunk \<noteq> [] \<and> last chunk = LF then [as_str e] else [])"

definition chunks_with_line_ending :: "line_ending \<Rightarrow> char list list \<Rightarrow> char list list" where
  "chunks_with_line_ending e chunks = concat (map (chunk_with_line_ending e) chunks)"

section \<open>Indentation of a line\<close>

record line_indent =
  tabs :: "32 word"
  spaces :: "32 word"
  line_blank :: bool

text \<open>The loop over the characters of one piece: the indentation so far, and whether the loop was
  left by \<^verbatim>\<open>break\<close>.\<close>

fun indent_chars :: "line_indent \<Rightarrow> char list \<Rightarrow> line_indent \<times> bool" where
  "indent_chars i [] = (i, False)"
| "indent_chars i (ch # s) =
     (if ch = CHR 0x09 then indent_chars (i\<lparr>tabs := tabs i + 1\<rparr>) s
      else if ch = CHR 0x20 then indent_chars (i\<lparr>spaces := spaces i + 1\<rparr>) s
      else (if ch \<noteq> LF then i\<lparr>line_blank := False\<rparr> else i, True))"

definition indent_new :: line_indent where
  "indent_new = \<lparr>tabs = 0, spaces = 0, line_blank = True\<rparr>"

text \<open>The remaining chunks are what the iterator is left with.\<close>

fun from_chunks :: "line_indent \<Rightarrow> char list list \<Rightarrow> line_indent \<times> char list list" where
  "from_chunks i [] = (i, [])"
| "from_chunks i (chunk # chunks) =
     (let (i', stop) = indent_chars i chunk in
      if stop then (i', chunk # chunks) else from_chunks i' chunks)"

definition line_indent_from_chunks :: "char list list \<Rightarrow> line_indent \<times> char list list" where
  "line_indent_from_chunks chunks = from_chunks indent_new chunks"

definition line_indent_from_iter :: "char list \<Rightarrow> line_indent" where
  "line_indent_from_iter s = fst (indent_chars indent_new s)"

definition line_indent_spaces :: "32 word \<Rightarrow> line_indent" where
  "line_indent_spaces n = \<lparr>tabs = 0, spaces = n, line_blank = True\<rparr>"

definition line_indent_tabs :: "32 word \<Rightarrow> line_indent" where
  "line_indent_tabs n = \<lparr>tabs = n, spaces = 0, line_blank = True\<rparr>"

definition is_line_empty :: "line_indent \<Rightarrow> bool" where
  "is_line_empty i = (tabs i = 0 \<and> spaces i = 0 \<and> line_blank i)"

definition is_line_blank :: "line_indent \<Rightarrow> bool" where
  "is_line_blank i = line_blank i"

definition raw_len :: "line_indent \<Rightarrow> 32 word" where
  "raw_len i = tabs i + spaces i"

definition line_indent_len :: "line_indent \<Rightarrow> 32 word \<Rightarrow> 32 word" where
  "line_indent_len i tab_size = tabs i * tab_size + spaces i"

text \<open>\<^verbatim>\<open>BufferSnapshot::is_line_blank\<close> tests all characters of the row with \<^verbatim>\<open>char::is_whitespace\<close>: the control characters
  from \<^verbatim>\<open>U+0009\<close> to \<^verbatim>\<open>U+000D\<close>, the space, \<^verbatim>\<open>U+0085\<close>, \<^verbatim>\<open>U+00A0\<close>, \<^verbatim>\<open>U+1680\<close>, \<^verbatim>\<open>U+2000\<close> to \<^verbatim>\<open>U+200A\<close>, \<^verbatim>\<open>U+2028\<close>, \<^verbatim>\<open>U+2029\<close>,
  \<^verbatim>\<open>U+202F\<close>, \<^verbatim>\<open>U+205F\<close> and \<^verbatim>\<open>U+3000\<close>, here by their UTF-8 bytes.  The chunks are those of the row.\<close>

definition is_ascii_whitespace :: "char \<Rightarrow> bool" where
  "is_ascii_whitespace b = (0x09 \<le> (of_char b :: nat) \<and> (of_char b :: nat) \<le> 0x0D \<or> b = CHR 0x20)"

fun is_whitespace_str :: "char list \<Rightarrow> bool" where
  "is_whitespace_str [] = True"
| "is_whitespace_str (b # s) =
     (if is_ascii_whitespace b then is_whitespace_str s
      else case s of
        b2 # s2 \<Rightarrow>
          if b = CHR 0xC2 \<and> b2 \<in> {CHR 0x85, CHR 0xA0} then is_whitespace_str s2
          else (case s2 of
            b3 # s3 \<Rightarrow>
              if b = CHR 0xE1 \<and> b2 = CHR 0x9A \<and> b3 = CHR 0x80
                \<or> b = CHR 0xE2 \<and> b2 = CHR 0x80 \<and> (0x80 \<le> (of_char b3 :: nat) \<and> (of_char b3 :: nat) \<le> 0x8A
                     \<or> b3 \<in> {CHR 0xA8, CHR 0xA9, CHR 0xAF})
                \<or> b = CHR 0xE2 \<and> b2 = CHR 0x81 \<and> b3 = CHR 0x9F
                \<or> b = CHR 0xE3 \<and> b2 = CHR 0x80 \<and> b3 = CHR 0x80
              then is_whitespace_str s3 else False
          | [] \<Rightarrow> False)
      | [] \<Rightarrow> False)"

definition snapshot_is_line_blank :: "char list list \<Rightarrow> bool" where
  "snapshot_is_line_blank chunks = list_all is_whitespace_str chunks"

section \<open>Normalisation\<close>

lemma replaces_scan_separators [simp]: "replaces_line_separators scan_separators"
  by (simp add: replaces_line_separators_def scan_separators_def)

lemma separators_id: "CR \<notin> set s \<Longrightarrow> separators_to_newlines s = s"
  by (induction s) auto

lemma separators_no_cr [simp]: "CR \<notin> set (separators_to_newlines s)"
  by (induction s rule: separators_to_newlines.induct) (auto split: list.splits)

lemma normalize_eq:
  "replaces_line_separators replace_all \<Longrightarrow> normalize replace_all s = separators_to_newlines s"
  by (simp add: replaces_line_separators_def normalize_def separators_id)

text \<open>The equations of the scan by its three shapes, and induction along it.\<close>

lemma separators_simps:
  "separators_to_newlines (CR # LF # s) = LF # separators_to_newlines s"
  "s = [] \<or> hd s \<noteq> LF \<Longrightarrow> separators_to_newlines (CR # s) = LF # separators_to_newlines s"
  "b \<noteq> CR \<Longrightarrow> separators_to_newlines (b # s) = b # separators_to_newlines s"
  by (auto simp: neq_Nil_conv split: list.splits)

lemma scan_cases [case_names Nil Crlf Cr Other]:
  assumes "s = [] \<Longrightarrow> P" "\<And>t. s = CR # LF # t \<Longrightarrow> P"
    "\<And>t. s = CR # t \<Longrightarrow> t = [] \<or> hd t \<noteq> LF \<Longrightarrow> P" "\<And>b t. s = b # t \<Longrightarrow> b \<noteq> CR \<Longrightarrow> P"
  shows P
  using assms by (metis list.collapse list.exhaust)

declare separators_to_newlines.simps(2) [simp del]
declare separators_simps [simp]

lemma length_separators: "length (separators_to_newlines s) \<le> length s"
proof (induction s rule: length_induct)
  case (1 s)
  then have IH: "length (separators_to_newlines t) \<le> length t" if "length t < length s" for t
    using that by simp
  show ?case
    by (cases s rule: scan_cases) (use IH in \<open>auto simp: le_SucI\<close>)
qed

lemma separators_append:
  assumes "s = [] \<or> t = [] \<or> last s \<noteq> CR \<or> hd t \<noteq> LF"
  shows "separators_to_newlines (s @ t) = separators_to_newlines s @ separators_to_newlines t"
  using assms
proof (induction s rule: length_induct)
  case (1 s)
  then have IH: "separators_to_newlines (r @ t) = separators_to_newlines r @ separators_to_newlines t"
    if "length r < length s" "r = [] \<or> last r = last s" for r
    using that by auto
  show ?case
  proof (cases s rule: scan_cases)
    case (Crlf r)
    then show ?thesis using IH [of r] by (cases r) auto
  next
    case (Cr r)
    have "r @ t = [] \<or> hd (r @ t) \<noteq> LF" using Cr 1 by (cases r) auto
    then show ?thesis using IH [of r] Cr by (cases r) auto
  next
    case (Other b r)
    then show ?thesis using IH [of r] by (cases r) auto
  qed simp
qed

section \<open>Writing out and reading back\<close>

definition with_ending :: "line_ending \<Rightarrow> char list \<Rightarrow> char list" where
  "with_ending e s = concat (map (\<lambda>b. if b = LF then as_str e else [b]) s)"

lemma with_ending_simps [simp]:
  "with_ending e [] = []"
  "with_ending e (b # s) = (if b = LF then as_str e else [b]) @ with_ending e s"
  "with_ending e (s @ t) = with_ending e s @ with_ending e t"
  by (simp_all add: with_ending_def)

lemma with_ending_concat: "with_ending e (concat cs) = concat (map (with_ending e) cs)"
  by (induction cs) auto

lemma with_ending_id: "LF \<notin> set s \<Longrightarrow> with_ending e s = s"
  by (induction s) auto

lemma split_lines_no_lf: "l \<in> set (split_lines s) \<Longrightarrow> LF \<notin> set l \<and> set l \<subseteq> set s"
proof (induction s arbitrary: l)
  case (Cons b s)
  then show ?case by (cases "split_lines s") (fastforce split: if_splits)+
qed simp

lemma lines_with_ending_True:
  "concat (lines_with_ending e True ls) = concat (map (\<lambda>l. as_str e @ l) ls)"
  by (induction ls) auto

lemma lines_with_ending_eq:
  "concat (lines_with_ending e False ls) =
     (case ls of [] \<Rightarrow> [] | l # ls \<Rightarrow> l @ concat (map (\<lambda>l. as_str e @ l) ls))"
  by (cases ls) (auto simp: lines_with_ending_True)

lemma with_ending_split:
  "with_ending e s = (case split_lines s of [] \<Rightarrow> [] | l # ls \<Rightarrow> l @ concat (map (\<lambda>l. as_str e @ l) ls))"
  by (induction s) (auto split: list.splits)

lemma last_split_lines: "last (split_lines s) = [] \<longleftrightarrow> s = [] \<or> last s = LF"
proof (induction s)
  case (Cons b s)
  then show ?case
    by (cases "split_lines s"; cases s) (auto split: if_splits list.splits)
qed simp

lemma chunk_with_ending:
  assumes "CR \<notin> set chunk"
  shows "concat (chunk_with_line_ending e chunk) = with_ending e chunk"
proof -
  have cr: "strip_cr l = l" if "l \<in> set (split_lines chunk)" for l
    using assms split_lines_no_lf [OF that] unfolding strip_cr_def by (metis last_in_set subsetD)
  have bl: "map strip_cr (butlast (split_lines chunk)) = butlast (split_lines chunk)"
    using cr by (auto intro!: map_idI dest: in_set_butlastD)
  obtain ls x where ls: "split_lines chunk = ls @ [x]"
    by (cases "split_lines chunk" rule: rev_cases) auto
  have lines: "str_lines chunk = (if x = [] then ls else ls @ [x])"
    using bl ls by (simp add: str_lines_def)
  have x: "x = [] \<longleftrightarrow> chunk = [] \<or> last chunk = LF" using last_split_lines [of chunk] ls by simp
  show ?thesis
    using x ls lines unfolding chunk_with_line_ending_def concat_append lines_with_ending_eq with_ending_split [of e chunk]
    by (cases ls; cases chunk) (auto split: if_splits list.splits)
qed

lemma chunks_with_ending:
  assumes "CR \<notin> set (concat chunks)"
  shows "concat (chunks_with_line_ending e chunks) = with_ending e (concat chunks)"
  using assms
  by (induction chunks) (auto simp: chunks_with_line_ending_def chunk_with_ending)

lemma separators_with_ending:
  "CR \<notin> set s \<Longrightarrow> separators_to_newlines (with_ending e s) = s"
  by (cases e; induction s) auto

section \<open>Detection\<close>

lemma find_byte_None [simp]: "find_byte b s = None \<longleftrightarrow> b \<notin> set s"
  by (induction s) auto

lemma find_byte_first: "b \<notin> set p \<Longrightarrow> find_byte b (p @ b # q) = Some (length p)"
  by (induction p) auto

lemma back_to_boundary_le: "back_to_boundary s n \<le> n"
  by (induction n) auto

lemma back_to_boundary_boundary: "n \<le> length s \<Longrightarrow> is_char_boundary s (back_to_boundary s n)"
  by (induction n) (auto simp: is_char_boundary_def)

text \<open>In a UTF-8 text no continuation byte follows a newline, so stepping back from the 1000-byte
  limit does not lose a newline that lies before it.\<close>

lemma back_to_boundary_past_lf:
  assumes "s = p @ LF # q" "q = [] \<or> \<not> is_continuation (hd q)" "length p < n" "n \<le> length s"
  shows "length p < back_to_boundary s n"
  using assms(3,4)
proof (induction n)
  case (Suc n)
  show ?case
  proof (cases "length p = n")
    case True
    have "q = [] \<or> s ! Suc n = hd q" using assms(1) True by (cases q) (auto simp: nth_append)
    then have "is_char_boundary s (Suc n)" using assms(1,2) True by (auto simp: is_char_boundary_def)
    then show ?thesis using True by simp
  next
    case False
    with Suc show ?thesis by simp
  qed
qed simp

lemma detect_eq:
  assumes "s = p @ LF # q" "LF \<notin> set p" "q = [] \<or> \<not> is_continuation (hd q)" "length p < 1000"
  shows "detect s = (if p \<noteq> [] \<and> last p = CR then Windows else Unix)"
proof -
  let ?m = "back_to_boundary s (min (length s) 1000)"
  have "length p < ?m" using assms by (intro back_to_boundary_past_lf) auto
  then obtain k where k: "?m = Suc (length p + k)" using less_imp_Suc_add by blast
  have "take ?m s = p @ LF # take k q" by (subst k) (simp add: assms(1))
  then have "find_byte LF (take ?m s) = Some (length p)" using assms(2) by (simp add: find_byte_first)
  then show ?thesis using assms(1)
    by (auto simp: detect_def Let_def nth_append last_conv_nth)
qed

lemma detect_with_ending:
  assumes "CR \<notin> set s" "s = p @ LF # q" "LF \<notin> set p" "q = [] \<or> \<not> is_continuation (hd q)" "length p < 999"
  shows "detect (with_ending e s) = e"
proof -
  let ?p = "p @ (if e = Windows then [CR] else [])"
  have "with_ending e s = ?p @ LF # with_ending e q"
    using assms(2,3) by (cases e) (auto simp: with_ending_id)
  moreover have "with_ending e q = [] \<or> \<not> is_continuation (hd (with_ending e q))"
    using assms(4) by (cases e; cases q) (auto simp: is_continuation_def)
  ultimately have "detect (with_ending e s) = (if ?p \<noteq> [] \<and> last ?p = CR then Windows else Unix)"
    using assms by (intro detect_eq) auto
  moreover have "p \<noteq> [] \<Longrightarrow> last p \<noteq> CR" using assms(1,2) by (metis UnI1 last_in_set set_append)
  ultimately show ?thesis by (cases e) auto
qed

section \<open>Indentation\<close>

lemma indent_chars_append:
  "indent_chars i (s @ t) = (let (j, stop) = indent_chars i s in if stop then (j, True) else indent_chars j t)"
  by (induction i s rule: indent_chars.induct) auto

text \<open>How the text is chunked does not matter.\<close>

lemma from_chunks_concat: "fst (from_chunks i chunks) = fst (indent_chars i (concat chunks))"
  by (induction i chunks rule: from_chunks.induct) (auto simp: indent_chars_append split: prod.splits)

definition is_indent :: "char \<Rightarrow> bool" where
  "is_indent ch = (ch = CHR 0x09 \<or> ch = CHR 0x20)"

lemma indent_chars_eq:
  "fst (indent_chars i s) =
     \<lparr>tabs = tabs i + of_nat (count_list (takeWhile is_indent s) (CHR 0x09)),
      spaces = spaces i + of_nat (count_list (takeWhile is_indent s) (CHR 0x20)),
      line_blank = (line_blank i \<and> (case dropWhile is_indent s of [] \<Rightarrow> True | ch # r \<Rightarrow> ch = LF))\<rparr>"
  by (induction i s rule: indent_chars.induct) (auto simp: is_indent_def)

lemma count_indent: "count_list (takeWhile is_indent s) (CHR 0x09) + count_list (takeWhile is_indent s) (CHR 0x20)
    = length (takeWhile is_indent s)"
  by (induction s) (auto simp: is_indent_def)

lemma raw_len_eq: "raw_len (line_indent_from_iter s) = of_nat (length (takeWhile is_indent s))"
  by (simp add: raw_len_def line_indent_from_iter_def indent_chars_eq indent_new_def flip: count_indent)

text \<open>The first line of a text.\<close>

lemma blank_first_line:
  "is_line_blank (line_indent_from_iter s) \<longleftrightarrow> list_all is_indent (hd (split_lines s))"
proof (induction s)
  case (Cons b s)
  then show ?case
    by (cases "split_lines s")
      (auto simp: is_line_blank_def line_indent_from_iter_def indent_chars_eq indent_new_def is_indent_def)
qed (simp add: is_line_blank_def line_indent_from_iter_def indent_new_def)

text \<open>The two notions of a blank line.  The first implies the second; they differ on the white space other than tabs and
  spaces.\<close>

lemma indent_whitespace: "list_all is_indent s \<Longrightarrow> is_whitespace_str s"
  by (induction s) (auto simp: is_indent_def is_ascii_whitespace_def)

lemma whitespace_not_blank:
  assumes "is_ascii_whitespace b" "\<not> is_indent b" "b \<noteq> LF"
  shows "snapshot_is_line_blank [[b]]" "\<not> is_line_blank (line_indent_from_iter [b])"
proof -
  show "snapshot_is_line_blank [[b]]" using assms(1) by (simp add: snapshot_is_line_blank_def)
  show "\<not> is_line_blank (line_indent_from_iter [b])"
    using assms(2,3) by (auto simp: is_line_blank_def line_indent_from_iter_def is_indent_def)
qed

end
