(* ===== verification/TextSummary.thy ===== *)
theory TextSummary
  imports Points
begin

text \<open>
  \<^verbatim>\<open>TextSummary\<close> of \<^verbatim>\<open>crates/rope/src/rope.rs\<close>: what the rope keeps of a piece of text, computed from a
  string by one pass over its characters, and combined by \<^verbatim>\<open>+=\<close> without looking at the text again.
  Here a \<^verbatim>\<open>str\<close> is the list of its code points; its byte length is the sum of \<^verbatim>\<open>char::len_utf8\<close>.

  The lemmas give each field its meaning on the list of rows of the text, show that adding summaries
  is concatenation of texts, and that the dimensions the rope seeks by (bytes, UTF-16 units, points)
  are homomorphic images of the summary.
\<close>

type_synonym code_point = nat

section \<open>Definitions\<close>

record text_summary =
  ts_len :: nat
  ts_chars :: nat
  ts_len_utf16 :: offset_utf16
  ts_lines :: point
  ts_first_line_chars :: "32 word"
  ts_last_line_chars :: "32 word"
  ts_last_line_len_utf16 :: "32 word"
  ts_longest_row :: "32 word"
  ts_longest_row_chars :: "32 word"

text \<open>\<^verbatim>\<open>Default\<close>.\<close>

definition text_summary_default :: text_summary where
  "text_summary_default =
     \<lparr>ts_len = 0, ts_chars = 0, ts_len_utf16 = OffsetUtf16 0, ts_lines = point_zero, ts_first_line_chars = 0,
      ts_last_line_chars = 0, ts_last_line_len_utf16 = 0, ts_longest_row = 0, ts_longest_row_chars = 0\<rparr>"

definition lines_utf16 :: "text_summary \<Rightarrow> point_utf16" where
  "lines_utf16 s = \<lparr>row = row (ts_lines s), column = ts_last_line_len_utf16 s\<rparr>"

definition text_summary_newline :: text_summary where
  "text_summary_newline =
     \<lparr>ts_len = 1, ts_chars = 1, ts_len_utf16 = OffsetUtf16 1, ts_lines = point_new 1 0, ts_first_line_chars = 0,
      ts_last_line_chars = 0, ts_last_line_len_utf16 = 0, ts_longest_row = 0, ts_longest_row_chars = 0\<rparr>"

definition add_newline :: "text_summary \<Rightarrow> text_summary" where
  "add_newline s = s
     \<lparr>ts_len := ts_len s + 1,
      ts_len_utf16 := offset_utf16_add (ts_len_utf16 s) (OffsetUtf16 (the_offset (ts_len_utf16 s) + 1)),
      ts_last_line_chars := 0,
      ts_last_line_len_utf16 := 0,
      ts_lines := point_add_assign (ts_lines s) (point_new 1 0)\<rparr>"

text \<open>\<^verbatim>\<open>char::len_utf8\<close> and \<^verbatim>\<open>char::len_utf16\<close>.\<close>

definition len_utf8 :: "code_point \<Rightarrow> nat" where
  "len_utf8 ch = (if ch < 0x80 then 1 else if ch < 0x800 then 2 else if ch < 0x10000 then 3 else 4)"

definition len_utf16 :: "code_point \<Rightarrow> nat" where
  "len_utf16 ch = (if ch < 0x10000 then 1 else 2)"

definition newline_char :: code_point where
  "newline_char = 10"

text \<open>One turn of the loop of \<^verbatim>\<open>From<&str>\<close>; \<open>ts_len\<close> is filled in at the end.\<close>

definition summary_step :: "text_summary \<Rightarrow> code_point \<Rightarrow> text_summary" where
  "summary_step s ch =
     (let s = s\<lparr>ts_chars := ts_chars s + 1, ts_len_utf16 := OffsetUtf16 (the_offset (ts_len_utf16 s) + len_utf16 ch)\<rparr>;
          s = (if ch = newline_char
               then s\<lparr>ts_lines := point_add_assign (ts_lines s) (point_new 1 0),
                      ts_last_line_len_utf16 := 0, ts_last_line_chars := 0\<rparr>
               else s\<lparr>ts_lines := (ts_lines s)\<lparr>column := column (ts_lines s) + of_nat (len_utf8 ch)\<rparr>,
                      ts_last_line_len_utf16 := ts_last_line_len_utf16 s + of_nat (len_utf16 ch),
                      ts_last_line_chars := ts_last_line_chars s + 1\<rparr>);
          s = (if row (ts_lines s) = 0 then s\<lparr>ts_first_line_chars := ts_last_line_chars s\<rparr> else s)
      in if ts_last_line_chars s > ts_longest_row_chars s
         then s\<lparr>ts_longest_row := row (ts_lines s), ts_longest_row_chars := ts_last_line_chars s\<rparr>
         else s)"

definition str_len :: "code_point list \<Rightarrow> nat" where
  "str_len text = sum_list (map len_utf8 text)"

definition text_summary_from :: "code_point list \<Rightarrow> text_summary" where
  "text_summary_from text = (foldl summary_step text_summary_default text)\<lparr>ts_len := str_len text\<rparr>"

definition text_summary_add :: "text_summary \<Rightarrow> text_summary \<Rightarrow> text_summary" where
  "text_summary_add self other =
     (let joined_chars = ts_last_line_chars self + ts_first_line_chars other;
          s = (if joined_chars > ts_longest_row_chars self
               then self\<lparr>ts_longest_row := row (ts_lines self), ts_longest_row_chars := joined_chars\<rparr> else self);
          s = (if ts_longest_row_chars other > ts_longest_row_chars s
               then s\<lparr>ts_longest_row := row (ts_lines s) + ts_longest_row other,
                      ts_longest_row_chars := ts_longest_row_chars other\<rparr> else s);
          s = (if row (ts_lines s) = 0
               then s\<lparr>ts_first_line_chars := ts_first_line_chars s + ts_first_line_chars other\<rparr> else s);
          s = (if row (ts_lines other) = 0
               then s\<lparr>ts_last_line_chars := ts_last_line_chars s + ts_first_line_chars other,
                      ts_last_line_len_utf16 := ts_last_line_len_utf16 s + ts_last_line_len_utf16 other\<rparr>
               else s\<lparr>ts_last_line_chars := ts_last_line_chars other,
                      ts_last_line_len_utf16 := ts_last_line_len_utf16 other\<rparr>)
      in s\<lparr>ts_chars := ts_chars s + ts_chars other, ts_len := ts_len s + ts_len other,
           ts_len_utf16 := offset_utf16_add (ts_len_utf16 s) (ts_len_utf16 other),
           ts_lines := point_add_assign (ts_lines s) (ts_lines other)\<rparr>)"

section \<open>Dimensions of a text\<close>

text \<open>The \<^verbatim>\<open>TextDimension\<close> instances: what a dimension reads off a summary, and its addition.  The
  \<^verbatim>\<open>Dimension<ChunkSummary>\<close> instances add the same reading of the chunk's text.\<close>

record 'd text_dimension =
  td_zero :: 'd
  td_from_text_summary :: "text_summary \<Rightarrow> 'd"
  td_add_assign :: "'d \<Rightarrow> 'd \<Rightarrow> 'd"

definition text_summary_dimension :: "text_summary text_dimension" where
  "text_summary_dimension =
     \<lparr>td_zero = text_summary_default, td_from_text_summary = (\<lambda>s. s), td_add_assign = text_summary_add\<rparr>"

definition usize_dimension :: "nat text_dimension" where
  "usize_dimension = \<lparr>td_zero = 0, td_from_text_summary = ts_len, td_add_assign = (+)\<rparr>"

definition offset_utf16_dimension :: "offset_utf16 text_dimension" where
  "offset_utf16_dimension =
     \<lparr>td_zero = OffsetUtf16 0, td_from_text_summary = ts_len_utf16, td_add_assign = offset_utf16_add\<rparr>"

definition point_dimension :: "point text_dimension" where
  "point_dimension = \<lparr>td_zero = point_zero, td_from_text_summary = ts_lines, td_add_assign = point_add_assign\<rparr>"

definition point_utf16_dimension :: "point_utf16 text_dimension" where
  "point_utf16_dimension =
     \<lparr>td_zero = point_zero, td_from_text_summary = lines_utf16, td_add_assign = point_add_assign\<rparr>"

definition pair_dimension :: "'a text_dimension \<Rightarrow> 'b text_dimension \<Rightarrow> ('a \<times> 'b) text_dimension" where
  "pair_dimension d1 d2 =
     \<lparr>td_zero = (td_zero d1, td_zero d2),
      td_from_text_summary = (\<lambda>s. (td_from_text_summary d1 s, td_from_text_summary d2 s)),
      td_add_assign = (\<lambda>a b. (td_add_assign d1 (fst a) (fst b), td_add_assign d2 (snd a) (snd b)))\<rparr>"

definition add_text_summary :: "'d text_dimension \<Rightarrow> 'd \<Rightarrow> text_summary \<Rightarrow> 'd" where
  "add_text_summary d x s = td_add_assign d x (td_from_text_summary d s)"

text \<open>\<^verbatim>\<open>DimensionPair\<close>: compared by its key only; a missing value stays missing.\<close>

record ('k, 'v) dimension_pair =
  pair_key :: 'k
  pair_value :: "'v option"

definition dimension_pair_cmp :: "('k::linorder, 'v) dimension_pair \<Rightarrow> ('k, 'v) dimension_pair \<Rightarrow> cmp_ordering" where
  "dimension_pair_cmp a b = cmp (pair_key a) (pair_key b)"

definition dimension_pair_sub ::
  "('k \<Rightarrow> 'k \<Rightarrow> 'k) \<Rightarrow> ('v \<Rightarrow> 'v \<Rightarrow> 'v) \<Rightarrow> ('k, 'v) dimension_pair \<Rightarrow> ('k, 'v) dimension_pair \<Rightarrow> ('k, 'v) dimension_pair" where
  "dimension_pair_sub sub_k sub_v a b =
     \<lparr>pair_key = sub_k (pair_key a) (pair_key b),
      pair_value = (case (pair_value a, pair_value b) of (Some x, Some y) \<Rightarrow> Some (sub_v x y) | _ \<Rightarrow> None)\<rparr>"

definition dimension_pair_add ::
  "('k \<Rightarrow> 'k \<Rightarrow> 'k) \<Rightarrow> ('v \<Rightarrow> 'v \<Rightarrow> 'v) \<Rightarrow> ('k, 'v) dimension_pair \<Rightarrow> ('k, 'v) dimension_pair \<Rightarrow> ('k, 'v) dimension_pair" where
  "dimension_pair_add add_k add_v a b =
     \<lparr>pair_key = add_k (pair_key a) (pair_key b),
      pair_value = (case pair_value a of
          Some x \<Rightarrow> (case pair_value b of Some y \<Rightarrow> Some (add_v x y) | None \<Rightarrow> None)
        | None \<Rightarrow> None)\<rparr>"

definition dimension_pair_dimension :: "'k text_dimension \<Rightarrow> 'v text_dimension \<Rightarrow> ('k, 'v) dimension_pair text_dimension" where
  "dimension_pair_dimension k v =
     \<lparr>td_zero = \<lparr>pair_key = td_zero k, pair_value = Some (td_zero v)\<rparr>,
      td_from_text_summary = (\<lambda>s. \<lparr>pair_key = td_from_text_summary k s, pair_value = Some (td_from_text_summary v s)\<rparr>),
      td_add_assign = dimension_pair_add (td_add_assign k) (td_add_assign v)\<rparr>"

section \<open>Rows of a text\<close>

text \<open>The specification: the rows between newlines, and the first row of maximal length.\<close>

fun text_rows :: "code_point list \<Rightarrow> code_point list list" where
  "text_rows [] = [[]]"
| "text_rows (ch # s) =
     (if ch = newline_char then [] # text_rows s
      else (case text_rows s of l # ls \<Rightarrow> (ch # l) # ls | [] \<Rightarrow> [[ch]]))"

fun first_max :: "nat list \<Rightarrow> nat \<times> nat" where
  "first_max [] = (0, 0)"
| "first_max (x # xs) = (let (r, m) = first_max xs in if x < m then (r + 1, m) else (0, x))"

definition row_lens :: "code_point list \<Rightarrow> nat list" where
  "row_lens s = map length (text_rows s)"

definition summary_of :: "code_point list \<Rightarrow> text_summary" where
  "summary_of s =
     \<lparr>ts_len = str_len s, ts_chars = length s, ts_len_utf16 = OffsetUtf16 (sum_list (map len_utf16 s)),
      ts_lines = \<lparr>row = of_nat (length (text_rows s) - 1), column = of_nat (str_len (last (text_rows s)))\<rparr>,
      ts_first_line_chars = of_nat (hd (row_lens s)),
      ts_last_line_chars = of_nat (last (row_lens s)),
      ts_last_line_len_utf16 = of_nat (sum_list (map len_utf16 (last (text_rows s)))),
      ts_longest_row = of_nat (fst (first_max (row_lens s))),
      ts_longest_row_chars = of_nat (snd (first_max (row_lens s)))\<rparr>"

lemma text_rows_nonempty [simp]: "text_rows s \<noteq> []"
  by (cases s) (auto split: list.splits)

lemma row_lens_nonempty [simp]: "row_lens s \<noteq> []"
  by (simp add: row_lens_def)

lemma text_rows_append:
  "text_rows (s @ t) = butlast (text_rows s) @ (last (text_rows s) @ hd (text_rows t)) # tl (text_rows t)"
proof (induction s)
  case (Cons ch s)
  then show ?case by (cases "text_rows s") auto
qed (cases "text_rows t"; simp)

lemma row_lens_append:
  "row_lens (s @ t) = butlast (row_lens s) @ (last (row_lens s) + hd (row_lens t)) # tl (row_lens t)"
  by (simp add: row_lens_def text_rows_append map_butlast last_map hd_map map_tl)

lemma text_rows_snoc:
  "text_rows (s @ [ch]) =
     (if ch = newline_char then text_rows s @ [[]] else butlast (text_rows s) @ [last (text_rows s) @ [ch]])"
proof -
  have "butlast (text_rows s) @ last (text_rows s) # ls = text_rows s @ ls" for ls
    using append_butlast_last_id [OF text_rows_nonempty [of s]] by (metis append.assoc append_Cons append_Nil)
  then show ?thesis by (auto simp: text_rows_append)
qed

lemma length_text_rows_le: "length (text_rows s) \<le> Suc (length s)"
  by (induction s) (auto split: list.splits)

lemma sum_row_lens_le: "sum_list (row_lens s) \<le> length s"
proof (induction s)
  case (Cons ch s)
  then show ?case by (cases "text_rows s") (auto simp: row_lens_def)
qed (simp add: row_lens_def)

lemma first_max_fst_le: "xs \<noteq> [] \<Longrightarrow> fst (first_max xs) < length xs"
  by (induction xs rule: induct_list012) (auto split: prod.splits if_splits)

lemma first_max_snd: "snd (first_max xs) = foldr max xs 0"
  by (induction xs) (auto split: prod.splits)

lemma first_max_0: "snd (first_max xs) = 0 \<Longrightarrow> fst (first_max xs) = 0"
  by (cases xs) (auto split: prod.splits if_splits)

lemma first_max_append:
  "first_max (xs @ ys) =
     (if snd (first_max xs) < snd (first_max ys) then (length xs + fst (first_max ys), snd (first_max ys))
      else first_max xs)"
proof (induction xs)
  case Nil
  then show ?case using first_max_0 [of ys] by (cases "first_max ys") auto
next
  case (Cons x xs)
  then show ?case by (auto simp: Let_def split: prod.splits if_splits)
qed

lemma first_max_ge: "x \<in> set xs \<Longrightarrow> x \<le> snd (first_max xs)"
  by (induction xs) (auto split: prod.splits)

text \<open>The pair really is the first longest row.\<close>

lemma first_max_first:
  assumes "first_max xs = (r, m)" "xs \<noteq> []"
  shows "r < length xs \<and> xs ! r = m \<and> (\<forall>i < r. xs ! i < m) \<and> (\<forall>x \<in> set xs. x \<le> m)"
  using assms
proof (induction xs arbitrary: r m)
  case (Cons x xs)
  show ?case
  proof (cases "xs = []")
    case False
    obtain r' m' where rm: "first_max xs = (r', m')" by force
    with Cons False have "r' < length xs \<and> xs ! r' = m' \<and> (\<forall>i < r'. xs ! i < m') \<and> (\<forall>x \<in> set xs. x \<le> m')" by blast
    with rm Cons.prems show ?thesis by (auto simp: nth_Cons less_Suc_eq_0_disj split: if_splits nat.splits)
  qed (use Cons.prems in auto)
qed simp

section \<open>Sums of summaries\<close>

lemma of_nat_32_less: "a < 2 ^ 32 \<Longrightarrow> b < 2 ^ 32 \<Longrightarrow> (of_nat a :: 32 word) < of_nat b \<longleftrightarrow> a < b"
  by (simp add: word_less_nat_alt unat_of_nat)

lemma of_nat_32_eq_0: "a < 2 ^ 32 \<Longrightarrow> (of_nat a :: 32 word) = 0 \<longleftrightarrow> a = 0"
  using of_nat_32_less [of 0 a] by (auto simp: word_gt_0)

lemma join_longest:
  assumes "xs \<noteq> []" "ys \<noteq> []"
  shows "first_max (butlast xs @ (last xs + hd ys) # tl ys) =
    (let rm = (if last xs + hd ys > snd (first_max xs) then (length xs - 1, last xs + hd ys) else first_max xs)
     in if snd (first_max ys) > snd rm then (length xs - 1 + fst (first_max ys), snd (first_max ys)) else rm)"
proof -
  obtain zs a where xs: "xs = zs @ [a]" using assms by (cases xs rule: rev_cases) auto
  obtain b ws where ys: "ys = b # ws" using assms by (cases ys) auto
  show ?thesis unfolding xs ys by (cases "first_max ws") (auto simp: first_max_append Let_def)
qed

lemma row_lens_le: "x \<in> set (row_lens s) \<Longrightarrow> x \<le> length s"
  using member_le_sum_list [of x "row_lens s"] sum_row_lens_le [of s] by simp

lemma first_max_row_lens: "snd (first_max (row_lens s)) \<le> length s" "fst (first_max (row_lens s)) \<le> length s"
proof -
  show "snd (first_max (row_lens s)) \<le> length s"
    using first_max_first [of "row_lens s"] row_lens_le [of _ s]
    by (metis nth_mem prod.collapse row_lens_nonempty)
  show "fst (first_max (row_lens s)) \<le> length s"
    using first_max_fst_le [of "row_lens s"] length_text_rows_le [of s] by (simp add: row_lens_def)
qed

lemma hd_row_lens_append:
  "hd (row_lens (s @ t)) = (if length (text_rows s) = 1 then hd (row_lens s) + hd (row_lens t) else hd (row_lens s))"
proof (cases "text_rows s")
  case (Cons l ls)
  then show ?thesis by (cases ls) (auto simp: row_lens_def text_rows_append hd_map)
qed simp

lemma last_text_rows_append:
  "last (text_rows (s @ t)) = (if length (text_rows t) = 1 then last (text_rows s) @ hd (text_rows t) else last (text_rows t))"
  by (cases "text_rows t") (auto simp: text_rows_append)

lemma last_row_lens: "last (row_lens s) = length (last (text_rows s))"
  by (simp add: row_lens_def last_map)

lemma hd_row_lens: "hd (row_lens s) = length (hd (text_rows s))"
  by (simp add: row_lens_def hd_map)

lemma length_row_lens [simp]: "length (row_lens s) = length (text_rows s)"
  by (simp add: row_lens_def)

lemma str_len_append [simp]: "str_len (s @ t) = str_len s + str_len t"
  by (simp add: str_len_def)

lemma length_text_rows_append:
  "length (text_rows (s @ t)) - Suc 0 = (length (text_rows s) - Suc 0) + (length (text_rows t) - Suc 0)"
  by (cases "text_rows t") (auto simp: text_rows_append)

text \<open>One row means that first and last row coincide.\<close>

lemma single_row: "length (text_rows s) = 1 \<Longrightarrow> last (text_rows s) = hd (text_rows s)"
  by (cases "text_rows s") auto

lemma row_summary_of: "length s < 2 ^ 32 \<Longrightarrow> row (ts_lines (summary_of s)) = 0 \<longleftrightarrow> length (text_rows s) = 1"
proof -
  assume "length s < 2 ^ 32"
  then have "length (text_rows s) - 1 < 2 ^ 32" using length_text_rows_le [of s] by linarith
  moreover have "length (text_rows s) - 1 = 0 \<longleftrightarrow> length (text_rows s) = 1"
    by (cases "text_rows s") auto
  ultimately show ?thesis by (simp add: summary_of_def of_nat_32_eq_0 del: of_nat_diff)
qed

lemma longest_fields:
  "ts_longest_row (text_summary_add a b) =
     (let r = (if ts_last_line_chars a + ts_first_line_chars b > ts_longest_row_chars a then row (ts_lines a) else ts_longest_row a);
          m = (if ts_last_line_chars a + ts_first_line_chars b > ts_longest_row_chars a
               then ts_last_line_chars a + ts_first_line_chars b else ts_longest_row_chars a)
      in if ts_longest_row_chars b > m then row (ts_lines a) + ts_longest_row b else r)"
  "ts_longest_row_chars (text_summary_add a b) =
     (let m = (if ts_last_line_chars a + ts_first_line_chars b > ts_longest_row_chars a
               then ts_last_line_chars a + ts_first_line_chars b else ts_longest_row_chars a)
      in if ts_longest_row_chars b > m then ts_longest_row_chars b else m)"
  by (simp_all add: text_summary_add_def Let_def)

lemma summary_of_add_longest:
  assumes "length s + length t < 2 ^ 32"
  shows "ts_longest_row (text_summary_add (summary_of s) (summary_of t)) = ts_longest_row (summary_of (s @ t))"
    and "ts_longest_row_chars (text_summary_add (summary_of s) (summary_of t)) = ts_longest_row_chars (summary_of (s @ t))"
proof -
  let ?a = "last (row_lens s)" and ?b = "hd (row_lens t)"
  obtain r m where rm: "first_max (row_lens s) = (r, m)" by force
  obtain q n where qn: "first_max (row_lens t) = (q, n)" by force
  have ab: "?a \<le> length s" "?b \<le> length t"
    by (simp_all add: row_lens_le)
  have mn: "m \<le> length s" "n \<le> length t"
    using first_max_row_lens [of s] first_max_row_lens [of t] rm qn by simp_all
  have cmp: "(of_nat m :: 32 word) < of_nat ?a + of_nat ?b \<longleftrightarrow> m < ?a + ?b"
    "(of_nat (?a + ?b) :: 32 word) < of_nat n \<longleftrightarrow> ?a + ?b < n"
    "(of_nat m :: 32 word) < of_nat n \<longleftrightarrow> m < n"
    using of_nat_32_less [of m "?a + ?b"] of_nat_32_less [of "?a + ?b" n] of_nat_32_less [of m n] ab mn assms by auto
  have j: "first_max (row_lens (s @ t)) =
      (let rm = (if m < ?a + ?b then (length (text_rows s) - 1, ?a + ?b) else (r, m))
       in if snd rm < n then (length (text_rows s) - 1 + q, n) else rm)"
    unfolding row_lens_append by (subst join_longest) (simp_all add: rm qn)
  show "ts_longest_row (text_summary_add (summary_of s) (summary_of t)) = ts_longest_row (summary_of (s @ t))"
    using cmp rm qn by (auto simp: longest_fields summary_of_def j Let_def simp del: of_nat_diff)
  show "ts_longest_row_chars (text_summary_add (summary_of s) (summary_of t)) = ts_longest_row_chars (summary_of (s @ t))"
    using cmp rm qn by (auto simp: longest_fields summary_of_def j Let_def)
qed

lemma line_fields:
  "ts_len (text_summary_add a b) = ts_len a + ts_len b"
  "ts_chars (text_summary_add a b) = ts_chars a + ts_chars b"
  "ts_len_utf16 (text_summary_add a b) = offset_utf16_add (ts_len_utf16 a) (ts_len_utf16 b)"
  "ts_lines (text_summary_add a b) = point_add (ts_lines a) (ts_lines b)"
  "ts_first_line_chars (text_summary_add a b) =
     (if row (ts_lines a) = 0 then ts_first_line_chars a + ts_first_line_chars b else ts_first_line_chars a)"
  "ts_last_line_chars (text_summary_add a b) =
     (if row (ts_lines b) = 0 then ts_last_line_chars a + ts_first_line_chars b else ts_last_line_chars b)"
  "ts_last_line_len_utf16 (text_summary_add a b) =
     (if row (ts_lines b) = 0 then ts_last_line_len_utf16 a + ts_last_line_len_utf16 b else ts_last_line_len_utf16 b)"
  by (simp_all add: text_summary_add_def Let_def point_add_assign_eq)

text \<open>The sum of two summaries is the summary of the concatenation.\<close>

lemma summary_of_append:
  assumes "length s + length t < 2 ^ 32"
  shows "summary_of (s @ t) = text_summary_add (summary_of s) (summary_of t)"
proof (rule text_summary.equality)
  have row: "row (ts_lines (summary_of s)) = 0 \<longleftrightarrow> length (text_rows s) = 1"
    "row (ts_lines (summary_of t)) = 0 \<longleftrightarrow> length (text_rows t) = 1"
    using assms by (simp_all add: row_summary_of)
  show "ts_lines (summary_of (s @ t)) = ts_lines (text_summary_add (summary_of s) (summary_of t))"
    using row(2) single_row [of t] unfolding line_fields point_add_def
    by (simp add: summary_of_def length_text_rows_append last_text_rows_append point_new_def del: of_nat_diff)
  show "ts_first_line_chars (summary_of (s @ t)) = ts_first_line_chars (text_summary_add (summary_of s) (summary_of t))"
    using row unfolding line_fields by (simp add: summary_of_def hd_row_lens_append)
  show "ts_last_line_chars (summary_of (s @ t)) = ts_last_line_chars (text_summary_add (summary_of s) (summary_of t))"
    using row unfolding line_fields by (simp add: summary_of_def last_row_lens hd_row_lens last_text_rows_append)
  show "ts_last_line_len_utf16 (summary_of (s @ t)) = ts_last_line_len_utf16 (text_summary_add (summary_of s) (summary_of t))"
    using row single_row [of t] unfolding line_fields by (simp add: summary_of_def last_text_rows_append)
qed (use summary_of_add_longest [OF assms] in \<open>simp_all add: line_fields, simp_all add: summary_of_def offset_utf16_add_def\<close>)

section \<open>The pass over a string\<close>

lemma summary_of_newline: "summary_of [newline_char] = text_summary_newline"
  by (simp add: summary_of_def text_summary_newline_def row_lens_def str_len_def len_utf8_def len_utf16_def
      newline_char_def point_new_def)

lemma summary_of_char: "ch \<noteq> newline_char \<Longrightarrow> summary_of [ch] =
    \<lparr>ts_len = len_utf8 ch, ts_chars = 1, ts_len_utf16 = OffsetUtf16 (len_utf16 ch),
     ts_lines = point_new 0 (of_nat (len_utf8 ch)), ts_first_line_chars = 1, ts_last_line_chars = 1,
     ts_last_line_len_utf16 = of_nat (len_utf16 ch), ts_longest_row = 0, ts_longest_row_chars = 1\<rparr>"
  by (simp add: summary_of_def row_lens_def str_len_def point_new_def)

text \<open>What holds of the summary of a text that fits 32 bits.\<close>

definition summary_fits :: "text_summary \<Rightarrow> bool" where
  "summary_fits s \<longleftrightarrow> ts_last_line_chars s \<le> ts_longest_row_chars s \<and> row (ts_lines s) + 1 \<noteq> 0
     \<and> ts_last_line_chars s \<noteq> - 1 \<and> (row (ts_lines s) = 0 \<longrightarrow> ts_first_line_chars s = ts_last_line_chars s)"

lemma summary_fits_of:
  assumes "Suc (length s) < 2 ^ 32"
  shows "summary_fits (summary_of s)"
  unfolding summary_fits_def
proof (intro conjI impI)
  have l: "last (row_lens s) \<le> snd (first_max (row_lens s))" by (simp add: first_max_ge)
  then show "ts_last_line_chars (summary_of s) \<le> ts_longest_row_chars (summary_of s)"
    using first_max_row_lens [of s] assms
    by (simp add: summary_of_def word_le_nat_alt unat_of_nat)
  have "length (text_rows s) < 2 ^ 32" using assms length_text_rows_le [of s] by linarith
  moreover have "(of_nat (length (text_rows s) - Suc 0) :: 32 word) + 1 = of_nat (length (text_rows s))"
    by (cases "text_rows s") auto
  ultimately show "row (ts_lines (summary_of s)) + 1 \<noteq> 0"
    by (simp add: summary_of_def of_nat_32_eq_0 del: of_nat_diff)
  have "Suc (last (row_lens s)) < 2 ^ 32" using assms l first_max_row_lens(1) [of s] by linarith
  then have "(of_nat (last (row_lens s)) :: 32 word) + 1 \<noteq> 0"
    using of_nat_32_eq_0 [of "Suc (last (row_lens s))"] by (simp add: add.commute)
  then show "ts_last_line_chars (summary_of s) \<noteq> - 1"
    by (metis (no_types) add.left_inverse summary_of_def text_summary.select_convs(6))
  show "ts_first_line_chars (summary_of s) = ts_last_line_chars (summary_of s)" if "row (ts_lines (summary_of s)) = 0"
    using that single_row [of s] row_summary_of [of s] assms
    by (simp add: last_row_lens hd_row_lens) (simp add: summary_of_def last_row_lens hd_row_lens)
qed

lemma word_succ_pos: "(x :: 32 word) \<noteq> - 1 \<Longrightarrow> 0 < x + 1"
  by (metis add.right_cancel eq_neg_iff_add_eq_0 word_gt_0)

lemma summary_step_newline:
  assumes "summary_fits x"
  shows "summary_step x newline_char = x\<lparr>ts_chars := ts_chars x + 1,
      ts_len_utf16 := OffsetUtf16 (the_offset (ts_len_utf16 x) + 1), ts_lines := point_new (row (ts_lines x) + 1) 0,
      ts_last_line_len_utf16 := 0, ts_last_line_chars := 0\<rparr>"
  using assms
  by (simp add: summary_step_def summary_fits_def Let_def point_add_assign_eq point_add_def len_utf16_def newline_char_def
      not_less)

lemma summary_step_char:
  assumes "ch \<noteq> newline_char"
  shows "summary_step x ch =
    (let y = x\<lparr>ts_chars := ts_chars x + 1, ts_len_utf16 := OffsetUtf16 (the_offset (ts_len_utf16 x) + len_utf16 ch),
               ts_lines := point_new (row (ts_lines x)) (column (ts_lines x) + of_nat (len_utf8 ch)),
               ts_first_line_chars := (if row (ts_lines x) = 0 then ts_last_line_chars x + 1 else ts_first_line_chars x),
               ts_last_line_len_utf16 := ts_last_line_len_utf16 x + of_nat (len_utf16 ch),
               ts_last_line_chars := ts_last_line_chars x + 1\<rparr>
     in if ts_longest_row_chars x < ts_last_line_chars x + 1
        then y\<lparr>ts_longest_row := row (ts_lines x), ts_longest_row_chars := ts_last_line_chars x + 1\<rparr> else y)"
  using assms by (cases "ts_lines x") (simp add: summary_step_def Let_def point_new_def)

lemma step_is_add:
  assumes "summary_fits x"
  shows "summary_step (x\<lparr>ts_len := n\<rparr>) ch = (text_summary_add x (summary_of [ch]))\<lparr>ts_len := n\<rparr>"
proof (cases "ch = newline_char")
  case True
  have "summary_fits (x\<lparr>ts_len := n\<rparr>)" using assms by (simp add: summary_fits_def)
  moreover have "\<not> ts_longest_row_chars x < ts_last_line_chars x" using assms by (simp add: summary_fits_def not_less)
  ultimately show ?thesis using True summary_step_newline [of "x\<lparr>ts_len := n\<rparr>"]
    by (intro text_summary.equality)
      (simp_all add: longest_fields line_fields summary_of_newline text_summary_newline_def offset_utf16_add_def
        point_add_def)
next
  case False
  have pos: "0 < ts_last_line_chars x + 1" using assms word_succ_pos by (simp add: summary_fits_def)
  have ge: "\<not> y < 1" if "0 < y" for y :: "32 word" using that by (simp add: word_le_nat_alt word_less_nat_alt not_less Suc_le_eq)
  have "\<not> ts_longest_row_chars x < 1" if "\<not> ts_longest_row_chars x < ts_last_line_chars x + 1"
    using that pos by (intro ge) auto
  moreover have "\<not> ts_last_line_chars x + 1 < 1" using pos by (rule ge)
  ultimately show ?thesis using assms False
    by (intro text_summary.equality)
      (simp_all add: longest_fields line_fields summary_of_char summary_step_char offset_utf16_add_def Let_def
        point_add_def summary_fits_def)
qed

lemma text_summary_from_eq:
  assumes "length s < 2 ^ 32"
  shows "text_summary_from s = summary_of s"
proof -
  have "foldl summary_step text_summary_default s = (summary_of s)\<lparr>ts_len := 0\<rparr>"
    using assms
  proof (induction s rule: rev_induct)
    case Nil
    then show ?case
      by (simp add: text_summary_default_def summary_of_def row_lens_def str_len_def point_zero_def point_new_def)
  next
    case (snoc ch s)
    then show ?case by (simp add: step_is_add summary_fits_of summary_of_append)
  qed
  then show ?thesis by (simp add: text_summary_from_def) (simp add: summary_of_def)
qed

section \<open>Dimensions are homomorphisms\<close>

text \<open>A dimension reads the sum of two summaries as the sum of what it reads off each, so that seeking
  by it can add up summaries of whole subtrees.\<close>

locale text_dimension_laws =
  fixes d :: "'d text_dimension"
  assumes from_add: "td_from_text_summary d (text_summary_add a b) =
      td_add_assign d (td_from_text_summary d a) (td_from_text_summary d b)"
    and from_default: "td_from_text_summary d text_summary_default = td_zero d"
begin

lemma from_pieces:
  "td_from_text_summary d (foldl text_summary_add text_summary_default ss) = foldl (add_text_summary d) (td_zero d) ss"
  by (induction ss rule: rev_induct) (simp_all add: from_default from_add add_text_summary_def)

lemma from_texts:
  "length (concat ts) < 2 ^ 32 \<Longrightarrow>
    td_from_text_summary d (text_summary_from (concat ts)) = foldl (add_text_summary d) (td_zero d) (map text_summary_from ts)"
proof (induction ts rule: rev_induct)
  case Nil
  then show ?case by (simp add: text_summary_from_def str_len_def from_default) (simp add: text_summary_default_def flip: from_default)
next
  case (snoc t ts)
  then show ?case by (simp add: text_summary_from_eq summary_of_append from_add add_text_summary_def)
qed

end

interpretation text_summary_td: text_dimension_laws text_summary_dimension
  by unfold_locales (simp_all add: text_summary_dimension_def)

interpretation usize_td: text_dimension_laws usize_dimension
  by unfold_locales (simp_all add: usize_dimension_def line_fields text_summary_default_def)

interpretation offset_utf16_td: text_dimension_laws offset_utf16_dimension
  by unfold_locales (simp_all add: offset_utf16_dimension_def line_fields text_summary_default_def)

interpretation point_td: text_dimension_laws point_dimension
  by unfold_locales (simp_all add: point_dimension_def line_fields text_summary_default_def point_add_assign_eq)

interpretation point_utf16_td: text_dimension_laws point_utf16_dimension
  by unfold_locales
    (simp_all add: point_utf16_dimension_def lines_utf16_def line_fields text_summary_default_def point_add_assign_eq
      point_add_def point_new_def point_zero_def)

lemma pair_dimension_laws:
  assumes "text_dimension_laws d1" "text_dimension_laws d2"
  shows "text_dimension_laws (pair_dimension d1 d2)"
    and "text_dimension_laws (dimension_pair_dimension d1 d2)"
  using assms
  by (simp_all add: text_dimension_laws_def pair_dimension_def dimension_pair_dimension_def dimension_pair_add_def)

text \<open>Adding the summary of a newline is what \<^verbatim>\<open>add_newline\<close> means to do; it counts the UTF-16 length
  twice and leaves out the character.\<close>

lemma add_newline_diff:
  assumes "summary_fits s"
  shows "text_summary_add s text_summary_newline =
    (add_newline s)\<lparr>ts_chars := ts_chars s + 1, ts_len_utf16 := offset_utf16_add (ts_len_utf16 s) (OffsetUtf16 1)\<rparr>"
proof -
  have "\<not> ts_longest_row_chars s < ts_last_line_chars s" using assms by (simp add: summary_fits_def not_less)
  then show ?thesis
    by (intro text_summary.equality)
      (simp_all add: longest_fields line_fields text_summary_newline_def add_newline_def point_add_assign_eq)
qed

end
