(* ===== verification/Patch.thy ===== *)
theory Patch
  imports Prelude
begin

text \<open>
  \<^verbatim>\<open>crates/text/src/patch.rs\<close> and the \<^verbatim>\<open>Edit\<close> of \<^verbatim>\<open>text.rs\<close>: sequences of replaced ranges, and their
  composition.  The coordinates are \<^verbatim>\<open>usize\<close> offsets.

  A patch is read as the partial injection \<open>keeps\<close> from the positions of the old text to the
  positions of the new text that it leaves in place.  Composing two patches composes their
  injections exactly, never subtracts below zero, and yields edits that are separated as
  \<^verbatim>\<open>Patch::new\<close> asserts.
\<close>

section \<open>Edits\<close>

record 'd edit =
  old_range :: "'d \<times> 'd"
  new_range :: "'d \<times> 'd"

abbreviation old_start :: "'d edit \<Rightarrow> 'd" where "old_start e \<equiv> fst (old_range e)"
abbreviation old_end :: "'d edit \<Rightarrow> 'd" where "old_end e \<equiv> snd (old_range e)"
abbreviation new_start :: "'d edit \<Rightarrow> 'd" where "new_start e \<equiv> fst (new_range e)"
abbreviation new_end :: "'d edit \<Rightarrow> 'd" where "new_end e \<equiv> snd (new_range e)"

definition edit_is_empty :: "'d edit \<Rightarrow> bool" where
  "edit_is_empty e = (old_start e = old_end e \<and> new_start e = new_end e)"

definition old_len :: "nat edit \<Rightarrow> nat option" where
  "old_len e = usize_sub (old_end e) (old_start e)"

definition new_len :: "nat edit \<Rightarrow> nat option" where
  "new_len e = usize_sub (new_end e) (new_start e)"

definition edit_flatten :: "('a \<times> 'b) edit \<Rightarrow> 'a edit \<times> 'b edit" where
  "edit_flatten e =
     (\<lparr>old_range = (fst (old_start e), fst (old_end e)), new_range = (fst (new_start e), fst (new_end e))\<rparr>,
      \<lparr>old_range = (snd (old_start e), snd (old_end e)), new_range = (snd (new_start e), snd (new_end e))\<rparr>)"

section \<open>Patches\<close>

type_synonym patch = "nat edit list"

definition patch_empty :: patch where
  "patch_empty = []"

text \<open>The assertions of \<^verbatim>\<open>Patch::new\<close> in a debug build.\<close>

fun separated :: "patch \<Rightarrow> bool" where
  "separated (e # e' # es) = (old_end e < old_start e' \<and> new_end e < new_start e' \<and> separated (e' # es))"
| "separated es = True"

definition patch_new :: "nat edit list \<Rightarrow> patch option" where
  "patch_new edits = (if separated edits then Some edits else None)"

definition invert :: "patch \<Rightarrow> patch" where
  "invert p = map (\<lambda>e. \<lparr>old_range = new_range e, new_range = old_range e\<rparr>) p"

definition push_maybe_empty :: "nat edit \<Rightarrow> patch \<Rightarrow> patch" where
  "push_maybe_empty e p =
     (if p \<noteq> [] then
        (let l = last p in
         if old_end l \<ge> old_start e
         then butlast p @ [\<lparr>old_range = (old_start l, old_end e), new_range = (new_start l, new_end e)\<rparr>]
         else p @ [e])
      else p @ [e])"

definition patch_push :: "nat edit \<Rightarrow> patch \<Rightarrow> patch" where
  "patch_push e p = (if edit_is_empty e then p else push_maybe_empty e p)"

section \<open>Composition\<close>

text \<open>The local state of the loop of \<^verbatim>\<open>compose\<close>: \<^verbatim>\<open>old_start\<close>, \<^verbatim>\<open>new_start\<close> and \<^verbatim>\<open>composed\<close>.\<close>

type_synonym compose_state = "nat \<times> nat \<times> patch"

text \<open>Push \<^verbatim>\<open>old_start..old_end, new_start..new_end\<close> and move both starts to the ends.\<close>

definition compose_emit :: "nat \<Rightarrow> nat \<Rightarrow> compose_state \<Rightarrow> compose_state" where
  "compose_emit old_e new_e st = (case st of (old_s, new_s, composed) \<Rightarrow>
     (old_e, new_e, patch_push \<lparr>old_range = (old_s, old_e), new_range = (new_s, new_e)\<rparr> composed))"

definition compose_catchup :: "nat \<Rightarrow> compose_state \<Rightarrow> compose_state" where
  "compose_catchup k st = (case st of (old_s, new_s, composed) \<Rightarrow> (old_s + k, new_s + k, composed))"

text \<open>Push the old edit if its new end is before the new edit's old start.\<close>

definition compose_old :: "nat edit \<Rightarrow> compose_state \<Rightarrow> compose_state option" where
  "compose_old old_edit st = do {
     catchup \<leftarrow> usize_sub (old_start old_edit) (fst st);
     let st = compose_catchup catchup st;
     ol \<leftarrow> old_len old_edit;
     nl \<leftarrow> new_len old_edit;
     Some (compose_emit (fst st + ol) (fst (snd st) + nl) st)
   }"

text \<open>Push the new edit if its old end is before the old edit's new start.\<close>

definition compose_new :: "nat edit \<Rightarrow> compose_state \<Rightarrow> compose_state option" where
  "compose_new new_edit st = do {
     catchup \<leftarrow> usize_sub (new_start new_edit) (fst (snd st));
     let st = compose_catchup catchup st;
     ol \<leftarrow> old_len new_edit;
     nl \<leftarrow> new_len new_edit;
     Some (compose_emit (fst st + ol) (fst (snd st) + nl) st)
   }"

text \<open>The two edits intersect: bring both to the same middle position.\<close>

definition compose_align ::
  "nat edit \<Rightarrow> nat edit \<Rightarrow> compose_state \<Rightarrow> (nat edit \<times> nat edit \<times> compose_state) option" where
  "compose_align old_edit new_edit st =
     (if new_start old_edit < old_start new_edit then do {
        catchup \<leftarrow> usize_sub (old_start old_edit) (fst st);
        let st = compose_catchup catchup st;
        overshoot \<leftarrow> usize_sub (old_start new_edit) (new_start old_edit);
        let old_e = min (fst st + overshoot) (old_end old_edit);
        let new_e = fst (snd st) + overshoot;
        Some (old_edit\<lparr>old_range := (old_e, old_end old_edit),
                        new_range := (new_start old_edit + overshoot, new_end old_edit)\<rparr>,
              new_edit, compose_emit old_e new_e st) }
      else do {
        catchup \<leftarrow> usize_sub (new_start new_edit) (fst (snd st));
        let st = compose_catchup catchup st;
        overshoot \<leftarrow> usize_sub (new_start old_edit) (old_start new_edit);
        let old_e = fst st + overshoot;
        let new_e = min (fst (snd st) + overshoot) (new_end new_edit);
        Some (old_edit,
              new_edit\<lparr>old_range := (old_start new_edit + overshoot, old_end new_edit),
                        new_range := (new_e, new_end new_edit)\<rparr>,
              compose_emit old_e new_e st) })"

text \<open>The old edit reaches further: the new edit is used up.\<close>

definition compose_finish_new ::
  "nat edit \<Rightarrow> nat edit \<Rightarrow> compose_state \<Rightarrow> (nat edit \<times> compose_state) option" where
  "compose_finish_new old_edit new_edit st = do {
     ol \<leftarrow> old_len old_edit;
     nol \<leftarrow> old_len new_edit;
     let old_e = fst st + min ol nol;
     nnl \<leftarrow> new_len new_edit;
     let new_e = fst (snd st) + nnl;
     Some (old_edit\<lparr>old_range := (old_e, old_end old_edit), new_range := (old_end new_edit, new_end old_edit)\<rparr>,
           compose_emit old_e new_e st)
   }"

text \<open>Otherwise the old edit is used up.\<close>

definition compose_finish_old ::
  "nat edit \<Rightarrow> nat edit \<Rightarrow> compose_state \<Rightarrow> (nat edit \<times> compose_state) option" where
  "compose_finish_old old_edit new_edit st = do {
     ol \<leftarrow> old_len old_edit;
     let old_e = fst st + ol;
     onl \<leftarrow> new_len old_edit;
     nnl \<leftarrow> new_len new_edit;
     let new_e = fst (snd st) + min onl nnl;
     Some (new_edit\<lparr>old_range := (new_end old_edit, old_end new_edit), new_range := (new_e, new_end new_edit)\<rparr>,
           compose_emit old_e new_e st)
   }"

function compose_loop :: "patch \<Rightarrow> patch \<Rightarrow> compose_state \<Rightarrow> patch option" where
  "compose_loop [] [] st = Some (snd (snd st))"
| "compose_loop (old_edit # olds) [] st = do { st \<leftarrow> compose_old old_edit st; compose_loop olds [] st }"
| "compose_loop [] (new_edit # news) st = do { st \<leftarrow> compose_new new_edit st; compose_loop [] news st }"
| "compose_loop (old_edit # olds) (new_edit # news) st =
     (if new_end old_edit < old_start new_edit
      then do { st \<leftarrow> compose_old old_edit st; compose_loop olds (new_edit # news) st }
      else if old_end new_edit < new_start old_edit
      then do { st \<leftarrow> compose_new new_edit st; compose_loop (old_edit # olds) news st }
      else do {
        (old_edit, new_edit, st) \<leftarrow> compose_align old_edit new_edit st;
        (if new_end old_edit > old_end new_edit
         then do { (old_edit, st) \<leftarrow> compose_finish_new old_edit new_edit st; compose_loop (old_edit # olds) news st }
         else do { (new_edit, st) \<leftarrow> compose_finish_old old_edit new_edit st; compose_loop olds (new_edit # news) st })
      })"
  by pat_completeness auto
termination by (relation "measure (\<lambda>(olds, news, st). length olds + length news)") auto

definition compose :: "patch \<Rightarrow> nat edit list \<Rightarrow> patch option" where
  "compose p new_edits = compose_loop p new_edits (0, 0, [])"

section \<open>Translating positions\<close>

text \<open>\<^verbatim>\<open>slice::binary_search_by\<close> on strictly increasing keys: \<open>Inr\<close> the index of the match, \<open>Inl\<close> the
  index where the key would be inserted.\<close>

definition binary_search :: "nat list \<Rightarrow> nat \<Rightarrow> nat + nat" where
  "binary_search ks x =
     (let ix = length (takeWhile (\<lambda>k. k < x) ks)
      in if ix < length ks \<and> ks ! ix = x then Inr ix else Inl ix)"

definition old_to_new :: "patch \<Rightarrow> nat \<Rightarrow> nat option" where
  "old_to_new p pos =
     (case binary_search (map old_start p) pos of
        Inl 0 \<Rightarrow> Some pos
      | r \<Rightarrow>
          (let ix = (case r of Inr ix \<Rightarrow> ix | Inl ix \<Rightarrow> ix - 1) in
           if ix < length p then
             (let e = p ! ix in
              if pos \<ge> old_end e then map_option (\<lambda>d. new_end e + d) (usize_sub pos (old_end e))
              else Some (new_start e))
           else Some pos))"

definition edit_for_old_position :: "patch \<Rightarrow> nat \<Rightarrow> nat edit option" where
  "edit_for_old_position p pos =
     (case binary_search (map old_start p) pos of
        Inl 0 \<Rightarrow> Some \<lparr>old_range = (pos, pos), new_range = (pos, pos)\<rparr>
      | r \<Rightarrow>
          (let ix = (case r of Inr ix \<Rightarrow> ix | Inl ix \<Rightarrow> ix - 1) in
           if ix < length p then
             (let e = p ! ix in
              if pos > old_end e then do {
                d \<leftarrow> usize_sub pos (old_end e);
                Some \<lparr>old_range = (pos, pos), new_range = (new_end e + d, new_end e + d)\<rparr> }
              else Some e)
           else Some \<lparr>old_range = (pos, pos), new_range = (pos, pos)\<rparr>))"

section \<open>What a patch keeps\<close>

definition diag :: "nat \<Rightarrow> nat \<Rightarrow> nat \<Rightarrow> (nat \<times> nat) set" where
  "diag a c k = {(a + i, c + i) | i. i < k}"

text \<open>The edits from position \<open>a\<close> of the old and \<open>c\<close> of the new text on: the gap before each edit is
  the same on both sides.\<close>

fun patch_from :: "nat \<Rightarrow> nat \<Rightarrow> patch \<Rightarrow> bool" where
  "patch_from a c [] = True"
| "patch_from a c (e # es) =
     (a \<le> old_start e \<and> c \<le> new_start e \<and> old_start e + c = new_start e + a
      \<and> old_start e \<le> old_end e \<and> new_start e \<le> new_end e \<and> patch_from (old_end e) (new_end e) es)"

fun keeps_from :: "nat \<Rightarrow> nat \<Rightarrow> patch \<Rightarrow> (nat \<times> nat) set" where
  "keeps_from a c [] = {(a + i, c + i) | i. True}"
| "keeps_from a c (e # es) = diag a c (old_start e - a) \<union> keeps_from (old_end e) (new_end e) es"

definition patch_wf :: "patch \<Rightarrow> bool" where
  "patch_wf p = patch_from 0 0 p"

definition keeps :: "patch \<Rightarrow> (nat \<times> nat) set" where
  "keeps p = keeps_from 0 0 p"

section \<open>Gaps and composition of relations\<close>

lemma diag_0 [simp]: "diag a c 0 = {}"
  by (simp add: diag_def)

lemma diag_add: "diag a c (g + k) = diag a c g \<union> diag (a + g) (c + g) k"
proof -
  have "\<exists>i'. i = g + i' \<and> i' < k" if "i < g + k" "\<not> i < g" for i
    using that by (intro exI [of _ "i - g"]) auto
  then show ?thesis by (auto simp: diag_def) metis+
qed

lemma diag_comp: "diag a m g O diag m c k = diag a c (min g k)"
  by (auto simp: diag_def relcomp_unfold)

lemma diag_comp_beyond: "(\<And>j l. (j, l) \<in> K \<Longrightarrow> m + g \<le> j) \<Longrightarrow> diag a m g O K = {}"
  by (fastforce simp: diag_def)

lemma beyond_comp_diag: "(\<And>i j. (i, j) \<in> K \<Longrightarrow> m + k \<le> j) \<Longrightarrow> K O diag m c k = {}"
  by (fastforce simp: diag_def)

text \<open>A patch leaves at least \<open>k\<close> positions alone before its first edit.\<close>

definition has_gap :: "nat \<Rightarrow> nat \<Rightarrow> patch \<Rightarrow> bool" where
  "has_gap a k p = (case p of [] \<Rightarrow> True | e # _ \<Rightarrow> a + k \<le> old_start e)"

lemma keeps_from_ge: "patch_from a c p \<Longrightarrow> (i, j) \<in> keeps_from a c p \<Longrightarrow> a \<le> i \<and> c \<le> j"
proof (induction p arbitrary: a c)
  case (Cons e p)
  have "(i, j) \<in> diag a c (old_start e - a) \<or> old_end e \<le> i \<and> new_end e \<le> j"
    using Cons by auto
  with Cons.prems(1) show ?case by (auto simp: diag_def)
qed auto

lemma gap_split:
  assumes "patch_from a c p" "has_gap a k p"
  shows "keeps_from a c p = diag a c k \<union> keeps_from (a + k) (c + k) p" (is ?keeps)
    and "patch_from (a + k) (c + k) p" (is ?wf)
proof -
  have nil: "{(a + i, c + i) | i. True} = diag a c k \<union> {(a + k + i, c + k + i) | i. True}"
  proof -
    have "\<exists>i'. i = k + i'" if "\<not> i < k" for i using that by (intro exI [of _ "i - k"]) auto
    then show ?thesis by (auto simp: diag_def) metis
  qed
  show ?wf using assms by (cases p) (auto simp: has_gap_def)
  show ?keeps
  proof (cases p)
    case Nil
    with nil show ?thesis by simp
  next
    case (Cons e es)
    then have "old_start e - a = k + (old_start e - (a + k))" using assms by (simp add: has_gap_def)
    then show ?thesis using diag_add [of a c k "old_start e - (a + k)"] Cons by (simp add: Un_assoc)
  qed
qed

text \<open>Composing with a patch on the right that has a gap, and with one on the left.\<close>

lemma comp_gap_right:
  assumes "patch_from m c q" "has_gap m k q" "\<And>i j. (i, j) \<in> K \<Longrightarrow> m + k \<le> j" "g \<le> k"
  shows "(diag a m g \<union> K) O keeps_from m c q = diag a c g \<union> K O keeps_from (m + k) (c + k) q"
proof -
  have far: "m + g \<le> j" if "(j, l) \<in> keeps_from (m + k) (c + k) q" for j l
    using keeps_from_ge [OF gap_split(2) [OF assms(1,2)] that] assms(4) by simp
  have "diag a m g O keeps_from (m + k) (c + k) q = {}"
    by (rule diag_comp_beyond) (rule far)
  then show ?thesis
    unfolding gap_split(1) [OF assms(1,2)]
    using beyond_comp_diag [of K m k c] assms(3,4)
    by (simp add: diag_comp min_absorb1)
qed

lemma comp_gap_left:
  assumes "patch_from a m p" "has_gap a k p" "\<And>j l. (j, l) \<in> K \<Longrightarrow> m + k \<le> j" "g \<le> k"
  shows "keeps_from a m p O (diag m c g \<union> K) = diag a c g \<union> keeps_from (a + k) (m + k) p O K"
proof -
  have far: "m + g \<le> j" if "(i, j) \<in> keeps_from (a + k) (m + k) p" for i j
    using keeps_from_ge [OF gap_split(2) [OF assms(1,2)] that] assms(4) by simp
  have "keeps_from (a + k) (m + k) p O diag m c g = {}"
    by (rule beyond_comp_diag) (rule far)
  then show ?thesis
    unfolding gap_split(1) [OF assms(1,2)]
    using diag_comp_beyond [of K m k a] assms(3,4)
    by (simp add: diag_comp min_absorb2)
qed

section \<open>The loop\<close>

abbreviation mk_edit :: "nat \<Rightarrow> nat \<Rightarrow> nat \<Rightarrow> nat \<Rightarrow> nat edit" where
  "mk_edit os oe ns ne \<equiv> \<lparr>old_range = (os, oe), new_range = (ns, ne)\<rparr>"

lemmas compose_steps = compose_catchup_def compose_emit_def old_len_def new_len_def Let_def

lemma patch_from_ConsE:
  assumes "patch_from a c (e # p)"
  obtains g l n where "old_range e = (a + g, a + g + l)" "new_range e = (c + g, c + g + n)"
    "patch_from (a + g + l) (c + g + n) p"
proof (rule that [of "old_start e - a" "old_end e - old_start e" "new_end e - new_start e"])
  from assms have old: "a + (old_start e - a) = old_start e" and new: "c + (old_start e - a) = new_start e" by auto
  with assms show "old_range e = (a + (old_start e - a), a + (old_start e - a) + (old_end e - old_start e))"
    and "new_range e = (c + (old_start e - a), c + (old_start e - a) + (new_end e - new_start e))"
    and "patch_from (a + (old_start e - a) + (old_end e - old_start e))
      (c + (old_start e - a) + (new_end e - new_start e)) p"
    unfolding old new by (simp_all add: prod_eq_iff)
qed

lemma compose_old_ok:
  assumes "patch_from a m (e # p)" "patch_from m c q" "has_gap m (new_end e - m) q"
  defines "cs \<equiv> c + (old_start e - a)" and "ce \<equiv> c + (new_end e - m)"
  shows "compose_old e (a, c, acc) = Some (old_end e, ce, patch_push (mk_edit (old_start e) (old_end e) cs ce) acc)"
    and "patch_from (old_end e) (new_end e) p" "patch_from (new_end e) ce q"
    and "cs \<le> ce"
    and "keeps_from a m (e # p) O keeps_from m c q
      = diag a c (old_start e - a) \<union> keeps_from (old_end e) (new_end e) p O keeps_from (new_end e) ce q"
proof -
  have m: "m \<le> new_end e" using assms(1) by simp
  then show "patch_from (new_end e) ce q" using gap_split(2) [OF assms(2,3)] by (simp add: ce_def)
  show "patch_from (old_end e) (new_end e) p" using assms(1) by simp
  show "compose_old e (a, c, acc) = Some (old_end e, ce, patch_push (mk_edit (old_start e) (old_end e) cs ce) acc)"
    using assms(1) by (rule patch_from_ConsE) (simp add: compose_old_def compose_steps cs_def ce_def add.assoc)
  show "cs \<le> ce" using assms(1) by (auto simp: cs_def ce_def)
  show "keeps_from a m (e # p) O keeps_from m c q
      = diag a c (old_start e - a) \<union> keeps_from (old_end e) (new_end e) p O keeps_from (new_end e) ce q"
  proof -
    have far: "m + (new_end e - m) \<le> j" if "(i, j) \<in> keeps_from (old_end e) (new_end e) p" for i j
      using keeps_from_ge [of "old_end e" "new_end e" p, OF _ that] assms(1) m by simp
    have "old_start e - a \<le> new_end e - m" using assms(1) by auto
    from comp_gap_right [where K = "keeps_from (old_end e) (new_end e) p" and a = a, OF assms(2,3) far this] m
    show ?thesis by (simp add: ce_def)
  qed
qed

lemma compose_new_ok:
  assumes "patch_from a m p" "patch_from m c (e # q)" "has_gap a (old_end e - m) p"
  defines "as \<equiv> a + (old_start e - m)" and "ae \<equiv> a + (old_end e - m)"
  shows "compose_new e (a, c, acc) = Some (ae, new_end e, patch_push (mk_edit as ae (new_start e) (new_end e)) acc)"
    and "patch_from ae (old_end e) p" "patch_from (old_end e) (new_end e) q"
    and "as \<le> ae"
    and "keeps_from a m p O keeps_from m c (e # q)
      = diag a c (old_start e - m) \<union> keeps_from ae (old_end e) p O keeps_from (old_end e) (new_end e) q"
proof -
  have m: "m \<le> old_end e" using assms(2) by simp
  then show "patch_from ae (old_end e) p" using gap_split(2) [OF assms(1,3)] by (simp add: ae_def)
  show "patch_from (old_end e) (new_end e) q" using assms(2) by simp
  show "compose_new e (a, c, acc) = Some (ae, new_end e, patch_push (mk_edit as ae (new_start e) (new_end e)) acc)"
    using assms(2) by (rule patch_from_ConsE) (simp add: compose_new_def compose_steps as_def ae_def add.assoc)
  show "as \<le> ae" using assms(2) by (auto simp: as_def ae_def)
  show "keeps_from a m p O keeps_from m c (e # q)
      = diag a c (old_start e - m) \<union> keeps_from ae (old_end e) p O keeps_from (old_end e) (new_end e) q"
  proof -
    have far: "m + (old_end e - m) \<le> j" if "(j, l) \<in> keeps_from (old_end e) (new_end e) q" for j l
      using keeps_from_ge [of "old_end e" "new_end e" q, OF _ that] assms(2) m by simp
    have "old_start e - m \<le> old_end e - m" using assms(2) by auto
    from comp_gap_left [where K = "keeps_from (old_end e) (new_end e) q" and c = c, OF assms(1,3) far this] m
    show ?thesis by (simp add: ae_def)
  qed
qed

text \<open>After \<open>compose_align\<close> both edits start at the same middle position \<open>m'\<close>, and one edit \<open>x\<close> has
  been emitted.\<close>

definition aligned ::
  "nat \<Rightarrow> nat \<Rightarrow> nat edit \<Rightarrow> nat edit \<Rightarrow> nat edit \<Rightarrow> nat edit \<Rightarrow> nat edit \<Rightarrow> bool" where
  "aligned a c od nw x od' nw' \<longleftrightarrow>
     a \<le> old_start x \<and> c \<le> new_start x \<and> old_start x + c = new_start x + a
     \<and> old_start x \<le> old_end x \<and> new_start x \<le> new_end x
     \<and> old_start od' = old_end x \<and> new_start nw' = new_end x \<and> new_start od' = old_start nw'
     \<and> old_end od' = old_end od \<and> new_end od' = new_end od \<and> old_end nw' = old_end nw \<and> new_end nw' = new_end nw
     \<and> old_start od' \<le> old_end od \<and> new_start od' \<le> new_end od \<and> old_start nw' \<le> old_end nw \<and> new_start nw' \<le> new_end nw"

lemma compose_align_ok:
  assumes od: "patch_from a m (od # p)" and nw: "patch_from m c (nw # q)"
    and meet: "old_start nw \<le> new_end od" "new_start od \<le> old_end nw"
  shows "\<exists>x od' nw'. aligned a c od nw x od' nw'
    \<and> (\<forall>acc. compose_align od nw (a, c, acc) = Some (od', nw', old_end x, new_end x, patch_push x acc))
    \<and> keeps_from a m (od # p) O keeps_from m c (nw # q)
        = diag a c (old_start x - a)
          \<union> keeps_from (old_end od) (new_end od) p O keeps_from (old_end nw) (new_end nw) q"
proof (cases "new_start od < old_start nw")
  case True
  define ov where "ov = old_start nw - new_start od"
  define os where "os = old_start od"
  define oe where "oe = min (os + ov) (old_end od)"
  define cs where "cs = c + (os - a)"
  let ?x = "mk_edit os oe cs (cs + ov)"
  let ?od = "od\<lparr>old_range := (oe, old_end od), new_range := (new_start od + ov, new_end od)\<rparr>"
  have step: "compose_align od nw (a, c, acc) = Some (?od, nw, old_end ?x, new_end ?x, patch_push ?x acc)" for acc
    using od by (rule patch_from_ConsE) (use True in \<open>simp add: compose_align_def compose_steps ov_def os_def oe_def cs_def\<close>)
  have al: "aligned a c od nw ?x ?od nw"
    unfolding aligned_def using True od nw meet
    by (auto simp: ov_def os_def oe_def cs_def)
  have gap: "has_gap m (old_start nw - m) (nw # q)" using nw by (simp add: has_gap_def)
  have far: "m + (old_start nw - m) \<le> j" if "(i, j) \<in> keeps_from (old_end od) (new_end od) p" for i j
    using keeps_from_ge [of "old_end od" "new_end od" p i j] that od nw meet by auto
  have "keeps_from a m (od # p) O keeps_from m c (nw # q) = diag a c (os - a)
      \<union> keeps_from (old_end od) (new_end od) p O keeps_from (old_end nw) (new_end nw) q"
  proof -
    have "os - a \<le> old_start nw - m" using True od by (auto simp: os_def)
    from comp_gap_right [where K = "keeps_from (old_end od) (new_end od) p" and a = a, OF nw gap far this] nw
    show ?thesis by (simp add: os_def)
  qed
  with step al show ?thesis by (intro exI [of _ ?x] exI [of _ ?od] exI [of _ nw]) auto
next
  case False
  define ov where "ov = new_start od - old_start nw"
  define k where "k = old_start nw - m"
  define ne where "ne = min (new_start nw + ov) (new_end nw)"
  let ?x = "mk_edit (a + k) (a + k + ov) (new_start nw) ne"
  let ?nw = "nw\<lparr>old_range := (old_start nw + ov, old_end nw), new_range := (ne, new_end nw)\<rparr>"
  have step: "compose_align od nw (a, c, acc) = Some (od, ?nw, old_end ?x, new_end ?x, patch_push ?x acc)" for acc
    using nw by (rule patch_from_ConsE) (use False in \<open>simp add: compose_align_def compose_steps ov_def k_def ne_def\<close>)
  have al: "aligned a c od nw ?x od ?nw"
    unfolding aligned_def using False od nw meet
    by (auto simp: ov_def k_def ne_def)
  have gap: "has_gap a (new_start od - m) (od # p)" using od by (auto simp: has_gap_def)
  have far: "m + (new_start od - m) \<le> j" if "(j, l) \<in> keeps_from (old_end nw) (new_end nw) q" for j l
    using keeps_from_ge [of "old_end nw" "new_end nw" q j l] that od nw meet by auto
  have "keeps_from a m (od # p) O keeps_from m c (nw # q) = diag a c k
      \<union> keeps_from (old_end od) (new_end od) p O keeps_from (old_end nw) (new_end nw) q"
  proof -
    have "k \<le> new_start od - m" using False nw by (auto simp: k_def)
    moreover have "a + (new_start od - m) = old_start od" using od by auto
    ultimately show ?thesis
      using comp_gap_left [where K = "keeps_from (old_end nw) (new_end nw) q" and c = c, OF od gap far] od
      by (simp add: k_def)
  qed
  with step al show ?thesis by (intro exI [of _ ?x] exI [of _ od] exI [of _ ?nw]) auto
qed

text \<open>The two ways of finishing an aligned pair.\<close>

lemma compose_finish_new_ok:
  assumes "aligned a c od nw x od' nw'" "old_end nw < new_end od"
  shows "\<exists>y od''. old_start y = old_end x \<and> new_start y = new_end x \<and> old_start y \<le> old_end y \<and> new_start y \<le> new_end y
    \<and> (\<forall>acc. compose_finish_new od' nw' (old_end x, new_end x, acc) = Some (od'', old_end y, new_end y, patch_push y acc))
    \<and> new_end y = new_end nw \<and> old_range od'' = (old_end y, old_end od) \<and> new_range od'' = (old_end nw, new_end od)
    \<and> old_end y \<le> old_end od"
proof -
  let ?oe = "old_end x + min (old_end od - old_end x) (old_end nw - old_start nw')"
  show ?thesis
    using assms
    by (intro exI [of _ "mk_edit (old_end x) ?oe (new_end x) (new_end nw)"]
          exI [of _ "od'\<lparr>old_range := (?oe, old_end od'), new_range := (old_end nw', new_end od')\<rparr>"])
      (auto simp: compose_finish_new_def compose_steps aligned_def)
qed

lemma compose_finish_old_ok:
  assumes "aligned a c od nw x od' nw'" "new_end od \<le> old_end nw"
  shows "\<exists>y nw''. old_start y = old_end x \<and> new_start y = new_end x \<and> old_start y \<le> old_end y \<and> new_start y \<le> new_end y
    \<and> (\<forall>acc. compose_finish_old od' nw' (old_end x, new_end x, acc) = Some (nw'', old_end y, new_end y, patch_push y acc))
    \<and> old_end y = old_end od \<and> old_range nw'' = (new_end od, old_end nw) \<and> new_range nw'' = (new_end y, new_end nw)
    \<and> new_end y \<le> new_end nw"
proof -
  let ?ne = "new_end x + min (new_end od - new_start od') (new_end nw - new_end x)"
  show ?thesis
    using assms
    by (intro exI [of _ "mk_edit (old_end x) (old_end od) (new_end x) ?ne"]
          exI [of _ "nw'\<lparr>old_range := (new_end od', old_end nw'), new_range := (?ne, new_end nw')\<rparr>"])
      (auto simp: compose_finish_old_def compose_steps aligned_def)
qed

text \<open>\<open>emits p q a m c raw\<close>: whatever has been composed so far, the loop pushes the edits \<open>raw\<close>, and
  they keep exactly what both patches keep.\<close>

definition emits :: "patch \<Rightarrow> patch \<Rightarrow> nat \<Rightarrow> nat \<Rightarrow> nat \<Rightarrow> patch \<Rightarrow> bool" where
  "emits p q a m c raw \<longleftrightarrow>
     (\<forall>acc. compose_loop p q (a, c, acc) = Some (foldl (\<lambda>r e. patch_push e r) acc raw))
     \<and> patch_from a c raw \<and> keeps_from a c raw = keeps_from a m p O keeps_from m c q"

lemma emits_step:
  assumes "emits p' q' (old_end x) m' (new_end x) raw"
    and "\<And>acc. compose_loop p q (a, c, acc) = compose_loop p' q' (old_end x, new_end x, patch_push x acc)"
    and "a \<le> old_start x" "c \<le> new_start x" "old_start x + c = new_start x + a" "old_start x \<le> old_end x" "new_start x \<le> new_end x"
    and "keeps_from a m p O keeps_from m c q
      = diag a c (old_start x - a) \<union> keeps_from (old_end x) m' p' O keeps_from m' (new_end x) q'"
  shows "\<exists>raw. emits p q a m c raw"
  using assms by (intro exI [of _ "x # raw"]) (simp add: emits_def)

lemma compose_loop_meet_ok:
  assumes IH: "\<And>p' q' a m c. length p' + length q' < length (od # p) + length (nw # q)
      \<Longrightarrow> patch_from a m p' \<Longrightarrow> patch_from m c q' \<Longrightarrow> \<exists>raw. emits p' q' a m c raw"
    and od: "patch_from a m (od # p)" and nw: "patch_from m c (nw # q)"
    and meet: "old_start nw \<le> new_end od" "new_start od \<le> old_end nw"
  shows "\<exists>raw. emits (od # p) (nw # q) a m c raw"
proof -
  from compose_align_ok [OF od nw meet] obtain x od' nw' where x: "aligned a c od nw x od' nw'"
    "\<And>acc. compose_align od nw (a, c, acc) = Some (od', nw', old_end x, new_end x, patch_push x acc)"
    "keeps_from a m (od # p) O keeps_from m c (nw # q) = diag a c (old_start x - a)
      \<union> keeps_from (old_end od) (new_end od) p O keeps_from (old_end nw) (new_end nw) q"
    by blast
  have ends: "new_end od' = new_end od" "old_end nw' = old_end nw" using x(1) by (simp_all add: aligned_def)
  have from_p: "patch_from (old_end od) (new_end od) p" and from_q: "patch_from (old_end nw) (new_end nw) q"
    using od nw by simp_all
  have guard: "\<not> new_end od < old_start nw" "\<not> old_end nw < new_start od" using meet by simp_all
  have "\<exists>y p' q' m' raw. emits p' q' (old_end y) m' (new_end y) raw
      \<and> (\<forall>acc. compose_loop (od # p) (nw # q) (a, c, acc)
            = compose_loop p' q' (old_end y, new_end y, patch_push y (patch_push x acc)))
      \<and> old_start y = old_end x \<and> new_start y = new_end x \<and> old_start y \<le> old_end y \<and> new_start y \<le> new_end y
      \<and> keeps_from (old_end y) m' p' O keeps_from m' (new_end y) q'
          = keeps_from (old_end od) (new_end od) p O keeps_from (old_end nw) (new_end nw) q"
  proof (cases "old_end nw < new_end od")
    case True
    from compose_finish_new_ok [OF x(1) True] obtain y od'' where
      y: "old_start y = old_end x" "new_start y = new_end x" "old_start y \<le> old_end y" "new_start y \<le> new_end y"
      "\<And>acc. compose_finish_new od' nw' (old_end x, new_end x, acc) = Some (od'', old_end y, new_end y, patch_push y acc)"
      "new_end y = new_end nw" "old_range od'' = (old_end y, old_end od)" "new_range od'' = (old_end nw, new_end od)"
      "old_end y \<le> old_end od"
      by blast
    have "patch_from (old_end y) (old_end nw) (od'' # p)" using y True from_p by simp
    from IH [OF _ this from_q] obtain raw where "emits (od'' # p) q (old_end y) (old_end nw) (new_end y) raw"
      unfolding y(6) by auto
    then show ?thesis
      using y guard x(2) ends True
      by (intro exI [of _ y] exI [of _ "od'' # p"] exI [of _ q] exI [of _ "old_end nw"] exI [of _ raw]) simp
  next
    case False
    then have le: "new_end od \<le> old_end nw" by simp
    from compose_finish_old_ok [OF x(1) le] obtain y nw'' where
      y: "old_start y = old_end x" "new_start y = new_end x" "old_start y \<le> old_end y" "new_start y \<le> new_end y"
      "\<And>acc. compose_finish_old od' nw' (old_end x, new_end x, acc) = Some (nw'', old_end y, new_end y, patch_push y acc)"
      "old_end y = old_end od" "old_range nw'' = (new_end od, old_end nw)" "new_range nw'' = (new_end y, new_end nw)"
      "new_end y \<le> new_end nw"
      by blast
    have "patch_from (new_end od) (new_end y) (nw'' # q)" using y le from_q by simp
    from IH [OF _ from_p this] obtain raw where "emits p (nw'' # q) (old_end y) (new_end od) (new_end y) raw"
      unfolding y(6) by auto
    then show ?thesis
      using y guard x(2) ends False
      by (intro exI [of _ y] exI [of _ p] exI [of _ "nw'' # q"] exI [of _ "new_end od"] exI [of _ raw]) simp
  qed
  then obtain y p' q' m' raw where y: "emits p' q' (old_end y) m' (new_end y) raw"
    "\<And>acc. compose_loop (od # p) (nw # q) (a, c, acc)
      = compose_loop p' q' (old_end y, new_end y, patch_push y (patch_push x acc))"
    "old_start y = old_end x" "new_start y = new_end x" "old_start y \<le> old_end y" "new_start y \<le> new_end y"
    "keeps_from (old_end y) m' p' O keeps_from m' (new_end y) q'
      = keeps_from (old_end od) (new_end od) p O keeps_from (old_end nw) (new_end nw) q"
    by blast
  then have "emits (od # p) (nw # q) a m c (x # y # raw)"
    using x(1,3) by (simp add: emits_def aligned_def del: keeps_from.simps(2)) (simp add: y)
  then show ?thesis ..
qed

lemma compose_loop_ok:
  assumes "patch_from a m p" "patch_from m c q"
  shows "\<exists>raw. emits p q a m c raw"
  using assms
proof (induction "length p + length q" arbitrary: p q a m c rule: less_induct)
  case less
  have old_case: ?case if p: "p = e # p'" and gap: "has_gap m (new_end e - m) q"
    and loop: "\<And>st. compose_loop p q st = do { st \<leftarrow> compose_old e st; compose_loop p' q st }" for e p'
  proof -
    note ok = compose_old_ok [OF less.prems(1) [unfolded p] less.prems(2) gap]
    let ?x = "mk_edit (old_start e) (old_end e) (c + (old_start e - a)) (c + (new_end e - m))"
    from less.hyps [of p' q, OF _ ok(2,3)] p obtain raw where
      "emits p' q (old_end ?x) (new_end e) (new_end ?x) raw" by auto
    then show ?thesis
      by (rule emits_step) (use ok(1,4,5) loop p less.prems(1) in auto)
  qed
  have new_case: ?case if q: "q = e # q'" and gap: "has_gap a (old_end e - m) p"
    and loop: "\<And>st. compose_loop p q st = do { st \<leftarrow> compose_new e st; compose_loop p q' st }" for e q'
  proof -
    note ok = compose_new_ok [OF less.prems(1) less.prems(2) [unfolded q] gap]
    let ?x = "mk_edit (a + (old_start e - m)) (a + (old_end e - m)) (new_start e) (new_end e)"
    from less.hyps [of p q', OF _ ok(2,3)] q obtain raw where
      "emits p q' (old_end ?x) (old_end e) (new_end ?x) raw" by auto
    then show ?thesis
      by (rule emits_step) (use ok(1,4,5) loop q less.prems(2) in auto)
  qed
  show ?case
  proof (cases p)
    case p: Nil
    show ?thesis
    proof (cases q)
      case Nil
      with p show ?thesis
        by (intro exI [of _ "[]"]) (auto simp: emits_def relcomp_unfold)
    next
      case (Cons e q')
      with p show ?thesis by (intro new_case) (auto simp: has_gap_def)
    qed
  next
    case p: (Cons od p')
    show ?thesis
    proof (cases q)
      case Nil
      with p show ?thesis by (intro old_case) (auto simp: has_gap_def)
    next
      case q: (Cons nw q')
      consider "new_end od < old_start nw" | "\<not> new_end od < old_start nw" "old_end nw < new_start od"
        | "old_start nw \<le> new_end od" "new_start od \<le> old_end nw" by linarith
      then show ?thesis
      proof cases
        case 1
        with p q less.prems show ?thesis by (intro old_case) (auto simp: has_gap_def)
      next
        case 2
        with p q less.prems show ?thesis by (intro new_case) (auto simp: has_gap_def)
      next
        case 3
        show ?thesis
          using compose_loop_meet_ok [OF _ less.prems [unfolded p q] 3] less.hyps p q by simp
      qed
    qed
  qed
qed

section \<open>Pushing\<close>

definition no_empty :: "patch \<Rightarrow> bool" where
  "no_empty p = list_all (\<lambda>e. \<not> edit_is_empty e) p"

lemma patch_push_Cons:
  "p \<noteq> [] \<Longrightarrow> patch_push e (r # p) = r # patch_push e p"
  by (auto simp: patch_push_def push_maybe_empty_def Let_def)

lemma skip_empty_edit:
  assumes "patch_from a c (e # p)" "edit_is_empty e"
  shows "patch_from a c p" "keeps_from a c p = keeps_from a c (e # p)"
proof -
  obtain g l n where e: "old_range e = (a + g, a + g + l)" "new_range e = (c + g, c + g + n)"
    "patch_from (a + g + l) (c + g + n) p" using assms(1) by (rule patch_from_ConsE)
  with assms(2) have z: "l = 0" "n = 0" by (auto simp: edit_is_empty_def)
  from e(3) z show wf: "patch_from a c p" by (cases p) auto
  have "has_gap a g p" using e(3) z by (cases p) (auto simp: has_gap_def)
  from gap_split(1) [OF wf this] show "keeps_from a c p = keeps_from a c (e # p)" using e z by simp
qed

lemma patch_push_ok:
  "patch_from a c (r @ e # p) \<Longrightarrow>
     patch_from a c (patch_push e r @ p) \<and> keeps_from a c (patch_push e r @ p) = keeps_from a c (r @ e # p)"
proof (induction r arbitrary: a c)
  case Nil
  then show ?case
    using skip_empty_edit [of a c e p] by (auto simp: patch_push_def push_maybe_empty_def)
next
  case (Cons l r)
  show ?case
  proof (cases r)
    case Nil
    then show ?thesis
      using Cons.prems skip_empty_edit [of "old_end l" "new_end l" e p]
      by (auto simp: patch_push_def push_maybe_empty_def Let_def)
  next
    case (Cons l' r')
    with Cons.IH [of "old_end l" "new_end l"] Cons.prems show ?thesis by (simp add: patch_push_Cons)
  qed
qed

lemma patch_push_first:
  "\<exists>l' r'. patch_push e (l # r) = l' # r' \<and> old_start l' = old_start l \<and> new_start l' = new_start l"
  by (cases r) (auto simp: patch_push_def push_maybe_empty_def Let_def)

lemma patch_push_separated:
  "patch_from a c (r @ [e]) \<Longrightarrow> separated r \<Longrightarrow> no_empty r \<Longrightarrow> separated (patch_push e r) \<and> no_empty (patch_push e r)"
proof (induction r arbitrary: a c)
  case Nil
  then show ?case by (auto simp: patch_push_def push_maybe_empty_def no_empty_def)
next
  case (Cons l r)
  show ?case
  proof (cases r)
    case Nil
    with Cons.prems show ?thesis
      by (auto simp: patch_push_def push_maybe_empty_def Let_def no_empty_def edit_is_empty_def)
  next
    case r: (Cons l' r')
    have "separated (patch_push e r) \<and> no_empty (patch_push e r)"
      using Cons.IH [of "old_end l" "new_end l"] Cons.prems r by (simp add: no_empty_def)
    moreover obtain r2 rs where "patch_push e r = r2 # rs" "old_start r2 = old_start l'" "new_start r2 = new_start l'"
      using patch_push_first [of e l' r'] r by blast
    ultimately show ?thesis using Cons.prems r by (simp add: patch_push_Cons no_empty_def)
  qed
qed

lemma push_all_ok:
  "patch_from a c (r @ raw) \<Longrightarrow> separated r \<Longrightarrow> no_empty r \<Longrightarrow>
    (let p = foldl (\<lambda>r e. patch_push e r) r raw
     in patch_from a c p \<and> keeps_from a c p = keeps_from a c (r @ raw) \<and> separated p \<and> no_empty p)"
proof (induction raw arbitrary: r)
  case (Cons e raw)
  from patch_push_ok [OF Cons.prems(1)]
  have push: "patch_from a c (patch_push e r @ raw)" "keeps_from a c (patch_push e r @ raw) = keeps_from a c (r @ e # raw)"
    by simp_all
  have "patch_from a c (r @ [e])" using Cons.prems(1)
    by (induction r arbitrary: a c) auto
  from Cons.IH [OF push(1)] patch_push_separated [OF this Cons.prems(2,3)] push(2) show ?case
    by (simp add: Let_def)
qed simp

lemma compose_ok:
  assumes "patch_wf p" "patch_wf q"
  shows "\<exists>r. compose p q = Some r \<and> patch_wf r \<and> separated r \<and> no_empty r \<and> keeps r = keeps p O keeps q"
proof -
  from compose_loop_ok [of 0 0 p 0 q] assms obtain raw where "emits p q 0 0 0 raw" by (auto simp: patch_wf_def)
  with push_all_ok [of 0 0 "[]" raw] show ?thesis
    by (auto simp: emits_def compose_def patch_wf_def keeps_def Let_def no_empty_def)
qed

section \<open>Patches and texts\<close>

text \<open>A patch turns one text into another when the two agree on what it keeps.\<close>

definition transforms :: "patch \<Rightarrow> 'a list \<Rightarrow> 'a list \<Rightarrow> bool" where
  "transforms p s t \<longleftrightarrow>
     (\<forall>(i, j) \<in> keeps p. (i < length s \<longleftrightarrow> j < length t) \<and> (i < length s \<longrightarrow> s ! i = t ! j))"

lemma transforms_compose:
  assumes "patch_wf p" "patch_wf q" "transforms p s t" "transforms q t u"
  shows "\<exists>r. compose p q = Some r \<and> transforms r s u"
proof -
  from compose_ok [OF assms(1,2)] obtain r where r: "compose p q = Some r" "keeps r = keeps p O keeps q" by blast
  have "transforms r s u"
    unfolding transforms_def
  proof (clarify, intro conjI impI)
    fix i k assume "(i, k) \<in> keeps r"
    then obtain j where j: "(i, j) \<in> keeps p" "(j, k) \<in> keeps q" using r(2) by blast
    show "i < length s \<longleftrightarrow> k < length u" using j assms(3,4) unfolding transforms_def by blast
    show "s ! i = u ! k" if "i < length s" using that j assms(3,4) unfolding transforms_def by fastforce
  qed
  with r(1) show ?thesis by blast
qed

lemma invert_from:
  assumes "patch_from a c p"
  shows "patch_from c a (invert p)" "keeps_from c a (invert p) = (keeps_from a c p)\<inverse>"
proof -
  have diag: "diag c a k = (diag a c k)\<inverse>" for a c k by (auto simp: diag_def)
  show "patch_from c a (invert p)" using assms by (induction p arbitrary: a c) (auto simp: invert_def)
  show "keeps_from c a (invert p) = (keeps_from a c p)\<inverse>"
    using assms
  proof (induction p arbitrary: a c)
    case (Cons e p)
    have "new_start e - c = old_start e - a" using Cons.prems by auto
    with Cons diag [of c a] show ?case by (auto simp: invert_def)
  qed (auto simp: invert_def)
qed

lemma invert_ok:
  assumes "patch_wf p"
  shows "patch_wf (invert p)" "keeps (invert p) = (keeps p)\<inverse>" "invert (invert p) = p"
  using invert_from [of 0 0 p] assms by (auto simp: patch_wf_def keeps_def invert_def intro: map_idI)

section \<open>Translation\<close>

text \<open>The last edit that starts at or before the position, if any, decides.\<close>

definition translate :: "patch \<Rightarrow> nat \<Rightarrow> nat" where
  "translate p pos =
     (case takeWhile (\<lambda>e. old_start e \<le> pos) p of
        [] \<Rightarrow> pos
      | q \<Rightarrow> (let e = last q in if pos \<ge> old_end e then new_end e + (pos - old_end e) else new_start e))"

lemma takeWhile_le_Suc:
  assumes "sorted_wrt (<) ks"
  shows "takeWhile (\<lambda>k. k \<le> x) ks = (let q = takeWhile (\<lambda>k. k < x) ks in
     if length q < length ks \<and> ks ! length q = (x :: nat) then q @ [x] else q)"
  using assms
proof (induction ks)
  case (Cons k ks)
  have "takeWhile (\<lambda>k. k \<le> x) ks = []" if "x \<le> k" using Cons.prems that by (cases ks) auto
  with Cons show ?case by (auto simp: Let_def)
qed simp

lemma binary_search_floor:
  fixes x :: nat
  assumes "sorted_wrt (<) ks"
  defines "n \<equiv> length (takeWhile (\<lambda>k. k \<le> x) ks)"
  shows "binary_search ks x = (if 0 < n \<and> ks ! (n - 1) = x then Inr (n - 1) else Inl n)"
proof -
  let ?q = "takeWhile (\<lambda>k. k < x) ks"
  have below: "ks ! i < x" if "i < length ?q" for i
    using that by (metis nth_mem set_takeWhileD takeWhile_nth)
  show ?thesis
  proof (cases "length ?q < length ks \<and> ks ! length ?q = x")
    case True
    then have "n = Suc (length ?q)" using takeWhile_le_Suc [OF assms(1), of x] by (simp add: n_def)
    with True show ?thesis by (simp add: binary_search_def)
  next
    case False
    then have "n = length ?q" using takeWhile_le_Suc [OF assms(1), of x] by (auto simp: n_def Let_def)
    with False below [of "n - 1"] show ?thesis by (auto simp: binary_search_def Let_def)
  qed
qed

lemma separated_starts: "patch_from a c p \<Longrightarrow> separated p \<Longrightarrow> sorted_wrt (<) (map old_start p)"
proof (induction p arbitrary: a c)
  case (Cons e p)
  have sep: "separated p" using Cons.prems(2) by (cases p) auto
  with Cons.IH [of "old_end e" "new_end e"] Cons.prems(1) have IH: "sorted_wrt (<) (map old_start p)" by simp
  moreover have "old_start e < old_start e'" if "e' \<in> set p" for e'
  proof (cases p)
    case (Cons f p')
    have "old_start f \<le> old_start e'" using that IH Cons by auto
    with Cons Cons.prems show ?thesis by auto
  qed (use that in simp)
  ultimately show ?case by simp
qed simp

lemma takeWhile_map_length: "length (takeWhile (\<lambda>k. k \<le> x) (map f p)) = length (takeWhile (\<lambda>e. f e \<le> x) p)"
  by (simp add: takeWhile_map o_def)

lemma old_to_new_translate:
  assumes "patch_wf p" "separated p"
  shows "old_to_new p pos = Some (translate p pos)"
proof -
  let ?q = "takeWhile (\<lambda>e. old_start e \<le> pos) p"
  have search: "binary_search (map old_start p) pos =
      (if 0 < length ?q \<and> map old_start p ! (length ?q - 1) = pos then Inr (length ?q - 1) else Inl (length ?q))"
    using binary_search_floor [OF separated_starts, of 0 0 p pos] assms
    by (simp add: patch_wf_def takeWhile_map_length)
  show ?thesis
  proof (cases "length ?q")
    case 0
    with search show ?thesis by (simp add: old_to_new_def translate_def)
  next
    case (Suc n)
    then obtain e es where q: "?q = e # es" by (cases ?q) auto
    have len: "length ?q \<le> length p" by (rule length_takeWhile_le)
    have "p ! n = last ?q"
      using Suc takeWhile_nth [of n "\<lambda>e. old_start e \<le> pos" p] last_conv_nth [of ?q] by fastforce
    with search Suc len q show ?thesis
      by (auto simp: old_to_new_def translate_def Let_def split: nat.splits)
  qed
qed

lemma translate_keeps_from:
  "patch_from a c p \<Longrightarrow> (i, j) \<in> keeps_from a c p \<Longrightarrow>
    j = (case takeWhile (\<lambda>e. old_start e \<le> i) p of
           [] \<Rightarrow> c + (i - a) | q \<Rightarrow> new_end (last q) + (i - old_end (last q)))
    \<and> (\<forall>e \<in> set (takeWhile (\<lambda>e. old_start e \<le> i) p). old_end e \<le> i)"
proof (induction p arbitrary: a c)
  case (Cons e p)
  show ?case
  proof (cases "(i, j) \<in> diag a c (old_start e - a)")
    case True
    then show ?thesis by (auto simp: diag_def)
  next
    case False
    then have mem: "(i, j) \<in> keeps_from (old_end e) (new_end e) p" using Cons.prems(2) by simp
    from Cons.prems(1) have wf: "patch_from (old_end e) (new_end e) p" and le: "old_start e \<le> old_end e" by simp_all
    from keeps_from_ge [OF wf mem] le Cons.IH [OF wf mem] show ?thesis
      by (auto split: list.splits)
  qed
qed auto

lemma old_to_new_keeps:
  assumes "patch_wf p" "separated p" "(i, j) \<in> keeps p"
  shows "old_to_new p i = Some j"
proof -
  let ?q = "takeWhile (\<lambda>e. old_start e \<le> i) p"
  from translate_keeps_from [of 0 0 p i j] assms
  have "j = (case ?q of [] \<Rightarrow> i | q \<Rightarrow> new_end (last q) + (i - old_end (last q)))"
    and "\<forall>e \<in> set ?q. old_end e \<le> i" by (simp_all add: patch_wf_def keeps_def cong: list.case_cong)
  then show ?thesis
    unfolding old_to_new_translate [OF assms(1,2)] translate_def
    by (cases ?q) (auto simp: Let_def)
qed

text \<open>A position inside a replaced range goes to the start of the replacement.\<close>

lemma takeWhile_last_edit:
  fixes p :: patch
  assumes "sorted_wrt (<) (map old_start p)" "e \<in> set p" "old_start e \<le> pos"
    and "\<And>e'. e' \<in> set p \<Longrightarrow> old_start e < old_start e' \<Longrightarrow> pos < old_start e'"
  shows "takeWhile (\<lambda>e. old_start e \<le> pos) p \<noteq> [] \<and> last (takeWhile (\<lambda>e. old_start e \<le> pos) p) = e"
  using assms
proof (induction p)
  case (Cons f p)
  show ?case
  proof (cases "e = f")
    case True
    then have "takeWhile (\<lambda>e. old_start e \<le> pos) p = []"
      using Cons.prems(1) Cons.prems(4) [of "hd p"] by (cases p) simp_all
    with True Cons.prems(3) show ?thesis by simp
  next
    case False
    then have "e \<in> set p" using Cons.prems(2) by simp
    moreover from this have "old_start f < old_start e" using Cons.prems(1) by simp
    then have "old_start f \<le> pos" using Cons.prems(3) by simp
    ultimately show ?thesis using Cons.IH Cons.prems by simp
  qed
qed simp

lemma separated_end_before:
  "patch_from a c p \<Longrightarrow> separated p \<Longrightarrow> e \<in> set p \<Longrightarrow> e' \<in> set p \<Longrightarrow> old_start e < old_start e' \<Longrightarrow> old_end e < old_start e'"
proof (induction p arbitrary: a c)
  case (Cons f p)
  have sorted: "sorted_wrt (<) (map old_start (f # p))" by (rule separated_starts [OF Cons.prems(1,2)])
  have sep: "separated p" using Cons.prems(2) by (cases p) auto
  show ?case
  proof (cases "e = f")
    case True
    then have e': "e' \<in> set p" using Cons.prems(4,5) by auto
    then obtain g p' where p: "p = g # p'" by (cases p) auto
    have "old_start g \<le> old_start e'" using sorted e' p by auto
    with True p Cons.prems(2) show ?thesis by auto
  next
    case False
    then have "e \<in> set p" using Cons.prems(3) by simp
    moreover from this have "old_start f < old_start e" using sorted by simp
    ultimately show ?thesis
      using Cons.IH [of "old_end f" "new_end f"] Cons.prems sep by auto
  qed
qed simp

lemma old_to_new_replaced:
  assumes "patch_wf p" "separated p" "e \<in> set p" "old_start e \<le> pos" "pos < old_end e"
  shows "old_to_new p pos = Some (new_start e)"
proof -
  let ?q = "takeWhile (\<lambda>e. old_start e \<le> pos) p"
  have "?q \<noteq> [] \<and> last ?q = e"
  proof (rule takeWhile_last_edit [OF _ assms(3,4)])
    show "sorted_wrt (<) (map old_start p)" using assms(1,2) by (simp add: patch_wf_def separated_starts)
    show "pos < old_start e'" if "e' \<in> set p" "old_start e < old_start e'" for e'
      using separated_end_before [of 0 0 p e e'] that assms by (simp add: patch_wf_def)
  qed
  with assms(5) show ?thesis
    unfolding old_to_new_translate [OF assms(1,2)] translate_def by (cases ?q) (auto simp: Let_def)
qed

section \<open>Building a patch from left to right\<close>

text \<open>The patch under construction describes the change from one prefix to another, and both prefixes
  end where its last gap ends.\<close>

definition patch_upto :: "patch \<Rightarrow> 'a list \<Rightarrow> 'a list \<Rightarrow> bool" where
  "patch_upto p s t \<longleftrightarrow> transforms p s t \<and> separated p \<and> no_empty p
     \<and> patch_from 0 0 (p @ [mk_edit (length s) (length s) (length t) (length t)])"

lemma patch_from_prefix: "patch_from a c (r @ q) \<Longrightarrow> patch_from a c r"
  by (induction r arbitrary: a c) auto

lemma patch_from_replace_last:
  "patch_from a c (r @ [mk_edit x x y y]) \<Longrightarrow> x \<le> x' \<Longrightarrow> y \<le> y' \<Longrightarrow> patch_from x' y' q \<Longrightarrow> patch_from a c (r @ mk_edit x x' y y' # q)"
  by (induction r arbitrary: a c) auto

lemma keeps_from_snoc:
  assumes "patch_from a c (r @ [e])"
  shows "keeps_from a c (r @ [e]) = {(i, j) \<in> keeps_from a c r. i < old_start e} \<union> {(old_end e + m, new_end e + m) | m. True}"
  using assms
proof (induction r arbitrary: a c)
  case Nil
  then have "diag a c (old_start e - a) = {(i, j) \<in> {(a + i, c + i) | i. True}. i < old_start e}"
    by (auto simp: diag_def)
  then show ?case by simp
next
  case (Cons x r)
  have le: "a \<le> old_start x" "old_start x \<le> old_start e"
  proof -
    show "a \<le> old_start x" using Cons.prems by simp
    have "patch_from (old_end x) (new_end x) (r @ [e]) \<Longrightarrow> old_end x \<le> old_start e"
      by (induction r arbitrary: x) fastforce+
    then show "old_start x \<le> old_start e" using Cons.prems by simp
  qed
  have IH: "keeps_from (old_end x) (new_end x) (r @ [e]) =
      {(i, j) \<in> keeps_from (old_end x) (new_end x) r. i < old_start e} \<union> {(old_end e + m, new_end e + m) | m. True}"
    using Cons by simp
  have d: "{(i, j) \<in> diag a c (old_start x - a). i < old_start e} = diag a c (old_start x - a)"
    using le by (auto simp: diag_def)
  have "{(i, j) \<in> keeps_from a c (x # r). i < old_start e} =
      {(i, j) \<in> diag a c (old_start x - a). i < old_start e} \<union> {(i, j) \<in> keeps_from (old_end x) (new_end x) r. i < old_start e}"
    by auto
  with IH d show ?case by (simp add: Un_assoc)
qed

lemma keeps_upto:
  assumes "patch_upto p s t"
  shows "keeps p = {(i, j) \<in> keeps p. i < length s \<and> j < length t} \<union> {(length s + m, length t + m) | m. True}"
proof -
  let ?e = "mk_edit (length s) (length s) (length t) (length t)"
  have wf: "patch_from 0 0 (p @ [?e])" using assms by (simp add: patch_upto_def)
  have "patch_push ?e p = p" by (simp add: patch_push_def edit_is_empty_def)
  with patch_push_ok [of 0 0 p ?e "[]"] wf have "keeps p = keeps_from 0 0 (p @ [?e])" by (simp add: keeps_def)
  with keeps_from_snoc [OF wf]
  have k: "keeps p = {(i, j) \<in> keeps p. i < length s} \<union> {(length s + m, length t + m) | m. True}" by (simp add: keeps_def)
  have "{(i, j) \<in> keeps p. i < length s} = {(i, j) \<in> keeps p. i < length s \<and> j < length t}"
    using assms by (auto simp: patch_upto_def transforms_def)
  with k show ?thesis by simp
qed

lemma patch_upto_Nil [simp]: "patch_upto [] [] []"
  by (auto simp: patch_upto_def transforms_def no_empty_def)

lemma patch_upto_copy:
  assumes "patch_upto p s t"
  shows "patch_upto p (s @ z) (t @ z)"
proof -
  have k: "i < length s \<and> j < length t \<or> (\<exists>m. i = length s + m \<and> j = length t + m)" if "(i, j) \<in> keeps p" for i j
    using keeps_upto [OF assms] that by blast
  have "transforms p (s @ z) (t @ z)"
    unfolding transforms_def
  proof clarify
    fix i j assume ij: "(i, j) \<in> keeps p"
    then have st: "i < length s \<Longrightarrow> s ! i = t ! j" using assms by (auto simp: patch_upto_def transforms_def)
    show "(i < length (s @ z) \<longleftrightarrow> j < length (t @ z)) \<and> (i < length (s @ z) \<longrightarrow> (s @ z) ! i = (t @ z) ! j)"
      using k [OF ij] st by (auto simp: nth_append)
  qed
  moreover have "patch_from 0 0 (p @ [mk_edit (length s + n) (length s + n) (length t + n) (length t + n)])" for n
  proof -
    have "patch_from a c (p @ [mk_edit x x y y]) \<Longrightarrow> patch_from a c (p @ [mk_edit (x + n) (x + n) (y + n) (y + n)])" for a c x y
      by (induction p arbitrary: a c) auto
    then show ?thesis using assms by (simp add: patch_upto_def)
  qed
  ultimately show ?thesis using assms by (simp add: patch_upto_def)
qed

lemma patch_upto_push:
  assumes "patch_upto p s t" "l = length x" "n = length y"
  shows "patch_upto (patch_push (mk_edit (length s) (length s + l) (length t) (length t + n)) p) (s @ x) (t @ y)"
proof -
  let ?e = "mk_edit (length s) (length s + l) (length t) (length t + n)"
  let ?fin = "mk_edit (length s + l) (length s + l) (length t + n) (length t + n)"
  have wf: "patch_from 0 0 (p @ ?e # [?fin])"
    by (rule patch_from_replace_last) (use assms(1) in \<open>simp_all add: patch_upto_def\<close>)
  then have wf1: "patch_from 0 0 (p @ [?e])" using patch_from_prefix [of 0 0 "p @ [?e]" "[?fin]"] by simp
  have "keeps (patch_push ?e p) = {(i, j) \<in> keeps p. i < length s} \<union> {(length s + l + m, length t + n + m) | m. True}"
  proof -
    have "keeps (patch_push ?e p) = keeps_from 0 0 (p @ [?e])"
      using patch_push_ok [OF wf1] by (simp add: keeps_def)
    also note keeps_from_snoc [OF wf1]
    finally show ?thesis by (simp add: keeps_def)
  qed
  then have k: "(i, j) \<in> keeps p \<and> i < length s \<or> (\<exists>m. i = length s + l + m \<and> j = length t + n + m)"
    if "(i, j) \<in> keeps (patch_push ?e p)" for i j using that by blast
  have old: "j < length t \<and> s ! i = t ! j" if "(i, j) \<in> keeps p" "i < length s" for i j
    using assms(1) that by (auto simp: patch_upto_def transforms_def)
  have "transforms (patch_push ?e p) (s @ x) (t @ y)"
    unfolding transforms_def
  proof clarify
    fix i j assume "(i, j) \<in> keeps (patch_push ?e p)"
    from k [OF this] show "(i < length (s @ x) \<longleftrightarrow> j < length (t @ y)) \<and> (i < length (s @ x) \<longrightarrow> (s @ x) ! i = (t @ y) ! j)"
      using old [of i j] assms(2,3) by (auto simp: nth_append)
  qed
  moreover have "separated (patch_push ?e p) \<and> no_empty (patch_push ?e p)"
    using patch_push_separated [OF wf1] assms(1) by (simp add: patch_upto_def)
  moreover have "patch_from 0 0 (patch_push ?e p @ [?fin])" using patch_push_ok [OF wf] by simp
  ultimately show ?thesis using assms(2,3) by (simp add: patch_upto_def)
qed

lemma patch_upto_wf: "patch_upto p s t \<Longrightarrow> patch_wf p \<and> separated p \<and> transforms p s t"
  by (auto simp: patch_upto_def patch_wf_def dest: patch_from_prefix)
end
