(* ===== verification/Subscription.thy ===== *)
theory Subscription
  imports Patch
begin

text \<open>
  \<^verbatim>\<open>crates/text/src/subscription.rs\<close>: a topic sends every batch of edits to its live subscriptions,
  each of which composes them into one patch until it is consumed.  The shared patches are a store
  indexed by subscription; a \<^verbatim>\<open>Weak\<close> that cannot be upgraded is an index with no entry.
\<close>

record topic =
  listeners :: "nat list"
  pending :: "nat \<rightharpoonup> patch"

definition topic_default :: topic where
  "topic_default = \<lparr>listeners = [], pending = Map.empty\<rparr>"

text \<open>\<open>n\<close> is the address of the freshly allocated patch.\<close>

definition subscribe :: "nat \<Rightarrow> topic \<Rightarrow> topic" where
  "subscribe n t = t\<lparr>listeners := listeners t @ [n], pending := (pending t)(n \<mapsto> patch_empty)\<rparr>"

text \<open>The \<^verbatim>\<open>retain\<close> loop of \<^verbatim>\<open>publish\<close>, one listener at a time.\<close>

fun publish_loop :: "nat edit list \<Rightarrow> nat list \<Rightarrow> (nat \<rightharpoonup> patch) \<Rightarrow> (nat list \<times> (nat \<rightharpoonup> patch)) option" where
  "publish_loop edits [] store = Some ([], store)"
| "publish_loop edits (n # ns) store =
     (case store n of
        Some p \<Rightarrow> do {
          p' \<leftarrow> compose p edits;
          (ns', store') \<leftarrow> publish_loop edits ns (store(n \<mapsto> p'));
          Some (n # ns', store') }
      | None \<Rightarrow> publish_loop edits ns store)"

definition publish :: "nat edit list \<Rightarrow> topic \<Rightarrow> topic option" where
  "publish edits t = do {
     (ns, store) \<leftarrow> publish_loop edits (listeners t) (pending t);
     Some \<lparr>listeners = ns, pending = store\<rparr>
   }"

text \<open>\<^verbatim>\<open>Subscription::consume\<close> takes the patch and leaves the empty one.\<close>

definition consume :: "nat \<Rightarrow> topic \<Rightarrow> (patch \<times> topic) option" where
  "consume n t = (case pending t n of
     Some p \<Rightarrow> Some (p, t\<lparr>pending := (pending t)(n \<mapsto> patch_empty)\<rparr>)
   | None \<Rightarrow> None)"

text \<open>Dropping the subscription frees the patch; the topic notices at its next \<^verbatim>\<open>publish\<close>.\<close>

definition unsubscribe :: "nat \<Rightarrow> topic \<Rightarrow> topic" where
  "unsubscribe n t = t\<lparr>pending := (pending t)(n := None)\<rparr>"

section \<open>Invariant\<close>

definition topic_wf :: "topic \<Rightarrow> bool" where
  "topic_wf t = (distinct (listeners t)
     \<and> (\<forall>n p. pending t n = Some p \<longrightarrow> n \<in> set (listeners t) \<and> patch_wf p))"

lemma publish_loop_ok:
  assumes "patch_wf edits" "distinct ns" "\<forall>n \<in> set ns. \<forall>p. store n = Some p \<longrightarrow> patch_wf p"
  shows "\<exists>store'. publish_loop edits ns store = Some (filter (\<lambda>n. store n \<noteq> None) ns, store')
    \<and> (\<forall>n. n \<notin> set ns \<longrightarrow> store' n = store n)
    \<and> (\<forall>n \<in> set ns. case store n of None \<Rightarrow> store' n = None
        | Some p \<Rightarrow> (\<exists>p'. compose p edits = Some p' \<and> store' n = Some p' \<and> patch_wf p'))"
  using assms(2,3)
proof (induction ns arbitrary: store)
  case (Cons n ns)
  show ?case
  proof (cases "store n")
    case None
    from Cons.IH [of store] Cons.prems obtain store' where
      s: "publish_loop edits ns store = Some (filter (\<lambda>n. store n \<noteq> None) ns, store')"
      "\<forall>n. n \<notin> set ns \<longrightarrow> store' n = store n"
      "\<forall>n \<in> set ns. case store n of None \<Rightarrow> store' n = None
        | Some p \<Rightarrow> (\<exists>p'. compose p edits = Some p' \<and> store' n = Some p' \<and> patch_wf p')" by auto
    with None Cons.prems(1) show ?thesis by simp
  next
    case (Some p)
    with Cons.prems(2) assms(1) compose_ok [of p edits] obtain p' where
      p': "compose p edits = Some p'" "patch_wf p'" by auto
    have same: "m \<in> set ns \<Longrightarrow> (store(n \<mapsto> p')) m = store m" for m using Cons.prems(1) by auto
    have "\<forall>m \<in> set ns. \<forall>p. (store(n \<mapsto> p')) m = Some p \<longrightarrow> patch_wf p"
      using Cons.prems p'(2) by simp
    from Cons.IH [OF _ this] Cons.prems(1) obtain store' where
      s: "publish_loop edits ns (store(n \<mapsto> p')) = Some (filter (\<lambda>m. (store(n \<mapsto> p')) m \<noteq> None) ns, store')"
      "\<forall>m. m \<notin> set ns \<longrightarrow> store' m = (store(n \<mapsto> p')) m"
      "\<forall>m \<in> set ns. case (store(n \<mapsto> p')) m of None \<Rightarrow> store' m = None
        | Some p \<Rightarrow> (\<exists>p'. compose p edits = Some p' \<and> store' m = Some p' \<and> patch_wf p')"
      by (auto simp del: fun_upd_apply)
    have "filter (\<lambda>m. (store(n \<mapsto> p')) m \<noteq> None) ns = filter (\<lambda>m. store m \<noteq> None) ns"
      by (rule filter_cong) (use Some in simp_all)
    with s(1) Some p' have "publish_loop edits (n # ns) store = Some (filter (\<lambda>n. store n \<noteq> None) (n # ns), store')"
      by simp
    moreover have "store' n = Some p'" using s(2) Cons.prems(1) by simp
    moreover have "\<forall>m. m \<notin> set (n # ns) \<longrightarrow> store' m = store m" using s(2) by auto
    moreover have "\<forall>m \<in> set ns. case store m of None \<Rightarrow> store' m = None
        | Some p \<Rightarrow> (\<exists>p'. compose p edits = Some p' \<and> store' m = Some p' \<and> patch_wf p')"
    proof
      fix m assume "m \<in> set ns"
      with s(3) show "case store m of None \<Rightarrow> store' m = None
        | Some p \<Rightarrow> (\<exists>p'. compose p edits = Some p' \<and> store' m = Some p' \<and> patch_wf p')"
        unfolding same [OF \<open>m \<in> set ns\<close>, symmetric] by blast
    qed
    ultimately show ?thesis using Some p' by auto
  qed
qed simp

lemma publish_ok:
  assumes "topic_wf t" "patch_wf edits"
  shows "\<exists>t'. publish edits t = Some t' \<and> topic_wf t'
    \<and> listeners t' = filter (\<lambda>n. pending t n \<noteq> None) (listeners t)
    \<and> (\<forall>n. case pending t n of None \<Rightarrow> pending t' n = None
        | Some p \<Rightarrow> (\<exists>p'. pending t' n = Some p' \<and> keeps p' = keeps p O keeps edits))"
proof -
  have wf: "\<forall>n \<in> set (listeners t). \<forall>p. pending t n = Some p \<longrightarrow> patch_wf p" and dist: "distinct (listeners t)"
    and dom: "\<And>n. n \<notin> set (listeners t) \<Longrightarrow> pending t n = None"
    using assms(1) by (auto simp: topic_wf_def) (meson not_Some_eq)
  from publish_loop_ok [OF assms(2) dist wf] obtain store where
    s: "publish_loop edits (listeners t) (pending t) = Some (filter (\<lambda>n. pending t n \<noteq> None) (listeners t), store)"
    "\<And>n. n \<notin> set (listeners t) \<Longrightarrow> store n = pending t n"
    "\<And>n. n \<in> set (listeners t) \<Longrightarrow> case pending t n of None \<Rightarrow> store n = None
        | Some p \<Rightarrow> (\<exists>p'. compose p edits = Some p' \<and> store n = Some p' \<and> patch_wf p')"
    by blast
  have each: "case pending t n of None \<Rightarrow> store n = None
      | Some p \<Rightarrow> (\<exists>p'. store n = Some p' \<and> patch_wf p' \<and> keeps p' = keeps p O keeps edits)" for n
  proof (cases "pending t n")
    case None
    then show ?thesis using s(2,3) [of n] by (cases "n \<in> set (listeners t)") auto
  next
    case (Some p)
    then have n: "n \<in> set (listeners t)" using dom by fastforce
    with Some wf have "patch_wf p" by blast
    from compose_ok [OF this assms(2)] s(3) [OF n] Some show ?thesis by auto
  qed
  let ?t = "\<lparr>listeners = filter (\<lambda>n. pending t n \<noteq> None) (listeners t), pending = store\<rparr>"
  have "n \<in> set (filter (\<lambda>n. pending t n \<noteq> None) (listeners t)) \<and> patch_wf p" if "store n = Some p" for n p
    using each [of n] that dom [of n] by (cases "pending t n") auto
  then have "topic_wf ?t" using dist by (auto simp: topic_wf_def)
  moreover have "publish edits t = Some ?t" using s(1) by (simp add: publish_def)
  moreover have "case pending t n of None \<Rightarrow> pending ?t n = None
        | Some p \<Rightarrow> (\<exists>p'. pending ?t n = Some p' \<and> keeps p' = keeps p O keeps edits)" for n
    using each [of n] by (cases "pending t n") auto
  ultimately show ?thesis by (intro exI [of _ ?t] conjI allI) simp_all
qed

lemma subscribe_ok:
  assumes "topic_wf t" "n \<notin> set (listeners t)"
  shows "topic_wf (subscribe n t)" "pending (subscribe n t) n = Some patch_empty"
  using assms by (auto simp: subscribe_def topic_wf_def patch_empty_def patch_wf_def)

lemma consume_ok:
  assumes "topic_wf t" "consume n t = Some (p, t')"
  shows "topic_wf t'" "pending t n = Some p" "pending t' n = Some patch_empty" "listeners t' = listeners t"
    and "\<And>m. m \<noteq> n \<Longrightarrow> pending t' m = pending t m"
  using assms by (auto simp: consume_def topic_wf_def patch_empty_def patch_wf_def split: option.splits if_splits)

lemma unsubscribe_ok: "topic_wf t \<Longrightarrow> topic_wf (unsubscribe n t)"
  by (auto simp: unsubscribe_def topic_wf_def)

section \<open>What a subscriber receives\<close>

text \<open>Publishing several batches and then consuming gives one patch with the effect of all of them
  in order.\<close>

fun publish_all :: "nat edit list list \<Rightarrow> topic \<Rightarrow> topic option" where
  "publish_all [] t = Some t"
| "publish_all (b # bs) t = do { t' \<leftarrow> publish b t; publish_all bs t' }"

lemma publish_all_ok:
  assumes "topic_wf t" "list_all patch_wf bs" "pending t n = Some p"
  shows "\<exists>t' p'. publish_all bs t = Some t' \<and> topic_wf t' \<and> pending t' n = Some p'
    \<and> keeps p' = foldl (\<lambda>k b. k O keeps b) (keeps p) bs"
  using assms
proof (induction bs arbitrary: t p)
  case (Cons b bs)
  from publish_ok [of t b] Cons.prems obtain t1 where
    t1: "publish b t = Some t1" "topic_wf t1"
    "\<And>n. case pending t n of None \<Rightarrow> pending t1 n = None
        | Some p \<Rightarrow> (\<exists>p'. pending t1 n = Some p' \<and> keeps p' = keeps p O keeps b)" by auto
  from t1(3) [of n] Cons.prems(3) obtain p1 where "pending t1 n = Some p1" "keeps p1 = keeps p O keeps b" by auto
  with Cons.IH [OF t1(2), of p1] Cons.prems(2) t1(1) show ?case by simp
qed simp

lemma keeps_empty: "keeps patch_empty = Id"
  by (auto simp: keeps_def patch_empty_def)

lemma subscriber_receives_all:
  assumes "topic_wf t" "n \<notin> set (listeners t)" "list_all patch_wf bs"
  shows "\<exists>t' p t''. publish_all bs (subscribe n t) = Some t' \<and> consume n t' = Some (p, t'')
    \<and> keeps p = foldl (\<lambda>k b. k O keeps b) Id bs"
proof -
  note sub = subscribe_ok [OF assms(1,2)]
  from publish_all_ok [OF sub(1) assms(3) sub(2)] keeps_empty show ?thesis
    by (auto simp: consume_def)
qed

end
