(* ===== verification/SumTree.thy ===== *)
theory SumTree
  imports Prelude
begin

text \<open>
  \<^verbatim>\<open>crates/sum_tree/src/sum_tree.rs\<close>: the B+ tree every collection of the editor is built on.
  Leaves hold items with their summaries, internal nodes hold subtrees with theirs, and every
  node caches the sum of the summaries below it.  This theory has the data, construction and
  concatenation; \<open>SumTree_Find\<close> and \<open>Cursor\<close> have the search.

  The traits \<^verbatim>\<open>Item\<close> and \<^verbatim>\<open>Summary\<close> are a record of operations passed to every function; the
  context argument of the source is part of it.  \<^verbatim>\<open>Arc\<close> sharing is invisible to a functional model:
  \<^verbatim>\<open>make_mut\<close> clones on write.  Every \<^verbatim>\<open>unwrap\<close>, every \<^verbatim>\<open>unwrap_oob\<close> of a full \<^verbatim>\<open>ArrayVec\<close>, every
  over-full \<^verbatim>\<open>collect\<close> and every \<^verbatim>\<open>unreachable!()\<close> is the result \<open>None\<close>.
\<close>

section \<open>Data\<close>

record ('t, 's) summary_ops =
  summary_zero :: 's
  summary_add :: "'s \<Rightarrow> 's \<Rightarrow> 's"
  item_summary :: "'t \<Rightarrow> 's"

datatype bias = Left | Right

definition bias_invert :: "bias \<Rightarrow> bias" where
  "bias_invert b = (case b of Left \<Rightarrow> Right | Right \<Rightarrow> Left)"

definition TREE_BASE :: nat where
  "TREE_BASE = 6"

lemma TREE_BASE_pos [simp]: "0 < TREE_BASE" "Suc 0 \<le> TREE_BASE"
  by (simp_all add: TREE_BASE_def)

datatype ('t, 's) sum_tree =
    Internal nat 's "'s list" "('t, 's) sum_tree list"
  | Leaf 's "'t list" "'s list"

text \<open>\<^verbatim>\<open>height\<close> is a \<^verbatim>\<open>u8\<close>; it would overflow only above 255, far beyond what the cursors' stacks hold.\<close>

fun height :: "('t, 's) sum_tree \<Rightarrow> nat" where
  "height (Internal h s css cts) = h"
| "height (Leaf s its iss) = 0"

fun summary :: "('t, 's) sum_tree \<Rightarrow> 's" where
  "summary (Internal h s css cts) = s"
| "summary (Leaf s its iss) = s"

fun child_summaries :: "('t, 's) sum_tree \<Rightarrow> 's list" where
  "child_summaries (Internal h s css cts) = css"
| "child_summaries (Leaf s its iss) = iss"

fun child_trees :: "('t, 's) sum_tree \<Rightarrow> ('t, 's) sum_tree list option" where
  "child_trees (Internal h s css cts) = Some cts"
| "child_trees (Leaf s its iss) = None"

fun node_items :: "('t, 's) sum_tree \<Rightarrow> 't list option" where
  "node_items (Leaf s its iss) = Some its"
| "node_items (Internal h s css cts) = None"

fun is_leaf :: "('t, 's) sum_tree \<Rightarrow> bool" where
  "is_leaf (Leaf s its iss) = True"
| "is_leaf (Internal h s css cts) = False"

fun is_underflowing :: "('t, 's) sum_tree \<Rightarrow> bool" where
  "is_underflowing (Internal h s css cts) = (length cts < TREE_BASE)"
| "is_underflowing (Leaf s its iss) = (length its < TREE_BASE)"

fun is_empty :: "('t, 's) sum_tree \<Rightarrow> bool" where
  "is_empty (Internal h s css cts) = False"
| "is_empty (Leaf s its iss) = (its = [])"

text \<open>\<^verbatim>\<open>fn sum\<close>.\<close>

definition sum_summaries :: "('t, 's) summary_ops \<Rightarrow> 's list \<Rightarrow> 's" where
  "sum_summaries ops ss = foldl (summary_add ops) (summary_zero ops) ss"

section \<open>Fixed-capacity vectors\<close>

definition array_collect :: "'a list \<Rightarrow> 'a list option" where
  "array_collect xs = (if length xs \<le> 2 * TREE_BASE then Some xs else None)"

definition array_push :: "'a list \<Rightarrow> 'a \<Rightarrow> 'a list option" where
  "array_push xs x = array_collect (xs @ [x])"

definition array_extend :: "'a list \<Rightarrow> 'a list \<Rightarrow> 'a list option" where
  "array_extend xs ys = array_collect (xs @ ys)"

section \<open>Construction\<close>

definition tree_new :: "('t, 's) summary_ops \<Rightarrow> ('t, 's) sum_tree" where
  "tree_new ops = Leaf (summary_zero ops) [] []"

definition from_summary :: "'s \<Rightarrow> ('t, 's) sum_tree" where
  "from_summary s = Leaf s [] []"

text \<open>A leaf built from a chunk of items: the first summary is the start of the sum.\<close>

definition leaf_of_chunk :: "('t, 's) summary_ops \<Rightarrow> 't list \<Rightarrow> ('t, 's) sum_tree option" where
  "leaf_of_chunk ops chunk = do {
     its \<leftarrow> array_collect chunk;
     iss \<leftarrow> array_collect (map (item_summary ops) its);
     (case iss of
        [] \<Rightarrow> None
      | s # ss \<Rightarrow> Some (Leaf (foldl (summary_add ops) s ss) its iss))
   }"

text \<open>\<^verbatim>\<open>while iter.peek().is_some()\<close>: leaves of at most \<^verbatim>\<open>2 * TREE_BASE\<close> items each.\<close>

fun build_leaves :: "('t, 's) summary_ops \<Rightarrow> 't list \<Rightarrow> ('t, 's) sum_tree list option" where
  "build_leaves ops [] = Some []"
| "build_leaves ops (x # xs) = do {
     l \<leftarrow> leaf_of_chunk ops (take (2 * TREE_BASE) (x # xs));
     ls \<leftarrow> build_leaves ops (drop (2 * TREE_BASE) (x # xs));
     Some (l # ls)
   }"

text \<open>One round of \<^verbatim>\<open>while nodes.len() > 1\<close>: the children are pushed one by one into the current
  parent, which is emitted when it is full.\<close>

type_synonym ('t, 's) partial_parent = "('s \<times> 's list \<times> ('t, 's) sum_tree list) option"

fun group_children ::
  "('t, 's) summary_ops \<Rightarrow> nat \<Rightarrow> ('t, 's) sum_tree list \<Rightarrow> ('t, 's) partial_parent
    \<Rightarrow> ('t, 's) sum_tree list option" where
  "group_children ops h [] None = Some []"
| "group_children ops h [] (Some (s, css, cts)) = Some [Internal h s css cts]"
| "group_children ops h (c # cs) cur = (
     let (s, css, cts) = (case cur of None \<Rightarrow> (summary_zero ops, [], []) | Some p \<Rightarrow> p)
     in do {
       css' \<leftarrow> array_push css (summary c);
       cts' \<leftarrow> array_push cts c;
       (let s' = summary_add ops s (summary c) in
        if length cts' = 2 * TREE_BASE
        then map_option ((#) (Internal h s' css' cts')) (group_children ops h cs None)
        else group_children ops h cs (Some (s', css', cts')))
     })"

definition partial_count :: "('t, 's) partial_parent \<Rightarrow> nat" where
  "partial_count cur = (case cur of None \<Rightarrow> 0 | Some (s, css, cts) \<Rightarrow> length cts)"

lemma partial_count_simps [simp]:
  "partial_count None = 0" "partial_count (Some (s, css, cts)) = length cts"
  by (simp_all add: partial_count_def)

lemma array_push_Some [simp]:
  "array_push xs x = Some ys \<longleftrightarrow> length xs < 2 * TREE_BASE \<and> ys = xs @ [x]"
  by (auto simp: array_push_def array_collect_def)

lemma array_push_fits [simp]: "length xs < 2 * TREE_BASE \<Longrightarrow> array_push xs x = Some (xs @ [x])"
  by simp

lemma group_children_halves:
  "group_children ops h cs cur = Some ns \<Longrightarrow> cur = None \<or> 0 < partial_count cur
    \<Longrightarrow> 2 * length ns \<le> Suc (length cs + partial_count cur)"
proof (induction ops h cs cur arbitrary: ns rule: group_children.induct)
  case (3 ops h c cs cur)
  obtain s css cts where cur: "(case cur of None \<Rightarrow> (summary_zero ops, [], []) | Some p \<Rightarrow> p) = (s, css, cts)"
    by (cases "case cur of None \<Rightarrow> (summary_zero ops, [], []) | Some p \<Rightarrow> p") auto
  then have count: "partial_count cur = length cts" by (cases cur) auto
  define s' css' cts' where "s' = summary_add ops s (summary c)"
    and "css' = css @ [summary c]" and "cts' = cts @ [c]"
  have fit: "length css < 2 * TREE_BASE" "length cts < 2 * TREE_BASE"
    using "3.prems" cur by (auto split: bind_splits)
  show ?case
  proof (cases "length cts' = 2 * TREE_BASE")
    case True
    with "3.prems" cur fit obtain ns' where ns': "group_children ops h cs None = Some ns'"
        "ns = Internal h s' css' cts' # ns'"
      by (auto simp: Let_def s'_def css'_def cts'_def split: bind_splits)
    have "2 * length ns' \<le> Suc (length cs)"
      using "3.IH"(1) [OF cur [symmetric] refl refl, of css' cts' s' ns'] fit True ns'(1)
      by (simp add: s'_def css'_def cts'_def)
    moreover have "2 \<le> Suc (length cts)"
      using True TREE_BASE_pos by (simp add: cts'_def)
    ultimately show ?thesis using ns'(2) count by simp
  next
    case False
    with "3.prems" cur fit have "group_children ops h cs (Some (s', css', cts')) = Some ns"
      by (auto simp: Let_def s'_def css'_def cts'_def)
    then show ?thesis
      using "3.IH"(2) [OF cur [symmetric] refl refl, of css' cts' s' ns] fit False count
      by (simp add: s'_def css'_def cts'_def)
  qed
qed (auto simp: Suc_le_eq)

function build_levels ::
  "('t, 's) summary_ops \<Rightarrow> nat \<Rightarrow> ('t, 's) sum_tree list \<Rightarrow> ('t, 's) sum_tree list option" where
  "build_levels ops h ns =
     (if 1 < length ns
      then do { ps \<leftarrow> group_children ops (Suc h) ns None; build_levels ops (Suc h) ps }
      else Some ns)"
  by pat_completeness auto
termination
proof (relation "measure (\<lambda>(ops, h, ns). length ns)", simp)
  fix ops :: "('t, 's) summary_ops" and h :: nat and ns ps :: "('t, 's) sum_tree list"
  assume "1 < length ns" "group_children ops (Suc h) ns None = Some ps"
  then have "2 * length ps \<le> Suc (length ns)" "2 \<le> length ns"
    using group_children_halves [of ops "Suc h" ns None ps] by auto
  then show "((ops, Suc h, ps), ops, h, ns) \<in> measure (\<lambda>(ops, h, ns). length ns)"
    by simp
qed

declare build_levels.simps [simp del]

definition from_iter :: "('t, 's) summary_ops \<Rightarrow> 't list \<Rightarrow> ('t, 's) sum_tree option" where
  "from_iter ops xs = do {
     leaves \<leftarrow> build_leaves ops xs;
     nodes \<leftarrow> build_levels ops 0 leaves;
     (case nodes of [] \<Rightarrow> Some (tree_new ops) | _ \<Rightarrow> Some (last nodes))
   }"

definition from_par_level ::
  "('t, 's) summary_ops \<Rightarrow> nat \<Rightarrow> ('t, 's) sum_tree list \<Rightarrow> ('t, 's) sum_tree option" where
  "from_par_level ops h chunk = do {
     cts \<leftarrow> array_collect chunk;
     css \<leftarrow> array_collect (map summary cts);
     (case css of
        [] \<Rightarrow> None
      | s # ss \<Rightarrow> Some (Internal h (foldl (summary_add ops) s ss) css cts))
   }"

text \<open>\<^verbatim>\<open>chunks(2 * TREE_BASE)\<close> of an indexed parallel iterator, whose order \<^verbatim>\<open>collect\<close> keeps.\<close>

fun chunks :: "nat \<Rightarrow> 'a list \<Rightarrow> 'a list list" where
  "chunks n [] = []"
| "chunks n (x # xs) = (x # take (n - 1) xs) # chunks n (drop (n - 1) xs)"

fun collect_map :: "('a \<Rightarrow> 'b option) \<Rightarrow> 'a list \<Rightarrow> 'b list option" where
  "collect_map f [] = Some []"
| "collect_map f (x # xs) = do { y \<leftarrow> f x; ys \<leftarrow> collect_map f xs; Some (y # ys) }"

lemma length_chunks:
  "2 \<le> n \<Longrightarrow> 2 * length (chunks n xs) \<le> Suc (length xs)"
proof (induction n xs rule: chunks.induct)
  case (2 n x xs)
  then show ?case by (cases xs) auto
qed simp

lemma collect_map_length: "collect_map f xs = Some ys \<Longrightarrow> length ys = length xs"
  by (induction f xs arbitrary: ys rule: collect_map.induct) (auto split: bind_splits)

function from_par_levels ::
  "('t, 's) summary_ops \<Rightarrow> nat \<Rightarrow> ('t, 's) sum_tree list \<Rightarrow> ('t, 's) sum_tree list option" where
  "from_par_levels ops h ns =
     (if 1 < length ns
      then do {
        ps \<leftarrow> collect_map (from_par_level ops (Suc h)) (chunks (2 * TREE_BASE) ns);
        from_par_levels ops (Suc h) ps }
      else Some ns)"
  by pat_completeness auto
termination
proof (relation "measure (\<lambda>(ops, h, ns). length ns)", simp)
  fix ops :: "('t, 's) summary_ops" and h :: nat and ns ps :: "('t, 's) sum_tree list"
  assume "1 < length ns"
    and "collect_map (from_par_level ops (Suc h)) (chunks (2 * TREE_BASE) ns) = Some ps"
  moreover have "2 \<le> 2 * TREE_BASE" using TREE_BASE_pos by simp
  ultimately have "2 * length ps \<le> Suc (length ns)" "2 \<le> length ns"
    using length_chunks [of "2 * TREE_BASE" ns] by (auto dest: collect_map_length)
  then show "((ops, Suc h, ps), ops, h, ns) \<in> measure (\<lambda>(ops, h, ns). length ns)"
    by simp
qed

declare from_par_levels.simps [simp del]

definition from_par_iter :: "('t, 's) summary_ops \<Rightarrow> 't list \<Rightarrow> ('t, 's) sum_tree option" where
  "from_par_iter ops xs = do {
     leaves \<leftarrow> collect_map (leaf_of_chunk ops) (chunks (2 * TREE_BASE) xs);
     nodes \<leftarrow> from_par_levels ops 0 leaves;
     (case nodes of [] \<Rightarrow> Some (tree_new ops) | _ \<Rightarrow> Some (last nodes))
   }"

section \<open>Concatenation\<close>

text \<open>Collecting the first \<^verbatim>\<open>mid\<close> elements of a chained iterator into one array and the rest into
  another.\<close>

definition split_at :: "nat \<Rightarrow> 'a list \<Rightarrow> ('a list \<times> 'a list) option" where
  "split_at mid xs = do {
     l \<leftarrow> array_collect (take mid xs);
     r \<leftarrow> array_collect (drop mid xs);
     Some (l, r)
   }"

definition set_last :: "'a list \<Rightarrow> 'a \<Rightarrow> 'a list option" where
  "set_last xs x = (if xs = [] then None else Some (butlast xs @ [x]))"

definition set_first :: "'a list \<Rightarrow> 'a \<Rightarrow> 'a list option" where
  "set_first xs x = (case xs of [] \<Rightarrow> None | _ # ys \<Rightarrow> Some (x # ys))"

definition option_list :: "'a option \<Rightarrow> 'a list" where
  "option_list r = (case r of None \<Rightarrow> [] | Some x \<Rightarrow> [x])"

definition from_child_trees ::
  "('t, 's) summary_ops \<Rightarrow> ('t, 's) sum_tree \<Rightarrow> ('t, 's) sum_tree \<Rightarrow> ('t, 's) sum_tree" where
  "from_child_trees ops l r =
     (let css = [summary l, summary r]
      in Internal (height l + 1) (sum_summaries ops css) css [l, r])"

text \<open>The end of \<^verbatim>\<open>push_tree_recursive\<close> at an internal node: the collected children are appended,
  or the node is split in two.\<close>

definition push_children ::
  "('t, 's) summary_ops \<Rightarrow> nat \<Rightarrow> 's \<Rightarrow> 's list \<Rightarrow> ('t, 's) sum_tree list \<Rightarrow> 's list
    \<Rightarrow> ('t, 's) sum_tree list \<Rightarrow> (('t, 's) sum_tree \<times> ('t, 's) sum_tree option) option" where
  "push_children ops h s css cts more_s more_t =
     (let child_count = length cts + length more_t in
      if 2 * TREE_BASE < child_count then do {
        let midpoint = (child_count + child_count mod 2) div 2;
        (left_s, right_s) \<leftarrow> split_at midpoint (css @ more_s);
        (left_t, right_t) \<leftarrow> split_at midpoint (cts @ more_t);
        Some (Internal h (sum_summaries ops left_s) left_s left_t,
              Some (Internal h (sum_summaries ops right_s) right_s right_t)) }
      else do {
        all_s \<leftarrow> array_extend css more_s;
        all_t \<leftarrow> array_extend cts more_t;
        Some (Internal h s all_s all_t, None) })"

text \<open>\<^verbatim>\<open>push_tree_recursive\<close>: the updated tree, and the right half when the node was split.\<close>

lemma size_last [termination_simp]:
  "xs \<noteq> [] \<Longrightarrow> f (last xs) < Suc (n + size_list f xs)"
  by (induction xs) (auto simp: less_Suc_eq_le)

lemma size_hd [termination_simp]:
  "xs \<noteq> [] \<Longrightarrow> f (hd xs) < Suc (n + size_list f xs)"
  by (cases xs) auto

fun push_tree_recursive ::
  "('t, 's) summary_ops \<Rightarrow> ('t, 's) sum_tree \<Rightarrow> ('t, 's) sum_tree
    \<Rightarrow> (('t, 's) sum_tree \<times> ('t, 's) sum_tree option) option" where
  "push_tree_recursive ops (Internal h s css cts) other = do {
     let s' = summary_add ops s (summary other);
     height_delta \<leftarrow> usize_sub h (height other);
     (css', cts', more_s, more_t) \<leftarrow>
       (if height_delta = 0 then do {
          other_trees \<leftarrow> child_trees other;
          more_s \<leftarrow> array_extend [] (child_summaries other);
          more_t \<leftarrow> array_extend [] other_trees;
          Some (css, cts, more_s, more_t) }
        else if height_delta = 1 \<and> \<not> is_underflowing other then
          Some (css, cts, [summary other], [other])
        else if cts \<noteq> [] then do {
          (child, split_tree) \<leftarrow> push_tree_recursive ops (last cts) other;
          css' \<leftarrow> set_last css (summary child);
          cts' \<leftarrow> set_last cts child;
          Some (css', cts', option_list (map_option summary split_tree), option_list split_tree) }
        else None);
     push_children ops h s' css' cts' more_s more_t
   }"
| "push_tree_recursive ops (Leaf s its iss) other = do {
     other_items \<leftarrow> node_items other;
     let child_count = length its + length other_items;
     if 2 * TREE_BASE < child_count then do {
       let midpoint = (child_count + child_count mod 2) div 2;
       (left_i, right_i) \<leftarrow> split_at midpoint (its @ other_items);
       (left_s, right_s) \<leftarrow> split_at midpoint (iss @ child_summaries other);
       Some (Leaf (sum_summaries ops left_s) left_i left_s,
             Some (Leaf (sum_summaries ops right_s) right_i right_s)) }
     else do {
       all_i \<leftarrow> array_extend its other_items;
       all_s \<leftarrow> array_extend iss (child_summaries other);
       Some (Leaf (summary_add ops s (summary other)) all_i all_s, None) }
   }"

text \<open>\<^verbatim>\<open>merge_into_right\<close>: the updated large node, and the left half when there is one.\<close>

fun merge_into_right ::
  "('t, 's) summary_ops \<Rightarrow> ('t, 's) sum_tree \<Rightarrow> ('t, 's) sum_tree
    \<Rightarrow> (('t, 's) sum_tree \<times> ('t, 's) sum_tree option) option" where
  "merge_into_right ops (Internal _ small_s small_css small_cts) (Internal h s css cts) = do {
     let total_child_count = length cts + length small_cts;
     if total_child_count \<le> 2 * TREE_BASE then do {
       all_trees \<leftarrow> array_extend small_cts cts;
       all_summaries \<leftarrow> array_extend small_css css;
       Some (Internal h (summary_add ops small_s s) all_summaries all_trees, None) }
     else do {
       let midpoint = (total_child_count + 1) div 2;
       (left_t, right_t) \<leftarrow> split_at midpoint (small_cts @ cts);
       (left_s, right_s) \<leftarrow> split_at midpoint (small_css @ css);
       Some (Internal h (sum_summaries ops right_s) right_s right_t,
             Some (Internal h (sum_summaries ops left_s) left_s left_t)) }
   }"
| "merge_into_right ops (Leaf small_s small_its small_iss) (Leaf s its iss) = do {
     let total_child_count = length small_its + length its;
     if total_child_count \<le> 2 * TREE_BASE then do {
       all_items \<leftarrow> array_extend small_its its;
       all_summaries \<leftarrow> array_extend small_iss iss;
       Some (Leaf (summary_add ops small_s s) all_items all_summaries, None) }
     else do {
       let midpoint = (total_child_count + 1) div 2;
       (left_i, right_i) \<leftarrow> split_at midpoint (small_its @ its);
       (left_s, right_s) \<leftarrow> split_at midpoint (small_iss @ iss);
       Some (Leaf (sum_summaries ops right_s) right_i right_s,
             Some (Leaf (sum_summaries ops left_s) left_i left_s)) }
   }"
| "merge_into_right ops _ _ = None"

text \<open>\<^verbatim>\<open>append_large\<close>: the updated large tree, and what is left of the small one.\<close>

fun append_large ::
  "('t, 's) summary_ops \<Rightarrow> ('t, 's) sum_tree \<Rightarrow> ('t, 's) sum_tree
    \<Rightarrow> (('t, 's) sum_tree \<times> ('t, 's) sum_tree option) option" where
  "append_large ops small (Leaf s its iss) =
     (if height small = 0 then
        if \<not> is_underflowing small then Some (Leaf s its iss, Some small)
        else merge_into_right ops small (Leaf s its iss)
      else None)"
| "append_large ops small (Internal h s css cts) =
     (if height small = h then
        if \<not> is_underflowing small then Some (Internal h s css cts, Some small)
        else merge_into_right ops small (Internal h s css cts)
      else do {
        let full_summary = summary_add ops (summary small) s;
        if cts \<noteq> [] then do {
          (child, res) \<leftarrow> append_large ops small (hd cts);
          css' \<leftarrow> set_first css (summary child);
          cts' \<leftarrow> set_first cts child;
          (case res of
             None \<Rightarrow> Some (Internal h full_summary css' cts', None)
           | Some tree \<Rightarrow>
               if length cts' < 2 * TREE_BASE then do {
                 css'' \<leftarrow> array_collect (summary tree # css');
                 cts'' \<leftarrow> array_collect (tree # cts');
                 Some (Internal h full_summary css'' cts'', None) }
               else do {
                 new_css \<leftarrow> array_collect (summary tree # take TREE_BASE css');
                 new_cts \<leftarrow> array_collect (tree # take TREE_BASE cts');
                 Some (Internal h (sum_summaries ops (drop TREE_BASE css'))
                         (drop TREE_BASE css') (drop TREE_BASE cts'),
                       Some (Internal h (sum_summaries ops new_css) new_css new_cts)) })
        } else None
      })"

definition append_tree ::
  "('t, 's) summary_ops \<Rightarrow> ('t, 's) sum_tree \<Rightarrow> ('t, 's) sum_tree \<Rightarrow> ('t, 's) sum_tree option" where
  "append_tree ops self other =
     (if is_empty self then Some other
      else if \<not> is_leaf other \<or> node_items other \<noteq> Some [] then
        if height self < height other then do {
          (other', res) \<leftarrow> append_large ops self other;
          (case res of
             Some tree \<Rightarrow> Some (from_child_trees ops tree other')
           | None \<Rightarrow> Some other') }
        else do {
          (self', res) \<leftarrow> push_tree_recursive ops self other;
          (case res of
             Some split_tree \<Rightarrow> Some (from_child_trees ops self' split_tree)
           | None \<Rightarrow> Some self') }
      else Some self)"

definition push :: "('t, 's) summary_ops \<Rightarrow> ('t, 's) sum_tree \<Rightarrow> 't \<Rightarrow> ('t, 's) sum_tree option" where
  "push ops self item =
     (let s = item_summary ops item in append_tree ops self (Leaf s [item] [s]))"

definition tree_extend :: "('t, 's) summary_ops \<Rightarrow> ('t, 's) sum_tree \<Rightarrow> 't list \<Rightarrow> ('t, 's) sum_tree option" where
  "tree_extend ops self xs = do { other \<leftarrow> from_iter ops xs; append_tree ops self other }"

definition par_extend :: "('t, 's) summary_ops \<Rightarrow> ('t, 's) sum_tree \<Rightarrow> 't list \<Rightarrow> ('t, 's) sum_tree option" where
  "par_extend ops self xs = do { other \<leftarrow> from_par_iter ops xs; append_tree ops self other }"

definition from_item :: "('t, 's) summary_ops \<Rightarrow> 't \<Rightarrow> ('t, 's) sum_tree option" where
  "from_item ops item = push ops (tree_new ops) item"

section \<open>Ends\<close>

fun leftmost_leaf :: "('t, 's) sum_tree \<Rightarrow> ('t, 's) sum_tree option" where
  "leftmost_leaf (Leaf s its iss) = Some (Leaf s its iss)"
| "leftmost_leaf (Internal h s css cts) = (if cts \<noteq> [] then leftmost_leaf (hd cts) else None)"

fun rightmost_leaf :: "('t, 's) sum_tree \<Rightarrow> ('t, 's) sum_tree option" where
  "rightmost_leaf (Leaf s its iss) = Some (Leaf s its iss)"
| "rightmost_leaf (Internal h s css cts) = (if cts \<noteq> [] then rightmost_leaf (last cts) else None)"

definition list_first :: "'a list \<Rightarrow> 'a option" where
  "list_first xs = (case xs of [] \<Rightarrow> None | x # _ \<Rightarrow> Some x)"

definition list_last :: "'a list \<Rightarrow> 'a option" where
  "list_last xs = (if xs = [] then None else Some (last xs))"

definition first :: "('t, 's) sum_tree \<Rightarrow> 't option option" where
  "first t = do { l \<leftarrow> leftmost_leaf t; its \<leftarrow> node_items l; Some (list_first its) }"

definition tree_last :: "('t, 's) sum_tree \<Rightarrow> 't option option" where
  "tree_last t = do { l \<leftarrow> rightmost_leaf t; its \<leftarrow> node_items l; Some (list_last its) }"

definition last_summary :: "('t, 's) sum_tree \<Rightarrow> 's option option" where
  "last_summary t = do { l \<leftarrow> rightmost_leaf t; Some (list_last (child_summaries l)) }"

text \<open>The inner option is the \<^verbatim>\<open>Option<T::Summary>\<close> the recursion returns.\<close>

fun update_last_recursive ::
  "('t, 's) summary_ops \<Rightarrow> ('t \<Rightarrow> 't) \<Rightarrow> ('t, 's) sum_tree \<Rightarrow> (('t, 's) sum_tree \<times> 's option) option" where
  "update_last_recursive ops f (Internal h s css cts) =
     (if cts \<noteq> [] then do {
        (child, res) \<leftarrow> update_last_recursive ops f (last cts);
        child_summary \<leftarrow> res;
        css' \<leftarrow> set_last css child_summary;
        cts' \<leftarrow> set_last cts child;
        let s' = sum_summaries ops css';
        Some (Internal h s' css' cts', Some s') }
      else None)"
| "update_last_recursive ops f (Leaf s its iss) =
     (if its \<noteq> [] \<and> iss \<noteq> [] then
        let item = f (last its);
            iss' = butlast iss @ [item_summary ops item];
            s' = sum_summaries ops iss'
        in Some (Leaf s' (butlast its @ [item]) iss', Some s')
      else Some (Leaf s its iss, None))"

definition update_last ::
  "('t, 's) summary_ops \<Rightarrow> ('t \<Rightarrow> 't) \<Rightarrow> ('t, 's) sum_tree \<Rightarrow> ('t, 's) sum_tree option" where
  "update_last ops f t = map_option fst (update_last_recursive ops f t)"

fun update_first_recursive ::
  "('t, 's) summary_ops \<Rightarrow> ('t \<Rightarrow> 't) \<Rightarrow> ('t, 's) sum_tree \<Rightarrow> (('t, 's) sum_tree \<times> 's option) option" where
  "update_first_recursive ops f (Internal h s css cts) =
     (if cts \<noteq> [] then do {
        (child, res) \<leftarrow> update_first_recursive ops f (hd cts);
        child_summary \<leftarrow> res;
        css' \<leftarrow> set_first css child_summary;
        cts' \<leftarrow> set_first cts child;
        let s' = sum_summaries ops css';
        Some (Internal h s' css' cts', Some s') }
      else None)"
| "update_first_recursive ops f (Leaf s its iss) =
     (if its \<noteq> [] \<and> iss \<noteq> [] then
        let item = f (hd its);
            iss' = item_summary ops item # tl iss;
            s' = sum_summaries ops iss'
        in Some (Leaf s' (item # tl its) iss', Some s')
      else Some (Leaf s its iss, None))"

definition update_first ::
  "('t, 's) summary_ops \<Rightarrow> ('t \<Rightarrow> 't) \<Rightarrow> ('t, 's) sum_tree \<Rightarrow> ('t, 's) sum_tree option" where
  "update_first ops f t = map_option fst (update_first_recursive ops f t)"

end
