(* ===== verification/Cursor.thy ===== *)
theory Cursor
  imports SumTree
begin

text \<open>
  \<^verbatim>\<open>crates/sum_tree/src/cursor.rs\<close> and the searches of \<^verbatim>\<open>sum_tree.rs\<close>.  A \<^verbatim>\<open>Dimension\<close> is a record of
  its zero and of the addition of a summary; a \<^verbatim>\<open>SeekTarget\<close> is its comparison with a position.  The
  stack of a cursor is a list with its top first, at most 16 entries deep as in the source.  The
  \<^verbatim>\<open>while let Some(entry) = self.stack.last_mut()\<close> loops are recursions over the stack, with
  a termination proof each.
\<close>

section \<open>Dimensions and targets\<close>

record ('d, 's) dimension =
  dim_zero :: 'd
  dim_add :: "'d \<Rightarrow> 's \<Rightarrow> 'd"

type_synonym 'd target = "'d \<Rightarrow> cmp_ordering"

definition unit_dim :: "(unit, 's) dimension" where
  "unit_dim = \<lparr>dim_zero = (), dim_add = (\<lambda>_ _. ())\<rparr>"

definition summary_dim :: "('t, 's) summary_ops \<Rightarrow> ('s, 's) dimension" where
  "summary_dim ops = \<lparr>dim_zero = summary_zero ops, dim_add = summary_add ops\<rparr>"

definition dim_from_summary :: "('d, 's) dimension \<Rightarrow> 's \<Rightarrow> 'd" where
  "dim_from_summary dm s = dim_add dm (dim_zero dm) s"

definition dim_pair :: "('d, 's) dimension \<Rightarrow> ('e, 's) dimension \<Rightarrow> ('d \<times> 'e, 's) dimension" where
  "dim_pair d e =
     \<lparr>dim_zero = (dim_zero d, dim_zero e),
      dim_add = (\<lambda>p s. (dim_add d (fst p) s, dim_add e (snd p) s))\<rparr>"

definition ord_target :: "'d::linorder \<Rightarrow> 'd target" where
  "ord_target t = (\<lambda>p. cmp t p)"

definition end_target :: "'d target" where
  "end_target = (\<lambda>_. Greater)"

text \<open>The test of the search loops: whether the seek goes on past a position.\<close>

definition seek_past :: "'d target \<Rightarrow> bias \<Rightarrow> 'd \<Rightarrow> bool" where
  "seek_past tgt b p = (tgt p = Greater \<or> tgt p = Equal \<and> b = Right)"

definition extent :: "('d, 's) dimension \<Rightarrow> ('t, 's) sum_tree \<Rightarrow> 'd" where
  "extent dm t = dim_add dm (dim_zero dm) (summary t)"

section \<open>Finding an item\<close>

text \<open>The \<^verbatim>\<open>for\<close> loop of \<^verbatim>\<open>find_iterate\<close> over the children of a node: the position reached, and the
  first child for which the test holds together with its end.\<close>

fun find_slot ::
  "('d, 's) dimension \<Rightarrow> ('d \<Rightarrow> bool) \<Rightarrow> 'd \<Rightarrow> ('c \<times> 's) list \<Rightarrow> 'd \<times> ('c \<times> 'd) option" where
  "find_slot dm found pos [] = (pos, None)"
| "find_slot dm found pos ((c, s) # cs) =
     (let child_end = dim_add dm pos s in
      if found child_end then (pos, Some (c, child_end)) else find_slot dm found child_end cs)"

lemma find_slot_mem: "find_slot dm found pos cs = (p, Some (c, e)) \<Longrightarrow> c \<in> fst ` set cs"
  by (induction dm found pos cs rule: find_slot.induct) (auto simp: Let_def split: if_splits)

lemma size_find_slot [termination_simp]:
  assumes "(p, Some (c, e)) = find_slot dm found pos (zip cts css)"
  shows "size c < Suc (n + size_list size cts)"
proof -
  from assms [symmetric] have "c \<in> set cts"
    by (auto dest!: find_slot_mem dest: set_zip_leftD)
  then show ?thesis by (simp add: less_Suc_eq_le size_list_estimation' trans_le_add2)
qed

definition entry_found :: "bool \<Rightarrow> 'd target \<Rightarrow> bias \<Rightarrow> 'd \<Rightarrow> bool" where
  "entry_found exact tgt b p =
     (if exact then tgt p = Equal else tgt p = Less \<or> tgt p = Equal \<and> b = Left)"

function find_iterate ::
  "('d, 's) dimension \<Rightarrow> bool \<Rightarrow> 'd target \<Rightarrow> bias \<Rightarrow> 'd \<Rightarrow> ('t, 's) sum_tree
    \<Rightarrow> 'd \<times> ('t \<times> 'd) option" where
  "find_iterate dm exact tgt b pos (Internal h s css cts) =
     (case find_slot dm (entry_found False tgt b) pos (zip cts css) of
        (p, None) \<Rightarrow> (p, None)
      | (p, Some (c, e)) \<Rightarrow> find_iterate dm exact tgt b p c)"
| "find_iterate dm exact tgt b pos (Leaf s its iss) =
     find_slot dm (entry_found exact tgt b) pos (zip its iss)"
  by pat_completeness auto
termination
  by (relation "measure (\<lambda>(dm, exact, tgt, b, pos, t). size t)") (auto simp: termination_simp)

definition find_with :: "('d, 's) dimension \<Rightarrow> bool \<Rightarrow> 'd target \<Rightarrow> bias \<Rightarrow> ('t, 's) sum_tree
    \<Rightarrow> 'd \<times> 'd \<times> 't option" where
  "find_with dm exact tgt b t =
     (let tree_end = extent dm t in
      if seek_past tgt b tree_end then (tree_end, tree_end, None)
      else case find_iterate dm exact tgt b (dim_zero dm) t of
             (pos, Some (item, e)) \<Rightarrow> (pos, e, Some item)
           | (pos, None) \<Rightarrow> (pos, pos, None))"

definition find_exact :: "('d, 's) dimension \<Rightarrow> 'd target \<Rightarrow> bias \<Rightarrow> ('t, 's) sum_tree \<Rightarrow> 'd \<times> 'd \<times> 't option" where
  "find_exact dm tgt b t = find_with dm True tgt b t"

definition tree_find :: "('d, 's) dimension \<Rightarrow> 'd target \<Rightarrow> bias \<Rightarrow> ('t, 's) sum_tree \<Rightarrow> 'd \<times> 'd \<times> 't option" where
  "tree_find dm tgt b t = find_with dm False tgt b t"

text \<open>\<^verbatim>\<open>find_with_prev\<close> also remembers the item before the position; \<^verbatim>\<open>child_tree.last()\<close> is read from
  the tree and may panic on a malformed one.\<close>

fun find_slot_prev ::
  "('d, 's) dimension \<Rightarrow> ('d \<Rightarrow> bool) \<Rightarrow> ('c \<Rightarrow> 't option option) \<Rightarrow> 't option \<Rightarrow> 'd \<Rightarrow> ('c \<times> 's) list
    \<Rightarrow> ('t option \<times> 'd \<times> ('c \<times> 'd) option) option" where
  "find_slot_prev dm found lst prev pos [] = Some (prev, pos, None)"
| "find_slot_prev dm found lst prev pos ((c, s) # cs) =
     (let child_end = dim_add dm pos s in
      if found child_end then Some (prev, pos, Some (c, child_end))
      else do { prev' \<leftarrow> lst c; find_slot_prev dm found lst prev' child_end cs })"

lemma find_slot_prev_mem:
  "find_slot_prev dm found lst prev pos cs = Some (pr, p, Some (c, e)) \<Longrightarrow> c \<in> fst ` set cs"
  by (induction dm found lst prev pos cs rule: find_slot_prev.induct)
    (auto simp: Let_def split: if_splits bind_splits)

function find_with_prev_iterate ::
  "('d, 's) dimension \<Rightarrow> 'd target \<Rightarrow> bias \<Rightarrow> 't option \<Rightarrow> 'd \<Rightarrow> ('t, 's) sum_tree
    \<Rightarrow> ('t option \<times> 'd \<times> ('t \<times> 'd) option) option" where
  "find_with_prev_iterate dm tgt b prev pos (Internal h s css cts) =
     (case find_slot_prev dm (entry_found False tgt b) tree_last prev pos (zip cts css) of
        None \<Rightarrow> None
      | Some (prev', p, None) \<Rightarrow> Some (prev', p, None)
      | Some (prev', p, Some (c, e)) \<Rightarrow> find_with_prev_iterate dm tgt b prev' p c)"
| "find_with_prev_iterate dm tgt b prev pos (Leaf s its iss) =
     find_slot_prev dm (entry_found False tgt b) (\<lambda>i. Some (Some i)) prev pos (zip its iss)"
  by pat_completeness auto
termination
proof (relation "measure (\<lambda>(dm, tgt, b, prev, pos, t). size t)", simp)
  fix dm :: "('d, 's) dimension" and tgt b h s prev pos css and cts :: "('t, 's) sum_tree list" and r x pr y p z c e
  assume "find_slot_prev dm (entry_found False tgt b) tree_last prev pos (zip cts css) = Some r"
    "(pr, y) = r" "(p, x) = y" "x = Some z" "(c, e) = z"
  then have "c \<in> set cts" by (auto dest!: find_slot_prev_mem dest: set_zip_leftD)
  then show "((dm, tgt, b, pr, p, c), (dm, tgt, b, prev, pos, Internal h s css cts))
      \<in> measure (\<lambda>(dm, tgt, b, prev, pos, t). size t)"
    by (simp add: less_Suc_eq_le size_list_estimation' trans_le_add2)
qed

definition find_with_prev ::
  "('d, 's) dimension \<Rightarrow> 'd target \<Rightarrow> bias \<Rightarrow> ('t, 's) sum_tree
    \<Rightarrow> ('d \<times> 'd \<times> ('t option \<times> 't) option) option" where
  "find_with_prev dm tgt b t =
     (let tree_end = extent dm t in
      if seek_past tgt b tree_end then Some (tree_end, tree_end, None)
      else do {
        (prev, pos, r) \<leftarrow> find_with_prev_iterate dm tgt b None (dim_zero dm) t;
        (case r of
           Some (item, e) \<Rightarrow> Some (pos, e, Some (prev, item))
         | None \<Rightarrow> Some (pos, pos, None)) })"

section \<open>Cursors\<close>

record ('t, 's, 'd) stack_entry =
  entry_tree :: "('t, 's) sum_tree"
  entry_index :: nat
  entry_position :: 'd

record ('t, 's, 'd) cursor =
  cursor_tree :: "('t, 's) sum_tree"
  cursor_stack :: "('t, 's, 'd) stack_entry list"
  cursor_position :: 'd
  did_seek :: bool
  at_end :: bool

definition STACK_CAPACITY :: nat where
  "STACK_CAPACITY = 16"

definition stack_push ::
  "('t, 's, 'd) stack_entry list \<Rightarrow> ('t, 's, 'd) stack_entry \<Rightarrow> ('t, 's, 'd) stack_entry list option" where
  "stack_push st e = (if length st < STACK_CAPACITY then Some (e # st) else None)"

definition mk_entry :: "('t, 's) sum_tree \<Rightarrow> nat \<Rightarrow> 'd \<Rightarrow> ('t, 's, 'd) stack_entry" where
  "mk_entry t i p = \<lparr>entry_tree = t, entry_index = i, entry_position = p\<rparr>"

definition cursor_new :: "('d, 's) dimension \<Rightarrow> ('t, 's) sum_tree \<Rightarrow> ('t, 's, 'd) cursor" where
  "cursor_new dm t =
     \<lparr>cursor_tree = t, cursor_stack = [], cursor_position = dim_zero dm, did_seek = False,
      at_end = is_empty t\<rparr>"

definition reset :: "('d, 's) dimension \<Rightarrow> ('t, 's, 'd) cursor \<Rightarrow> ('t, 's, 'd) cursor" where
  "reset dm c =
     c\<lparr>did_seek := False, at_end := is_empty (cursor_tree c), cursor_stack := [],
       cursor_position := dim_zero dm\<rparr>"

definition start :: "('t, 's, 'd) cursor \<Rightarrow> 'd" where
  "start c = cursor_position c"

text \<open>The readers panic before the first seek.  \<^verbatim>\<open>items[index]\<close> is a checked access.\<close>

definition assert_did_seek :: "('t, 's, 'd) cursor \<Rightarrow> unit option" where
  "assert_did_seek c = (if did_seek c then Some () else None)"

definition index_checked :: "'a list \<Rightarrow> nat \<Rightarrow> 'a option" where
  "index_checked xs i = (if i < length xs then Some (xs ! i) else None)"

definition item :: "('t, 's, 'd) cursor \<Rightarrow> 't option option" where
  "item c = do {
     assert_did_seek c;
     (case cursor_stack c of
        [] \<Rightarrow> Some None
      | e # _ \<Rightarrow> (case entry_tree e of
            Leaf s its iss \<Rightarrow>
              if entry_index e = length its then Some None
              else map_option Some (index_checked its (entry_index e))
          | Internal _ _ _ _ \<Rightarrow> None))
   }"

definition cursor_item_summary :: "('t, 's, 'd) cursor \<Rightarrow> 's option option" where
  "cursor_item_summary c = do {
     assert_did_seek c;
     (case cursor_stack c of
        [] \<Rightarrow> Some None
      | e # _ \<Rightarrow> (case entry_tree e of
            Leaf s its iss \<Rightarrow>
              if entry_index e = length iss then Some None
              else map_option Some (index_checked iss (entry_index e))
          | Internal _ _ _ _ \<Rightarrow> None))
   }"

definition cursor_end :: "('d, 's) dimension \<Rightarrow> ('t, 's, 'd) cursor \<Rightarrow> 'd option" where
  "cursor_end dm c = do {
     r \<leftarrow> cursor_item_summary c;
     (case r of
        Some s \<Rightarrow> Some (dim_add dm (start c) s)
      | None \<Rightarrow> Some (start c))
   }"

text \<open>\<^verbatim>\<open>next_leaf\<close> and \<^verbatim>\<open>prev_leaf\<close> go up the stack to the first entry with a neighbour.\<close>

fun next_leaf :: "('t, 's, 'd) stack_entry list \<Rightarrow> ('t, 's) sum_tree option option" where
  "next_leaf [] = Some None"
| "next_leaf (e # es) = do {
     cts \<leftarrow> child_trees (entry_tree e);
     n \<leftarrow> usize_sub (length cts) 1;
     if entry_index e < n then do {
       t \<leftarrow> index_checked cts (entry_index e + 1);
       map_option Some (leftmost_leaf t) }
     else next_leaf es
   }"

fun prev_leaf :: "('t, 's, 'd) stack_entry list \<Rightarrow> ('t, 's) sum_tree option option" where
  "prev_leaf [] = Some None"
| "prev_leaf (e # es) =
     (if entry_index e \<noteq> 0 then do {
        cts \<leftarrow> child_trees (entry_tree e);
        t \<leftarrow> index_checked cts (entry_index e - 1);
        map_option Some (rightmost_leaf t) }
      else prev_leaf es)"

definition next_item :: "('t, 's, 'd) cursor \<Rightarrow> 't option option" where
  "next_item c = do {
     assert_did_seek c;
     (case cursor_stack c of
        e # es \<Rightarrow> do {
          its \<leftarrow> node_items (entry_tree e);
          n \<leftarrow> usize_sub (length its) 1;
          if entry_index e = n then do {
            r \<leftarrow> next_leaf es;
            (case r of
               Some leaf \<Rightarrow> do { its' \<leftarrow> node_items leaf; x \<leftarrow> list_first its'; Some (Some x) }
             | None \<Rightarrow> Some None) }
          else map_option Some (index_checked its (entry_index e + 1)) }
      | [] \<Rightarrow> if at_end c then Some None else first (cursor_tree c))
   }"

definition prev_item :: "('t, 's, 'd) cursor \<Rightarrow> 't option option" where
  "prev_item c = do {
     assert_did_seek c;
     (case cursor_stack c of
        e # es \<Rightarrow>
          if entry_index e = 0 then do {
            r \<leftarrow> prev_leaf es;
            (case r of
               Some leaf \<Rightarrow> do { its' \<leftarrow> node_items leaf; x \<leftarrow> list_last its'; Some (Some x) }
             | None \<Rightarrow> Some None) }
          else do {
            its \<leftarrow> node_items (entry_tree e);
            map_option Some (index_checked its (entry_index e - 1)) }
      | [] \<Rightarrow> if at_end c then tree_last (cursor_tree c) else Some None)
   }"

section \<open>Seek aggregates\<close>

text \<open>The three implementations of \<^verbatim>\<open>SeekAggregate\<close>.\<close>

record ('t, 's) slice_aggregate =
  slice_tree :: "('t, 's) sum_tree"
  leaf_items :: "'t list"
  leaf_item_summaries :: "'s list"
  leaf_summary :: 's

datatype ('t, 's, 'o) seek_aggregate =
    NoAggregate
  | SliceSeekAggregate "('t, 's) slice_aggregate"
  | SummarySeekAggregate 'o

fun end_leaf ::
  "('t, 's) summary_ops \<Rightarrow> ('t, 's, 'o) seek_aggregate \<Rightarrow> ('t, 's, 'o) seek_aggregate option" where
  "end_leaf ops NoAggregate = Some NoAggregate"
| "end_leaf ops (SliceSeekAggregate a) = do {
     t \<leftarrow> append_tree ops (slice_tree a) (Leaf (leaf_summary a) (leaf_items a) (leaf_item_summaries a));
     Some (SliceSeekAggregate
       (a\<lparr>slice_tree := t, leaf_items := [], leaf_item_summaries := [], leaf_summary := summary_zero ops\<rparr>))
   }"
| "end_leaf ops (SummarySeekAggregate d) = Some (SummarySeekAggregate d)"

fun push_item ::
  "('t, 's) summary_ops \<Rightarrow> ('o, 's) dimension \<Rightarrow> ('t, 's, 'o) seek_aggregate \<Rightarrow> 't \<Rightarrow> 's
    \<Rightarrow> ('t, 's, 'o) seek_aggregate option" where
  "push_item ops od NoAggregate x s = Some NoAggregate"
| "push_item ops od (SliceSeekAggregate a) x s = do {
     its \<leftarrow> array_push (leaf_items a) x;
     iss \<leftarrow> array_push (leaf_item_summaries a) s;
     Some (SliceSeekAggregate
       (a\<lparr>leaf_items := its, leaf_item_summaries := iss, leaf_summary := summary_add ops (leaf_summary a) s\<rparr>))
   }"
| "push_item ops od (SummarySeekAggregate d) x s = Some (SummarySeekAggregate (dim_add od d s))"

fun push_tree ::
  "('t, 's) summary_ops \<Rightarrow> ('o, 's) dimension \<Rightarrow> ('t, 's, 'o) seek_aggregate \<Rightarrow> ('t, 's) sum_tree \<Rightarrow> 's
    \<Rightarrow> ('t, 's, 'o) seek_aggregate option" where
  "push_tree ops od NoAggregate t s = Some NoAggregate"
| "push_tree ops od (SliceSeekAggregate a) t s = do {
     t' \<leftarrow> append_tree ops (slice_tree a) t;
     Some (SliceSeekAggregate (a\<lparr>slice_tree := t'\<rparr>))
   }"
| "push_tree ops od (SummarySeekAggregate d) t s = Some (SummarySeekAggregate (dim_add od d s))"

section \<open>Seeking\<close>

text \<open>The \<^verbatim>\<open>for\<close> loops of \<^verbatim>\<open>seek_internal\<close> over the children of an internal node, and over the items
  of a leaf, from the current index: the position, index and aggregate reached, and the child the
  seek stops in front of.\<close>

fun seek_children ::
  "('t, 's) summary_ops \<Rightarrow> ('d, 's) dimension \<Rightarrow> ('o, 's) dimension \<Rightarrow> ('d \<Rightarrow> bool) \<Rightarrow> 'd \<Rightarrow> nat
    \<Rightarrow> ('t, 's, 'o) seek_aggregate \<Rightarrow> (('t, 's) sum_tree \<times> 's) list
    \<Rightarrow> ('d \<times> nat \<times> ('t, 's, 'o) seek_aggregate \<times> ('t, 's) sum_tree option) option" where
  "seek_children ops dm od past pos i agg [] = Some (pos, i, agg, None)"
| "seek_children ops dm od past pos i agg ((c, s) # cs) =
     (let child_end = dim_add dm pos s in
      if past child_end then do {
        agg' \<leftarrow> push_tree ops od agg c s;
        seek_children ops dm od past child_end (Suc i) agg' cs }
      else Some (pos, i, agg, Some c))"

fun seek_items ::
  "('t, 's) summary_ops \<Rightarrow> ('d, 's) dimension \<Rightarrow> ('o, 's) dimension \<Rightarrow> ('d \<Rightarrow> bool) \<Rightarrow> 'd \<Rightarrow> nat
    \<Rightarrow> ('t, 's, 'o) seek_aggregate \<Rightarrow> ('t \<times> 's) list
    \<Rightarrow> ('d \<times> nat \<times> ('t, 's, 'o) seek_aggregate \<times> bool) option" where
  "seek_items ops dm od past pos i agg [] = Some (pos, i, agg, False)"
| "seek_items ops dm od past pos i agg ((x, s) # xs) =
     (let child_end = dim_add dm pos s in
      if past child_end then do {
        agg' \<leftarrow> push_item ops od agg x s;
        seek_items ops dm od past child_end (Suc i) agg' xs }
      else Some (pos, i, agg, True))"

lemma seek_children_stop:
  "seek_children ops dm od past pos i agg cs = Some (pos', i', agg', Some c)
    \<Longrightarrow> \<exists>k < length cs. i' = i + k \<and> fst (cs ! k) = c"
proof (induction cs arbitrary: pos i agg)
  case (Cons c' cs)
  obtain t s where c': "c' = (t, s)" by fastforce
  show ?case
  proof (cases "past (dim_add dm pos s)")
    case True
    with Cons.prems c' obtain agg1 where
      "seek_children ops dm od past (dim_add dm pos s) (Suc i) agg1 cs = Some (pos', i', agg', Some c)"
      by (auto simp: Let_def split: bind_splits)
    from Cons.IH [OF this] obtain k where "k < length cs" "i' = Suc i + k" "fst (cs ! k) = c" by auto
    then show ?thesis by (intro exI [of _ "Suc k"]) auto
  next
    case False
    with Cons.prems c' show ?thesis by (intro exI [of _ 0]) auto
  qed
qed simp

text \<open>The measure of the stack loops: every node counts two, and an entry counts the children it has
  not entered yet.\<close>

fun node_weight :: "('t, 's) sum_tree \<Rightarrow> nat" where
  "node_weight (Leaf s its iss) = 2"
| "node_weight (Internal h s css cts) = 2 + sum_list (map node_weight cts)"

definition entry_weight :: "nat \<Rightarrow> ('t, 's, 'd) stack_entry \<Rightarrow> nat" where
  "entry_weight skip e =
     (case entry_tree e of
        Leaf s its iss \<Rightarrow> 1
      | Internal h s css cts \<Rightarrow> 1 + sum_list (map node_weight (drop (entry_index e + skip) cts)))"

definition stack_weight :: "bool \<Rightarrow> ('t, 's, 'd) stack_entry list \<Rightarrow> nat" where
  "stack_weight descending st =
     (case st of
        [] \<Rightarrow> 0
      | e # es \<Rightarrow> entry_weight (if descending then 0 else 1) e + sum_list (map (entry_weight 1) es))"

lemma node_weight_entry: "entry_weight 0 (mk_entry c 0 p) + 1 = node_weight c"
  by (cases c) (simp_all add: entry_weight_def mk_entry_def)

lemma sum_list_drop_Suc:
  fixes ws :: "nat list"
  assumes "j < length ws"
  shows "sum_list (drop j ws) = ws ! j + sum_list (drop (Suc j) ws)"
  by (simp add: Cons_nth_drop_Suc [OF assms, symmetric])

lemma sum_list_drop_le:
  fixes ws :: "nat list"
  assumes "i \<le> j"
  shows "sum_list (drop j ws) \<le> sum_list (drop i ws)"
proof -
  have "drop i ws = take (j - i) (drop i ws) @ drop j ws"
    using assms by (metis append_take_drop_id drop_drop le_add_diff_inverse2)
  then have "sum_list (drop i ws) = sum_list (take (j - i) (drop i ws)) + sum_list (drop j ws)"
    by (metis sum_list_append)
  then show ?thesis by simp
qed

lemma stack_weight_pop: "stack_weight False es < stack_weight d (e # es)"
proof -
  have "0 < entry_weight k e'" for k and e' :: "('a, 'b, 'c) stack_entry"
    by (auto simp: entry_weight_def split: sum_tree.splits)
  then show ?thesis by (cases es) (auto simp: stack_weight_def)
qed

lemma stack_weight_push:
  assumes "entry_tree e = Internal h s css cts" "entry_tree e' = Internal h s css cts"
    and "j < length cts" "entry_index e + (if d then 0 else 1) \<le> j" "entry_index e' = j"
  shows "stack_weight True (mk_entry (cts ! j) 0 p # e' # es) < stack_weight d (e # es)"
proof -
  define ws where "ws = map node_weight cts"
  have "sum_list (drop j ws) \<le> sum_list (drop (entry_index e + (if d then 0 else 1)) ws)"
    using assms(4) by (rule sum_list_drop_le)
  moreover have "sum_list (drop j ws) = node_weight (cts ! j) + sum_list (drop (Suc j) ws)"
    using assms(3) sum_list_drop_Suc [of j ws] by (simp add: ws_def)
  moreover have "entry_weight 1 e' = 1 + sum_list (drop (Suc j) ws)"
    using assms by (simp add: entry_weight_def ws_def drop_map)
  moreover have "entry_weight (if d then 0 else 1) e = 1 + sum_list (drop (entry_index e + (if d then 0 else 1)) ws)"
    using assms(1) by (simp add: entry_weight_def ws_def drop_map)
  ultimately show ?thesis
    using node_weight_entry [of "cts ! j" p] by (simp add: stack_weight_def)
qed

text \<open>The \<^verbatim>\<open>'outer\<close> loop of \<^verbatim>\<open>seek_internal\<close>.\<close>

function seek_loop ::
  "('t, 's) summary_ops \<Rightarrow> ('d, 's) dimension \<Rightarrow> ('o, 's) dimension \<Rightarrow> ('d \<Rightarrow> bool)
    \<Rightarrow> ('t, 's, 'd) stack_entry list \<Rightarrow> 'd \<Rightarrow> bool \<Rightarrow> ('t, 's, 'o) seek_aggregate
    \<Rightarrow> (('t, 's, 'd) stack_entry list \<times> 'd \<times> ('t, 's, 'o) seek_aggregate) option" where
  "seek_loop ops dm od past [] pos ascending agg = Some ([], pos, agg)"
| "seek_loop ops dm od past (e # es) pos ascending agg =
     (case entry_tree e of
        Internal h s css cts \<Rightarrow>
          (let i = (if ascending then entry_index e + 1 else entry_index e);
               entry_pos = (if ascending then pos else entry_position e)
           in if length cts < i \<or> length css < i then None
              else case seek_children ops dm od past pos i agg (zip (drop i cts) (drop i css)) of
                None \<Rightarrow> None
              | Some (pos', i', agg', None) \<Rightarrow> seek_loop ops dm od past es pos' True agg'
              | Some (pos', i', agg', Some c) \<Rightarrow>
                  (let e' = e\<lparr>entry_index := i', entry_position := (if i' = i then entry_pos else pos')\<rparr>
                   in case stack_push (e' # es) (mk_entry c 0 pos') of
                        None \<Rightarrow> None
                      | Some st \<Rightarrow> seek_loop ops dm od past st pos' False agg'))
      | Leaf s its iss \<Rightarrow>
          (let i = entry_index e in
           if length its < i \<or> length iss < i then None
           else case seek_items ops dm od past pos i agg (zip (drop i its) (drop i iss)) of
                None \<Rightarrow> None
              | Some (pos', i', agg', stop) \<Rightarrow>
                  (case end_leaf ops agg' of
                     None \<Rightarrow> None
                   | Some agg'' \<Rightarrow>
                       if stop then Some (e\<lparr>entry_index := i'\<rparr> # es, pos', agg'')
                       else seek_loop ops dm od past es pos' True agg'')))"
  by pat_completeness auto
termination
proof (relation "measure (\<lambda>(ops, dm, od, past, st, pos, ascending, agg). stack_weight (\<not> ascending) st)",
    goal_cases)
  case (3 ops dm od past e es pos ascending agg h s css cts i ep x pa pb pc pd pe pf c e' st)
  then have stop: "seek_children ops dm od past pos i agg (zip (drop i cts) (drop i css)) = Some (pa, pc, pe, Some c)"
    by simp
  from seek_children_stop [OF this] obtain k where
    k: "k < length (zip (drop i cts) (drop i css))" "pc = i + k" "fst (zip (drop i cts) (drop i css) ! k) = c"
    by auto
  then have c: "c = cts ! pc" "pc < length cts" by auto
  have "stack_weight True (mk_entry (cts ! pc) 0 pa # e' # es) < stack_weight (\<not> ascending) (e # es)"
    by (rule stack_weight_push) (use 3 c k in auto)
  with 3 c show ?case by (auto simp: stack_push_def split: if_splits)
qed (auto intro: stack_weight_pop)

declare seek_loop.simps(2) [simp del]

definition seek_internal ::
  "('t, 's) summary_ops \<Rightarrow> ('d, 's) dimension \<Rightarrow> ('o, 's) dimension \<Rightarrow> 'd target \<Rightarrow> bias
    \<Rightarrow> ('t, 's, 'o) seek_aggregate \<Rightarrow> ('t, 's, 'd) cursor
    \<Rightarrow> (bool \<times> ('t, 's, 'o) seek_aggregate \<times> ('t, 's, 'd) cursor) option" where
  "seek_internal ops dm od tgt b agg c =
     (if tgt (cursor_position c) = Less then None
      else do {
        st \<leftarrow> (if did_seek c then Some (cursor_stack c)
              else stack_push (cursor_stack c) (mk_entry (cursor_tree c) 0 (dim_zero dm)));
        (st', pos, agg') \<leftarrow> seek_loop ops dm od (seek_past tgt b) st (cursor_position c) False agg;
        let c' = c\<lparr>did_seek := True, cursor_stack := st', cursor_position := pos, at_end := (st' = [])\<rparr>;
        e \<leftarrow> (if b = Left then do {
               r \<leftarrow> cursor_item_summary c';
               (case r of Some s \<Rightarrow> Some (dim_add dm pos s) | None \<Rightarrow> Some pos) }
             else Some pos);
        Some (tgt e = Equal, agg', c')
      })"

definition seek ::
  "('t, 's) summary_ops \<Rightarrow> ('d, 's) dimension \<Rightarrow> 'd target \<Rightarrow> bias \<Rightarrow> ('t, 's, 'd) cursor
    \<Rightarrow> (bool \<times> ('t, 's, 'd) cursor) option" where
  "seek ops dm tgt b c = do {
     (found, agg, c') \<leftarrow> seek_internal ops dm unit_dim tgt b NoAggregate (reset dm c);
     Some (found, c')
   }"

definition seek_forward ::
  "('t, 's) summary_ops \<Rightarrow> ('d, 's) dimension \<Rightarrow> 'd target \<Rightarrow> bias \<Rightarrow> ('t, 's, 'd) cursor
    \<Rightarrow> (bool \<times> ('t, 's, 'd) cursor) option" where
  "seek_forward ops dm tgt b c = do {
     (found, agg, c') \<leftarrow> seek_internal ops dm unit_dim tgt b NoAggregate c;
     Some (found, c')
   }"

definition slice ::
  "('t, 's) summary_ops \<Rightarrow> ('d, 's) dimension \<Rightarrow> 'd target \<Rightarrow> bias \<Rightarrow> ('t, 's, 'd) cursor
    \<Rightarrow> (('t, 's) sum_tree \<times> ('t, 's, 'd) cursor) option" where
  "slice ops dm tgt b c = do {
     let agg = SliceSeekAggregate \<lparr>slice_tree = tree_new ops, leaf_items = [], leaf_item_summaries = [],
                                   leaf_summary = summary_zero ops\<rparr>;
     (found, agg', c') \<leftarrow> seek_internal ops dm unit_dim tgt b agg c;
     (case agg' of SliceSeekAggregate a \<Rightarrow> Some (slice_tree a, c') | _ \<Rightarrow> None)
   }"

definition suffix ::
  "('t, 's) summary_ops \<Rightarrow> ('d, 's) dimension \<Rightarrow> ('t, 's, 'd) cursor
    \<Rightarrow> (('t, 's) sum_tree \<times> ('t, 's, 'd) cursor) option" where
  "suffix ops dm c = slice ops dm end_target Right c"

definition cursor_summary ::
  "('t, 's) summary_ops \<Rightarrow> ('d, 's) dimension \<Rightarrow> ('o, 's) dimension \<Rightarrow> 'd target \<Rightarrow> bias \<Rightarrow> ('t, 's, 'd) cursor
    \<Rightarrow> ('o \<times> ('t, 's, 'd) cursor) option" where
  "cursor_summary ops dm od tgt b c = do {
     (found, agg', c') \<leftarrow> seek_internal ops dm od tgt b (SummarySeekAggregate (dim_zero od)) c;
     (case agg' of SummarySeekAggregate d \<Rightarrow> Some (d, c') | _ \<Rightarrow> None)
   }"

section \<open>Searching forward\<close>

text \<open>The inner loop of \<^verbatim>\<open>search_forward\<close>: skips the children the filter rejects, moving the index, the
  entry's position and the cursor's position.\<close>

fun skip_rejected ::
  "('d, 's) dimension \<Rightarrow> ('s \<Rightarrow> bool) \<Rightarrow> 's list \<Rightarrow> nat \<Rightarrow> 'd \<Rightarrow> 'd \<Rightarrow> nat \<times> 'd \<times> 'd" where
  "skip_rejected dm filt [] i ep pos = (i, ep, pos)"
| "skip_rejected dm filt (s # ss) i ep pos =
     (if filt s then (i, ep, pos)
      else skip_rejected dm filt ss (Suc i) (dim_add dm ep s) (dim_add dm pos s))"

lemma skip_rejected_mono: "skip_rejected dm filt ss i ep pos = (i', ep', pos') \<Longrightarrow> i \<le> i'"
  by (induction dm filt ss i ep pos rule: skip_rejected.induct) (auto split: if_splits)

function search_forward_loop ::
  "('d, 's) dimension \<Rightarrow> ('s \<Rightarrow> bool) \<Rightarrow> ('t, 's, 'd) stack_entry list \<Rightarrow> 'd \<Rightarrow> bool
    \<Rightarrow> (('t, 's, 'd) stack_entry list \<times> 'd) option" where
  "search_forward_loop dm filt [] pos descend = Some ([], pos)"
| "search_forward_loop dm filt (e # es) pos descend =
     (case entry_tree e of
        Internal h s css cts \<Rightarrow>
          (let i = (if descend then entry_index e else entry_index e + 1);
               ep = (if descend then entry_position e else pos)
           in case skip_rejected dm filt (drop i css) i ep pos of
                (i', ep', pos') \<Rightarrow>
                  (if i' < length cts then
                     case stack_push (e\<lparr>entry_index := i', entry_position := ep'\<rparr> # es)
                            (mk_entry (cts ! i') 0 pos') of
                       None \<Rightarrow> None
                     | Some st \<Rightarrow> search_forward_loop dm filt st pos' True
                   else search_forward_loop dm filt es pos' False))
      | Leaf s its iss \<Rightarrow>
          (case (if descend then Some (entry_index e, entry_position e, pos)
                 else map_option (\<lambda>s. (entry_index e + 1, dim_add dm (entry_position e) s, dim_add dm pos s))
                        (index_checked iss (entry_index e))) of
             None \<Rightarrow> None
           | Some (i, ep, pos1) \<Rightarrow>
               (case skip_rejected dm filt (drop i iss) i ep pos1 of
                  (i', ep', pos') \<Rightarrow>
                    (if i' < length iss
                     then Some (e\<lparr>entry_index := i', entry_position := ep'\<rparr> # es, pos')
                     else search_forward_loop dm filt es pos' False))))"
  by pat_completeness auto
termination
proof (relation "measure (\<lambda>(dm, filt, st, pos, descend). stack_weight descend st)", goal_cases)
  case (2 dm filt e es pos descend h s css cts i ep i' y ep' pos' st)
  then have "i \<le> i'" by (auto dest: skip_rejected_mono [OF sym])
  then have "stack_weight True (mk_entry (cts ! i') 0 pos' # e\<lparr>entry_index := i', entry_position := ep'\<rparr> # es)
      < stack_weight descend (e # es)"
    by (intro stack_weight_push) (use 2 in auto)
  with 2 show ?case by (auto simp: stack_push_def split: if_splits)
qed (auto intro: stack_weight_pop)

declare search_forward_loop.simps(2) [simp del]

text \<open>The loop returns early, with \<^verbatim>\<open>at_end\<close> untouched, when it stops at an item.\<close>

definition search_forward ::
  "('d, 's) dimension \<Rightarrow> ('s \<Rightarrow> bool) \<Rightarrow> ('t, 's, 'd) cursor \<Rightarrow> ('t, 's, 'd) cursor option" where
  "search_forward dm filt c = do {
     (st, descend) \<leftarrow>
       (if cursor_stack c = [] then
          if \<not> at_end c then do {
            st \<leftarrow> stack_push [] (mk_entry (cursor_tree c) 0 (dim_zero dm));
            Some (st, True) }
          else Some ([], False)
        else Some (cursor_stack c, False));
     let sought = (did_seek c \<or> cursor_stack c = []);
     (st', pos) \<leftarrow> search_forward_loop dm filt st (cursor_position c) descend;
     Some (c\<lparr>cursor_stack := st', cursor_position := pos, did_seek := sought,
             at_end := (if st' = [] then True else at_end c)\<rparr>)
   }"

definition cursor_next :: "('d, 's) dimension \<Rightarrow> ('t, 's, 'd) cursor \<Rightarrow> ('t, 's, 'd) cursor option" where
  "cursor_next dm c = search_forward dm (\<lambda>_. True) c"

section \<open>Searching backward\<close>

text \<open>The measure of the backward loop: an entry counts the children before its index.\<close>

fun back_node_weight :: "('t, 's) sum_tree \<Rightarrow> nat" where
  "back_node_weight (Leaf s its iss) = 3 + length iss"
| "back_node_weight (Internal h s css cts) = 3 + length css + sum_list (map back_node_weight cts)"

definition back_entry_weight :: "nat \<Rightarrow> ('t, 's, 'd) stack_entry \<Rightarrow> nat" where
  "back_entry_weight n e =
     1 + n + (case entry_tree e of
        Leaf s its iss \<Rightarrow> 0
      | Internal h s css cts \<Rightarrow> sum_list (take n (map back_node_weight cts)))"

definition back_stack_weight :: "bool \<Rightarrow> ('t, 's, 'd) stack_entry list \<Rightarrow> nat" where
  "back_stack_weight descending st =
     (case st of
        [] \<Rightarrow> 0
      | e # es \<Rightarrow> back_entry_weight (entry_index e + (if descending then 1 else 0)) e
          + sum_list (map (\<lambda>e. back_entry_weight (entry_index e) e) es))"

lemma back_stack_weight_pop: "back_stack_weight False es < back_stack_weight d (e # es)"
  by (cases es) (auto simp: back_stack_weight_def back_entry_weight_def)

lemma sum_list_take_le: "sum_list (take n ws) \<le> sum_list (ws :: nat list)"
  by (metis append_take_drop_id le_add1 sum_list_append)

lemma sum_list_take_mono: "i \<le> j \<Longrightarrow> sum_list (take i ws) \<le> sum_list (take j (ws :: nat list))"
  by (metis min.absorb1 sum_list_take_le take_take)

lemma back_entry_weight_mono: "i < j \<Longrightarrow> entry_tree e = entry_tree e'
    \<Longrightarrow> back_entry_weight i e < back_entry_weight j e'"
  by (auto simp: back_entry_weight_def intro!: add_less_le_mono sum_list_take_mono split: sum_tree.splits)

lemma back_entry_weight_child: "back_entry_weight (length (child_summaries t)) (mk_entry t i p) < back_node_weight t"
  by (cases t) (auto simp: back_entry_weight_def mk_entry_def intro: le_less_trans [OF sum_list_take_le])

lemma back_stack_weight_push:
  assumes "entry_tree e = Internal h s css cts" "entry_tree e' = Internal h s css cts"
    and "entry_index e' = i" "i < length cts" "i < entry_index e + (if d then 1 else 0)"
    and "length (child_summaries (cts ! i)) = Suc n"
  shows "back_stack_weight True (mk_entry (cts ! i) n p # e' # es) < back_stack_weight d (e # es)"
proof -
  let ?ws = "map back_node_weight cts"
  have "sum_list (take (Suc i) ?ws) \<le> sum_list (take (entry_index e + (if d then 1 else 0)) ?ws)"
    using assms(5) by (intro sum_list_take_mono) auto
  moreover have "sum_list (take (Suc i) ?ws) = sum_list (take i ?ws) + back_node_weight (cts ! i)"
    using assms(4) by (simp add: take_Suc_conv_app_nth)
  moreover have "back_entry_weight (Suc n) (mk_entry (cts ! i) n p) < back_node_weight (cts ! i)"
    using back_entry_weight_child [of "cts ! i" n p] assms(6) by simp
  ultimately show ?thesis
    using assms by (simp add: back_stack_weight_def back_entry_weight_def [of _ e] back_entry_weight_def [of _ e']
        mk_entry_def)
qed

text \<open>The loop of \<^verbatim>\<open>search_backward\<close>.  The position of the entry below the top is where the top's
  subtree starts.\<close>

definition below_position :: "('d, 's) dimension \<Rightarrow> ('t, 's, 'd) stack_entry list \<Rightarrow> 'd" where
  "below_position dm es = (case es of [] \<Rightarrow> dim_zero dm | e # _ \<Rightarrow> entry_position e)"

function search_backward_loop ::
  "('d, 's) dimension \<Rightarrow> ('s \<Rightarrow> bool) \<Rightarrow> ('t, 's, 'd) stack_entry list \<Rightarrow> 'd \<Rightarrow> bool
    \<Rightarrow> (('t, 's, 'd) stack_entry list \<times> 'd) option" where
  "search_backward_loop dm filt [] pos descending = Some ([], pos)"
| "search_backward_loop dm filt (e # es) pos descending =
     (if \<not> descending \<and> entry_index e = 0
      then search_backward_loop dm filt es (below_position dm es) False
      else
        let i = (if descending then entry_index e else entry_index e - 1);
            css = child_summaries (entry_tree e)
        in if length css \<le> i then None
           else
             let pos' = foldl (dim_add dm) (below_position dm es) (take i css);
                 e' = e\<lparr>entry_index := i, entry_position := pos'\<rparr>
             in if \<not> filt (css ! i) then search_backward_loop dm filt (e' # es) pos' False
                else case entry_tree e of
                    Leaf _ _ _ \<Rightarrow> Some (e' # es, pos')
                  | Internal _ _ _ cts \<Rightarrow>
                      (if i < length cts then
                         case usize_sub (length (child_summaries (cts ! i))) 1 of
                           None \<Rightarrow> None
                         | Some n \<Rightarrow>
                             (case stack_push (e' # es) (mk_entry (cts ! i) n (dim_zero dm)) of
                                None \<Rightarrow> None
                              | Some st \<Rightarrow> search_backward_loop dm filt st pos' True)
                       else None))"
  by pat_completeness auto
termination
proof (relation "measure (\<lambda>(dm, filt, st, pos, descending). back_stack_weight descending st)", goal_cases)
  case (3 dm filt e es pos descending i css pos' e')
  have "back_entry_weight i e' < back_entry_weight (entry_index e + (if descending then 1 else 0)) e"
    by (rule back_entry_weight_mono) (use 3 in auto)
  with 3 show ?case by (simp add: back_stack_weight_def)
next
  case (4 dm filt e es pos descending i css pos' e' h s css' cts n st)
  have "back_stack_weight True (mk_entry (cts ! i) n (dim_zero dm) # e' # es)
      < back_stack_weight descending (e # es)"
    by (rule back_stack_weight_push) (use 4 in auto)
  with 4 show ?case by (auto simp: stack_push_def split: if_splits)
qed (auto intro: back_stack_weight_pop)

declare search_backward_loop.simps(2) [simp del]

definition search_backward ::
  "('d, 's) dimension \<Rightarrow> ('s \<Rightarrow> bool) \<Rightarrow> ('t, 's, 'd) cursor \<Rightarrow> ('t, 's, 'd) cursor option" where
  "search_backward dm filt c = do {
     let c1 = (if \<not> did_seek c then c\<lparr>did_seek := True, at_end := True\<rparr> else c);
     c2 \<leftarrow> (if at_end c1 then
              if \<not> is_empty (cursor_tree c1) then do {
                st \<leftarrow> stack_push (cursor_stack c1)
                       (mk_entry (cursor_tree c1) (length (child_summaries (cursor_tree c1)))
                         (dim_from_summary dm (summary (cursor_tree c1))));
                Some (c1\<lparr>cursor_position := dim_zero dm, at_end := False, cursor_stack := st\<rparr>) }
              else Some (c1\<lparr>cursor_position := dim_zero dm, at_end := True\<rparr>)
            else Some c1);
     (st', pos) \<leftarrow> search_backward_loop dm filt (cursor_stack c2) (cursor_position c2) False;
     Some (c2\<lparr>cursor_stack := st', cursor_position := pos\<rparr>)
   }"

definition cursor_prev :: "('d, 's) dimension \<Rightarrow> ('t, 's, 'd) cursor \<Rightarrow> ('t, 's, 'd) cursor option" where
  "cursor_prev dm c = search_backward dm (\<lambda>_. True) c"

section \<open>Iterators\<close>

text \<open>\<^verbatim>\<open>impl Iterator for Cursor\<close>.\<close>

definition iterator_next ::
  "('d, 's) dimension \<Rightarrow> ('t, 's, 'd) cursor \<Rightarrow> ('t option \<times> ('t, 's, 'd) cursor) option" where
  "iterator_next dm c = do {
     c1 \<leftarrow> (if did_seek c then Some c else cursor_next dm c);
     r \<leftarrow> item c1;
     (case r of
        Some x \<Rightarrow> do { c2 \<leftarrow> cursor_next dm c1; Some (Some x, c2) }
      | None \<Rightarrow> Some (None, c1))
   }"

text \<open>\<^verbatim>\<open>impl Iterator for FilterCursor\<close>.\<close>

definition filter_cursor_next ::
  "('d, 's) dimension \<Rightarrow> ('s \<Rightarrow> bool) \<Rightarrow> ('t, 's, 'd) cursor \<Rightarrow> ('t option \<times> ('t, 's, 'd) cursor) option" where
  "filter_cursor_next dm filt c = do {
     c1 \<leftarrow> (if did_seek c then Some c else search_forward dm filt c);
     r \<leftarrow> item c1;
     (case r of
        Some x \<Rightarrow> do { c2 \<leftarrow> search_forward dm filt c1; Some (Some x, c2) }
      | None \<Rightarrow> Some (None, c1))
   }"

text \<open>\<^verbatim>\<open>Iter::next\<close>: the stack loop without positions.\<close>

function iter_loop ::
  "('t, 's, unit) stack_entry list \<Rightarrow> bool \<Rightarrow> ('t option \<times> ('t, 's, unit) stack_entry list) option" where
  "iter_loop [] descend = Some (None, [])"
| "iter_loop (e # es) descend =
     (let i = (if descend then entry_index e else entry_index e + 1);
          e' = e\<lparr>entry_index := i\<rparr>
      in case entry_tree e of
           Internal h s css cts \<Rightarrow>
             (if i < length cts then
                case stack_push (e' # es) (mk_entry (cts ! i) 0 ()) of
                  None \<Rightarrow> None
                | Some st \<Rightarrow> iter_loop st True
              else iter_loop es False)
         | Leaf s its iss \<Rightarrow>
             (if i < length its then Some (Some (its ! i), e' # es) else iter_loop es False))"
  by pat_completeness auto
termination
proof (relation "measure (\<lambda>(st, descend). stack_weight descend st)", goal_cases)
  case (2 e es descend i e' h s css cts st)
  have "stack_weight True (mk_entry (cts ! i) 0 () # e' # es) < stack_weight descend (e # es)"
    by (rule stack_weight_push) (use 2 in auto)
  with 2 show ?case by (auto simp: stack_push_def split: if_splits)
qed (auto intro: stack_weight_pop)

declare iter_loop.simps(2) [simp del]

definition iter_next ::
  "('t, 's) sum_tree \<Rightarrow> ('t, 's, unit) stack_entry list \<Rightarrow> ('t option \<times> ('t, 's, unit) stack_entry list) option" where
  "iter_next t st =
     (if st = [] then do { st' \<leftarrow> stack_push [] (mk_entry t 0 ()); iter_loop st' True }
      else iter_loop st False)"

text \<open>\<^verbatim>\<open>SumTree::items\<close> drives a cursor to the end.  The fuel is the number of \<^verbatim>\<open>next\<close> calls allowed.\<close>

fun drain_items ::
  "nat \<Rightarrow> ('t, 's, unit) cursor \<Rightarrow> 't list \<Rightarrow> 't list option" where
  "drain_items 0 c acc = None"
| "drain_items (Suc n) c acc = do {
     r \<leftarrow> item c;
     (case r of
        None \<Rightarrow> Some acc
      | Some x \<Rightarrow> do { c' \<leftarrow> cursor_next unit_dim c; drain_items n c' (acc @ [x]) })
   }"

definition tree_items :: "nat \<Rightarrow> ('t, 's) sum_tree \<Rightarrow> 't list option" where
  "tree_items n t = do {
     c \<leftarrow> cursor_next unit_dim (cursor_new unit_dim t);
     drain_items n c []
   }"

end
