(* ===== verification/SumTree_Correct.thy ===== *)
theory SumTree_Correct
  imports SumTree
begin

text \<open>
  The invariant of \<^verbatim>\<open>SumTree\<close> and what its operations do to the sequence of items: nothing
  panics on well-formed trees, the invariant is kept, and concatenation of trees is concatenation
  of their items.  The laws a \<^verbatim>\<open>Summary\<close> must satisfy are the locale \<open>summary_laws\<close>: zero is a
  \<^emph>\<open>left\<close> identity and addition is associative on the valid summaries.  A right identity is not
  required, and the summaries that keep the last key seen do not have one.
\<close>

section \<open>Abstraction and invariant\<close>

fun items :: "('t, 's) sum_tree \<Rightarrow> 't list" where
  "items (Leaf s its iss) = its"
| "items (Internal h s css cts) = concat (map items cts)"

fun tree_wf :: "('t, 's) summary_ops \<Rightarrow> ('t, 's) sum_tree \<Rightarrow> bool" where
  "tree_wf ops (Leaf s its iss) =
     (length its \<le> 2 * TREE_BASE \<and> iss = map (item_summary ops) its \<and> s = sum_summaries ops iss)"
| "tree_wf ops (Internal h s css cts) =
     (cts \<noteq> [] \<and> length cts \<le> 2 * TREE_BASE \<and> css = map summary cts \<and> s = sum_summaries ops css
      \<and> list_all (\<lambda>t. tree_wf ops t \<and> Suc (height t) = h \<and> \<not> is_empty t) cts)"

definition child_ok :: "('t, 's) summary_ops \<Rightarrow> nat \<Rightarrow> ('t, 's) sum_tree \<Rightarrow> bool" where
  "child_ok ops h t = (tree_wf ops t \<and> height t = h \<and> \<not> is_empty t)"

lemma tree_wf_Internal:
  "tree_wf ops (Internal (Suc h) s css cts) \<longleftrightarrow>
     cts \<noteq> [] \<and> length cts \<le> 2 * TREE_BASE \<and> css = map summary cts \<and> s = sum_summaries ops css
     \<and> list_all (child_ok ops h) cts"
  by (auto simp: child_ok_def list_all_iff)

lemma tree_wf_height: "tree_wf ops (Internal h s css cts) \<Longrightarrow> \<exists>h'. h = Suc h'"
  by (cases cts) auto

lemma is_empty_iff: "tree_wf ops t \<Longrightarrow> is_empty t \<longleftrightarrow> items t = []"
proof (induction t)
  case (Internal h s css cts)
  then show ?case by (cases cts) (auto simp: list_all_iff)
qed simp

lemma tree_new_wf [simp]: "tree_wf ops (tree_new ops)" "items (tree_new ops) = []"
  by (simp_all add: tree_new_def sum_summaries_def)

lemma array_collect_Some [simp]: "length xs \<le> 2 * TREE_BASE \<Longrightarrow> array_collect xs = Some xs"
  by (simp add: array_collect_def)

lemma array_extend_Some [simp]:
  "length xs + length ys \<le> 2 * TREE_BASE \<Longrightarrow> array_extend xs ys = Some (xs @ ys)"
  by (simp add: array_extend_def)

lemma split_at_Some [simp]:
  "mid \<le> 2 * TREE_BASE \<Longrightarrow> length xs \<le> mid + 2 * TREE_BASE
    \<Longrightarrow> split_at mid xs = Some (take mid xs, drop mid xs)"
  by (auto simp: split_at_def)

lemma set_last_Some [simp]: "set_last (xs @ [y]) x = Some (xs @ [x])"
  by (simp add: set_last_def)

lemma set_first_Some [simp]: "set_first (y # xs) x = Some (x # xs)"
  by (simp add: set_first_def)

lemma option_list_simps [simp]: "option_list None = []" "option_list (Some x) = [x]"
  by (simp_all add: option_list_def)

lemma height_0_leaf:
  "tree_wf ops t \<Longrightarrow> height t = 0 \<Longrightarrow> \<exists>s its iss. t = Leaf s its iss"
  by (cases t) (auto simp: neq_Nil_conv)

text \<open>Both ways the code rounds the midpoint up are the same.\<close>

lemma midpoint_eq: "((n :: nat) + n mod 2) div 2 = (n + 1) div 2"
  by presburger

lemma midpoint_bounds:
  fixes n b :: nat
  assumes "2 * b < n" "n \<le> 4 * b"
  shows "0 < (n + 1) div 2" "(n + 1) div 2 < n" "(n + 1) div 2 \<le> 2 * b" "n - (n + 1) div 2 \<le> 2 * b"
    "n \<le> (n + 1) div 2 + 2 * b"
  using assms by linarith+

section \<open>Chunks\<close>

text \<open>The sequential and the parallel construction group children the same way.\<close>

lemma TREE_BASE_gt_1 [simp]: "2 * TREE_BASE \<noteq> Suc 0" "Suc 0 < 2 * TREE_BASE"
  by (simp_all add: TREE_BASE_def)

definition parent_of :: "('t, 's) summary_ops \<Rightarrow> nat \<Rightarrow> ('t, 's) sum_tree list \<Rightarrow> ('t, 's) sum_tree" where
  "parent_of ops h ts = Internal h (sum_summaries ops (map summary ts)) (map summary ts) ts"

lemma group_children_Some:
  assumes "length css = length cts" "length cts + k = 2 * TREE_BASE" "0 < k"
  shows "group_children ops h cs (Some (s, css, cts)) =
     (if length cs < k
      then Some [Internal h (foldl (summary_add ops) s (map summary cs)) (css @ map summary cs) (cts @ cs)]
      else map_option ((#) (Internal h (foldl (summary_add ops) s (map summary (take k cs)))
               (css @ map summary (take k cs)) (cts @ take k cs)))
             (group_children ops h (drop k cs) None))"
  using assms
proof (induction cs arbitrary: s css cts k)
  case (Cons c cs)
  then obtain j where k: "k = Suc j" by (cases k) auto
  have fits: "length cts < 2 * TREE_BASE" "Suc (length cts) = 2 * TREE_BASE \<longleftrightarrow> j = 0"
    using Cons.prems(2) k by auto
  show ?case
  proof (cases j)
    case 0
    with fits Cons.prems(1) k show ?thesis by simp
  next
    case (Suc i)
    with Cons.prems k have "length (css @ [summary c]) = length (cts @ [c])"
        "length (cts @ [c]) + j = 2 * TREE_BASE" "0 < j" by simp_all
    from Cons.IH [OF this] show ?thesis
      using fits Cons.prems(1) Suc k by simp
  qed
qed simp

lemma group_children_chunks:
  "group_children ops h cs None = Some (map (parent_of ops h) (chunks (2 * TREE_BASE) cs))"
proof (induction "2 * TREE_BASE" cs rule: chunks.induct)
  case (2 c cs)
  have k: "length [c] + (2 * TREE_BASE - 1) = 2 * TREE_BASE" "0 < 2 * TREE_BASE - 1"
    by (simp_all add: TREE_BASE_def)
  show ?case
    using 2 by (simp add: group_children_Some [OF _ k] parent_of_def sum_summaries_def Let_def)
qed simp

lemma concat_chunks: "concat (chunks n xs) = xs"
  by (induction n xs rule: chunks.induct) auto

lemma chunks_bounds: "0 < n \<Longrightarrow> c \<in> set (chunks n xs) \<Longrightarrow> c \<noteq> [] \<and> length c \<le> n \<and> set c \<subseteq> set xs"
  by (induction n xs rule: chunks.induct) (auto dest: in_set_takeD in_set_dropD)

lemma build_leaves_chunks:
  "build_leaves ops xs = collect_map (leaf_of_chunk ops) (chunks (2 * TREE_BASE) xs)"
proof (induction ops xs rule: build_leaves.induct)
  case (2 ops x xs)
  obtain n where "2 * TREE_BASE = Suc n" by (simp add: TREE_BASE_def)
  with 2 show ?case by (simp cong: Option.bind_cong)
qed simp

lemma collect_map_Some:
  "(\<And>x. x \<in> set xs \<Longrightarrow> f x = Some (g x)) \<Longrightarrow> collect_map f xs = Some (map g xs)"
  by (induction xs) auto

section \<open>The laws of summaries\<close>

locale summary_laws =
  fixes ops :: "('t, 's) summary_ops"
    and valid :: "'s \<Rightarrow> bool"
    and ok :: "'t \<Rightarrow> bool"
  assumes zero_valid: "valid (summary_zero ops)"
    and add_valid: "valid a \<Longrightarrow> valid b \<Longrightarrow> valid (summary_add ops a b)"
    and item_valid: "ok x \<Longrightarrow> valid (item_summary ops x)"
    and zero_left: "valid a \<Longrightarrow> summary_add ops (summary_zero ops) a = a"
    and add_assoc: "valid a \<Longrightarrow> valid b \<Longrightarrow> valid c
      \<Longrightarrow> summary_add ops (summary_add ops a b) c = summary_add ops a (summary_add ops b c)"
begin

abbreviation total :: "'s list \<Rightarrow> 's" where
  "total ss \<equiv> sum_summaries ops ss"

abbreviation items_total :: "'t list \<Rightarrow> 's" where
  "items_total xs \<equiv> sum_summaries ops (map (item_summary ops) xs)"

abbreviation good :: "('t, 's) sum_tree \<Rightarrow> bool" where
  "good t \<equiv> tree_wf ops t \<and> list_all ok (items t)"

lemma foldl_valid:
  "valid a \<Longrightarrow> list_all valid ss \<Longrightarrow> valid (foldl (summary_add ops) a ss)"
  by (induction ss arbitrary: a) (auto intro: add_valid)

lemma total_valid: "list_all valid ss \<Longrightarrow> valid (total ss)"
  unfolding sum_summaries_def by (rule foldl_valid [OF zero_valid])

lemma items_total_valid: "list_all ok xs \<Longrightarrow> valid (items_total xs)"
  by (rule total_valid) (auto simp: list_all_iff intro: item_valid)

lemma foldl_add:
  "valid a \<Longrightarrow> valid b \<Longrightarrow> list_all valid ss
    \<Longrightarrow> foldl (summary_add ops) (summary_add ops a b) ss = summary_add ops a (foldl (summary_add ops) b ss)"
proof (induction ss arbitrary: b)
  case (Cons s ss)
  then show ?case by (simp add: add_assoc add_valid)
qed simp

lemma total_Cons: "valid s \<Longrightarrow> total (s # ss) = foldl (summary_add ops) s ss"
  by (simp add: sum_summaries_def zero_left)

lemma total_append:
  assumes "list_all valid xs" "list_all valid ys" "ys \<noteq> []"
  shows "total (xs @ ys) = summary_add ops (total xs) (total ys)"
proof -
  obtain y ys' where ys: "ys = y # ys'" using assms(3) by (cases ys) auto
  have "total (xs @ ys) = foldl (summary_add ops) (summary_add ops (total xs) y) ys'"
    by (simp add: sum_summaries_def ys)
  also have "\<dots> = summary_add ops (total xs) (foldl (summary_add ops) y ys')"
    using assms ys by (intro foldl_add total_valid) auto
  finally show ?thesis using assms ys by (simp add: total_Cons)
qed

lemma items_total_append:
  "list_all ok xs \<Longrightarrow> list_all ok ys \<Longrightarrow> ys \<noteq> []
    \<Longrightarrow> items_total (xs @ ys) = summary_add ops (items_total xs) (items_total ys)"
  by (simp add: total_append list_all_iff item_valid)

lemma total_children:
  assumes "\<forall>t \<in> set cts. summary t = items_total (items t) \<and> items t \<noteq> [] \<and> list_all ok (items t)"
  shows "total (map summary cts) = items_total (concat (map items cts))"
  using assms
proof (induction cts rule: rev_induct)
  case (snoc t cts)
  have ok: "list_all ok (concat (map items cts))" "list_all ok (items t)" "items t \<noteq> []"
    using snoc.prems by (auto simp: list_all_iff)
  have valid: "list_all valid (map summary cts)" "valid (summary t)"
    using snoc.prems by (auto simp: list_all_iff intro!: items_total_valid)
  have "total (map summary (cts @ [t])) = summary_add ops (total (map summary cts)) (summary t)"
    using valid by (simp add: sum_summaries_def)
  also have "\<dots> = summary_add ops (items_total (concat (map items cts))) (items_total (items t))"
    using snoc by simp
  also have "\<dots> = items_total (concat (map items (cts @ [t])))"
    using items_total_append [OF ok] by simp
  finally show ?case .
qed simp

lemma summary_items: "good t \<Longrightarrow> summary t = items_total (items t)"
proof (induction t)
  case (Internal h s css cts)
  have "summary c = items_total (items c) \<and> items c \<noteq> [] \<and> list_all ok (items c)" if "c \<in> set cts" for c
  proof -
    have "good c" "\<not> is_empty c" using Internal.prems that by (auto simp: list_all_iff)
    with Internal.IH [OF that] show ?thesis by (auto simp: is_empty_iff)
  qed
  then have "total (map summary cts) = items_total (concat (map items cts))"
    by (intro total_children) blast
  with Internal.prems show ?case by simp
qed simp

lemma summary_valid: "good t \<Longrightarrow> valid (summary t)"
  by (simp add: summary_items items_total_valid)

lemma children_good:
  "list_all (child_ok ops h) cts \<Longrightarrow> list_all ok (concat (map items cts)) \<Longrightarrow> c \<in> set cts
    \<Longrightarrow> good c \<and> items c \<noteq> [] \<and> height c = h"
  by (auto simp: list_all_iff child_ok_def is_empty_iff)

lemma total_child_summaries:
  assumes "list_all (child_ok ops h) cts" "list_all ok (concat (map items cts))"
  shows "total (map summary cts) = items_total (concat (map items cts))"
  by (rule total_children) (use children_good [OF assms] summary_items in blast)

text \<open>The four ways the operations make a node.\<close>

lemma internal_node:
  assumes "list_all (child_ok ops h) cts" "cts \<noteq> []" "length cts \<le> 2 * TREE_BASE" "css = map summary cts"
  shows "child_ok ops (Suc h) (Internal (Suc h) (total css) css cts)"
  using assms by (simp add: child_ok_def tree_wf_Internal del: tree_wf.simps)

lemma internal_node_cached:
  assumes "list_all (child_ok ops h) cts" "cts \<noteq> []" "length cts \<le> 2 * TREE_BASE" "css = map summary cts"
    and "list_all ok (concat (map items cts))" "s = items_total (concat (map items cts))"
  shows "child_ok ops (Suc h) (Internal (Suc h) s css cts)"
  using internal_node [OF assms(1-4)] total_child_summaries [OF assms(1,5)] assms(4,6) by simp

lemma leaf_node:
  assumes "its \<noteq> []" "length its \<le> 2 * TREE_BASE" "iss = map (item_summary ops) its"
  shows "child_ok ops 0 (Leaf (total iss) its iss)"
  using assms by (simp add: child_ok_def)

lemma leaf_node_cached:
  assumes "its \<noteq> []" "length its \<le> 2 * TREE_BASE" "iss = map (item_summary ops) its" "s = items_total its"
  shows "child_ok ops 0 (Leaf s its iss)"
  using leaf_node [OF assms(1-3)] assms by simp

text \<open>What an operation that may split a node promises: \<open>t\<close> keeps the height, and the other half
  has the same height.\<close>

definition halves :: "nat \<Rightarrow> 't list \<Rightarrow> ('t, 's) sum_tree \<Rightarrow> ('t, 's) sum_tree option \<Rightarrow> bool" where
  "halves h xs t r \<longleftrightarrow> child_ok ops h t
     \<and> (case r of None \<Rightarrow> items t = xs | Some u \<Rightarrow> child_ok ops h u \<and> items t @ items u = xs)"

lemma halves_Internal:
  assumes ok: "list_all (child_ok ops h) cts" "css = map summary cts"
    and n: "2 * TREE_BASE < length cts" "length cts \<le> 4 * TREE_BASE"
    and mid_def: "mid = (length cts + 1) div 2"
  shows "split_at mid css = Some (take mid css, drop mid css)"
    and "split_at mid cts = Some (take mid cts, drop mid cts)"
    and "halves (Suc h) (concat (map items cts))
      (Internal (Suc h) (total (take mid css)) (take mid css) (take mid cts))
      (Some (Internal (Suc h) (total (drop mid css)) (drop mid css) (drop mid cts)))"
proof -
  have mid: "0 < mid" "mid < length cts" "mid \<le> 2 * TREE_BASE" "length cts - mid \<le> 2 * TREE_BASE"
    using midpoint_bounds [OF n] by (simp_all add: mid_def)
  then show "split_at mid css = Some (take mid css, drop mid css)"
    "split_at mid cts = Some (take mid cts, drop mid cts)"
    using ok by simp_all
  have "child_ok ops (Suc h) (Internal (Suc h) (total (take mid css)) (take mid css) (take mid cts))"
    "child_ok ops (Suc h) (Internal (Suc h) (total (drop mid css)) (drop mid css) (drop mid cts))"
    using mid ok
    by (intro internal_node; auto simp: list_all_iff take_map drop_map dest: in_set_takeD in_set_dropD)+
  moreover have "concat (map items (take mid cts)) @ concat (map items (drop mid cts)) = concat (map items cts)"
    by (metis append_take_drop_id concat_append map_append)
  ultimately show "halves (Suc h) (concat (map items cts))
      (Internal (Suc h) (total (take mid css)) (take mid css) (take mid cts))
      (Some (Internal (Suc h) (total (drop mid css)) (drop mid css) (drop mid cts)))"
    by (simp add: halves_def)
qed

lemma halves_Leaf:
  assumes ok: "iss = map (item_summary ops) its"
    and n: "2 * TREE_BASE < length its" "length its \<le> 4 * TREE_BASE"
    and mid_def: "mid = (length its + 1) div 2"
  shows "split_at mid iss = Some (take mid iss, drop mid iss)"
    and "split_at mid its = Some (take mid its, drop mid its)"
    and "halves 0 its (Leaf (total (take mid iss)) (take mid its) (take mid iss))
      (Some (Leaf (total (drop mid iss)) (drop mid its) (drop mid iss)))"
proof -
  have mid: "0 < mid" "mid < length its" "mid \<le> 2 * TREE_BASE" "length its - mid \<le> 2 * TREE_BASE"
    using midpoint_bounds [OF n] by (simp_all add: mid_def)
  then show "split_at mid iss = Some (take mid iss, drop mid iss)"
    "split_at mid its = Some (take mid its, drop mid its)"
    using ok by simp_all
  show "halves 0 its (Leaf (total (take mid iss)) (take mid its) (take mid iss))
      (Some (Leaf (total (drop mid iss)) (drop mid its) (drop mid iss)))"
    using mid ok by (auto simp: halves_def take_map drop_map intro!: leaf_node)
qed

lemma child_ok_Internal_height:
  assumes "child_ok ops h (Internal h0 s css cts)"
  obtains h' where "h = Suc h'" "h0 = Suc h'"
  using assms tree_wf_height [of ops h0 s css cts] by (auto simp: child_ok_def simp del: tree_wf.simps)

lemma child_ok_Internal_cases:
  assumes "child_ok ops (Suc h) t"
  obtains cts where "t = Internal (Suc h) (total (map summary cts)) (map summary cts) cts"
    "list_all (child_ok ops h) cts" "cts \<noteq> []" "length cts \<le> 2 * TREE_BASE"
  using assms by (cases t) (auto simp: child_ok_def list_all_iff)

lemma child_ok_Leaf_cases:
  assumes "child_ok ops 0 t"
  obtains its where "t = Leaf (items_total its) its (map (item_summary ops) its)" "its \<noteq> []"
    "length its \<le> 2 * TREE_BASE"
  using assms by (cases t) (auto simp: child_ok_def neq_Nil_conv)

lemma add_items_total:
  assumes "child_ok ops h a" "child_ok ops k b" "list_all ok (items a)" "list_all ok (items b)"
  shows "summary_add ops (summary a) (summary b) = items_total (items a @ items b)"
  using assms summary_items [of a] summary_items [of b] items_total_append [of "items a" "items b"]
  by (auto simp: child_ok_def is_empty_iff simp del: map_append)

text \<open>The end of \<^verbatim>\<open>push_tree_recursive\<close> at an internal node, once the children are known.\<close>

lemma push_tree_finish:
  assumes all: "list_all (child_ok ops h) (cts @ ts)" "list_all ok (concat (map items (cts @ ts)))"
    and len: "cts \<noteq> []" "length cts \<le> 2 * TREE_BASE" "length ts \<le> 2 * TREE_BASE"
    and s: "s = items_total (concat (map items (cts @ ts)))"
  shows "\<exists>t r. push_children ops (Suc h) s (map summary cts) cts (map summary ts) ts = Some (t, r)
     \<and> halves (Suc h) (concat (map items (cts @ ts))) t r"
proof (cases "2 * TREE_BASE < length cts + length ts")
  case True
  with len have n: "2 * TREE_BASE < length (cts @ ts)" "length (cts @ ts) \<le> 4 * TREE_BASE" by simp_all
  note split = halves_Internal [OF all(1) refl n refl]
  show ?thesis
    using True split by (simp add: push_children_def midpoint_eq Let_def)
next
  case False
  then show ?thesis
    using len all s internal_node_cached [OF all(1) _ _ refl all(2) s]
    by (simp add: push_children_def halves_def)
qed

lemma push_tree_ok:
  "child_ok ops h a \<Longrightarrow> child_ok ops k b \<Longrightarrow> k \<le> h \<Longrightarrow> list_all ok (items a) \<Longrightarrow> list_all ok (items b)
    \<Longrightarrow> \<exists>t r. push_tree_recursive ops a b = Some (t, r) \<and> halves h (items a @ items b) t r"
proof (induction a arbitrary: h)
  case (Leaf s its iss)
  then have h: "h = 0" "k = 0" by (auto simp: child_ok_def)
  obtain bs where b: "b = Leaf (items_total bs) bs (map (item_summary ops) bs)" "bs \<noteq> []"
      "length bs \<le> 2 * TREE_BASE"
    using Leaf.prems(2) h by (auto elim: child_ok_Leaf_cases)
  have a: "s = items_total its" "iss = map (item_summary ops) its" "its \<noteq> []" "length its \<le> 2 * TREE_BASE"
    using Leaf.prems(1) by (auto simp: child_ok_def)
  show ?case
  proof (cases "2 * TREE_BASE < length its + length bs")
    case True
    with a b have n: "2 * TREE_BASE < length (its @ bs)" "length (its @ bs) \<le> 4 * TREE_BASE" by simp_all
    show ?thesis
      using True halves_Leaf [OF refl n refl] a b h by (simp add: midpoint_eq Let_def)
  next
    case False
    then show ?thesis
      using a b h add_items_total [OF Leaf.prems(1,2,4,5)] by (auto simp: halves_def intro!: leaf_node_cached)
  qed
next
  case (Internal h0 s css cts)
  obtain h' where h: "h = Suc h'" "h0 = Suc h'"
    using Internal.prems(1) by (rule child_ok_Internal_height)
  from Internal.prems(1) have a: "css = map summary cts" "list_all (child_ok ops h') cts" "cts \<noteq> []"
      "length cts \<le> 2 * TREE_BASE"
    unfolding h by (auto elim: child_ok_Internal_cases)
  have s': "summary_add ops s (summary b) = items_total (concat (map items cts) @ items b)"
    using add_items_total [OF Internal.prems(1,2,4,5)] by simp
  have oks: "list_all ok (concat (map items cts))" using Internal.prems(4) by simp
  have hb: "height b = k" using Internal.prems(2) by (simp add: child_ok_def)
  consider (same) "k = Suc h'" | (child) "k = h'" "\<not> is_underflowing b"
    | (deeper) "k \<le> h'" "\<not> (k = h' \<and> \<not> is_underflowing b)"
    using Internal.prems(3) h by fastforce
  then show ?case
  proof cases
    case same
    then obtain bts where b: "b = Internal (Suc h') (total (map summary bts)) (map summary bts) bts"
      "list_all (child_ok ops h') bts" "bts \<noteq> []" "length bts \<le> 2 * TREE_BASE"
      using Internal.prems(2) by (auto elim: child_ok_Internal_cases)
    show ?thesis
      using push_tree_finish [of h' cts bts "summary_add ops s (summary b)"] a b oks Internal.prems(5) s'
      by (simp add: h)
  next
    case child
    then show ?thesis
      using push_tree_finish [of h' cts "[b]" "summary_add ops s (summary b)"] a oks Internal.prems s' hb
      by (simp add: h Suc_diff_le)
  next
    case deeper
    obtain front lst where cts: "cts = front @ [lst]" using a(3) by (cases cts rule: rev_cases) auto
    have lst: "child_ok ops h' lst" "list_all ok (items lst)"
      using a(2) oks by (auto simp: cts)
    from Internal.IH [OF _ lst(1) Internal.prems(2) deeper(1) lst(2) Internal.prems(5)]
    obtain t r where rec: "push_tree_recursive ops lst b = Some (t, r)"
        "halves h' (items lst @ items b) t r"
      by (auto simp: cts)
    have "\<not> (Suc h' - k = 1 \<and> \<not> is_underflowing b)" "Suc h' - k \<noteq> 0" "k \<le> Suc h'"
      using deeper by auto
    moreover have "list_all (child_ok ops h') ((front @ [t]) @ option_list r)"
        "concat (map items ((front @ [t]) @ option_list r)) = concat (map items cts) @ items b"
      using rec(2) a(2) by (auto simp: halves_def cts split: option.splits)
    moreover have "map summary (option_list r) = option_list (map_option summary r)"
      by (cases r) auto
    moreover have "length (option_list r) \<le> 2 * TREE_BASE"
      using TREE_BASE_pos by (cases r) (auto simp del: TREE_BASE_pos)
    ultimately show ?thesis
      using push_tree_finish [of h' "front @ [t]" "option_list r" "summary_add ops s (summary b)"]
        a(1,4) rec(1) oks Internal.prems(5) s' hb
      by (simp add: h cts) blast
  qed
qed

text \<open>\<^verbatim>\<open>merge_into_right\<close> and \<^verbatim>\<open>append_large\<close> put what is left over on the left.\<close>

definition halves_left :: "nat \<Rightarrow> 't list \<Rightarrow> ('t, 's) sum_tree \<Rightarrow> ('t, 's) sum_tree option \<Rightarrow> bool" where
  "halves_left h xs t r \<longleftrightarrow> child_ok ops h t
     \<and> (case r of None \<Rightarrow> items t = xs | Some u \<Rightarrow> child_ok ops h u \<and> items u @ items t = xs)"

lemma halves_swap: "halves h xs t (Some u) \<Longrightarrow> halves_left h xs u (Some t)"
  by (simp add: halves_def halves_left_def)

lemma merge_into_right_ok:
  assumes "child_ok ops h a" "child_ok ops h b" "list_all ok (items a)" "list_all ok (items b)"
  shows "\<exists>t r. merge_into_right ops a b = Some (t, r) \<and> halves_left h (items a @ items b) t r"
proof (cases h)
  case 0
  from assms(1) [unfolded 0] obtain as where a: "a = Leaf (items_total as) as (map (item_summary ops) as)"
      "as \<noteq> []" "length as \<le> 2 * TREE_BASE" by (rule child_ok_Leaf_cases)
  from assms(2) [unfolded 0] obtain bs where b: "b = Leaf (items_total bs) bs (map (item_summary ops) bs)"
      "bs \<noteq> []" "length bs \<le> 2 * TREE_BASE" by (rule child_ok_Leaf_cases)
  show ?thesis
  proof (cases "length as + length bs \<le> 2 * TREE_BASE")
    case True
    then show ?thesis
      using a b 0 add_items_total [OF assms] by (auto simp: halves_left_def intro!: leaf_node_cached)
  next
    case False
    with a b have n: "2 * TREE_BASE < length (as @ bs)" "length (as @ bs) \<le> 4 * TREE_BASE" by simp_all
    note split = halves_Leaf [OF refl n refl]
    show ?thesis
      using False split(1,2) halves_swap [OF split(3)] a b 0 by (simp add: Let_def)
  qed
next
  case (Suc h')
  from assms(1) [unfolded Suc] obtain as where a:
      "a = Internal (Suc h') (total (map summary as)) (map summary as) as"
      "list_all (child_ok ops h') as" "as \<noteq> []" "length as \<le> 2 * TREE_BASE" by (rule child_ok_Internal_cases)
  from assms(2) [unfolded Suc] obtain bs where b:
      "b = Internal (Suc h') (total (map summary bs)) (map summary bs) bs"
      "list_all (child_ok ops h') bs" "bs \<noteq> []" "length bs \<le> 2 * TREE_BASE" by (rule child_ok_Internal_cases)
  have all: "list_all (child_ok ops h') (as @ bs)" using a b by simp
  show ?thesis
  proof (cases "length bs + length as \<le> 2 * TREE_BASE")
    case True
    then show ?thesis
      using a b Suc add_items_total [OF assms] internal_node_cached [OF all _ _ refl] assms(3,4)
      by (simp add: halves_left_def add.commute)
  next
    case False
    with a b have n: "2 * TREE_BASE < length (as @ bs)" "length (as @ bs) \<le> 4 * TREE_BASE" by simp_all
    note split = halves_Internal [OF all refl n refl]
    show ?thesis
      using False split(1,2) halves_swap [OF split(3)] a b Suc by (simp add: Let_def add.commute)
  qed
qed

lemma append_large_ok:
  "child_ok ops h b \<Longrightarrow> child_ok ops k a \<Longrightarrow> k \<le> h \<Longrightarrow> list_all ok (items a) \<Longrightarrow> list_all ok (items b)
    \<Longrightarrow> \<exists>t r. append_large ops a b = Some (t, r) \<and> halves_left h (items a @ items b) t r"
proof (induction b arbitrary: h)
  case (Leaf s its iss)
  then have "h = 0" "k = 0" "height a = 0" by (auto simp: child_ok_def)
  with Leaf.prems show ?case
    using merge_into_right_ok [of 0 a "Leaf s its iss"] by (simp add: halves_left_def)
next
  case (Internal h0 s css cts)
  obtain h' where h: "h = Suc h'" "h0 = Suc h'"
    using Internal.prems(1) by (rule child_ok_Internal_height)
  from Internal.prems(1) have b: "css = map summary cts" "list_all (child_ok ops h') cts" "cts \<noteq> []"
      "length cts \<le> 2 * TREE_BASE"
    unfolding h by (auto elim: child_ok_Internal_cases)
  have ha: "height a = k" using Internal.prems(2) by (simp add: child_ok_def)
  show ?case
  proof (cases "k = Suc h'")
    case True
    then show ?thesis
      using merge_into_right_ok [of h a "Internal h0 s css cts"] Internal.prems h ha
      by (simp add: halves_left_def)
  next
    case False
    obtain fst_t rest where cts: "cts = fst_t # rest" using b(3) by (cases cts) auto
    have "child_ok ops h' fst_t" "list_all ok (items fst_t)"
      using b(2) Internal.prems(5) by (auto simp: cts)
    with Internal.IH [of fst_t h'] Internal.prems False h obtain t r where
      rec: "append_large ops a fst_t = Some (t, r)" "halves_left h' (items a @ items fst_t) t r"
      by (auto simp: cts)
    have s': "summary_add ops (summary a) s = items_total (items a @ concat (map items cts))"
      using add_items_total [OF Internal.prems(2,1,4,5)] by simp
    have all: "list_all (child_ok ops h') (option_list r @ t # rest)"
      "concat (map items (option_list r @ t # rest)) = items a @ concat (map items cts)"
      using rec(2) b(2) by (auto simp: halves_left_def cts split: option.splits)
    have oks: "list_all ok (items a @ concat (map items cts))" using Internal.prems by simp
    show ?thesis
    proof (cases "length (option_list r @ t # rest) \<le> 2 * TREE_BASE")
      case True
      have "child_ok ops h (Internal h0 (summary_add ops (summary a) s)
          (map summary (option_list r @ t # rest)) (option_list r @ t # rest))"
        unfolding h by (rule internal_node_cached [OF all(1) _ True refl]) (use all(2) oks s' in simp_all)
      then show ?thesis
        using True rec(1) b(1) False all(2) ha
        by (cases r) (auto simp: cts h halves_left_def)
    next
      case False
      then obtain u where u: "r = Some u" and full: "length (t # rest) = 2 * TREE_BASE"
        using b(4) by (cases r) (auto simp: cts)
      define l where "l = take TREE_BASE (t # rest)"
      define m where "m = drop TREE_BASE (t # rest)"
      have lm: "t # rest = l @ m" by (simp add: l_def m_def)
      have len: "length l = TREE_BASE" "length m = TREE_BASE" using full by (auto simp: l_def m_def)
      have oks_lm: "list_all (child_ok ops h') (u # l)" "list_all (child_ok ops h') m"
        using all(1) unfolding u lm by auto
      have "child_ok ops h (Internal h0 (total (map summary (u # l))) (map summary (u # l)) (u # l))"
        unfolding h by (rule internal_node [OF oks_lm(1) _ _ refl]) (use len in simp_all)
      moreover have "child_ok ops h (Internal h0 (total (map summary m)) (map summary m) m)"
        unfolding h
        by (rule internal_node [OF oks_lm(2) _ _ refl])
          (use len in \<open>metis TREE_BASE_pos(1) length_greater_0_conv\<close>, use len in simp)
      moreover have "items u @ concat (map items l) @ concat (map items m) = items a @ concat (map items cts)"
        using all(2) unfolding u lm by simp
      moreover have "append_large ops a (Internal h0 s css cts) =
          Some (Internal h0 (total (map summary m)) (map summary m) m,
            Some (Internal h0 (total (map summary (u # l))) (map summary (u # l)) (u # l)))"
        using rec(1) b(1) \<open>k \<noteq> Suc h'\<close> ha full len
        by (simp add: cts h u l_def m_def flip: take_map drop_map)
      ultimately show ?thesis by (simp add: halves_left_def)
    qed
  qed
qed

lemma good_child_ok: "good t \<Longrightarrow> items t \<noteq> [] \<Longrightarrow> child_ok ops (height t) t"
  by (auto simp: child_ok_def is_empty_iff)

lemma from_child_trees_ok:
  assumes "child_ok ops h a" "child_ok ops h b"
  shows "child_ok ops (Suc h) (from_child_trees ops a b)"
proof -
  have "length [a, b] \<le> 2 * TREE_BASE" by (simp add: TREE_BASE_def)
  with assms show ?thesis
    using internal_node [of h "[a, b]", OF _ _ _ refl]
    by (simp add: from_child_trees_def child_ok_def Let_def)
qed

lemma items_from_child_trees [simp]: "items (from_child_trees ops a b) = items a @ items b"
  by (simp add: from_child_trees_def Let_def)

lemma append_ok:
  assumes "good a" "good b"
  shows "\<exists>t. append_tree ops a b = Some t \<and> good t \<and> items t = items a @ items b"
proof (cases "items a = [] \<or> items b = []")
  case True
  then show ?thesis
    using assms is_empty_iff [of ops a] is_empty_iff [of ops b]
    by (cases b) (auto simp: append_tree_def)
next
  case False
  then have a: "child_ok ops (height a) a" and b: "child_ok ops (height b) b"
    using assms good_child_ok by auto
  have guard: "\<not> is_empty a" "\<not> is_leaf b \<or> node_items b \<noteq> Some []"
    using a b by (auto simp: child_ok_def) (cases b; auto)
  show ?thesis
  proof (cases "height a < height b")
    case True
    with append_large_ok [OF b a] assms obtain t r where
      "append_large ops a b = Some (t, r)" "halves_left (height b) (items a @ items b) t r" by auto
    with True guard from_child_trees_ok [of "height b"] show ?thesis
      using assms by (cases r) (auto simp: append_tree_def halves_left_def child_ok_def)
  next
    case False
    with push_tree_ok [OF a b] assms obtain t r where
      "push_tree_recursive ops a b = Some (t, r)" "halves (height a) (items a @ items b) t r" by auto
    with False guard from_child_trees_ok [of "height a"] show ?thesis
      using assms by (cases r) (auto simp: append_tree_def halves_def child_ok_def)
  qed
qed

lemma push_ok:
  assumes "good a" "ok x"
  shows "\<exists>t. push ops a x = Some t \<and> good t \<and> items t = items a @ [x]"
proof -
  have "good (Leaf (item_summary ops x) [x] [item_summary ops x])"
    using assms by (simp add: sum_summaries_def zero_left item_valid TREE_BASE_def)
  from append_ok [OF assms(1) this] show ?thesis by (simp add: push_def Let_def)
qed

lemma leaf_of_chunk_ok:
  assumes "c \<noteq> []" "length c \<le> 2 * TREE_BASE" "list_all ok c"
  shows "leaf_of_chunk ops c = Some (Leaf (items_total c) c (map (item_summary ops) c))"
  using assms by (cases c) (auto simp: leaf_of_chunk_def total_Cons item_valid)

lemma from_par_level_ok:
  assumes "c \<noteq> []" "length c \<le> 2 * TREE_BASE" "valid (summary (hd c))"
  shows "from_par_level ops h c = Some (parent_of ops h c)"
  using assms by (cases c) (auto simp: from_par_level_def parent_of_def total_Cons)

lemma chunk_children:
  assumes "list_all (child_ok ops h) ns" "list_all ok (concat (map items ns))" "c \<in> set (chunks (2 * TREE_BASE) ns)"
  shows "c \<noteq> []" "length c \<le> 2 * TREE_BASE" "list_all (child_ok ops h) c" "valid (summary (hd c))"
proof -
  have c: "c \<noteq> [] \<and> length c \<le> 2 * TREE_BASE \<and> set c \<subseteq> set ns"
    using assms(3) by (intro chunks_bounds) simp_all
  then show "c \<noteq> []" "length c \<le> 2 * TREE_BASE" "list_all (child_ok ops h) c"
    using assms(1) by (auto simp: list_all_iff)
  from c have "hd c \<in> set ns" by (cases c) auto
  from children_good [OF assms(1,2) this] show "valid (summary (hd c))" by (simp add: summary_valid)
qed

lemma parents_ok:
  assumes "list_all (child_ok ops h) ns" "list_all ok (concat (map items ns))"
  shows "list_all (child_ok ops (Suc h)) (map (parent_of ops (Suc h)) (chunks (2 * TREE_BASE) ns))"
    and "concat (map items (map (parent_of ops (Suc h)) (chunks (2 * TREE_BASE) ns))) = concat (map items ns)"
proof -
  show "list_all (child_ok ops (Suc h)) (map (parent_of ops (Suc h)) (chunks (2 * TREE_BASE) ns))"
    using chunk_children [OF assms] internal_node [OF _ _ _ refl]
    by (auto simp: list_all_iff parent_of_def)
  have "concat (map items (map (parent_of ops (Suc h)) cs)) = concat (map items (concat cs))" for cs
    by (induction cs) (auto simp: parent_of_def)
  then show "concat (map items (map (parent_of ops (Suc h)) (chunks (2 * TREE_BASE) ns))) = concat (map items ns)"
    by (simp only: concat_chunks)
qed

lemma build_levels_ok:
  "list_all (child_ok ops h) ns \<Longrightarrow> list_all ok (concat (map items ns))
    \<Longrightarrow> \<exists>ms h'. build_levels ops h ns = Some ms \<and> from_par_levels ops h ns = Some ms
        \<and> length ms \<le> 1 \<and> list_all (child_ok ops h') ms \<and> concat (map items ms) = concat (map items ns)"
proof (induction "length ns" arbitrary: h ns rule: less_induct)
  case less
  show ?case
  proof (cases "1 < length ns")
    case False
    with less.prems show ?thesis
      by (subst build_levels.simps, subst from_par_levels.simps) auto
  next
    case True
    define ps where "ps = map (parent_of ops (Suc h)) (chunks (2 * TREE_BASE) ns)"
    have ps: "list_all (child_ok ops (Suc h)) ps" "concat (map items ps) = concat (map items ns)"
      using parents_ok [OF less.prems] by (simp_all add: ps_def)
    have "2 * length ps \<le> Suc (length ns)"
      using length_chunks [of "2 * TREE_BASE" ns] by (simp add: ps_def TREE_BASE_def)
    with True have "length ps < length ns" by simp
    from less.hyps [OF this ps(1)] ps(2) less.prems(2) obtain ms h' where
      "build_levels ops (Suc h) ps = Some ms \<and> from_par_levels ops (Suc h) ps = Some ms
        \<and> length ms \<le> 1 \<and> list_all (child_ok ops h') ms \<and> concat (map items ms) = concat (map items ns)"
      by auto
    moreover have "group_children ops (Suc h) ns None = Some ps"
      by (simp add: group_children_chunks ps_def)
    moreover have "collect_map (from_par_level ops (Suc h)) (chunks (2 * TREE_BASE) ns) = Some ps"
      unfolding ps_def by (rule collect_map_Some) (use chunk_children [OF less.prems] from_par_level_ok in blast)
    ultimately show ?thesis
      using True by (subst build_levels.simps, subst from_par_levels.simps) auto
  qed
qed

lemma from_iter_ok:
  assumes "list_all ok xs"
  shows "\<exists>t. from_iter ops xs = Some t \<and> from_par_iter ops xs = Some t \<and> good t \<and> items t = xs"
proof -
  define mk where "mk = (\<lambda>c. Leaf (items_total c) c (map (item_summary ops) c))"
  define ls where "ls = map mk (chunks (2 * TREE_BASE) xs)"
  have chunk: "c \<noteq> [] \<and> length c \<le> 2 * TREE_BASE \<and> list_all ok c"
    if "c \<in> set (chunks (2 * TREE_BASE) xs)" for c
    using chunks_bounds [OF _ that] assms by (auto simp: list_all_iff)
  have leaves: "build_leaves ops xs = Some ls"
    "collect_map (leaf_of_chunk ops) (chunks (2 * TREE_BASE) xs) = Some ls"
    unfolding build_leaves_chunks ls_def
    by (rule collect_map_Some, use chunk leaf_of_chunk_ok in \<open>simp add: mk_def\<close>)+
  have "concat (map items (map mk cs)) = concat cs" for cs
    by (induction cs) (auto simp: mk_def)
  then have ls: "concat (map items ls) = xs" by (simp only: ls_def concat_chunks)
  have "list_all (child_ok ops 0) ls"
    using chunk leaf_node [OF _ _ refl] by (auto simp: ls_def mk_def list_all_iff)
  from build_levels_ok [OF this] ls assms obtain ms h' where
    ms: "build_levels ops 0 ls = Some ms" "from_par_levels ops 0 ls = Some ms" "length ms \<le> 1"
      "list_all (child_ok ops h') ms" "concat (map items ms) = xs"
    by auto
  then show ?thesis
  proof (cases ms)
    case Nil
    with ms leaves show ?thesis by (simp add: from_iter_def from_par_iter_def)
  next
    case (Cons t ts)
    with ms(3) have "ms = [t]" by simp
    with ms leaves assms show ?thesis by (simp add: from_iter_def from_par_iter_def child_ok_def)
  qed
qed

lemma extend_ok:
  assumes "good a" "list_all ok xs"
  shows "\<exists>t. tree_extend ops a xs = Some t \<and> good t \<and> items t = items a @ xs"
  using append_ok [OF assms(1)] from_iter_ok [OF assms(2)] by (auto simp: tree_extend_def)

end

section \<open>Ends\<close>

lemma leftmost_leaf_items:
  "tree_wf ops t \<Longrightarrow> \<exists>s its iss. leftmost_leaf t = Some (Leaf s its iss)
     \<and> list_first its = list_first (items t)"
proof (induction t)
  case (Internal h s css cts)
  then obtain c cs where cts: "cts = c # cs" by (cases cts) auto
  with Internal.prems have "tree_wf ops c" "\<not> is_empty c" by auto
  with Internal.IH [of c] cts show ?case
    by (auto simp: is_empty_iff list_first_def split: list.splits)
qed auto

lemma rightmost_leaf_items:
  "tree_wf ops t \<Longrightarrow> \<exists>s its. rightmost_leaf t = Some (Leaf s its (map (item_summary ops) its))
     \<and> list_last its = list_last (items t)"
proof (induction t)
  case (Internal h s css cts)
  then obtain c cs where cts: "cts = cs @ [c]" by (cases cts rule: rev_cases) auto
  with Internal.prems have "tree_wf ops c" "\<not> is_empty c" by auto
  with Internal.IH [of c] cts show ?case
    by (auto simp: is_empty_iff list_last_def split: if_splits)
qed auto

end
