(* ===== verification/Cursor_Correct.thy ===== *)
theory Cursor_Correct
  imports Cursor SumTree_Correct
begin

text \<open>
  What a cursor does, stated on the sequence of items: a seek consumes the items whose end the
  target is past, \<^verbatim>\<open>slice\<close> returns them as a tree, \<^verbatim>\<open>next\<close> drops one item.  The condition on the
  target and the dimension is \<open>seekable\<close>: adding the summary of a run of items at once, when the
  target is past the result, gives the position item by item, and the target is past every position
  on the way.  A monotone dimension with an ordered target satisfies it, and so does a dimension that
  keeps the last key on a sorted tree.
\<close>

section \<open>The items in front of a cursor\<close>

definition entry_rest :: "nat \<Rightarrow> ('t, 's, 'd) stack_entry \<Rightarrow> 't list" where
  "entry_rest skip e =
     (case entry_tree e of
        Leaf s its iss \<Rightarrow> drop (entry_index e + skip) its
      | Internal h s css cts \<Rightarrow> concat (map items (drop (entry_index e + skip) cts)))"

definition stack_rest :: "nat \<Rightarrow> ('t, 's, 'd) stack_entry list \<Rightarrow> 't list" where
  "stack_rest skip st =
     (case st of [] \<Rightarrow> [] | e # es \<Rightarrow> entry_rest skip e @ concat (map (entry_rest 1) es))"

lemma stack_rest_simps [simp]:
  "stack_rest k [] = []"
  "stack_rest k (e # es) = entry_rest k e @ stack_rest 1 es"
  by (cases es; simp add: stack_rest_def)+

text \<open>The stack is a path from the root of the tree.\<close>

fun path_ok :: "('t, 's) sum_tree \<Rightarrow> ('t, 's, 'd) stack_entry list \<Rightarrow> bool" where
  "path_ok root [] = True"
| "path_ok root [e] = (entry_tree e = root)"
| "path_ok root (e # e' # es) =
     ((case entry_tree e' of
         Leaf s its iss \<Rightarrow> False
       | Internal h s css cts \<Rightarrow> entry_index e' < length cts \<and> entry_tree e = cts ! entry_index e')
      \<and> path_ok root (e' # es))"

lemma path_ok_tl: "path_ok root (e # es) \<Longrightarrow> path_ok root es"
  by (cases es) auto

lemma path_ok_update: "entry_tree e' = entry_tree e \<Longrightarrow> path_ok root (e' # es) = path_ok root (e # es)"
  by (cases es) (auto split: sum_tree.splits)

lemma path_ok_leaf: "path_ok root (e # es) \<Longrightarrow> is_leaf root \<Longrightarrow> es = [] \<and> entry_tree e = root"
proof (induction root "e # es" arbitrary: e es rule: path_ok.induct)
  case (3 root e e' es)
  then show ?case by (auto split: sum_tree.splits)
qed simp

lemma is_empty_leaf: "is_empty t \<Longrightarrow> is_leaf t"
  by (cases t) auto

lemma path_ok_wf:
  "path_ok root (e # es) \<Longrightarrow> tree_wf ops root \<Longrightarrow> \<not> is_empty root
    \<Longrightarrow> tree_wf ops (entry_tree e) \<and> \<not> is_empty (entry_tree e) \<and> set (items (entry_tree e)) \<subseteq> set (items root)
      \<and> height (entry_tree e) + length es = height root"
proof (induction root "e # es" arbitrary: e es rule: path_ok.induct)
  case (3 root e e' es)
  then obtain h s css cts where e': "entry_tree e' = Internal h s css cts" "entry_index e' < length cts"
      "entry_tree e = cts ! entry_index e'" "path_ok root (e' # es)"
    by (auto split: sum_tree.splits)
  then have "entry_tree e \<in> set cts" by simp
  with 3 e' show ?case by (fastforce simp: list_all_iff)
qed auto

text \<open>Between operations a cursor is past the end, or at an item of a leaf.\<close>

definition at_item :: "('t, 's, 'd) stack_entry list \<Rightarrow> bool" where
  "at_item st =
     (case st of
        [] \<Rightarrow> True
      | e # es \<Rightarrow> (case entry_tree e of
          Leaf s its iss \<Rightarrow> entry_index e < length its | Internal h s css cts \<Rightarrow> False))"

lemma at_item_root: "path_ok root (e # es) \<Longrightarrow> at_item (e # es) \<Longrightarrow> \<not> is_empty root"
  using path_ok_leaf [of root e es] is_empty_leaf [of root]
  by (cases root) (auto simp: at_item_def)

text \<open>Where a loop may start: the top entry has not run off its node.\<close>

definition top_ready :: "bool \<Rightarrow> ('t, 's, 'd) stack_entry list \<Rightarrow> bool" where
  "top_ready ascending st =
     (case st of
        [] \<Rightarrow> True
      | e # es \<Rightarrow> (case entry_tree e of
          Leaf s its iss \<Rightarrow> \<not> ascending \<and> entry_index e \<le> length its
        | Internal h s css cts \<Rightarrow> entry_index e + (if ascending then 1 else 0) \<le> length cts))"

lemma top_ready_pop: "path_ok root (e # es) \<Longrightarrow> top_ready True es"
  by (cases es) (auto simp: top_ready_def split: sum_tree.splits)

lemma at_item_ready: "at_item st \<Longrightarrow> top_ready False st"
  by (auto simp: at_item_def top_ready_def split: list.splits sum_tree.splits)

section \<open>Seeking on lists\<close>

definition item_end :: "('t, 's) summary_ops \<Rightarrow> ('d, 's) dimension \<Rightarrow> 'd \<Rightarrow> 't \<Rightarrow> 'd" where
  "item_end ops dm p x = dim_add dm p (item_summary ops x)"

definition pos_after :: "('t, 's) summary_ops \<Rightarrow> ('d, 's) dimension \<Rightarrow> 'd \<Rightarrow> 't list \<Rightarrow> 'd" where
  "pos_after ops dm p xs = foldl (item_end ops dm) p xs"

lemma pos_after_simps [simp]:
  "pos_after ops dm p [] = p"
  "pos_after ops dm p (x # xs) = pos_after ops dm (item_end ops dm p x) xs"
  "pos_after ops dm p (xs @ ys) = pos_after ops dm (pos_after ops dm p xs) ys"
  by (simp_all add: pos_after_def)

fun take_past :: "('t, 's) summary_ops \<Rightarrow> ('d, 's) dimension \<Rightarrow> ('d \<Rightarrow> bool) \<Rightarrow> 'd \<Rightarrow> 't list \<Rightarrow> 't list" where
  "take_past ops dm past p [] = []"
| "take_past ops dm past p (x # xs) =
     (if past (item_end ops dm p x) then x # take_past ops dm past (item_end ops dm p x) xs else [])"

fun drop_past :: "('t, 's) summary_ops \<Rightarrow> ('d, 's) dimension \<Rightarrow> ('d \<Rightarrow> bool) \<Rightarrow> 'd \<Rightarrow> 't list \<Rightarrow> 't list" where
  "drop_past ops dm past p [] = []"
| "drop_past ops dm past p (x # xs) =
     (if past (item_end ops dm p x) then drop_past ops dm past (item_end ops dm p x) xs else x # xs)"

lemma take_drop_past: "take_past ops dm past p xs @ drop_past ops dm past p xs = xs"
  by (induction ops dm past p xs rule: take_past.induct) auto

definition all_past :: "('t, 's) summary_ops \<Rightarrow> ('d, 's) dimension \<Rightarrow> ('d \<Rightarrow> bool) \<Rightarrow> 'd \<Rightarrow> 't list \<Rightarrow> bool" where
  "all_past ops dm past p v \<longleftrightarrow> take_past ops dm past p v = v"

lemma take_past_append:
  "all_past ops dm past p v \<Longrightarrow>
     take_past ops dm past p (v @ w) = v @ take_past ops dm past (pos_after ops dm p v) w
     \<and> drop_past ops dm past p (v @ w) = drop_past ops dm past (pos_after ops dm p v) w"
  unfolding all_past_def
  by (induction ops dm past p v rule: take_past.induct) (auto split: if_splits)

definition seekable :: "('t, 's) summary_ops \<Rightarrow> ('d, 's) dimension \<Rightarrow> ('d \<Rightarrow> bool) \<Rightarrow> 'd \<Rightarrow> 't list \<Rightarrow> bool" where
  "seekable ops dm past p xs \<longleftrightarrow>
     (\<forall>u v w. xs = u @ v @ w \<longrightarrow> v \<noteq> [] \<longrightarrow>
        (let q = pos_after ops dm p u;
             e = dim_add dm q (sum_summaries ops (map (item_summary ops) v))
         in past e \<longrightarrow> e = pos_after ops dm q v \<and> all_past ops dm past q v))"

lemma seekable_run:
  assumes "seekable ops dm past p (v @ w)" "v \<noteq> []"
    and "past (dim_add dm p (sum_summaries ops (map (item_summary ops) v)))"
  shows "dim_add dm p (sum_summaries ops (map (item_summary ops) v)) = pos_after ops dm p v"
    and "all_past ops dm past p v"
  using assms unfolding seekable_def Let_def
  by (metis append_Nil pos_after_simps(1))+

lemma seekable_suffix: "seekable ops dm past p (u @ w) \<Longrightarrow> seekable ops dm past (pos_after ops dm p u) w"
  unfolding seekable_def Let_def by (metis append.assoc pos_after_simps(3))

section \<open>Aggregates\<close>

text \<open>An aggregate accumulates the items consumed: \<open>holds a ys\<close> says it represents \<open>ys\<close>, and
  \<open>pending a ys zs\<close> that within a leaf the items \<open>zs\<close> have been pushed on top.\<close>

locale seek_aggregates = summary_laws ops valid ok
  for ops :: "('t, 's) summary_ops" and valid ok +
  fixes od :: "('o, 's) dimension"
    and holds :: "('t, 's, 'o) seek_aggregate \<Rightarrow> 't list \<Rightarrow> bool"
    and pending :: "('t, 's, 'o) seek_aggregate \<Rightarrow> 't list \<Rightarrow> 't list \<Rightarrow> bool"
  assumes push_tree_holds: "holds a ys \<Longrightarrow> tree_wf ops c \<Longrightarrow> list_all ok (items c) \<Longrightarrow> items c \<noteq> []
      \<Longrightarrow> \<exists>a'. push_tree ops od a c (summary c) = Some a' \<and> holds a' (ys @ items c)"
    and holds_pending: "holds a ys \<Longrightarrow> pending a ys []"
    and push_item_pending: "pending a ys zs \<Longrightarrow> length zs < 2 * TREE_BASE \<Longrightarrow> ok x
      \<Longrightarrow> \<exists>a'. push_item ops od a x (item_summary ops x) = Some a' \<and> pending a' ys (zs @ [x])"
    and end_leaf_holds: "pending a ys zs \<Longrightarrow> \<exists>a'. end_leaf ops a = Some a' \<and> holds a' (ys @ zs)"
begin

lemma seek_children_ok:
  assumes "seekable ops dm past p (concat (map items ts) @ w)" "holds a ys"
    and "list_all (child_ok ops h) ts" "list_all ok (concat (map items ts))"
  shows "\<exists>k a'. seek_children ops dm od past p i a (zip ts (map summary ts)) =
       Some (pos_after ops dm p (concat (map items (take k ts))), i + k, a',
             if k < length ts then Some (ts ! k) else None)
     \<and> k \<le> length ts \<and> holds a' (ys @ concat (map items (take k ts)))
     \<and> all_past ops dm past p (concat (map items (take k ts)))"
  using assms
proof (induction ts arbitrary: p i a ys)
  case Nil
  then show ?case by (auto simp: all_past_def)
next
  case (Cons t ts)
  have t: "tree_wf ops t" "list_all ok (items t)" "items t \<noteq> []"
    using Cons.prems(3,4) by (auto simp: child_ok_def is_empty_iff)
  have sum: "summary t = items_total (items t)" using t by (simp add: summary_items)
  show ?case
  proof (cases "past (dim_add dm p (summary t))")
    case True
    have run: "dim_add dm p (summary t) = pos_after ops dm p (items t)" "all_past ops dm past p (items t)"
      using seekable_run [of ops dm past p "items t" "concat (map items ts) @ w"] Cons.prems(1) t True
      by (auto simp: sum)
    obtain a1 where a1: "push_tree ops od a t (summary t) = Some a1" "holds a1 (ys @ items t)"
      using push_tree_holds [OF Cons.prems(2)] t by blast
    have "seekable ops dm past (dim_add dm p (summary t)) (concat (map items ts) @ w)"
      using seekable_suffix [of ops dm past p "items t"] Cons.prems(1) run by simp
    from Cons.IH [OF this a1(2), of "Suc i"] Cons.prems(3,4) obtain k a' where
      k: "seek_children ops dm od past (dim_add dm p (summary t)) (Suc i) a1 (zip ts (map summary ts)) =
         Some (pos_after ops dm (dim_add dm p (summary t)) (concat (map items (take k ts))), Suc i + k, a',
               if k < length ts then Some (ts ! k) else None)"
        "k \<le> length ts" "holds a' ((ys @ items t) @ concat (map items (take k ts)))"
        "all_past ops dm past (dim_add dm p (summary t)) (concat (map items (take k ts)))"
      by auto
    have "all_past ops dm past p (items t @ concat (map items (take k ts)))"
      using take_past_append [OF run(2)] k(4) run(1) by (simp add: all_past_def)
    with k a1 True run(1) show ?thesis by (intro exI [of _ "Suc k"] exI [of _ a']) (simp add: Let_def)
  next
    case False
    with Cons.prems(2) show ?thesis
      by (intro exI [of _ 0] exI [of _ a]) (simp add: Let_def all_past_def)
  qed
qed

lemma seek_items_ok:
  assumes "pending a ys zs" "length zs + length xs \<le> 2 * TREE_BASE" "list_all ok xs"
  shows "\<exists>a'. seek_items ops dm od past p i a (zip xs (map (item_summary ops) xs)) =
       Some (pos_after ops dm p (take_past ops dm past p xs), i + length (take_past ops dm past p xs), a',
             drop_past ops dm past p xs \<noteq> [])
     \<and> pending a' ys (zs @ take_past ops dm past p xs)"
  using assms
proof (induction xs arbitrary: p i a zs)
  case (Cons x xs)
  show ?case
  proof (cases "past (item_end ops dm p x)")
    case True
    obtain a1 where a1: "push_item ops od a x (item_summary ops x) = Some a1" "pending a1 ys (zs @ [x])"
      using push_item_pending [OF Cons.prems(1)] Cons.prems(2,3) by auto
    with Cons.IH [OF a1(2), of "item_end ops dm p x" "Suc i"] Cons.prems(2,3) True show ?thesis
      by (auto simp: Let_def item_end_def)
  next
    case False
    with Cons.prems show ?thesis by (simp add: Let_def item_end_def)
  qed
qed auto

definition seek_post ::
  "('t, 's) sum_tree \<Rightarrow> ('d, 's) dimension \<Rightarrow> ('d \<Rightarrow> bool) \<Rightarrow> 'd \<Rightarrow> 't list \<Rightarrow> 't list
    \<Rightarrow> (('t, 's, 'd) stack_entry list \<times> 'd \<times> ('t, 's, 'o) seek_aggregate) option \<Rightarrow> bool" where
  "seek_post root dm past p rest ys res \<longleftrightarrow>
     (\<exists>st' a'. res = Some (st', pos_after ops dm p (take_past ops dm past p rest), a')
        \<and> holds a' (ys @ take_past ops dm past p rest) \<and> stack_rest 0 st' = drop_past ops dm past p rest
        \<and> path_ok root st' \<and> at_item st')"

lemma seek_post_extend:
  assumes "all_past ops dm past p v" "seek_post root dm past (pos_after ops dm p v) w (ys @ v) res"
  shows "seek_post root dm past p (v @ w) ys res"
  using assms(2) take_past_append [OF assms(1), of w] by (simp add: seek_post_def)

lemma seek_loop_leaf:
  assumes e: "entry_tree e = Leaf s its iss" "entry_index e \<le> length its" "path_ok root (e # es)"
    and wf: "tree_wf ops (entry_tree e)" "list_all ok (items (entry_tree e))" and a: "holds a ys"
    and xs: "xs = drop (entry_index e) its"
    and pop: "\<And>a1. holds a1 (ys @ xs) \<Longrightarrow> seek_post root dm past (pos_after ops dm p xs) rest (ys @ xs)
        (seek_loop ops dm od past es (pos_after ops dm p xs) True a1)"
    and rest: "rest = stack_rest 1 es"
  shows "seek_post root dm past p (xs @ rest) ys (seek_loop ops dm od past (e # es) p False a)"
proof -
  have iss: "iss = map (item_summary ops) its" "length its \<le> 2 * TREE_BASE" using wf e by auto
  have "list_all ok xs" "length xs \<le> 2 * TREE_BASE"
    using wf(2) e iss(2) by (auto simp: xs list_all_iff dest: in_set_dropD)
  with iss(1) obtain a1 where a1: "seek_items ops dm od past p (entry_index e) a
        (zip (drop (entry_index e) its) (drop (entry_index e) iss)) =
      Some (pos_after ops dm p (take_past ops dm past p xs), entry_index e + length (take_past ops dm past p xs),
        a1, drop_past ops dm past p xs \<noteq> [])" "pending a1 ys (take_past ops dm past p xs)"
    using seek_items_ok [OF holds_pending [OF a], of xs dm past p "entry_index e"] by (auto simp: xs drop_map)
  obtain a2 where a2: "end_leaf ops a1 = Some a2" "holds a2 (ys @ take_past ops dm past p xs)"
    using end_leaf_holds [OF a1(2)] by auto
  show ?thesis
  proof (cases "drop_past ops dm past p xs = []")
    case True
    then have all: "all_past ops dm past p xs" "take_past ops dm past p xs = xs"
      using take_drop_past [of ops dm past p xs] by (auto simp: all_past_def)
    have "seek_loop ops dm od past (e # es) p False a = seek_loop ops dm od past es (pos_after ops dm p xs) True a2"
      using True a1 a2(1) e iss all by (simp add: seek_loop.simps(2) Let_def)
    with pop a2(2) all show ?thesis by (auto intro: seek_post_extend)
  next
    case False
    define k where "k = length (take_past ops dm past p xs)"
    have drop: "drop k xs = drop_past ops dm past p xs"
      using take_drop_past [of ops dm past p xs] unfolding k_def by (metis append_eq_conv_conj)
    have cut: "take_past ops dm past p (xs @ rest) = take_past ops dm past p xs"
        "drop_past ops dm past p (xs @ rest) = drop_past ops dm past p xs @ rest"
      using False by (induction ops dm past p xs rule: take_past.induct) auto
    let ?e = "e\<lparr>entry_index := entry_index e + k\<rparr>"
    have "path_ok root (?e # es)" using e(3) path_ok_update [of ?e e root es] by simp
    moreover have "k < length xs" using False drop by (metis drop_all not_le)
    then have "at_item (?e # es)" using e(1) by (simp add: at_item_def xs)
    moreover have "stack_rest 0 (?e # es) = drop_past ops dm past p (xs @ rest)"
      using e(1) drop cut(2) by (simp add: entry_rest_def xs add.commute rest)
    ultimately show ?thesis
      using False a1 a2 e iss cut(1) by (simp add: seek_post_def seek_loop.simps(2) Let_def k_def)
  qed
qed

lemma seek_loop_children:
  assumes e: "entry_tree e = Internal h s css cts" "path_ok root (e # es)"
    and wf: "tree_wf ops (entry_tree e)" "list_all ok (items (entry_tree e))"
      "height (entry_tree e) + length es < STACK_CAPACITY"
    and a: "holds a ys" and i: "i = (if asc then entry_index e + 1 else entry_index e)" "i \<le> length cts"
    and rest: "rest = concat (map items (drop i cts)) @ stack_rest 1 es" "seekable ops dm past p rest"
  shows "\<exists>v w a1. rest = v @ w \<and> all_past ops dm past p v \<and> holds a1 (ys @ v)
    \<and> seekable ops dm past (pos_after ops dm p v) w
    \<and> (w = stack_rest 1 es \<and> seek_loop ops dm od past (e # es) p asc a
          = seek_loop ops dm od past es (pos_after ops dm p v) True a1
      \<or> (\<exists>st1. w = stack_rest 0 st1 \<and> path_ok root st1 \<and> top_ready False st1
           \<and> stack_weight True st1 < stack_weight (\<not> asc) (e # es)
           \<and> seek_loop ops dm od past (e # es) p asc a
               = seek_loop ops dm od past st1 (pos_after ops dm p v) False a1))"
proof -
  obtain h' where h: "h = Suc h'" using wf(1) e(1) tree_wf_height by metis
  have node: "css = map summary cts" "list_all (child_ok ops h') cts"
    using wf(1) unfolding e h tree_wf_Internal by auto
  define ts where "ts = drop i cts"
  have ts: "list_all (child_ok ops h') ts" "list_all ok (concat (map items ts))"
    using node(2) wf(2) e unfolding ts_def by (auto simp: list_all_iff dest: in_set_dropD)
  from seek_children_ok [OF _ a ts, of dm past p "stack_rest 1 es" i] rest
  obtain k a1 where k: "seek_children ops dm od past p i a (zip ts (map summary ts)) =
       Some (pos_after ops dm p (concat (map items (take k ts))), i + k, a1,
         if k < length ts then Some (ts ! k) else None)"
      "k \<le> length ts" "holds a1 (ys @ concat (map items (take k ts)))"
      "all_past ops dm past p (concat (map items (take k ts)))"
    by (auto simp: ts_def)
  define v where "v = concat (map items (take k ts))"
  define w where "w = concat (map items (drop k ts)) @ stack_rest 1 es"
  have vw: "rest = v @ w"
    unfolding rest v_def w_def ts_def by (metis append.assoc append_take_drop_id concat_append map_append)
  have zip_eq: "zip (drop i cts) (drop i css) = zip ts (map summary ts)"
    by (simp add: ts_def node(1) drop_map)
  have seekable_w: "seekable ops dm past (pos_after ops dm p v) w"
    by (rule seekable_suffix [OF rest(2) [unfolded vw]])
  note common = vw k(4) [folded v_def] k(3) [folded v_def] seekable_w
  show ?thesis
  proof (cases "k < length ts")
    case False
    then have "w = stack_rest 1 es" by (simp add: w_def)
    moreover have "seek_loop ops dm od past (e # es) p asc a
        = seek_loop ops dm od past es (pos_after ops dm p v) True a1"
      using False k(1,2) e i zip_eq by (simp add: seek_loop.simps(2) Let_def node(1) v_def)
    ultimately show ?thesis using common by blast
  next
    case True
    define j where "j = i + k"
    have j: "j < length cts" "ts ! k = cts ! j" using True by (auto simp: ts_def j_def)
    define e' where "e' = e\<lparr>entry_index := j, entry_position :=
        (if j = i then (if asc then p else entry_position e) else pos_after ops dm p v)\<rparr>"
    define st1 where "st1 = mk_entry (cts ! j) 0 (pos_after ops dm p v) # e' # es"
    have "stack_weight True st1 < stack_weight (\<not> asc) (e # es)"
      unfolding st1_def
      by (rule stack_weight_push [of e h s css cts e']) (use e j i in \<open>auto simp: e'_def j_def\<close>)
    moreover have "path_ok root (e' # es)"
      using e(2) path_ok_update [of e' e root es] by (simp add: e'_def)
    then have "path_ok root st1" using e(1) j(1) by (simp add: st1_def e'_def mk_entry_def)
    moreover have "top_ready False st1"
      by (auto simp: st1_def top_ready_def mk_entry_def split: sum_tree.splits)
    moreover have "drop k ts = cts ! j # drop (Suc j) cts"
      using j(1) by (simp add: ts_def j_def Cons_nth_drop_Suc add.commute)
    then have "w = stack_rest 0 st1"
      using e(1) by (cases "cts ! j") (simp_all add: st1_def w_def e'_def mk_entry_def entry_rest_def)
    moreover have push: "stack_push (e' # es) (mk_entry (cts ! j) 0 (pos_after ops dm p v)) = Some st1"
      using wf(3) e(1) h by (simp add: stack_push_def st1_def)
    have k1: "seek_children ops dm od past p i a (zip ts (map summary ts)) =
        Some (pos_after ops dm p v, j, a1, Some (cts ! j))"
      using k(1) True j(2) by (simp add: v_def j_def)
    have "seek_loop ops dm od past (e # es) p asc a
        = seek_loop ops dm od past st1 (pos_after ops dm p v) False a1"
      unfolding seek_loop.simps(2) e(1) sum_tree.case Let_def i(1) [symmetric] zip_eq
      using i(2) k1 push by (simp add: node(1) flip: e'_def)
    ultimately show ?thesis using common by blast
  qed
qed

lemma seek_loop_ok:
  fixes dm :: "('d, 's) dimension"
  shows "path_ok root st \<Longrightarrow> top_ready asc st \<Longrightarrow> holds a ys
    \<Longrightarrow> tree_wf ops root \<Longrightarrow> \<not> is_empty root \<Longrightarrow> list_all ok (items root) \<Longrightarrow> height root < STACK_CAPACITY
    \<Longrightarrow> rest = stack_rest (if asc then 1 else 0) st \<Longrightarrow> seekable ops dm past p rest
    \<Longrightarrow> seek_post root dm past p rest ys (seek_loop ops dm od past st p asc a)"
proof (induction "stack_weight (\<not> asc) st" arbitrary: st asc p a ys rest rule: less_induct)
  case less
  show ?case
  proof (cases st)
    case Nil
    with less.prems show ?thesis by (simp add: seek_post_def at_item_def)
  next
    case (Cons e es)
    have wf: "tree_wf ops (entry_tree e)" "list_all ok (items (entry_tree e))"
        "height (entry_tree e) + length es < STACK_CAPACITY"
      using path_ok_wf [of root e es ops] less.prems Cons by (auto simp: list_all_iff)
    have pop: "seek_post root dm past q (stack_rest 1 es) ys1 (seek_loop ops dm od past es q True a1)"
      if "holds a1 ys1" "seekable ops dm past q (stack_rest 1 es)" for q a1 ys1
      using less.hyps [of True es a1 ys1 "stack_rest 1 es" q] that less.prems Cons
        stack_weight_pop [of es "\<not> asc" e] top_ready_pop [of root e es] path_ok_tl [of root e es]
      by auto
    show ?thesis
    proof (cases "entry_tree e")
      case (Leaf s its iss)
      define xs where "xs = drop (entry_index e) its"
      have asc: "\<not> asc" "entry_index e \<le> length its"
        using less.prems(2) Cons Leaf by (auto simp: top_ready_def)
      have rest: "rest = xs @ stack_rest 1 es"
        using less.prems(8) Cons Leaf asc by (simp add: entry_rest_def xs_def)
      have "seekable ops dm past (pos_after ops dm p xs) (stack_rest 1 es)"
        by (rule seekable_suffix [OF less.prems(9) [unfolded rest]])
      then show ?thesis
        using seek_loop_leaf [OF Leaf asc(2) _ wf(1,2) less.prems(3) xs_def _ refl, of root es dm past p]
          pop less.prems(1) Cons asc(1) rest by auto
    next
      case (Internal h s css cts)
      define i where "i = (if asc then entry_index e + 1 else entry_index e)"
      have i: "i \<le> length cts" using less.prems(2) Cons Internal by (auto simp: top_ready_def i_def)
      have "rest = concat (map items (drop i cts)) @ stack_rest 1 es"
        using less.prems(8) Cons Internal by (auto simp: entry_rest_def i_def)
      from seek_loop_children [OF Internal less.prems(1) [unfolded Cons] wf less.prems(3) i_def i this
          less.prems(9), folded Cons]
      obtain v w a1 where vw: "rest = v @ w" "all_past ops dm past p v" "holds a1 (ys @ v)"
          "seekable ops dm past (pos_after ops dm p v) w"
        and next_state: "w = stack_rest 1 es \<and> seek_loop ops dm od past st p asc a
              = seek_loop ops dm od past es (pos_after ops dm p v) True a1
          \<or> (\<exists>st1. w = stack_rest 0 st1 \<and> path_ok root st1 \<and> top_ready False st1
               \<and> stack_weight True st1 < stack_weight (\<not> asc) st
               \<and> seek_loop ops dm od past st p asc a
                   = seek_loop ops dm od past st1 (pos_after ops dm p v) False a1)"
        by (elim exE conjE) (rule that)
      have "seek_post root dm past (pos_after ops dm p v) w (ys @ v) (seek_loop ops dm od past st p asc a)"
        using next_state
      proof (elim disjE exE conjE)
        fix st1 :: "('t, 's, 'd) stack_entry list"
        assume "w = stack_rest 0 st1" "path_ok root st1" "top_ready False st1"
          "stack_weight True st1 < stack_weight (\<not> asc) st"
        with vw(3,4) less.prems(4-7) less.hyps [of False st1 a1 "ys @ v" w "pos_after ops dm p v"]
        have "seek_post root dm past (pos_after ops dm p v) w (ys @ v)
            (seek_loop ops dm od past st1 (pos_after ops dm p v) False a1)" by simp
        moreover assume "seek_loop ops dm od past st p asc a
            = seek_loop ops dm od past st1 (pos_after ops dm p v) False a1"
        ultimately show ?thesis by simp
      qed (use pop [OF vw(3)] vw(4) in simp)
      with vw show ?thesis by (simp add: seek_post_extend)
    qed
  qed
qed

end

section \<open>Cursors and their items\<close>

definition cursor_ok :: "('t, 's) sum_tree \<Rightarrow> ('t, 's, 'd) cursor \<Rightarrow> 't list \<Rightarrow> bool" where
  "cursor_ok root c rest \<longleftrightarrow> cursor_tree c = root \<and>
     (if did_seek c
      then path_ok root (cursor_stack c) \<and> at_item (cursor_stack c) \<and> stack_rest 0 (cursor_stack c) = rest
        \<and> at_end c = (cursor_stack c = [])
      else cursor_stack c = [] \<and> rest = items root \<and> at_end c = is_empty root)"

lemma cursor_new_ok: "cursor_ok t (cursor_new dm t) (items t)"
  by (simp add: cursor_ok_def cursor_new_def)

lemma reset_ok: "cursor_ok root c rest \<Longrightarrow> cursor_ok root (reset dm c) (items root)"
  by (simp add: cursor_ok_def reset_def)

lemma cursor_item_ok:
  assumes "cursor_ok root c rest" "did_seek c"
  shows "item c = Some (list_first rest)"
proof (cases "cursor_stack c")
  case (Cons e es)
  with assms show ?thesis
    by (auto simp: cursor_ok_def item_def assert_did_seek_def at_item_def entry_rest_def index_checked_def
        list_first_def Cons_nth_drop_Suc [symmetric] split: sum_tree.splits)
qed (use assms in \<open>auto simp: cursor_ok_def item_def assert_did_seek_def list_first_def\<close>)

lemma cursor_item_summary_ok:
  assumes "cursor_ok root c rest" "did_seek c" "tree_wf ops root"
  shows "cursor_item_summary c = Some (map_option (item_summary ops) (list_first rest))"
proof (cases "cursor_stack c")
  case (Cons e es)
  with assms obtain s its iss where e: "entry_tree e = Leaf s its iss" "entry_index e < length its"
    by (auto simp: cursor_ok_def at_item_def split: sum_tree.splits)
  have "path_ok root (e # es)" using assms(1,2) Cons by (simp add: cursor_ok_def)
  then have "\<not> is_empty root" by (rule at_item_root) (simp add: at_item_def e)
  then have "iss = map (item_summary ops) its"
    using path_ok_wf [of root e es ops] assms Cons e by (auto simp: cursor_ok_def)
  with e Cons assms show ?thesis
    by (auto simp: cursor_ok_def cursor_item_summary_def assert_did_seek_def entry_rest_def index_checked_def
        list_first_def Cons_nth_drop_Suc [symmetric])
qed (use assms in \<open>auto simp: cursor_ok_def cursor_item_summary_def assert_did_seek_def list_first_def\<close>)

context seek_aggregates
begin

lemma seek_internal_ok:
  assumes c: "cursor_ok root c rest" and root: "tree_wf ops root" "list_all ok (items root)" "height root < STACK_CAPACITY"
    and tgt: "tgt (cursor_position c) \<noteq> Less" "seekable ops dm (seek_past tgt b) (cursor_position c) rest"
    and a: "holds a ys"
    and p': "p' = pos_after ops dm (cursor_position c) (take_past ops dm (seek_past tgt b) (cursor_position c) rest)"
    and rest': "rest' = drop_past ops dm (seek_past tgt b) (cursor_position c) rest"
  shows "\<exists>a' c'. seek_internal ops dm od tgt b a c =
       Some (tgt (case list_first rest' of Some x \<Rightarrow> if b = Left then item_end ops dm p' x else p' | None \<Rightarrow> p') = Equal, a', c')
     \<and> cursor_ok root c' rest' \<and> did_seek c' \<and> cursor_position c' = p'
     \<and> holds a' (ys @ take_past ops dm (seek_past tgt b) (cursor_position c) rest)"
proof -
  define st where "st = (if did_seek c then cursor_stack c else [mk_entry root 0 (dim_zero dm)])"
  have push: "(if did_seek c then Some (cursor_stack c)
      else stack_push (cursor_stack c) (mk_entry (cursor_tree c) 0 (dim_zero dm))) = Some st"
    using c by (auto simp: cursor_ok_def st_def stack_push_def STACK_CAPACITY_def)
  have "top_ready False [mk_entry root 0 (dim_zero dm)]" "entry_rest 0 (mk_entry root 0 (dim_zero dm)) = items root"
    by (cases root; simp add: top_ready_def mk_entry_def entry_rest_def)+
  then have st: "path_ok root st" "top_ready False st" "stack_rest 0 st = rest"
    using c by (auto simp: cursor_ok_def st_def at_item_ready mk_entry_def split: if_splits)
  have "seek_post root dm (seek_past tgt b) (cursor_position c) rest ys
      (seek_loop ops dm od (seek_past tgt b) st (cursor_position c) False a)"
  proof (cases "is_empty root")
    case False
    then show ?thesis using st a root tgt(2) by (intro seek_loop_ok) auto
  next
    case True
    then obtain s where root_eq: "root = Leaf s [] []"
      using root(1) by (cases root) auto
    then have st': "st = [] \<or> (\<exists>e. st = [e] \<and> entry_tree e = Leaf s [] [] \<and> entry_index e = 0)"
    proof (cases st)
      case (Cons e es)
      with st(1,2) root_eq path_ok_leaf [of root e es] show ?thesis by (auto simp: top_ready_def)
    qed simp
    obtain a1 where "end_leaf ops a = Some a1" "holds a1 ys"
      using end_leaf_holds [OF holds_pending [OF a]] by auto
    with st' st(3) a show ?thesis
      by (auto simp: seek_post_def seek_loop.simps(2) Let_def at_item_def entry_rest_def)
  qed
  then obtain st' a' where run: "seek_loop ops dm od (seek_past tgt b) st (cursor_position c) False a = Some (st', p', a')"
      "holds a' (ys @ take_past ops dm (seek_past tgt b) (cursor_position c) rest)"
      "stack_rest 0 st' = rest'" "path_ok root st'" "at_item st'"
    by (auto simp: seek_post_def p' rest')
  define c' where "c' = c\<lparr>did_seek := True, cursor_stack := st', cursor_position := p', at_end := (st' = [])\<rparr>"
  have c': "cursor_ok root c' rest'" "did_seek c'" "cursor_position c' = p'"
    using c run by (auto simp: cursor_ok_def c'_def)
  show ?thesis
    using push run(1,2) c' cursor_item_summary_ok [OF c'(1,2) root(1)] tgt(1)
    by (auto simp: seek_internal_def Let_def c'_def [symmetric] item_end_def list_first_def split: list.splits)
qed

end

section \<open>The aggregates of the source\<close>

definition slice_pending ::
  "('t, 's) summary_ops \<Rightarrow> ('t \<Rightarrow> bool) \<Rightarrow> ('t, 's, 'o) seek_aggregate \<Rightarrow> 't list \<Rightarrow> 't list \<Rightarrow> bool" where
  "slice_pending ops ok a ys zs \<longleftrightarrow>
     (\<exists>t. a = SliceSeekAggregate \<lparr>slice_tree = t, leaf_items = zs, leaf_item_summaries = map (item_summary ops) zs,
                                  leaf_summary = sum_summaries ops (map (item_summary ops) zs)\<rparr>
        \<and> tree_wf ops t \<and> items t = ys \<and> list_all ok ys \<and> list_all ok zs \<and> length zs \<le> 2 * TREE_BASE)"

definition slice_holds ::
  "('t, 's) summary_ops \<Rightarrow> ('t \<Rightarrow> bool) \<Rightarrow> ('t, 's, 'o) seek_aggregate \<Rightarrow> 't list \<Rightarrow> bool" where
  "slice_holds ops ok a ys = slice_pending ops ok a ys []"

definition no_holds :: "('t, 's, 'o) seek_aggregate \<Rightarrow> 't list \<Rightarrow> bool" where
  "no_holds a ys \<longleftrightarrow> a = NoAggregate"

context summary_laws
begin

lemma slice_start: "slice_holds ops ok a ys \<Longrightarrow> slice_pending ops ok a ys []"
  by (simp add: slice_holds_def)

lemma slice_push_tree:
  assumes "slice_holds ops ok a ys" "good c"
  shows "\<exists>a'. push_tree ops od a c (summary c) = Some a' \<and> slice_holds ops ok a' (ys @ items c)"
proof -
  from assms(1) obtain t where a: "a = SliceSeekAggregate \<lparr>slice_tree = t, leaf_items = [], leaf_item_summaries = [],
      leaf_summary = sum_summaries ops []\<rparr>" "good t" "items t = ys"
    by (auto simp: slice_holds_def slice_pending_def)
  from append_ok [OF a(2) assms(2)] a show ?thesis
    by (auto simp: slice_holds_def slice_pending_def)
qed

lemma slice_push_item:
  assumes "slice_pending ops ok a ys zs" "length zs < 2 * TREE_BASE" "ok x"
  shows "\<exists>a'. push_item ops od a x (item_summary ops x) = Some a' \<and> slice_pending ops ok a' ys (zs @ [x])"
  using assms by (auto simp: slice_pending_def sum_summaries_def)

lemma slice_end_leaf:
  assumes "slice_pending ops ok a ys zs"
  shows "\<exists>a'. end_leaf ops a = Some a' \<and> slice_holds ops ok a' (ys @ zs)"
proof -
  from assms obtain t where a: "a = SliceSeekAggregate \<lparr>slice_tree = t, leaf_items = zs,
      leaf_item_summaries = map (item_summary ops) zs, leaf_summary = items_total zs\<rparr>"
      "good t" "items t = ys" "list_all ok zs" "length zs \<le> 2 * TREE_BASE"
    by (auto simp: slice_pending_def)
  then have "good (Leaf (items_total zs) zs (map (item_summary ops) zs))" by simp
  from append_ok [OF a(2) this] a show ?thesis
    by (auto simp: slice_holds_def slice_pending_def sum_summaries_def)
qed

end

sublocale summary_laws < slicing: seek_aggregates ops valid ok unit_dim "slice_holds ops ok" "slice_pending ops ok"
  by unfold_locales
    (auto intro: slice_push_tree slice_push_item slice_end_leaf slice_start)

sublocale summary_laws < seeking: seek_aggregates ops valid ok unit_dim no_holds "\<lambda>a ys zs. no_holds a ys"
  by unfold_locales (auto simp: no_holds_def)

context summary_laws
begin

lemma slice_ok:
  assumes c: "cursor_ok root c rest" and root: "good root" "height root < STACK_CAPACITY"
    and tgt: "tgt (cursor_position c) \<noteq> Less" "seekable ops dm (seek_past tgt b) (cursor_position c) rest"
  shows "\<exists>t c'. slice ops dm tgt b c = Some (t, c') \<and> good t
     \<and> items t = take_past ops dm (seek_past tgt b) (cursor_position c) rest
     \<and> cursor_ok root c' (drop_past ops dm (seek_past tgt b) (cursor_position c) rest) \<and> did_seek c'
     \<and> cursor_position c' = pos_after ops dm (cursor_position c) (items t)"
proof -
  let ?a = "SliceSeekAggregate \<lparr>slice_tree = tree_new ops, leaf_items = [], leaf_item_summaries = [],
                                leaf_summary = summary_zero ops\<rparr> :: ('t, 's, unit) seek_aggregate"
  have "slice_holds ops ok ?a []"
    by (simp add: slice_holds_def slice_pending_def sum_summaries_def)
  from slicing.seek_internal_ok [OF c _ _ root(2) tgt this refl refl] root(1) obtain a' c' where
    "seek_internal ops dm unit_dim tgt b ?a c = Some (tgt (case list_first (drop_past ops dm (seek_past tgt b) (cursor_position c) rest) of
        Some x \<Rightarrow> if b = Left then item_end ops dm (pos_after ops dm (cursor_position c) (take_past ops dm (seek_past tgt b) (cursor_position c) rest)) x
          else pos_after ops dm (cursor_position c) (take_past ops dm (seek_past tgt b) (cursor_position c) rest)
      | None \<Rightarrow> pos_after ops dm (cursor_position c) (take_past ops dm (seek_past tgt b) (cursor_position c) rest)) = Equal, a', c')"
    "cursor_ok root c' (drop_past ops dm (seek_past tgt b) (cursor_position c) rest)" "did_seek c'"
    "cursor_position c' = pos_after ops dm (cursor_position c) (take_past ops dm (seek_past tgt b) (cursor_position c) rest)"
    "slice_holds ops ok a' (take_past ops dm (seek_past tgt b) (cursor_position c) rest)"
    by auto
  then show ?thesis by (auto simp: slice_def slice_holds_def slice_pending_def)
qed

lemma seek_forward_ok:
  assumes c: "cursor_ok root c rest" and root: "good root" "height root < STACK_CAPACITY"
    and tgt: "tgt (cursor_position c) \<noteq> Less" "seekable ops dm (seek_past tgt b) (cursor_position c) rest"
    and p': "p' = pos_after ops dm (cursor_position c) (take_past ops dm (seek_past tgt b) (cursor_position c) rest)"
    and rest': "rest' = drop_past ops dm (seek_past tgt b) (cursor_position c) rest"
  shows "\<exists>c'. seek_forward ops dm tgt b c = Some (tgt (case list_first rest' of
        Some x \<Rightarrow> if b = Left then item_end ops dm p' x else p' | None \<Rightarrow> p') = Equal, c')
     \<and> cursor_ok root c' rest' \<and> did_seek c' \<and> cursor_position c' = p'"
proof -
  have "no_holds NoAggregate []" by (simp add: no_holds_def)
  from seeking.seek_internal_ok [OF c _ _ root(2) tgt this p' rest'] root(1) show ?thesis
    by (auto simp: seek_forward_def)
qed

lemma seek_ok:
  assumes c: "cursor_ok root c rest" and root: "good root" "height root < STACK_CAPACITY"
    and tgt: "tgt (dim_zero dm) \<noteq> Less" "seekable ops dm (seek_past tgt b) (dim_zero dm) (items root)"
    and p': "p' = pos_after ops dm (dim_zero dm) (take_past ops dm (seek_past tgt b) (dim_zero dm) (items root))"
    and rest': "rest' = drop_past ops dm (seek_past tgt b) (dim_zero dm) (items root)"
  shows "\<exists>c'. seek ops dm tgt b c = Some (tgt (case list_first rest' of
        Some x \<Rightarrow> if b = Left then item_end ops dm p' x else p' | None \<Rightarrow> p') = Equal, c')
     \<and> cursor_ok root c' rest' \<and> did_seek c' \<and> cursor_position c' = p'"
  using seek_forward_ok [OF reset_ok [OF c, of dm] root, of tgt dm b p' rest'] assms
  by (simp add: seek_def seek_forward_def reset_def)

end

section \<open>Dimensions\<close>

text \<open>A dimension that adds up: \<^verbatim>\<open>usize\<close>, \<^verbatim>\<open>Point\<close>, the summary itself.\<close>

locale dimension_laws = summary_laws ops valid ok
  for ops :: "('t, 's) summary_ops" and valid ok +
  fixes dm :: "('d, 's) dimension"
  assumes dim_hom: "valid a \<Longrightarrow> valid b \<Longrightarrow> dim_add dm (dim_add dm p a) b = dim_add dm p (summary_add ops a b)"
begin

lemma dim_add_foldl:
  "valid s \<Longrightarrow> list_all ok xs
    \<Longrightarrow> foldl (item_end ops dm) (dim_add dm p s) xs
      = dim_add dm p (foldl (summary_add ops) s (map (item_summary ops) xs))"
proof (induction xs arbitrary: s)
  case (Cons x xs)
  then show ?case by (simp add: item_end_def dim_hom item_valid add_valid)
qed simp

lemma dim_add_total:
  assumes "list_all ok v" "v \<noteq> []"
  shows "dim_add dm p (items_total v) = pos_after ops dm p v"
proof -
  obtain x xs where v: "v = x # xs" using assms(2) by (cases v) auto
  then show ?thesis
    using assms(1) dim_add_foldl [of "item_summary ops x" xs p]
    by (simp add: pos_after_def item_end_def total_Cons item_valid)
qed

lemma seekable_if_monotone:
  assumes "list_all ok xs"
    and "\<And>u x w. xs = u @ x # w \<Longrightarrow> past (pos_after ops dm p (u @ [x])) \<Longrightarrow> u \<noteq> [] \<Longrightarrow> past (pos_after ops dm p u)"
  shows "seekable ops dm past p xs"
proof -
  have prefix: "past (pos_after ops dm p u)"
    if "xs = u @ v @ w" "past (pos_after ops dm p (u @ v))" "u \<noteq> []" for u v w
    using that
  proof (induction v arbitrary: w rule: rev_induct)
    case (snoc x v)
    then show ?case using assms(2) [of "u @ v" x w] by auto
  qed simp
  have all: "all_past ops dm past (pos_after ops dm p u) v"
    if "xs = u @ v @ w" "v \<noteq> [] \<Longrightarrow> past (pos_after ops dm p (u @ v))" for u v w
    using that
  proof (induction v arbitrary: u)
    case (Cons x v)
    have "past (pos_after ops dm p (u @ [x]))"
      using prefix [of "u @ [x]" v w] Cons.prems by simp
    with Cons.IH [of "u @ [x]"] Cons.prems show ?case by (simp add: all_past_def)
  qed (simp add: all_past_def)
  show ?thesis
    unfolding seekable_def Let_def
    using assms(1) all dim_add_total by (auto simp del: pos_after_simps(2))
qed

lemma seekable_end: "list_all ok xs \<Longrightarrow> seekable ops dm (seek_past end_target b) p xs"
  by (rule seekable_if_monotone) (auto simp: seek_past_def end_target_def)

lemma take_past_end: "take_past ops dm (seek_past end_target b) p xs = xs \<and> drop_past ops dm (seek_past end_target b) p xs = []"
  by (induction xs arbitrary: p) (auto simp: seek_past_def end_target_def)

lemma suffix_ok:
  assumes "cursor_ok root c rest" "good root" "height root < STACK_CAPACITY" "list_all ok rest"
  shows "\<exists>t c'. suffix ops dm c = Some (t, c') \<and> good t \<and> items t = rest"
  using slice_ok [OF assms(1-3), of end_target dm Right] seekable_end [OF assms(4), of Right "cursor_position c"] take_past_end
  by (auto simp: suffix_def end_target_def)

text \<open>Cutting a tree in two.\<close>

lemma slice_suffix_ok:
  assumes "good t" "height t < STACK_CAPACITY"
    and "tgt (dim_zero dm) \<noteq> Less" "seekable ops dm (seek_past tgt b) (dim_zero dm) (items t)"
  shows "\<exists>l c r c'. slice ops dm tgt b (cursor_new dm t) = Some (l, c) \<and> suffix ops dm c = Some (r, c')
    \<and> items l = take_past ops dm (seek_past tgt b) (dim_zero dm) (items t) \<and> items l @ items r = items t
    \<and> good l \<and> good r"
proof -
  let ?l = "take_past ops dm (seek_past tgt b) (dim_zero dm) (items t)"
  let ?r = "drop_past ops dm (seek_past tgt b) (dim_zero dm) (items t)"
  have split: "?l @ ?r = items t" by (rule take_drop_past)
  from slice_ok [OF cursor_new_ok [of t dm] assms(1,2), of tgt dm b] assms(3,4) obtain l c where
    l: "slice ops dm tgt b (cursor_new dm t) = Some (l, c)" "good l" "items l = ?l" "cursor_ok t c ?r"
    by (auto simp: cursor_new_def)
  have "list_all ok (?l @ ?r)" unfolding split using assms(1) by simp
  then have "list_all ok ?r" by simp
  from suffix_ok [OF l(4) assms(1,2) this] l split show ?thesis by auto
qed

end

section \<open>Moving forward\<close>

text \<open>A filter must not reject a run that has an accepted item in it, and the position must be able to
  jump over a rejected run.  The filter of \<^verbatim>\<open>next\<close> rejects nothing.\<close>

definition rejects :: "('t, 's) summary_ops \<Rightarrow> ('s \<Rightarrow> bool) \<Rightarrow> 't \<Rightarrow> bool" where
  "rejects ops filt x = (\<not> filt (item_summary ops x))"

definition skippable :: "('t, 's) summary_ops \<Rightarrow> ('d, 's) dimension \<Rightarrow> ('s \<Rightarrow> bool) \<Rightarrow> ('t \<Rightarrow> bool) \<Rightarrow> bool" where
  "skippable ops dm filt ok \<longleftrightarrow>
     (\<forall>v p. v \<noteq> [] \<longrightarrow> list_all ok v \<longrightarrow> \<not> filt (sum_summaries ops (map (item_summary ops) v)) \<longrightarrow>
        list_all (rejects ops filt) v \<and> dim_add dm p (sum_summaries ops (map (item_summary ops) v)) = pos_after ops dm p v)"

lemma skippable_next: "skippable ops dm (\<lambda>_. True) ok"
  by (simp add: skippable_def)

definition forward_post ::
  "('t, 's) summary_ops \<Rightarrow> ('d, 's) dimension \<Rightarrow> ('s \<Rightarrow> bool) \<Rightarrow> ('t, 's) sum_tree \<Rightarrow> 'd \<Rightarrow> 't list
    \<Rightarrow> (('t, 's, 'd) stack_entry list \<times> 'd) option \<Rightarrow> bool" where
  "forward_post ops dm filt root p rest res \<longleftrightarrow>
     (\<exists>st'. res = Some (st', pos_after ops dm p (takeWhile (rejects ops filt) rest))
        \<and> stack_rest 0 st' = dropWhile (rejects ops filt) rest \<and> path_ok root st' \<and> at_item st')"

lemma forward_post_extend:
  assumes "list_all (rejects ops filt) v" "forward_post ops dm filt root (pos_after ops dm p v) w res"
  shows "forward_post ops dm filt root p (v @ w) res"
  using assms by (auto simp: forward_post_def list_all_iff)

lemma skip_items:
  "skip_rejected dm filt (map (item_summary ops) xs) i ep p =
     (i + length (takeWhile (rejects ops filt) xs),
      pos_after ops dm ep (takeWhile (rejects ops filt) xs),
      pos_after ops dm p (takeWhile (rejects ops filt) xs))"
  by (induction xs arbitrary: i ep p) (auto simp: rejects_def item_end_def)

definition start_pos :: "('t, 's) summary_ops \<Rightarrow> ('d, 's) dimension \<Rightarrow> bool \<Rightarrow> ('t, 's, 'd) stack_entry list \<Rightarrow> 'd \<Rightarrow> 'd" where
  "start_pos ops dm descend st p =
     (case st of
        [] \<Rightarrow> p
      | e # es \<Rightarrow> (case entry_tree e of
          Leaf s its iss \<Rightarrow> if descend then p else item_end ops dm p (its ! entry_index e)
        | Internal h s css cts \<Rightarrow> p))"

text \<open>The loop starts at a fresh node, or at an entry that has been dealt with.\<close>

definition forward_ready :: "bool \<Rightarrow> ('t, 's, 'd) stack_entry list \<Rightarrow> bool" where
  "forward_ready descend st =
     (case st of
        [] \<Rightarrow> True
      | e # es \<Rightarrow> (case entry_tree e of
          Leaf s its iss \<Rightarrow> (if descend then entry_index e \<le> length its else entry_index e < length its)
        | Internal h s css cts \<Rightarrow> (if descend then entry_index e \<le> length cts else entry_index e < length cts)))"

lemma forward_ready_pop: "path_ok root (e # es) \<Longrightarrow> forward_ready False es \<and> start_pos ops dm False es p = p"
  by (cases es) (auto simp: forward_ready_def start_pos_def split: sum_tree.splits)

context summary_laws
begin

lemma skip_children:
  assumes "skippable ops dm filt ok" "list_all (child_ok ops h) ts" "list_all ok (concat (map items ts))"
  shows "\<exists>k ep'. skip_rejected dm filt (map summary ts) i ep p =
      (i + k, ep', pos_after ops dm p (concat (map items (take k ts)))) \<and> k \<le> length ts
      \<and> list_all (rejects ops filt) (concat (map items (take k ts)))"
  using assms(2,3)
proof (induction ts arbitrary: i ep p)
  case (Cons t ts)
  have t: "good t" "items t \<noteq> []" using Cons.prems by (auto simp: child_ok_def is_empty_iff)
  show ?case
  proof (cases "filt (summary t)")
    case False
    with assms(1) t have run: "list_all (rejects ops filt) (items t)" "dim_add dm p (summary t) = pos_after ops dm p (items t)"
      by (auto simp: skippable_def summary_items)
    from Cons.IH [of "Suc i" "dim_add dm ep (summary t)" "dim_add dm p (summary t)"] Cons.prems obtain k ep' where
      "skip_rejected dm filt (map summary ts) (Suc i) (dim_add dm ep (summary t)) (dim_add dm p (summary t)) =
        (Suc i + k, ep', pos_after ops dm (dim_add dm p (summary t)) (concat (map items (take k ts))))"
      "k \<le> length ts" "list_all (rejects ops filt) (concat (map items (take k ts)))" by auto
    with False run show ?thesis by (intro exI [of _ "Suc k"] exI [of _ ep']) simp
  next
    case True
    then show ?thesis by (intro exI [of _ 0]) simp
  qed
qed simp

lemma forward_leaf:
  assumes e: "entry_tree e = Leaf s its iss" "path_ok root (e # es)" "forward_ready descend (e # es)"
    and iss: "iss = map (item_summary ops) its"
    and xs: "xs = drop (entry_index e + (if descend then 0 else 1)) its" "q = start_pos ops dm descend (e # es) p"
    and pop: "forward_post ops dm filt root (pos_after ops dm q xs) (stack_rest 1 es)
        (search_forward_loop dm filt es (pos_after ops dm q xs) False)"
  shows "forward_post ops dm filt root q (xs @ stack_rest 1 es) (search_forward_loop dm filt (e # es) p descend)"
proof -
  define i where "i = entry_index e + (if descend then 0 else 1)"
  define ep where "ep = (if descend then entry_position e else item_end ops dm (entry_position e) (its ! entry_index e))"
  define k where "k = length (takeWhile (rejects ops filt) xs)"
  have i: "i \<le> length its" using e by (auto simp: forward_ready_def i_def split: if_splits)
  have step: "search_forward_loop dm filt (e # es) p descend =
      (if i + k < length its
       then Some (e\<lparr>entry_index := i + k, entry_position := pos_after ops dm ep (takeWhile (rejects ops filt) xs)\<rparr> # es,
              pos_after ops dm q (takeWhile (rejects ops filt) xs))
       else search_forward_loop dm filt es (pos_after ops dm q (takeWhile (rejects ops filt) xs)) False)"
    using e xs iss unfolding search_forward_loop.simps(2)
    by (auto simp: i_def k_def ep_def forward_ready_def start_pos_def index_checked_def item_end_def drop_map
        skip_items [unfolded item_end_def] Let_def)
  show ?thesis
  proof (cases "i + k < length its")
    case False
    then have tw: "takeWhile (rejects ops filt) xs = xs"
      using xs(1) i takeWhile_eq_all_conv length_takeWhile_le [of "rejects ops filt" xs] takeWhile_eq_take [of "rejects ops filt" xs]
      by (simp add: k_def i_def)
    then have "list_all (rejects ops filt) xs" by (metis list_all_iff takeWhile_eq_all_conv)
    moreover have "search_forward_loop dm filt (e # es) p descend =
        search_forward_loop dm filt es (pos_after ops dm q xs) False"
      using False step unfolding tw by simp
    ultimately show ?thesis using pop by (simp add: forward_post_extend)
  next
    case True
    let ?e = "e\<lparr>entry_index := i + k, entry_position := pos_after ops dm ep (takeWhile (rejects ops filt) xs)\<rparr>"
    have "k < length xs" using True xs(1) by (simp add: i_def)
    then have cut: "\<exists>x \<in> set xs. \<not> rejects ops filt x"
      unfolding k_def by (metis less_irrefl takeWhile_eq_all_conv)
    have "path_ok root (?e # es)" using e(2) path_ok_update [of ?e e root es] by simp
    moreover have "at_item (?e # es)" using True e(1) by (simp add: at_item_def)
    moreover have "entry_rest 0 ?e = dropWhile (rejects ops filt) xs"
      using e(1) xs(1) by (simp add: entry_rest_def dropWhile_eq_drop k_def i_def add.commute)
    ultimately show ?thesis
      using True step cut by (auto simp: forward_post_def takeWhile_append dropWhile_append)
  qed
qed

lemma forward_children:
  assumes e: "entry_tree e = Internal h s css cts" "path_ok root (e # es)" "forward_ready descend (e # es)"
    and wf: "tree_wf ops (entry_tree e)" "list_all ok (items (entry_tree e))"
      "height (entry_tree e) + length es < STACK_CAPACITY"
    and skip: "skippable ops dm filt ok"
    and rest: "rest = stack_rest (if descend then 0 else 1) (e # es)"
  shows "\<exists>v w. rest = v @ w \<and> list_all (rejects ops filt) v
    \<and> (w = stack_rest 1 es \<and> search_forward_loop dm filt (e # es) p descend
          = search_forward_loop dm filt es (pos_after ops dm p v) False
      \<or> (\<exists>st1. w = stack_rest 0 st1 \<and> path_ok root st1 \<and> forward_ready True st1
           \<and> start_pos ops dm True st1 (pos_after ops dm p v) = pos_after ops dm p v
           \<and> stack_weight True st1 < stack_weight descend (e # es)
           \<and> search_forward_loop dm filt (e # es) p descend
               = search_forward_loop dm filt st1 (pos_after ops dm p v) True))"
proof -
  obtain h' where h: "h = Suc h'" using wf(1) e(1) tree_wf_height by metis
  have node: "css = map summary cts" "list_all (child_ok ops h') cts"
    using wf(1) unfolding e h tree_wf_Internal by auto
  define i where "i = (if descend then entry_index e else entry_index e + 1)"
  have i: "i \<le> length cts" using e by (auto simp: forward_ready_def i_def split: if_splits)
  define ts where "ts = drop i cts"
  have ts: "list_all (child_ok ops h') ts" "list_all ok (concat (map items ts))"
    using node(2) wf(2) e unfolding ts_def by (auto simp: list_all_iff dest: in_set_dropD)
  obtain k ep' where k: "skip_rejected dm filt (drop i css) i (if descend then entry_position e else p) p =
      (i + k, ep', pos_after ops dm p (concat (map items (take k ts))))" "k \<le> length ts"
      "list_all (rejects ops filt) (concat (map items (take k ts)))"
    using skip_children [OF skip ts, of i "if descend then entry_position e else p" p]
    by (auto simp: node(1) ts_def drop_map)
  define v where "v = concat (map items (take k ts))"
  define w where "w = concat (map items (drop k ts)) @ stack_rest 1 es"
  have "rest = concat (map items ts) @ stack_rest 1 es"
    using rest e(1) by (auto simp: entry_rest_def ts_def i_def)
  then have vw: "rest = v @ w"
    unfolding v_def w_def by (metis append.assoc append_take_drop_id concat_append map_append)
  note common = vw k(3) [folded v_def]
  show ?thesis
  proof (cases "k < length ts")
    case False
    then have "w = stack_rest 1 es" by (simp add: w_def)
    moreover have "\<not> i + k < length cts" using False i by (simp add: ts_def)
    then have "search_forward_loop dm filt (e # es) p descend
        = search_forward_loop dm filt es (pos_after ops dm p v) False"
      unfolding search_forward_loop.simps(2) e(1) sum_tree.case Let_def i_def [symmetric] using k(1)
      by (simp add: v_def)
    ultimately show ?thesis using common by blast
  next
    case True
    define j where "j = i + k"
    have j: "j < length cts" "ts ! k = cts ! j" using True by (auto simp: ts_def j_def)
    define e' where "e' = e\<lparr>entry_index := j, entry_position := ep'\<rparr>"
    define st1 where "st1 = mk_entry (cts ! j) 0 (pos_after ops dm p v) # e' # es"
    have "stack_weight True st1 < stack_weight descend (e # es)"
      unfolding st1_def
      by (rule stack_weight_push [of e h s css cts e']) (use e j in \<open>auto simp: e'_def j_def i_def\<close>)
    moreover have "path_ok root (e' # es)"
      using e(2) path_ok_update [of e' e root es] by (simp add: e'_def)
    then have "path_ok root st1" using e(1) j(1) by (simp add: st1_def e'_def mk_entry_def)
    moreover have "forward_ready True st1 \<and> start_pos ops dm True st1 (pos_after ops dm p v) = pos_after ops dm p v"
      by (auto simp: st1_def forward_ready_def start_pos_def mk_entry_def split: sum_tree.splits)
    moreover have "drop k ts = cts ! j # drop (Suc j) cts"
      using j(1) by (simp add: ts_def j_def Cons_nth_drop_Suc add.commute)
    then have "w = stack_rest 0 st1"
      using e(1) by (cases "cts ! j") (simp_all add: st1_def w_def e'_def mk_entry_def entry_rest_def)
    moreover have push: "stack_push (e' # es) (mk_entry (cts ! j) 0 (pos_after ops dm p v)) = Some st1"
      using wf(3) e(1) h by (simp add: stack_push_def st1_def)
    have k1: "skip_rejected dm filt (drop i css) i (if descend then entry_position e else p) p =
        (j, ep', pos_after ops dm p v)"
      using k(1) by (simp add: v_def j_def)
    have "search_forward_loop dm filt (e # es) p descend
        = search_forward_loop dm filt st1 (pos_after ops dm p v) True"
      unfolding search_forward_loop.simps(2) e(1) sum_tree.case Let_def i_def [symmetric] k1 case_prod_conv
        e'_def [symmetric] push
      using j(1) by simp
    ultimately show ?thesis using common by blast
  qed
qed

lemma search_forward_loop_ok:
  fixes dm :: "('d, 's) dimension"
  shows "path_ok root st \<Longrightarrow> forward_ready descend st
    \<Longrightarrow> tree_wf ops root \<Longrightarrow> \<not> is_empty root \<Longrightarrow> list_all ok (items root) \<Longrightarrow> height root < STACK_CAPACITY
    \<Longrightarrow> skippable ops dm filt ok
    \<Longrightarrow> rest = stack_rest (if descend then 0 else 1) st \<Longrightarrow> q = start_pos ops dm descend st p
    \<Longrightarrow> forward_post ops dm filt root q rest (search_forward_loop dm filt st p descend)"
proof (induction "stack_weight descend st" arbitrary: st descend p q rest rule: less_induct)
  case less
  show ?case
  proof (cases st)
    case Nil
    with less.prems show ?thesis by (simp add: forward_post_def at_item_def start_pos_def)
  next
    case (Cons e es)
    have wf: "tree_wf ops (entry_tree e)" "list_all ok (items (entry_tree e))"
        "height (entry_tree e) + length es < STACK_CAPACITY"
      using path_ok_wf [of root e es ops] less.prems Cons by (auto simp: list_all_iff)
    have pop: "forward_post ops dm filt root r (stack_rest 1 es) (search_forward_loop dm filt es r False)" for r
      using less.hyps [of False es "stack_rest 1 es" r r] less.prems Cons
        stack_weight_pop [of es descend e] forward_ready_pop [of root e es ops dm r] path_ok_tl [of root e es]
      by auto
    show ?thesis
    proof (cases "entry_tree e")
      case (Leaf s its iss)
      have "iss = map (item_summary ops) its" using wf(1) Leaf by simp
      from forward_leaf [OF Leaf _ _ this refl less.prems(9) [unfolded Cons] pop] less.prems(1,2,8) Cons Leaf
      show ?thesis by (auto simp: entry_rest_def)
    next
      case (Internal h s css cts)
      have q: "q = p" using less.prems(9) Cons Internal by (simp add: start_pos_def)
      from forward_children [OF Internal less.prems(1,2) [unfolded Cons] wf less.prems(7)
          less.prems(8) [unfolded Cons], of p, folded Cons]
      obtain v w where vw: "rest = v @ w" "list_all (rejects ops filt) v"
        and next_state: "w = stack_rest 1 es \<and> search_forward_loop dm filt st p descend
              = search_forward_loop dm filt es (pos_after ops dm p v) False
          \<or> (\<exists>st1. w = stack_rest 0 st1 \<and> path_ok root st1 \<and> forward_ready True st1
               \<and> start_pos ops dm True st1 (pos_after ops dm p v) = pos_after ops dm p v
               \<and> stack_weight True st1 < stack_weight descend st
               \<and> search_forward_loop dm filt st p descend
                   = search_forward_loop dm filt st1 (pos_after ops dm p v) True)"
        by (elim exE conjE) (rule that)
      have "forward_post ops dm filt root (pos_after ops dm p v) w (search_forward_loop dm filt st p descend)"
        using next_state
      proof (elim disjE exE conjE)
        fix st1 :: "('t, 's, 'd) stack_entry list"
        assume "w = stack_rest 0 st1" "path_ok root st1" "forward_ready True st1"
          "start_pos ops dm True st1 (pos_after ops dm p v) = pos_after ops dm p v"
          "stack_weight True st1 < stack_weight descend st"
        with less.prems(3-7) less.hyps [of True st1 w "pos_after ops dm p v" "pos_after ops dm p v"]
        have "forward_post ops dm filt root (pos_after ops dm p v) w
            (search_forward_loop dm filt st1 (pos_after ops dm p v) True)" by simp
        moreover assume "search_forward_loop dm filt st p descend
            = search_forward_loop dm filt st1 (pos_after ops dm p v) True"
        ultimately show ?thesis by simp
      qed (use pop in simp)
      with vw q show ?thesis by (simp add: forward_post_extend)
    qed
  qed
qed

lemma search_forward_ok:
  assumes c: "cursor_ok root c rest" and root: "good root" "height root < STACK_CAPACITY"
    and skip: "skippable ops dm filt ok"
    and R: "R = (if did_seek c then tl rest else rest)"
    and Q: "Q = (if did_seek c \<and> rest \<noteq> [] then item_end ops dm (cursor_position c) (hd rest) else cursor_position c)"
  shows "\<exists>c'. search_forward dm filt c = Some c' \<and> did_seek c'
     \<and> cursor_ok root c' (dropWhile (rejects ops filt) R)
     \<and> cursor_position c' = pos_after ops dm Q (takeWhile (rejects ops filt) R)"
proof -
  define st where "st = (if cursor_stack c = [] \<and> \<not> at_end c then [mk_entry root 0 (dim_zero dm)] else cursor_stack c)"
  define descend where "descend = (cursor_stack c = [] \<and> \<not> at_end c)"
  have prep: "(if cursor_stack c = [] then
          if \<not> at_end c then do { st \<leftarrow> stack_push [] (mk_entry (cursor_tree c) 0 (dim_zero dm)); Some (st, True) }
          else Some ([], False)
        else Some (cursor_stack c, False)) = Some (st, descend)"
    using c by (auto simp: st_def descend_def stack_push_def STACK_CAPACITY_def cursor_ok_def)
  have fresh: "forward_ready True [mk_entry root 0 (dim_zero dm)]" "entry_rest 0 (mk_entry root 0 (dim_zero dm)) = items root"
      "start_pos ops dm True [mk_entry root 0 (dim_zero dm)] p = p" for p
    by (cases root; simp add: forward_ready_def start_pos_def mk_entry_def entry_rest_def)+
  have "forward_post ops dm filt root Q R (search_forward_loop dm filt st (cursor_position c) descend)"
  proof (cases "st = []")
    case True
    then have "R = []" "Q = cursor_position c"
      using c root(1) by (auto simp: st_def R Q cursor_ok_def is_empty_iff split: if_splits)
    with True show ?thesis by (simp add: forward_post_def at_item_def)
  next
    case False
    have path: "path_ok root st" "\<not> is_empty root"
      using c False at_item_root [of root]
      by (auto simp: st_def cursor_ok_def mk_entry_def neq_Nil_conv split: if_splits)
    moreover have "forward_ready descend st \<and> R = stack_rest (if descend then 0 else 1) st
        \<and> Q = start_pos ops dm descend st (cursor_position c)"
    proof (cases descend)
      case True
      with c fresh show ?thesis by (auto simp: descend_def st_def R Q cursor_ok_def split: if_splits)
    next
      case noDescend: False
      obtain e es where st_eq: "st = e # es" using False by (cases st) auto
      with c noDescend have "did_seek c" "at_item st" "rest = stack_rest 0 st"
        by (auto simp: descend_def st_def cursor_ok_def split: if_splits)
      then show ?thesis using noDescend st_eq
        by (auto simp: at_item_def R Q forward_ready_def start_pos_def entry_rest_def
            Cons_nth_drop_Suc [symmetric] split: sum_tree.splits)
    qed
    ultimately show ?thesis using root skip by (intro search_forward_loop_ok) auto
  qed
  then obtain st' where "search_forward_loop dm filt st (cursor_position c) descend =
      Some (st', pos_after ops dm Q (takeWhile (rejects ops filt) R))"
    "stack_rest 0 st' = dropWhile (rejects ops filt) R" "path_ok root st'" "at_item st'"
    by (auto simp: forward_post_def)
  with prep c show ?thesis
    by (auto simp: search_forward_def Let_def cursor_ok_def split: if_splits)
qed

lemma cursor_next_ok:
  assumes "cursor_ok root c rest" "good root" "height root < STACK_CAPACITY"
  shows "\<exists>c'. cursor_next dm c = Some c' \<and> did_seek c' \<and> cursor_ok root c' (if did_seek c then tl rest else rest)
     \<and> cursor_position c' = (if did_seek c \<and> rest \<noteq> [] then item_end ops dm (cursor_position c) (hd rest) else cursor_position c)"
proof -
  have "takeWhile (rejects ops (\<lambda>_. True)) xs = []" "dropWhile (rejects ops (\<lambda>_. True)) xs = xs" for xs
    by (cases xs; simp add: rejects_def)+
  with search_forward_ok [OF assms skippable_next refl refl] show ?thesis
    by (auto simp: cursor_next_def)
qed

lemma drain_items_ok:
  "cursor_ok root c rest \<Longrightarrow> did_seek c \<Longrightarrow> good root \<Longrightarrow> height root < STACK_CAPACITY
    \<Longrightarrow> length rest < n \<Longrightarrow> drain_items n c acc = Some (acc @ rest)"
proof (induction n c acc arbitrary: rest rule: drain_items.induct)
  case (2 n c acc)
  show ?case
  proof (cases rest)
    case Nil
    with cursor_item_ok [OF 2(2,3)] show ?thesis by (simp add: list_first_def)
  next
    case (Cons x xs)
    obtain c' where c': "cursor_next unit_dim c = Some c'" "did_seek c'" "cursor_ok root c' xs"
      using cursor_next_ok [OF 2(2,4,5), of unit_dim] 2(3) Cons by auto
    have "drain_items n c' (acc @ [x]) = Some ((acc @ [x]) @ xs)"
      using 2(1) [OF _ _ c'(1) c'(3,2) 2(4,5)] cursor_item_ok [OF 2(2,3)] Cons 2(6)
      by (simp add: list_first_def)
    with c' cursor_item_ok [OF 2(2,3)] Cons show ?thesis by (simp add: list_first_def)
  qed
qed simp

lemma tree_items_ok:
  assumes "good t" "height t < STACK_CAPACITY" "length (items t) < n"
  shows "tree_items n t = Some (items t)"
proof -
  have new: "\<not> did_seek (cursor_new unit_dim t)" by (simp add: cursor_new_def)
  from cursor_next_ok [OF cursor_new_ok [of t unit_dim] assms(1,2), of unit_dim] new obtain c' where
    "cursor_next unit_dim (cursor_new unit_dim t) = Some c'" "did_seek c'" "cursor_ok t c' (items t)"
    by auto
  with drain_items_ok [of t c' "items t" n "[]"] assms show ?thesis
    by (simp add: tree_items_def)
qed

end

section \<open>Finding\<close>

lemma entry_found_not_past: "entry_found False tgt b p = (\<not> seek_past tgt b p)"
  by (cases "tgt p"; cases b) (auto simp: entry_found_def seek_past_def)

lemma find_slot_items:
  "find_slot dm (\<lambda>p. \<not> past p) p (zip xs (map (item_summary ops) xs)) =
     (pos_after ops dm p (take_past ops dm past p xs),
      map_option (\<lambda>x. (x, item_end ops dm (pos_after ops dm p (take_past ops dm past p xs)) x))
        (list_first (drop_past ops dm past p xs)))"
  by (induction xs arbitrary: p) (auto simp: Let_def item_end_def list_first_def)

lemma drop_past_append_stop:
  "drop_past ops dm past p xs \<noteq> [] \<Longrightarrow>
     take_past ops dm past p (xs @ ys) = take_past ops dm past p xs
     \<and> list_first (drop_past ops dm past p (xs @ ys)) = list_first (drop_past ops dm past p xs)"
  by (induction ops dm past p xs rule: take_past.induct) (auto simp: list_first_def)

context dimension_laws
begin

lemma all_past_end: "all_past ops dm past p v \<Longrightarrow> v \<noteq> [] \<Longrightarrow> past (pos_after ops dm p v)"
proof (induction v arbitrary: p)
  case (Cons x v)
  then show ?case by (cases v) (auto simp: all_past_def split: if_splits)
qed simp

lemma find_slot_children:
  assumes "seekable ops dm past p (concat (map items ts))"
    and "list_all (child_ok ops h) ts" "list_all ok (concat (map items ts))"
  shows "\<exists>k. k \<le> length ts \<and> all_past ops dm past p (concat (map items (take k ts)))
    \<and> find_slot dm (\<lambda>p. \<not> past p) p (zip ts (map summary ts)) =
       (let q = pos_after ops dm p (concat (map items (take k ts))) in
        (q, if k < length ts then Some (ts ! k, pos_after ops dm q (items (ts ! k))) else None))
    \<and> (k < length ts \<longrightarrow>
        drop_past ops dm past (pos_after ops dm p (concat (map items (take k ts)))) (items (ts ! k)) \<noteq> [])"
  using assms
proof (induction ts arbitrary: p)
  case (Cons t ts)
  have t: "good t" "items t \<noteq> []" using Cons.prems by (auto simp: child_ok_def is_empty_iff)
  have e: "dim_add dm p (summary t) = pos_after ops dm p (items t)"
    using t by (simp add: summary_items dim_add_total)
  show ?case
  proof (cases "past (dim_add dm p (summary t))")
    case True
    have run: "all_past ops dm past p (items t)"
      using seekable_run(2) [of ops dm past p "items t" "concat (map items ts)"] Cons.prems(1) t True
      by (auto simp: summary_items)
    have "seekable ops dm past (pos_after ops dm p (items t)) (concat (map items ts))"
      using seekable_suffix [of ops dm past p "items t"] Cons.prems(1) by simp
    from Cons.IH [OF this] Cons.prems(2,3) obtain k where k: "k \<le> length ts"
        "all_past ops dm past (pos_after ops dm p (items t)) (concat (map items (take k ts)))"
        "find_slot dm (\<lambda>p. \<not> past p) (pos_after ops dm p (items t)) (zip ts (map summary ts)) =
         (let q = pos_after ops dm (pos_after ops dm p (items t)) (concat (map items (take k ts))) in
          (q, if k < length ts then Some (ts ! k, pos_after ops dm q (items (ts ! k))) else None))"
        "k < length ts \<longrightarrow> drop_past ops dm past
          (pos_after ops dm (pos_after ops dm p (items t)) (concat (map items (take k ts)))) (items (ts ! k)) \<noteq> []"
      by auto
    have "all_past ops dm past p (items t @ concat (map items (take k ts)))"
      using take_past_append [OF run] k(2) by (simp add: all_past_def)
    with k True e show ?thesis by (intro exI [of _ "Suc k"]) (simp add: Let_def)
  next
    case False
    have "drop_past ops dm past p (items t) \<noteq> []"
    proof
      assume "drop_past ops dm past p (items t) = []"
      then have "all_past ops dm past p (items t)"
        using take_drop_past [of ops dm past p "items t"] by (simp add: all_past_def)
      from all_past_end [OF this t(2)] False e show False by simp
    qed
    with False e show ?thesis by (intro exI [of _ 0]) (simp add: Let_def all_past_def)
  qed
qed (simp add: all_past_def)

lemma find_iterate_ok:
  assumes "good t" "seekable ops dm (seek_past tgt b) p (items t)"
  shows "find_iterate dm False tgt b p t =
     (pos_after ops dm p (take_past ops dm (seek_past tgt b) p (items t)),
      map_option (\<lambda>x. (x, item_end ops dm (pos_after ops dm p (take_past ops dm (seek_past tgt b) p (items t))) x))
        (list_first (drop_past ops dm (seek_past tgt b) p (items t))))"
  using assms
proof (induction t arbitrary: p)
  case (Leaf s its iss)
  then show ?case
    by (simp add: entry_found_not_past [abs_def] find_slot_items)
next
  case (Internal h s css cts)
  let ?past = "seek_past tgt b"
  obtain h' where h: "h = Suc h'" using Internal.prems(1) tree_wf_height [of ops h s css cts] by blast
  then have node: "css = map summary cts" "list_all (child_ok ops h') cts" "list_all ok (concat (map items cts))"
    using Internal.prems(1) tree_wf_Internal [of ops h' s css cts] by auto
  from find_slot_children [OF _ node(2,3), of ?past p] Internal.prems(2) obtain k where k: "k \<le> length cts"
      "all_past ops dm ?past p (concat (map items (take k cts)))"
      "find_slot dm (\<lambda>p. \<not> ?past p) p (zip cts (map summary cts)) =
         (let q = pos_after ops dm p (concat (map items (take k cts))) in
          (q, if k < length cts then Some (cts ! k, pos_after ops dm q (items (cts ! k))) else None))"
      "k < length cts \<longrightarrow> drop_past ops dm ?past (pos_after ops dm p (concat (map items (take k cts)))) (items (cts ! k)) \<noteq> []"
    by auto
  define v where "v = concat (map items (take k cts))"
  have split: "items (Internal h s css cts) = v @ concat (map items (drop k cts))"
    unfolding v_def by simp (metis append_take_drop_id concat_append map_append)
  note cut = take_past_append [OF k(2) [folded v_def], of "concat (map items (drop k cts))"]
  show ?case
  proof (cases "k < length cts")
    case False
    then show ?thesis
      using k(3) cut unfolding split
      by (simp add: entry_found_not_past [abs_def] node(1) v_def Let_def list_first_def)
  next
    case True
    let ?q = "pos_after ops dm p v"
    have drop: "concat (map items (drop k cts)) = items (cts ! k) @ concat (map items (drop (Suc k) cts))"
      using True by (simp add: Cons_nth_drop_Suc [symmetric])
    have child: "good (cts ! k)" using node(2,3) True children_good by (metis nth_mem)
    have "seekable ops dm ?past ?q (items (cts ! k) @ concat (map items (drop (Suc k) cts)))"
      by (rule seekable_suffix [OF Internal.prems(2) [unfolded split drop]])
    then have "seekable ops dm ?past ?q (items (cts ! k))"
      unfolding seekable_def by (metis append.assoc)
    from Internal.IH [OF _ child this] True
    have "find_iterate dm False tgt b ?q (cts ! k) =
        (pos_after ops dm ?q (take_past ops dm ?past ?q (items (cts ! k))),
         map_option (\<lambda>x. (x, item_end ops dm (pos_after ops dm ?q (take_past ops dm ?past ?q (items (cts ! k)))) x))
           (list_first (drop_past ops dm ?past ?q (items (cts ! k)))))" by simp
    moreover have "find_iterate dm False tgt b p (Internal h s css cts) = find_iterate dm False tgt b ?q (cts ! k)"
      using k(3) True by (simp add: entry_found_not_past [abs_def] node(1) v_def Let_def)
    moreover note drop_past_append_stop [of ops dm ?past ?q "items (cts ! k)" "concat (map items (drop (Suc k) cts))"]
    ultimately show ?thesis using k(4) True cut unfolding split drop by (simp add: v_def)
  qed
qed

lemma find_ok:
  assumes t: "good t" "items t \<noteq> []" and tgt: "seekable ops dm (seek_past tgt b) (dim_zero dm) (items t)"
    and p': "p' = pos_after ops dm (dim_zero dm) (take_past ops dm (seek_past tgt b) (dim_zero dm) (items t))"
    and rest': "rest' = drop_past ops dm (seek_past tgt b) (dim_zero dm) (items t)"
  shows "tree_find dm tgt b t =
     (p', (case list_first rest' of Some x \<Rightarrow> item_end ops dm p' x | None \<Rightarrow> p'), list_first rest')"
proof (cases "seek_past tgt b (extent dm t)")
  case True
  have ext: "extent dm t = pos_after ops dm (dim_zero dm) (items t)"
    using t by (simp add: extent_def summary_items dim_add_total)
  have "all_past ops dm (seek_past tgt b) (dim_zero dm) (items t)"
    using seekable_run(2) [of ops dm "seek_past tgt b" "dim_zero dm" "items t" "[]"] tgt t True
    by (simp add: extent_def summary_items)
  then have "p' = extent dm t" "rest' = []"
    using take_drop_past [of ops dm "seek_past tgt b" "dim_zero dm" "items t"] ext
    by (auto simp: all_past_def p' rest')
  with True show ?thesis by (simp add: tree_find_def find_with_def Let_def list_first_def)
next
  case False
  then show ?thesis
    using find_iterate_ok [OF t(1) tgt]
    by (auto simp: tree_find_def find_with_def Let_def p' rest' split: option.splits)
qed

end

end
