(* ===== verification/KeyedTree.thy ===== *)
theory KeyedTree
  imports Cursor_Correct
begin

text \<open>
  The keyed operations of \<^verbatim>\<open>sum_tree.rs\<close> (\<^verbatim>\<open>insert_or_replace\<close>, \<^verbatim>\<open>remove\<close>, \<^verbatim>\<open>edit\<close>, \<^verbatim>\<open>get\<close>), for trees
  whose items are sorted by a key.  They are shown to implement a finite map from keys to items.
\<close>

section \<open>Operations\<close>

definition insert_or_replace ::
  "('t, 's) summary_ops \<Rightarrow> ('k::linorder, 's) dimension \<Rightarrow> ('t \<Rightarrow> 'k) \<Rightarrow> 't \<Rightarrow> ('t, 's) sum_tree
    \<Rightarrow> ('t option \<times> ('t, 's) sum_tree) option" where
  "insert_or_replace ops kd key x t = do {
     (new_tree, c) \<leftarrow> slice ops kd (ord_target (key x)) Left (cursor_new kd t);
     r \<leftarrow> item c;
     (replaced, c) \<leftarrow>
       (case r of
          Some y \<Rightarrow> if key y = key x then do { c' \<leftarrow> cursor_next kd c; Some (Some y, c') } else Some (None, c)
        | None \<Rightarrow> Some (None, c));
     new_tree \<leftarrow> push ops new_tree x;
     (rest, c) \<leftarrow> suffix ops kd c;
     new_tree \<leftarrow> append_tree ops new_tree rest;
     Some (replaced, new_tree)
   }"

definition keyed_remove ::
  "('t, 's) summary_ops \<Rightarrow> ('k::linorder, 's) dimension \<Rightarrow> ('t \<Rightarrow> 'k) \<Rightarrow> 'k \<Rightarrow> ('t, 's) sum_tree
    \<Rightarrow> ('t option \<times> ('t, 's) sum_tree) option" where
  "keyed_remove ops kd key k t = do {
     (new_tree, c) \<leftarrow> slice ops kd (ord_target k) Left (cursor_new kd t);
     r \<leftarrow> item c;
     (removed, c) \<leftarrow>
       (case r of
          Some y \<Rightarrow> if key y = k then do { c' \<leftarrow> cursor_next kd c; Some (Some y, c') } else Some (None, c)
        | None \<Rightarrow> Some (None, c));
     (rest, c) \<leftarrow> suffix ops kd c;
     new_tree \<leftarrow> append_tree ops new_tree rest;
     Some (removed, new_tree)
   }"

datatype ('t, 'k) tree_edit = InsertEdit 't | RemoveEdit 'k

definition edit_key :: "('t \<Rightarrow> 'k) \<Rightarrow> ('t, 'k) tree_edit \<Rightarrow> 'k" where
  "edit_key key e = (case e of InsertEdit x \<Rightarrow> key x | RemoveEdit k \<Rightarrow> k)"

text \<open>The body of the \<^verbatim>\<open>for edit in edits\<close> loop: the cursor, the tree built so far, the buffered
  insertions and the removed items.\<close>

definition edit_step ::
  "('t, 's) summary_ops \<Rightarrow> ('k::linorder, 's) dimension \<Rightarrow> ('t \<Rightarrow> 'k) \<Rightarrow> ('t, 'k) tree_edit
    \<Rightarrow> ('t, 's, 'k) cursor \<times> ('t, 's) sum_tree \<times> 't list \<times> 't list
    \<Rightarrow> (('t, 's, 'k) cursor \<times> ('t, 's) sum_tree \<times> 't list \<times> 't list) option" where
  "edit_step ops kd key e st = (case st of (c, new_tree, buffered, removed) \<Rightarrow> do {
     let new_key = edit_key key e;
     old_item \<leftarrow> item c;
     (c, new_tree, buffered, old_item) \<leftarrow>
       (if (case old_item of Some y \<Rightarrow> key y < new_key | None \<Rightarrow> False) then do {
          new_tree \<leftarrow> tree_extend ops new_tree buffered;
          (sl, c) \<leftarrow> slice ops kd (ord_target new_key) Left c;
          new_tree \<leftarrow> append_tree ops new_tree sl;
          old_item \<leftarrow> item c;
          Some (c, new_tree, [], old_item) }
        else Some (c, new_tree, buffered, old_item));
     (c, removed) \<leftarrow>
       (case old_item of
          Some y \<Rightarrow> if key y = new_key then do { c' \<leftarrow> cursor_next kd c; Some (c', removed @ [y]) } else Some (c, removed)
        | None \<Rightarrow> Some (c, removed));
     Some (c, new_tree, (case e of InsertEdit x \<Rightarrow> buffered @ [x] | RemoveEdit _ \<Rightarrow> buffered), removed)
   })"

fun edit_loop ::
  "('t, 's) summary_ops \<Rightarrow> ('k::linorder, 's) dimension \<Rightarrow> ('t \<Rightarrow> 'k) \<Rightarrow> ('t, 'k) tree_edit list
    \<Rightarrow> ('t, 's, 'k) cursor \<times> ('t, 's) sum_tree \<times> 't list \<times> 't list
    \<Rightarrow> (('t, 's, 'k) cursor \<times> ('t, 's) sum_tree \<times> 't list \<times> 't list) option" where
  "edit_loop ops kd key [] st = Some st"
| "edit_loop ops kd key (e # es) st = do { st' \<leftarrow> edit_step ops kd key e st; edit_loop ops kd key es st' }"

text \<open>\<^verbatim>\<open>sort_unstable_by_key\<close> is modelled by a stable sort; the order of two edits with the same key
  is the only thing the source leaves open.\<close>

definition keyed_edit ::
  "('t, 's) summary_ops \<Rightarrow> ('k::linorder, 's) dimension \<Rightarrow> ('t \<Rightarrow> 'k) \<Rightarrow> ('t, 'k) tree_edit list \<Rightarrow> ('t, 's) sum_tree
    \<Rightarrow> ('t list \<times> ('t, 's) sum_tree) option" where
  "keyed_edit ops kd key edits t =
     (if edits = [] then Some ([], t)
      else do {
        (found, c) \<leftarrow> seek ops kd (ord_target (dim_zero kd)) Left (cursor_new kd t);
        (c, new_tree, buffered, removed) \<leftarrow>
          edit_loop ops kd key (sort_key (edit_key key) edits) (c, tree_new ops, [], []);
        new_tree \<leftarrow> tree_extend ops new_tree buffered;
        (rest, c) \<leftarrow> suffix ops kd c;
        new_tree \<leftarrow> append_tree ops new_tree rest;
        Some (removed, new_tree)
      })"

definition keyed_get ::
  "('k::linorder, 's) dimension \<Rightarrow> 'k \<Rightarrow> ('t, 's) sum_tree \<Rightarrow> 't option" where
  "keyed_get kd k t = snd (snd (find_exact kd (ord_target k) Left t))"

section \<open>Sorted sequences of items\<close>

lemma last_filter_find:
  "distinct (map f es) \<Longrightarrow> list_last (filter (\<lambda>e. f e = k) es) = find (\<lambda>e. f e = k) es"
proof (induction es)
  case (Cons e es)
  have "f e' \<noteq> f e" if "e' \<in> set es" for e' using Cons.prems that by (metis distinct.simps(2) image_eqI list.set_map list.simps(9))
  then have "filter (\<lambda>e'. f e' = f e) es = []" by (simp add: filter_empty_conv)
  with Cons show ?case by (auto simp: list_last_def)
qed (simp add: list_last_def)

definition key_sorted :: "('t \<Rightarrow> 'k::linorder) \<Rightarrow> 't list \<Rightarrow> bool" where
  "key_sorted key xs = sorted_wrt (<) (map key xs)"

definition insert_item :: "('t \<Rightarrow> 'k::linorder) \<Rightarrow> 't \<Rightarrow> 't list \<Rightarrow> 't list" where
  "insert_item key x xs =
     takeWhile (\<lambda>y. key y < key x) xs @ x # dropWhile (\<lambda>y. key y \<le> key x) xs"

definition remove_key :: "('t \<Rightarrow> 'k::linorder) \<Rightarrow> 'k \<Rightarrow> 't list \<Rightarrow> 't list" where
  "remove_key key k xs = takeWhile (\<lambda>y. key y < k) xs @ dropWhile (\<lambda>y. key y \<le> k) xs"

definition lookup_key :: "('t \<Rightarrow> 'k::linorder) \<Rightarrow> 't list \<Rightarrow> 'k \<Rightarrow> 't option" where
  "lookup_key key xs k = find (\<lambda>y. key y = k) xs"

lemma key_sorted_simps [simp]:
  "key_sorted key []"
  "key_sorted key (x # xs) \<longleftrightarrow> (\<forall>y \<in> set xs. key x < key y) \<and> key_sorted key xs"
  by (auto simp: key_sorted_def)

lemma key_sorted_append:
  "key_sorted key (xs @ ys) \<longleftrightarrow> key_sorted key xs \<and> key_sorted key ys \<and> (\<forall>x \<in> set xs. \<forall>y \<in> set ys. key x < key y)"
  by (auto simp: key_sorted_def sorted_wrt_append)

lemma filter_whole: "(\<And>y. y \<in> set xs \<Longrightarrow> P y) \<Longrightarrow> xs = filter P xs"
  by (simp add: filter_id_conv [THEN iffD2])

lemma filter_none: "(\<And>y. y \<in> set xs \<Longrightarrow> \<not> P y) \<Longrightarrow> [] = filter P xs"
  by (induction xs) auto

lemma takeWhile_less_filter:
  "key_sorted key xs \<Longrightarrow> takeWhile (\<lambda>y. key y < k) xs = filter (\<lambda>y. key y < k) xs"
  by (induction xs) (auto simp: not_less intro!: filter_none, meson le_less_trans less_asym)

lemma dropWhile_less_filter:
  "key_sorted key xs \<Longrightarrow> dropWhile (\<lambda>y. key y < k) xs = filter (\<lambda>y. k \<le> key y) xs"
  by (induction xs) (auto simp: not_less intro!: filter_whole intro: order.trans less_imp_le)

lemma dropWhile_le_filter:
  "key_sorted key xs \<Longrightarrow> dropWhile (\<lambda>y. key y \<le> k) xs = filter (\<lambda>y. k < key y) xs"
  by (induction xs) (auto simp: not_le intro!: filter_whole intro: less_trans)

lemma lookup_key_Some:
  "key_sorted key xs \<Longrightarrow> lookup_key key xs k = Some y \<longleftrightarrow> y \<in> set xs \<and> key y = k"
  by (induction xs) (auto simp: lookup_key_def)

lemma lookup_key_first:
  "key_sorted key xs \<Longrightarrow> lookup_key key xs k =
     (case dropWhile (\<lambda>y. key y < k) xs of y # ys \<Rightarrow> if key y = k then Some y else None | [] \<Rightarrow> None)"
proof (induction xs)
  case (Cons x xs)
  show ?case
  proof (cases "key x < k")
    case True
    with Cons show ?thesis by (auto simp: lookup_key_def)
  next
    case False
    with Cons.prems have "lookup_key key xs k = None"
      by (auto simp: lookup_key_def find_None_iff)
    with False show ?thesis by (auto simp: lookup_key_def)
  qed
qed (simp add: lookup_key_def)

lemma dropWhile_le_key:
  "key_sorted key xs \<Longrightarrow> dropWhile (\<lambda>y. key y \<le> k) xs =
     (case dropWhile (\<lambda>y. key y < k) xs of y # ys \<Rightarrow> if key y = k then ys else y # ys | [] \<Rightarrow> [])"
proof (induction xs)
  case (Cons x xs)
  show ?case
  proof (cases "key x < k")
    case False
    with Cons.prems have "key x = k \<Longrightarrow> dropWhile (\<lambda>y. key y \<le> k) xs = xs"
      by (cases xs) auto
    with False show ?thesis by auto
  qed (use Cons in auto)
qed simp

lemma key_sorted_filter: "key_sorted key xs \<Longrightarrow> key_sorted key (filter P xs)"
  by (induction xs) auto

lemma map_ext_Some: "(\<And>k y. m k = Some y \<longleftrightarrow> m' k = Some y) \<Longrightarrow> m = m'"
  by (rule ext) (metis not_Some_eq)

lemma takeWhile_key_less: "y \<in> set (takeWhile (\<lambda>y. key y < k) xs) \<Longrightarrow> key y < k"
  by (auto dest: set_takeWhileD)

lemma dropWhile_key_greater:
  "key_sorted key xs \<Longrightarrow> y \<in> set (dropWhile (\<lambda>y. key y \<le> k) xs) \<Longrightarrow> k < key y"
  by (simp add: dropWhile_le_filter)

lemma key_sorted_take_drop:
  "key_sorted key xs \<Longrightarrow> key_sorted key (takeWhile P xs) \<and> key_sorted key (dropWhile P xs)"
  by (metis key_sorted_append takeWhile_dropWhile_id)

lemma insert_item_sorted: "key_sorted key xs \<Longrightarrow> key_sorted key (insert_item key x xs)"
  by (auto simp: insert_item_def key_sorted_append key_sorted_take_drop
      dest: takeWhile_key_less dropWhile_key_greater intro: less_trans)

lemma remove_key_sorted: "key_sorted key xs \<Longrightarrow> key_sorted key (remove_key key k xs)"
  by (auto simp: remove_key_def key_sorted_append key_sorted_take_drop
      dest: takeWhile_key_less dropWhile_key_greater intro: less_trans)

lemma lookup_insert_item:
  assumes "key_sorted key xs"
  shows "lookup_key key (insert_item key x xs) = (lookup_key key xs)(key x \<mapsto> x)"
  by (rule map_ext_Some)
    (use assms in \<open>auto simp: lookup_key_Some insert_item_sorted,
      auto simp: insert_item_def takeWhile_less_filter dropWhile_le_filter\<close>)

lemma lookup_remove_key:
  assumes "key_sorted key xs"
  shows "lookup_key key (remove_key key k xs) = (lookup_key key xs)(k := None)"
  by (rule map_ext_Some)
    (use assms in \<open>auto simp: lookup_key_Some remove_key_sorted,
      auto simp: remove_key_def takeWhile_less_filter dropWhile_le_filter\<close>)

section \<open>Correctness\<close>

text \<open>What a key must provide: starting below it, adding an item's summary gives the item's key.\<close>

locale keyed_laws = dimension_laws ops valid ok kd
  for ops :: "('t, 's) summary_ops" and valid ok and kd :: "('k::linorder, 's) dimension" +
  fixes key :: "'t \<Rightarrow> 'k"
  assumes key_item: "ok x \<Longrightarrow> p \<le> key x \<Longrightarrow> dim_add kd p (item_summary ops x) = key x"
    and key_zero: "ok x \<Longrightarrow> dim_zero kd \<le> key x"
begin

definition below :: "'k \<Rightarrow> 't list \<Rightarrow> bool" where
  "below p xs \<longleftrightarrow> list_all ok xs \<and> key_sorted key xs \<and> (\<forall>x \<in> set xs. p \<le> key x)"

lemma below_zero: "list_all ok xs \<Longrightarrow> key_sorted key xs \<Longrightarrow> below (dim_zero kd) xs"
  by (auto simp: below_def list_all_iff key_zero)

lemma below_Cons: "below p (x # xs) \<Longrightarrow> item_end ops kd p x = key x \<and> below (key x) xs"
  by (auto simp: below_def item_end_def key_item less_imp_le)

lemma pos_after_below: "below p xs \<Longrightarrow> pos_after ops kd p xs = (if xs = [] then p else key (last xs))"
proof (induction xs arbitrary: p)
  case (Cons x xs)
  from below_Cons [OF Cons.prems] Cons.IH [of "key x"] show ?case by simp
qed simp

lemma take_past_below:
  assumes "\<And>q. past q \<longleftrightarrow> q < k"
  shows "below p xs \<Longrightarrow> take_past ops kd past p xs = takeWhile (\<lambda>y. key y < k) xs
    \<and> drop_past ops kd past p xs = dropWhile (\<lambda>y. key y < k) xs"
proof (induction xs arbitrary: p)
  case (Cons x xs)
  from below_Cons [OF Cons.prems] Cons.IH [of "key x"] show ?case by (simp add: assms)
qed simp

lemma seek_past_left: "seek_past (ord_target k) Left q \<longleftrightarrow> q < k"
  by (auto simp: seek_past_def ord_target_def)

lemma seekable_below:
  assumes "below p xs"
  shows "seekable ops kd (seek_past (ord_target k) Left) p xs"
proof (rule seekable_if_monotone)
  show "list_all ok xs" using assms by (simp add: below_def)
  fix u x w
  assume xs: "xs = u @ x # w" and "u \<noteq> []"
    and past: "seek_past (ord_target k) Left (pos_after ops kd p (u @ [x]))"
  have "below p (u @ [x])" "below p u"
    using assms by (auto simp: below_def xs key_sorted_append)
  moreover from assms \<open>u \<noteq> []\<close> have "key (last u) < key x"
    by (auto simp: below_def xs key_sorted_append)
  ultimately show "seek_past (ord_target k) Left (pos_after ops kd p u)"
    using past \<open>u \<noteq> []\<close> by (simp add: seek_past_left pos_after_below del: pos_after_simps(3))
qed

text \<open>A seek to a key from a cursor in front of a sorted run of items.\<close>

lemma slice_key:
  assumes c: "cursor_ok root c rest" and root: "good root" "height root < STACK_CAPACITY"
    and rest: "below (cursor_position c) rest" "cursor_position c \<le> k"
  shows "\<exists>t c'. slice ops kd (ord_target k) Left c = Some (t, c') \<and> good t
     \<and> items t = takeWhile (\<lambda>y. key y < k) rest
     \<and> cursor_ok root c' (dropWhile (\<lambda>y. key y < k) rest) \<and> did_seek c'
     \<and> below (cursor_position c') (dropWhile (\<lambda>y. key y < k) rest) \<and> cursor_position c' \<le> k
     \<and> (cursor_position c < k \<longrightarrow> cursor_position c' < k)"
proof -
  have past: "take_past ops kd (seek_past (ord_target k) Left) (cursor_position c) rest = takeWhile (\<lambda>y. key y < k) rest"
    "drop_past ops kd (seek_past (ord_target k) Left) (cursor_position c) rest = dropWhile (\<lambda>y. key y < k) rest"
    using take_past_below [OF _ rest(1)] seek_past_left by blast+
  have sorted: "below (cursor_position c) (takeWhile (\<lambda>y. key y < k) rest)"
    using rest(1) by (auto simp: below_def list_all_iff key_sorted_take_drop dest: set_takeWhileD)
  define p' where "p' = pos_after ops kd (cursor_position c) (takeWhile (\<lambda>y. key y < k) rest)"
  have p': "p' = (if takeWhile (\<lambda>y. key y < k) rest = [] then cursor_position c
      else key (last (takeWhile (\<lambda>y. key y < k) rest)))"
    unfolding p'_def by (rule pos_after_below [OF sorted])
  have "p' \<le> k"
    using p' rest(2) takeWhile_key_less [of _ key k rest] last_in_set [of "takeWhile (\<lambda>y. key y < k) rest"]
    by (auto split: if_splits intro: less_imp_le)
  moreover have "cursor_position c < k \<longrightarrow> p' < k"
    using p' takeWhile_key_less [of _ key k rest] last_in_set [of "takeWhile (\<lambda>y. key y < k) rest"]
    by (auto split: if_splits)
  moreover have "below p' (dropWhile (\<lambda>y. key y < k) rest)"
    using rest(1) \<open>p' \<le> k\<close>
    by (auto simp: below_def list_all_iff key_sorted_filter dropWhile_less_filter)
  moreover have "ord_target k (cursor_position c) \<noteq> Less" using rest(2) by (auto simp: ord_target_def cmp_def)
  ultimately show ?thesis
    using slice_ok [OF c root _ seekable_below [OF rest(1)], of k] past by (auto simp: p'_def)
qed

lemma next_key:
  assumes c: "cursor_ok root c (x # xs)" "did_seek c" and root: "good root" "height root < STACK_CAPACITY"
    and rest: "below (cursor_position c) (x # xs)"
  shows "\<exists>c'. cursor_next kd c = Some c' \<and> did_seek c' \<and> cursor_ok root c' xs \<and> cursor_position c' = key x
     \<and> below (key x) xs"
  using cursor_next_ok [OF c(1) root, of kd] c(2) below_Cons [OF rest] by auto

text \<open>\<^verbatim>\<open>insert_or_replace\<close> and \<^verbatim>\<open>remove\<close> split the tree at the key and skip the item that has it.\<close>

lemma split_at_key:
  assumes t: "good t" "height t < STACK_CAPACITY" "key_sorted key (items t)" and k: "dim_zero kd \<le> k"
  shows "\<exists>new_tree c c'. slice ops kd (ord_target k) Left (cursor_new kd t) = Some (new_tree, c)
     \<and> good new_tree \<and> items new_tree = takeWhile (\<lambda>y. key y < k) (items t)
     \<and> item c = Some (list_first (dropWhile (\<lambda>y. key y < k) (items t)))
     \<and> (case list_first (dropWhile (\<lambda>y. key y < k) (items t)) of
          Some y \<Rightarrow> if key y = k then do { c' \<leftarrow> cursor_next kd c; Some (Some y, c') } else Some (None, c)
        | None \<Rightarrow> Some (None, c)) = Some (lookup_key key (items t) k, c')
     \<and> cursor_ok t c' (dropWhile (\<lambda>y. key y \<le> k) (items t))"
proof -
  let ?drop = "dropWhile (\<lambda>y. key y < k) (items t)"
  have "below (cursor_position (cursor_new kd t)) (items t)" "cursor_position (cursor_new kd t) \<le> k"
    using t k below_zero [of "items t"] by (auto simp: cursor_new_def)
  from slice_key [OF cursor_new_ok t(1,2) this] obtain new_tree c where
    slice: "slice ops kd (ord_target k) Left (cursor_new kd t) = Some (new_tree, c)" "good new_tree"
      "items new_tree = takeWhile (\<lambda>y. key y < k) (items t)"
    and c: "cursor_ok t c ?drop" "did_seek c" "below (cursor_position c) ?drop"
    by auto
  have item_c: "item c = Some (list_first ?drop)" using cursor_item_ok [OF c(1,2)] .
  have le: "dropWhile (\<lambda>y. key y \<le> k) (items t) =
      (case ?drop of y # ys \<Rightarrow> if key y = k then ys else y # ys | [] \<Rightarrow> [])"
    using t(3) by (rule dropWhile_le_key)
  show ?thesis
  proof (cases "\<exists>y ys. ?drop = y # ys \<and> key y = k")
    case True
    then obtain y ys where drop: "?drop = y # ys" "key y = k" by blast
    with next_key [of t c y ys] c t(1,2) obtain c' where "cursor_next kd c = Some c'" "cursor_ok t c' ys" by auto
    with slice item_c drop le lookup_key_first [OF t(3), of k] show ?thesis by (auto simp: list_first_def)
  next
    case False
    with slice item_c le lookup_key_first [OF t(3), of k] c(1) show ?thesis
      by (cases ?drop) (auto simp: list_first_def simp del: dropWhile_eq_Nil_conv)
  qed
qed

lemma ok_takeWhile_dropWhile: "list_all ok xs \<Longrightarrow> list_all ok (takeWhile P xs) \<and> list_all ok (dropWhile P xs)"
  by (metis list_all_append takeWhile_dropWhile_id)

lemma insert_or_replace_ok:
  assumes t: "good t" "height t < STACK_CAPACITY" "key_sorted key (items t)" and x: "ok x"
  shows "\<exists>t'. insert_or_replace ops kd key x t = Some (lookup_key key (items t) (key x), t')
     \<and> good t' \<and> items t' = insert_item key x (items t)"
proof -
  from split_at_key [OF t key_zero [OF x]] obtain new_tree c c' where
    split: "slice ops kd (ord_target (key x)) Left (cursor_new kd t) = Some (new_tree, c)" "good new_tree"
      "items new_tree = takeWhile (\<lambda>y. key y < key x) (items t)"
      "item c = Some (list_first (dropWhile (\<lambda>y. key y < key x) (items t)))"
      "(case list_first (dropWhile (\<lambda>y. key y < key x) (items t)) of
          Some y \<Rightarrow> if key y = key x then do { c' \<leftarrow> cursor_next kd c; Some (Some y, c') } else Some (None, c)
        | None \<Rightarrow> Some (None, c)) = Some (lookup_key key (items t) (key x), c')"
      "cursor_ok t c' (dropWhile (\<lambda>y. key y \<le> key x) (items t))" by blast
  from push_ok [OF split(2) x] obtain t1 where t1: "push ops new_tree x = Some t1" "good t1"
      "items t1 = items new_tree @ [x]" by blast
  from suffix_ok [OF split(6) t(1,2)] ok_takeWhile_dropWhile t(1) obtain rest c'' where
    rest: "suffix ops kd c' = Some (rest, c'')" "good rest" "items rest = dropWhile (\<lambda>y. key y \<le> key x) (items t)"
    by blast
  from append_ok [OF t1(2) rest(2)] show ?thesis
    using split t1(1,3) rest(1,3) by (auto simp: insert_or_replace_def insert_item_def)
qed

lemma keyed_remove_ok:
  assumes t: "good t" "height t < STACK_CAPACITY" "key_sorted key (items t)" and k: "dim_zero kd \<le> k"
  shows "\<exists>t'. keyed_remove ops kd key k t = Some (lookup_key key (items t) k, t')
     \<and> good t' \<and> items t' = remove_key key k (items t)"
proof -
  from split_at_key [OF t k] obtain new_tree c c' where
    split: "slice ops kd (ord_target k) Left (cursor_new kd t) = Some (new_tree, c)" "good new_tree"
      "items new_tree = takeWhile (\<lambda>y. key y < k) (items t)"
      "item c = Some (list_first (dropWhile (\<lambda>y. key y < k) (items t)))"
      "(case list_first (dropWhile (\<lambda>y. key y < k) (items t)) of
          Some y \<Rightarrow> if key y = k then do { c' \<leftarrow> cursor_next kd c; Some (Some y, c') } else Some (None, c)
        | None \<Rightarrow> Some (None, c)) = Some (lookup_key key (items t) k, c')"
      "cursor_ok t c' (dropWhile (\<lambda>y. key y \<le> k) (items t))" by blast
  from suffix_ok [OF split(6) t(1,2)] ok_takeWhile_dropWhile t(1) obtain rest c'' where
    rest: "suffix ops kd c' = Some (rest, c'')" "good rest" "items rest = dropWhile (\<lambda>y. key y \<le> k) (items t)"
    by blast
  from append_ok [OF split(2) rest(2)] show ?thesis
    using split rest(1,3) by (auto simp: keyed_remove_def remove_key_def)
qed

text \<open>The state of the \<^verbatim>\<open>edit\<close> loop: everything built so far has a key at most the last one handled.  \<open>old\<close> are the
  items that were removed.\<close>

definition edit_inv ::
  "('t, 's) sum_tree \<Rightarrow> 'k \<Rightarrow> 't list \<Rightarrow> 't list \<Rightarrow> ('t, 's, 'k) cursor \<times> ('t, 's) sum_tree \<times> 't list \<times> 't list \<Rightarrow> bool" where
  "edit_inv root k xs old st \<longleftrightarrow> (case st of (c, new_tree, buffered, removed) \<Rightarrow>
     removed = old \<and> (\<exists>rest. cursor_ok root c rest \<and> did_seek c \<and> below (cursor_position c) rest \<and> cursor_position c \<le> k
        \<and> good new_tree \<and> list_all ok buffered \<and> xs = items new_tree @ buffered @ rest
        \<and> (\<forall>y \<in> set (items new_tree @ buffered). key y \<le> k)))"

definition with_key :: "'k \<Rightarrow> 't list \<Rightarrow> 't list" where
  "with_key k xs = filter (\<lambda>y. key y = k) xs"

lemma with_key_lookup: "key_sorted key xs \<Longrightarrow> with_key k xs = (case lookup_key key xs k of Some y \<Rightarrow> [y] | None \<Rightarrow> [])"
proof (induction xs)
  case (Cons x xs)
  have "with_key k xs = []" if "key x = k" using Cons.prems that by (auto simp: with_key_def filter_empty_conv)
  with Cons show ?case by (cases "key x = k") (auto simp: with_key_def lookup_key_def)
qed (simp add: with_key_def lookup_key_def)

definition apply_edit :: "'t list \<Rightarrow> ('t, 'k) tree_edit \<Rightarrow> 't list" where
  "apply_edit xs e = (case e of InsertEdit x \<Rightarrow> insert_item key x xs | RemoveEdit k \<Rightarrow> remove_key key k xs)"

lemma front_takeWhile:
  assumes "\<forall>y \<in> set front. key y < (k :: 'k)"
  shows "takeWhile (\<lambda>y. key y < k) (front @ rest) = front @ takeWhile (\<lambda>y. key y < k) rest"
    and "dropWhile (\<lambda>y. key y \<le> k) (front @ rest) = dropWhile (\<lambda>y. key y \<le> k) rest"
  using assms by (induction front) (auto intro: less_imp_le)

text \<open>The two conditional parts of the loop body: catching up with the edit's key, and skipping the item
  that has it.\<close>

lemma edit_catch_up:
  assumes root: "good root" "height root < STACK_CAPACITY"
    and c: "cursor_ok root c rest" "did_seek c" "below (cursor_position c) rest" "cursor_position c \<le> k"
    and t: "good new_tree" "list_all ok buffered"
  shows "\<exists>c1 t1 b1. (if (case list_first rest of Some y \<Rightarrow> key y < k | None \<Rightarrow> False) then do {
          new_tree \<leftarrow> tree_extend ops new_tree buffered;
          (sl, c) \<leftarrow> slice ops kd (ord_target k) Left c;
          new_tree \<leftarrow> append_tree ops new_tree sl;
          old_item \<leftarrow> item c;
          Some (c, new_tree, [], old_item) }
        else Some (c, new_tree, buffered, list_first rest))
      = Some (c1, t1, b1, list_first (dropWhile (\<lambda>y. key y < k) rest))
    \<and> cursor_ok root c1 (dropWhile (\<lambda>y. key y < k) rest) \<and> did_seek c1
    \<and> below (cursor_position c1) (dropWhile (\<lambda>y. key y < k) rest) \<and> cursor_position c1 \<le> k
    \<and> good t1 \<and> list_all ok b1 \<and> items t1 @ b1 = items new_tree @ buffered @ takeWhile (\<lambda>y. key y < k) rest"
proof (cases "case list_first rest of Some y \<Rightarrow> key y < k | None \<Rightarrow> False")
  case True
  from extend_ok [OF t] obtain t2 where t2: "tree_extend ops new_tree buffered = Some t2" "good t2"
    "items t2 = items new_tree @ buffered" by blast
  from slice_key [OF c(1) root c(3,4)] obtain sl c2 where sl: "slice ops kd (ord_target k) Left c = Some (sl, c2)"
    "good sl" "items sl = takeWhile (\<lambda>y. key y < k) rest" "cursor_ok root c2 (dropWhile (\<lambda>y. key y < k) rest)"
    "did_seek c2" "below (cursor_position c2) (dropWhile (\<lambda>y. key y < k) rest)" "cursor_position c2 \<le> k" by blast
  from append_ok [OF t2(2) sl(2)] obtain t3 where t3: "append_tree ops t2 sl = Some t3" "good t3"
    "items t3 = items t2 @ items sl" by blast
  show ?thesis
    using True t2 sl t3 cursor_item_ok [OF sl(4,5)] by auto
next
  case False
  then have "takeWhile (\<lambda>y. key y < k) rest = []" "dropWhile (\<lambda>y. key y < k) rest = rest"
    by (cases rest; simp add: list_first_def)+
  with False c t show ?thesis by simp
qed

lemma edit_skip:
  assumes root: "good root" "height root < STACK_CAPACITY" and sorted: "key_sorted key rest"
    and c: "cursor_ok root c (dropWhile (\<lambda>y. key y < k) rest)" "did_seek c"
      "below (cursor_position c) (dropWhile (\<lambda>y. key y < k) rest)" "cursor_position c \<le> k"
  shows "\<exists>c2. (case list_first (dropWhile (\<lambda>y. key y < k) rest) of
          Some y \<Rightarrow> if key y = k then do { c' \<leftarrow> cursor_next kd c; Some (c', removed @ [y]) } else Some (c, removed)
        | None \<Rightarrow> Some (c, removed)) = Some (c2, removed @ with_key k rest)
    \<and> cursor_ok root c2 (dropWhile (\<lambda>y. key y \<le> k) rest) \<and> did_seek c2
    \<and> below (cursor_position c2) (dropWhile (\<lambda>y. key y \<le> k) rest) \<and> cursor_position c2 \<le> k"
proof (cases "\<exists>y ys. dropWhile (\<lambda>y. key y < k) rest = y # ys \<and> key y = k")
  case True
  then obtain y ys where drop: "dropWhile (\<lambda>y. key y < k) rest = y # ys" "key y = k" by blast
  with next_key [of root c y ys] c root obtain c' where
    "cursor_next kd c = Some c'" "did_seek c'" "cursor_ok root c' ys" "cursor_position c' = key y" "below (key y) ys"
    by auto
  moreover have "with_key k rest = [y]" using drop lookup_key_first [OF sorted, of k] by (simp add: with_key_lookup [OF sorted])
  ultimately show ?thesis using drop dropWhile_le_key [OF sorted, of k] by (simp add: list_first_def)
next
  case False
  then have "with_key k rest = []"
    using lookup_key_first [OF sorted, of k]
    by (cases "dropWhile (\<lambda>y. key y < k) rest") (auto simp: with_key_lookup [OF sorted] simp del: dropWhile_eq_Nil_conv)
  moreover have "dropWhile (\<lambda>y. key y \<le> k) rest = dropWhile (\<lambda>y. key y < k) rest"
    using False dropWhile_le_key [OF sorted, of k]
    by (cases "dropWhile (\<lambda>y. key y < k) rest") (auto simp del: dropWhile_eq_Nil_conv)
  ultimately show ?thesis using False c
    by (cases "dropWhile (\<lambda>y. key y < k) rest") (auto simp: list_first_def simp del: dropWhile_eq_Nil_conv)
qed

lemma edit_step_ok:
  assumes inv: "edit_inv root k0 xs old (c, new_tree, buffered, removed)" and root: "good root" "height root < STACK_CAPACITY"
    and k: "k = edit_key key e" "k0 < k" and e: "\<And>x. e = InsertEdit x \<Longrightarrow> ok x"
  shows "\<exists>st'. edit_step ops kd key e (c, new_tree, buffered, removed) = Some st'
    \<and> edit_inv root k (apply_edit xs e) (old @ with_key k xs) st'"
proof -
  from inv obtain rest where r: "cursor_ok root c rest" "did_seek c" "below (cursor_position c) rest" "cursor_position c \<le> k0"
      "good new_tree" "list_all ok buffered" "xs = items new_tree @ buffered @ rest"
      "\<forall>y \<in> set (items new_tree @ buffered). key y \<le> k0" "removed = old"
    by (auto simp: edit_inv_def)
  have front: "\<forall>y \<in> set (items new_tree @ buffered). key y < k" using r(8) k(2) by (meson le_less_trans)
  have sorted: "key_sorted key rest" using r(3) by (simp add: below_def)
  from edit_catch_up [OF root r(1-3) order.trans [OF r(4) less_imp_le [OF k(2)]] r(5,6)]
  obtain c1 t1 b1 where s1: "(if (case list_first rest of Some y \<Rightarrow> key y < k | None \<Rightarrow> False) then do {
          new_tree \<leftarrow> tree_extend ops new_tree buffered;
          (sl, c) \<leftarrow> slice ops kd (ord_target k) Left c;
          new_tree \<leftarrow> append_tree ops new_tree sl;
          old_item \<leftarrow> item c;
          Some (c, new_tree, [], old_item) }
        else Some (c, new_tree, buffered, list_first rest))
      = Some (c1, t1, b1, list_first (dropWhile (\<lambda>y. key y < k) rest))"
    and inv1: "cursor_ok root c1 (dropWhile (\<lambda>y. key y < k) rest)" "did_seek c1"
      "below (cursor_position c1) (dropWhile (\<lambda>y. key y < k) rest)" "cursor_position c1 \<le> k"
      "good t1" "list_all ok b1" "items t1 @ b1 = items new_tree @ buffered @ takeWhile (\<lambda>y. key y < k) rest"
    by blast
  have "with_key k (items new_tree @ buffered) = []" using front by (auto simp: with_key_def filter_empty_conv)
  then have same: "with_key k xs = with_key k rest" by (simp add: r(7) with_key_def)
  from edit_skip [OF root sorted inv1(1-4), of removed] obtain c2 where
    s2: "(case list_first (dropWhile (\<lambda>y. key y < k) rest) of
          Some y \<Rightarrow> if key y = k then do { c' \<leftarrow> cursor_next kd c1; Some (c', removed @ [y]) } else Some (c1, removed)
        | None \<Rightarrow> Some (c1, removed)) = Some (c2, removed @ with_key k rest)"
    and inv2: "cursor_ok root c2 (dropWhile (\<lambda>y. key y \<le> k) rest)" "did_seek c2"
      "below (cursor_position c2) (dropWhile (\<lambda>y. key y \<le> k) rest)" "cursor_position c2 \<le> k"
    by blast
  define b2 where "b2 = (case e of InsertEdit x \<Rightarrow> b1 @ [x] | RemoveEdit _ \<Rightarrow> b1)"
  have "apply_edit xs e = items t1 @ b2 @ dropWhile (\<lambda>y. key y \<le> k) rest"
    using front_takeWhile [OF front, of rest] inv1(7) r(7)
    by (cases e) (auto simp: b2_def apply_edit_def insert_item_def remove_key_def k edit_key_def)
  moreover have "\<forall>y \<in> set (items t1 @ b1). key y \<le> k"
    unfolding inv1(7) using front by (auto dest: takeWhile_key_less intro: less_imp_le)
  then have "\<forall>y \<in> set (items t1 @ b2). key y \<le> k"
    by (cases e) (auto simp: b2_def k edit_key_def)
  moreover have "list_all ok b2" using inv1(6) e by (cases e) (auto simp: b2_def)
  ultimately have "edit_inv root k (apply_edit xs e) (old @ with_key k xs) (c2, t1, b2, removed @ with_key k rest)"
    using inv1(5) inv2 r(9) same by (auto simp: edit_inv_def)
  moreover have "edit_step ops kd key e (c, new_tree, buffered, removed) = Some (c2, t1, b2, removed @ with_key k rest)"
    unfolding edit_step_def case_prod_conv Let_def k(1) [symmetric] cursor_item_ok [OF r(1,2)] Option.bind.bind_lunit
      s1 s2 by (simp add: b2_def)
  ultimately show ?thesis by blast
qed

text \<open>An edit leaves the items with a larger key alone.\<close>

lemma with_key_apply_edit: "edit_key key e < k \<Longrightarrow> key_sorted key xs \<Longrightarrow> with_key k (apply_edit xs e) = with_key k xs"
  by (cases e)
    (auto simp: with_key_lookup apply_edit_def edit_key_def insert_item_sorted remove_key_sorted lookup_insert_item lookup_remove_key)

lemma apply_edit_sorted: "key_sorted key xs \<Longrightarrow> key_sorted key (apply_edit xs e)"
  by (auto simp: apply_edit_def insert_item_sorted remove_key_sorted split: tree_edit.splits)

lemma edit_loop_ok:
  assumes root: "good root" "height root < STACK_CAPACITY"
  shows "edit_inv root k0 xs old st \<Longrightarrow> key_sorted key xs \<Longrightarrow> sorted_wrt (<) (k0 # map (edit_key key) es)
    \<Longrightarrow> (\<forall>x. InsertEdit x \<in> set es \<longrightarrow> ok x)
    \<Longrightarrow> \<exists>st' k. edit_loop ops kd key es st = Some st'
      \<and> edit_inv root k (foldl apply_edit xs es) (old @ concat (map (\<lambda>e. with_key (edit_key key e) xs) es)) st'"
proof (induction es arbitrary: k0 xs old st)
  case (Cons e es)
  obtain c new_tree buffered removed where st: "st = (c, new_tree, buffered, removed)" by (cases st) auto
  let ?xs = "apply_edit xs e" and ?old = "old @ with_key (edit_key key e) xs"
  have later: "edit_key key e < edit_key key e'" if "e' \<in> set es" for e' using Cons.prems(3) that by auto
  from edit_step_ok [OF Cons.prems(1) [unfolded st] root refl, of e] Cons.prems(3,4) obtain st' where
    st': "edit_step ops kd key e st = Some st'" "edit_inv root (edit_key key e) ?xs ?old st'"
    by (auto simp: st)
  have "map (\<lambda>e'. with_key (edit_key key e') ?xs) es = map (\<lambda>e'. with_key (edit_key key e') xs) es"
    using with_key_apply_edit [OF later Cons.prems(2)] by simp
  with Cons.IH [OF st'(2) apply_edit_sorted [OF Cons.prems(2)]] Cons.prems(3,4) st'(1) show ?case by auto
qed auto

text \<open>\<^verbatim>\<open>edit\<close> with distinct keys applies the edits in the order of their keys.\<close>

lemma keyed_edit_ok:
  assumes t: "good t" "height t < STACK_CAPACITY" "key_sorted key (items t)"
    and edits: "distinct (map (edit_key key) edits)" "\<And>x. InsertEdit x \<in> set edits \<Longrightarrow> ok x"
      "\<And>e. e \<in> set edits \<Longrightarrow> dim_zero kd < edit_key key e"
  shows "\<exists>t'. keyed_edit ops kd key edits t =
      Some (concat (map (\<lambda>e. with_key (edit_key key e) (items t)) (sort_key (edit_key key) edits)), t') \<and> good t'
    \<and> items t' = foldl apply_edit (items t) (sort_key (edit_key key) edits)"
proof (cases "edits = []")
  case False
  let ?es = "sort_key (edit_key key) edits"
  have zero: "below (dim_zero kd) (items t)" using t below_zero by simp
  have past: "take_past ops kd (seek_past (ord_target (dim_zero kd)) Left) (dim_zero kd) (items t) = []"
    "drop_past ops kd (seek_past (ord_target (dim_zero kd)) Left) (dim_zero kd) (items t) = items t"
    unfolding take_past_below [OF seek_past_left zero, THEN conjunct1] take_past_below [OF seek_past_left zero, THEN conjunct2]
    using zero by (cases "items t"; auto simp: below_def)+
  have "ord_target (dim_zero kd) (dim_zero kd) \<noteq> Less" by (simp add: ord_target_def)
  from seek_ok [OF cursor_new_ok [of t kd] t(1,2) this seekable_below [OF zero] refl refl] past obtain found c where
    c: "seek ops kd (ord_target (dim_zero kd)) Left (cursor_new kd t) = Some (found, c)"
      "cursor_ok t c (items t)" "did_seek c" "cursor_position c = dim_zero kd"
    by auto
  have "edit_inv t (dim_zero kd) (items t) [] (c, tree_new ops, [], [])"
    using c zero t by (auto simp: edit_inv_def)
  moreover have "sorted_wrt (<) (dim_zero kd # map (edit_key key) ?es)"
    using edits(1,3) by (auto simp: strict_sorted_iff distinct_map)
  ultimately obtain c' new_tree buffered removed k where
    loop: "edit_loop ops kd key ?es (c, tree_new ops, [], []) = Some (c', new_tree, buffered, removed)"
      "edit_inv t k (foldl apply_edit (items t) ?es) (concat (map (\<lambda>e. with_key (edit_key key e) (items t)) ?es)) (c', new_tree, buffered, removed)"
    using edit_loop_ok [OF t(1,2) _ t(3), of "dim_zero kd" "[]" _ ?es] edits(2) by (metis append_Nil prod_cases4 set_sort)
  from loop(2) have removed: "removed = concat (map (\<lambda>e. with_key (edit_key key e) (items t)) ?es)" by (simp add: edit_inv_def)
  from loop(2) obtain rest where r: "cursor_ok t c' rest" "list_all ok rest" "good new_tree" "list_all ok buffered"
      "foldl apply_edit (items t) ?es = items new_tree @ buffered @ rest"
    by (auto simp: edit_inv_def below_def)
  from extend_ok [OF r(3,4)] obtain t1 where t1: "tree_extend ops new_tree buffered = Some t1" "good t1"
    "items t1 = items new_tree @ buffered" by blast
  from suffix_ok [OF r(1) t(1,2) r(2)] obtain rt c'' where rt: "suffix ops kd c' = Some (rt, c'')" "good rt" "items rt = rest"
    by blast
  from append_ok [OF t1(2) rt(2)] show ?thesis
    using False c loop(1) t1 rt r(5) removed by (auto simp: keyed_edit_def)
qed (use t in \<open>auto simp: keyed_edit_def\<close>)

lemma apply_edits_sorted: "key_sorted key xs \<Longrightarrow> key_sorted key (foldl apply_edit xs es)"
  by (induction es arbitrary: xs)
    (auto simp: apply_edit_sorted)

text \<open>The items removed are those whose key an edit names, in their order.\<close>

lemma concat_with_keys:
  assumes "key_sorted key xs" "sorted_wrt (<) ks"
  shows "concat (map (\<lambda>k. with_key k xs) ks) = filter (\<lambda>y. key y \<in> set ks) xs"
proof -
  have "key_sorted key (concat (map (\<lambda>k. with_key k xs) ks))"
    using assms(2)
  proof (induction ks)
    case (Cons k ks)
    have "key_sorted key (with_key k xs)" using assms(1) unfolding with_key_def by (rule key_sorted_filter)
    with Cons show ?case by (auto simp: key_sorted_append) (auto simp: with_key_def)
  qed simp
  then have "map key (concat (map (\<lambda>k. with_key k xs) ks)) = map key (filter (\<lambda>y. key y \<in> set ks) xs)"
    using key_sorted_filter [OF assms(1), of "\<lambda>y. key y \<in> set ks"] unfolding key_sorted_def
    by (intro strict_sorted_equal) (auto simp: with_key_def)
  moreover have "inj_on key (set xs)" using assms(1) by (auto simp: key_sorted_def strict_sorted_iff distinct_map)
  moreover have "set (concat (map (\<lambda>k. with_key k xs) ks)) \<union> set (filter (\<lambda>y. key y \<in> set ks) xs) \<subseteq> set xs"
    by (auto simp: with_key_def)
  ultimately show ?thesis by (meson inj_on_subset map_inj_on)
qed

lemma lookup_apply_edits:
  assumes "key_sorted key xs"
  shows "lookup_key key (foldl apply_edit xs es) k =
    (case list_last (filter (\<lambda>e. edit_key key e = k) es) of
       None \<Rightarrow> lookup_key key xs k
     | Some (InsertEdit x) \<Rightarrow> Some x
     | Some (RemoveEdit _) \<Rightarrow> None)"
proof (induction es rule: rev_induct)
  case (snoc e es)
  have "lookup_key key (foldl apply_edit xs (es @ [e])) k =
      (if edit_key key e = k then (case e of InsertEdit x \<Rightarrow> Some x | RemoveEdit _ \<Rightarrow> None)
       else lookup_key key (foldl apply_edit xs es) k)"
    using assms by (cases e)
      (auto simp: apply_edit_def edit_key_def lookup_insert_item lookup_remove_key apply_edits_sorted)
  with snoc show ?case by (auto simp: list_last_def)
qed (simp add: list_last_def)

text \<open>Together: after \<^verbatim>\<open>edit\<close> a key has the item of its edit, and the other keys are untouched.\<close>

lemma keyed_edit_lookup:
  assumes t: "good t" "height t < STACK_CAPACITY" "key_sorted key (items t)"
    and edits: "distinct (map (edit_key key) edits)" "\<And>x. InsertEdit x \<in> set edits \<Longrightarrow> ok x"
      "\<And>e. e \<in> set edits \<Longrightarrow> dim_zero kd < edit_key key e"
  shows "\<exists>removed t'. keyed_edit ops kd key edits t = Some (removed, t') \<and> good t' \<and> key_sorted key (items t')
    \<and> (\<forall>k. lookup_key key (items t') k =
        (case list_last (filter (\<lambda>e. edit_key key e = k) edits) of
           None \<Rightarrow> lookup_key key (items t) k
         | Some (InsertEdit x) \<Rightarrow> Some x
         | Some (RemoveEdit _) \<Rightarrow> None))"
proof -
  from keyed_edit_ok [OF assms] obtain removed t' where
    "keyed_edit ops kd key edits t = Some (removed, t')" "good t'"
    "items t' = foldl apply_edit (items t) (sort_key (edit_key key) edits)" by blast
  then show ?thesis
    using apply_edits_sorted [OF t(3)] lookup_apply_edits [OF t(3)]
    by (auto simp: sort_key_stable)
qed

lemma keyed_edit_removed:
  assumes t: "good t" "height t < STACK_CAPACITY" "key_sorted key (items t)"
    and edits: "distinct (map (edit_key key) edits)" "\<And>x. InsertEdit x \<in> set edits \<Longrightarrow> ok x"
      "\<And>e. e \<in> set edits \<Longrightarrow> dim_zero kd < edit_key key e"
    and run: "keyed_edit ops kd key edits t = Some (removed, t')"
  shows "removed = filter (\<lambda>y. key y \<in> edit_key key ` set edits) (items t)"
proof -
  let ?ks = "map (edit_key key) (sort_key (edit_key key) edits)"
  have "sorted_wrt (<) ?ks" using edits(1) by (auto simp: strict_sorted_iff distinct_map)
  from concat_with_keys [OF t(3) this] have
    "concat (map (\<lambda>e. with_key (edit_key key e) (items t)) (sort_key (edit_key key) edits)) = filter (\<lambda>y. key y \<in> edit_key key ` set edits) (items t)"
    by (simp add: comp_def)
  then show ?thesis using keyed_edit_ok [OF t edits] run by auto
qed

end

end
