(* ===== verification/TreeMap.thy ===== *)
theory TreeMap
  imports KeyedTree "HOL-Library.Option_ord"
begin

text \<open>
  \<^verbatim>\<open>crates/sum_tree/src/tree_map.rs\<close>: an ordered map and an ordered set on top of \<^verbatim>\<open>SumTree\<close>.  A
  \<^verbatim>\<open>MapKey\<close> is an optional key with \<^verbatim>\<open>None\<close> below every key, and a summary keeps the last key.
\<close>

section \<open>Entries and keys\<close>

record ('k, 'v) map_entry =
  entry_key :: 'k
  entry_value :: 'v

definition mk_map_entry :: "'k \<Rightarrow> 'v \<Rightarrow> ('k, 'v) map_entry" where
  "mk_map_entry k v = \<lparr>entry_key = k, entry_value = v\<rparr>"

type_synonym 'k map_key = "'k option"

definition map_key_of :: "('k, 'v) map_entry \<Rightarrow> 'k map_key" where
  "map_key_of e = Some (entry_key e)"

definition map_ops :: "(('k, 'v) map_entry, 'k map_key) summary_ops" where
  "map_ops = \<lparr>summary_zero = None, summary_add = (\<lambda>_ s. s), item_summary = map_key_of\<rparr>"

definition map_key_dim :: "('k map_key, 'k map_key) dimension" where
  "map_key_dim = \<lparr>dim_zero = None, dim_add = (\<lambda>_ s. s)\<rparr>"

type_synonym ('k, 'v) tree_map = "(('k, 'v) map_entry, 'k map_key) sum_tree"

section \<open>Operations\<close>

definition tree_map_default :: "('k, 'v) tree_map" where
  "tree_map_default = tree_new map_ops"

definition from_ordered_entries :: "('k \<times> 'v) list \<Rightarrow> ('k, 'v) tree_map option" where
  "from_ordered_entries kvs = from_iter map_ops (map (\<lambda>(k, v). mk_map_entry k v) kvs)"

definition map_get :: "'k::linorder \<Rightarrow> ('k, 'v) tree_map \<Rightarrow> 'v option" where
  "map_get k m =
     (case snd (snd (tree_find map_key_dim (ord_target (Some k)) Left m)) of
        Some e \<Rightarrow> if Some k = map_key_of e then Some (entry_value e) else None
      | None \<Rightarrow> None)"

definition contains_key :: "'k::linorder \<Rightarrow> ('k, 'v) tree_map \<Rightarrow> bool" where
  "contains_key k m = (map_get k m \<noteq> None)"

definition map_insert_or_replace ::
  "'k::linorder \<Rightarrow> 'v \<Rightarrow> ('k, 'v) tree_map \<Rightarrow> ('v option \<times> ('k, 'v) tree_map) option" where
  "map_insert_or_replace k v m = do {
     (replaced, m') \<leftarrow> insert_or_replace map_ops map_key_dim map_key_of (mk_map_entry k v) m;
     Some (map_option entry_value replaced, m')
   }"

definition map_insert :: "'k::linorder \<Rightarrow> 'v \<Rightarrow> ('k, 'v) tree_map \<Rightarrow> ('k, 'v) tree_map option" where
  "map_insert k v m =
     map_option snd (insert_or_replace map_ops map_key_dim map_key_of (mk_map_entry k v) m)"

definition map_extend :: "('k::linorder \<times> 'v) list \<Rightarrow> ('k, 'v) tree_map \<Rightarrow> ('k, 'v) tree_map option" where
  "map_extend kvs m =
     map_option snd (keyed_edit map_ops map_key_dim map_key_of (map (\<lambda>(k, v). InsertEdit (mk_map_entry k v)) kvs) m)"

text \<open>\<^verbatim>\<open>key.cmp(&cursor.end())\<close> decides whether the item under the cursor has the key.\<close>

definition map_remove :: "'k::linorder \<Rightarrow> ('k, 'v) tree_map \<Rightarrow> ('v option \<times> ('k, 'v) tree_map) option" where
  "map_remove k m = do {
     (new_tree, c) \<leftarrow> slice map_ops map_key_dim (ord_target (Some k)) Left (cursor_new map_key_dim m);
     e \<leftarrow> cursor_end map_key_dim c;
     (removed, c) \<leftarrow>
       (if ord_target (Some k) e = Equal then do {
          r \<leftarrow> item c;
          x \<leftarrow> r;
          c' \<leftarrow> cursor_next map_key_dim c;
          Some (Some (entry_value x), c') }
        else Some (None, c));
     (rest, c) \<leftarrow> suffix map_ops map_key_dim c;
     new_tree \<leftarrow> append_tree map_ops new_tree rest;
     Some (removed, new_tree)
   }"

definition map_update ::
  "'k::linorder \<Rightarrow> ('v \<Rightarrow> 'r \<times> 'v) \<Rightarrow> ('k, 'v) tree_map \<Rightarrow> ('r option \<times> ('k, 'v) tree_map) option" where
  "map_update k f m = do {
     (new_tree, c) \<leftarrow> slice map_ops map_key_dim (ord_target (Some k)) Left (cursor_new map_key_dim m);
     e \<leftarrow> cursor_end map_key_dim c;
     (result, new_tree, c) \<leftarrow>
       (if ord_target (Some k) e = Equal then do {
          r \<leftarrow> item c;
          x \<leftarrow> r;
          let (res, v') = f (entry_value x);
          new_tree \<leftarrow> push map_ops new_tree (x\<lparr>entry_value := v'\<rparr>);
          c' \<leftarrow> cursor_next map_key_dim c;
          Some (Some res, new_tree, c') }
        else Some (None, new_tree, c));
     (rest, c) \<leftarrow> suffix map_ops map_key_dim c;
     new_tree \<leftarrow> append_tree map_ops new_tree rest;
     Some (result, new_tree)
   }"

text \<open>\<^verbatim>\<open>MapSeekTargetAdaptor\<close>: a target that is past everything until the first key.\<close>

definition map_seek_target :: "('k \<Rightarrow> cmp_ordering) \<Rightarrow> 'k map_key target" where
  "map_seek_target t = (\<lambda>p. case p of Some k \<Rightarrow> t k | None \<Rightarrow> Greater)"

definition remove_range ::
  "('k \<Rightarrow> cmp_ordering) \<Rightarrow> ('k \<Rightarrow> cmp_ordering) \<Rightarrow> ('k, 'v) tree_map \<Rightarrow> ('k, 'v) tree_map option" where
  "remove_range s e m = do {
     (new_tree, c) \<leftarrow> slice map_ops map_key_dim (map_seek_target s) Left (cursor_new map_key_dim m);
     (found, c) \<leftarrow> seek map_ops map_key_dim (map_seek_target e) Left c;
     (rest, c) \<leftarrow> suffix map_ops map_key_dim c;
     append_tree map_ops new_tree rest
   }"

definition closest :: "'k::linorder \<Rightarrow> ('k, 'v) tree_map \<Rightarrow> ('k \<times> 'v) option option" where
  "closest k m = do {
     (found, c) \<leftarrow> seek map_ops map_key_dim (ord_target (Some k)) Right (cursor_new map_key_dim m);
     c \<leftarrow> cursor_prev map_key_dim c;
     r \<leftarrow> item c;
     Some (map_option (\<lambda>e. (entry_key e, entry_value e)) r)
   }"

text \<open>\<^verbatim>\<open>retain\<close> walks the whole map; the fuel bounds the number of \<^verbatim>\<open>next\<close> calls.\<close>

fun retain_loop ::
  "nat \<Rightarrow> ('k \<Rightarrow> 'v \<Rightarrow> bool) \<Rightarrow> (('k, 'v) map_entry, 'k map_key, 'k map_key) cursor \<Rightarrow> ('k, 'v) tree_map
    \<Rightarrow> ('k, 'v) tree_map option" where
  "retain_loop 0 f c acc = None"
| "retain_loop (Suc n) f c acc = do {
     r \<leftarrow> item c;
     (case r of
        None \<Rightarrow> Some acc
      | Some e \<Rightarrow> do {
          acc \<leftarrow> (if f (entry_key e) (entry_value e) then push map_ops acc e else Some acc);
          c \<leftarrow> cursor_next map_key_dim c;
          retain_loop n f c acc })
   }"

definition retain :: "nat \<Rightarrow> ('k \<Rightarrow> 'v \<Rightarrow> bool) \<Rightarrow> ('k, 'v) tree_map \<Rightarrow> ('k, 'v) tree_map option" where
  "retain n f m = do {
     c \<leftarrow> cursor_next map_key_dim (cursor_new map_key_dim m);
     retain_loop n f c (tree_new map_ops)
   }"

definition map_first :: "('k, 'v) tree_map \<Rightarrow> ('k \<times> 'v) option option" where
  "map_first m = map_option (map_option (\<lambda>e. (entry_key e, entry_value e))) (first m)"

definition map_last :: "('k, 'v) tree_map \<Rightarrow> ('k \<times> 'v) option option" where
  "map_last m = map_option (map_option (\<lambda>e. (entry_key e, entry_value e))) (tree_last m)"

type_synonym 'k tree_set = "('k, unit) tree_map"

definition set_insert :: "'k::linorder \<Rightarrow> 'k tree_set \<Rightarrow> 'k tree_set option" where
  "set_insert k s = map_insert k () s"

definition set_remove :: "'k::linorder \<Rightarrow> 'k tree_set \<Rightarrow> (bool \<times> 'k tree_set) option" where
  "set_remove k s = do { (r, s') \<leftarrow> map_remove k s; Some (r \<noteq> None, s') }"

definition set_contains :: "'k::linorder \<Rightarrow> 'k tree_set \<Rightarrow> bool" where
  "set_contains k s = (map_get k s \<noteq> None)"

section \<open>The map a tree stands for\<close>

lemma map_ops_simps [simp]:
  "summary_zero map_ops = None" "summary_add map_ops a b = b" "item_summary map_ops e = map_key_of e"
  by (simp_all add: map_ops_def)

lemma map_key_dim_simps [simp]: "dim_zero map_key_dim = None" "dim_add map_key_dim p s = s"
  by (simp_all add: map_key_dim_def)

interpretation tm: keyed_laws map_ops "\<lambda>_. True" "\<lambda>_. True" "map_key_dim :: ('k::linorder map_key, 'k map_key) dimension" map_key_of
  by unfold_locales (auto simp: map_key_of_def)

definition map_wf :: "('k::linorder, 'v) tree_map \<Rightarrow> bool" where
  "map_wf m = (tree_wf map_ops m \<and> key_sorted map_key_of (items m))"

definition map_abs :: "('k::linorder, 'v) tree_map \<Rightarrow> 'k \<rightharpoonup> 'v" where
  "map_abs m k = map_option entry_value (lookup_key map_key_of (items m) (Some k))"

lemma map_entries_simps [simp]:
  "entry_key (mk_map_entry k v) = k" "entry_value (mk_map_entry k v) = v" "map_key_of (mk_map_entry k v) = Some k"
  by (simp_all add: mk_map_entry_def map_key_of_def)

lemma map_get_ok:
  assumes "map_wf m"
  shows "map_get k m = map_abs m k"
proof (cases "items m = []")
  case True
  then have "m = Leaf None [] []"
    using assms by (cases m) (auto simp: map_wf_def sum_summaries_def neq_Nil_conv dest: is_empty_iff)
  then show ?thesis
    by (simp add: map_get_def map_abs_def tree_find_def find_with_def extent_def seek_past_def ord_target_def
        cmp_def lookup_key_def)
next
  case False
  have below: "tm.below (dim_zero map_key_dim) (items m)"
    using assms by (intro tm.below_zero) (auto simp: map_wf_def list_all_iff)
  note past = tm.take_past_below [OF tm.seek_past_left below, of "Some k"]
  have "snd (snd (tree_find map_key_dim (ord_target (Some k)) Left m)) =
      list_first (dropWhile (\<lambda>y. map_key_of y < Some k) (items m))"
    using tm.find_ok [OF _ False tm.seekable_below [OF below] refl refl, of "Some k"] assms past
    by (simp add: map_wf_def list_all_iff)
  then show ?thesis
    using lookup_key_first [of map_key_of "items m" "Some k"] assms
    by (auto simp: map_get_def map_abs_def map_wf_def list_first_def simp del: dropWhile_eq_Nil_conv
        split: list.splits)
qed

lemma map_insert_ok:
  assumes "map_wf m" "height m < STACK_CAPACITY"
  shows "\<exists>m'. map_insert_or_replace k v m = Some (map_abs m k, m') \<and> map_insert k v m = Some m' \<and> map_wf m'
    \<and> map_abs m' = (map_abs m)(k \<mapsto> v)"
proof -
  have "tree_wf map_ops m \<and> list_all (\<lambda>_. True) (items m)" "key_sorted map_key_of (items m)"
    using assms by (simp_all add: map_wf_def list_all_iff)
  from tm.insert_or_replace_ok [OF this(1) assms(2) this(2), of "mk_map_entry k v"] obtain m' where
    m': "insert_or_replace map_ops map_key_dim map_key_of (mk_map_entry k v) m =
        Some (lookup_key map_key_of (items m) (Some k), m')"
      "tree_wf map_ops m'" "items m' = insert_item map_key_of (mk_map_entry k v) (items m)" by auto
  then show ?thesis
    using assms lookup_insert_item [of map_key_of "items m" "mk_map_entry k v"]
    by (auto simp: map_insert_or_replace_def map_insert_def map_wf_def insert_item_sorted map_abs_def fun_eq_iff)
qed

declare dropWhile_eq_Nil_conv [simp del]

text \<open>\<^verbatim>\<open>remove\<close> and \<^verbatim>\<open>update\<close> start alike: the tree is cut in front of the key.\<close>

lemma map_cut:
  assumes "map_wf m" "height m < STACK_CAPACITY"
  shows "\<exists>l c e. slice map_ops map_key_dim (ord_target (Some k)) Left (cursor_new map_key_dim m) = Some (l, c)
    \<and> tree_wf map_ops l \<and> items l = takeWhile (\<lambda>y. map_key_of y < Some k) (items m)
    \<and> cursor_end map_key_dim c = Some e
    \<and> (case lookup_key map_key_of (items m) (Some k) of
         None \<Rightarrow> ord_target (Some k) e \<noteq> Equal
           \<and> cursor_ok m c (dropWhile (\<lambda>y. map_key_of y \<le> Some k) (items m))
       | Some x \<Rightarrow> ord_target (Some k) e = Equal \<and> item c = Some (Some x) \<and> map_key_of x = Some k
           \<and> (\<exists>c'. cursor_next map_key_dim c = Some c'
             \<and> cursor_ok m c' (dropWhile (\<lambda>y. map_key_of y \<le> Some k) (items m))))"
proof -
  let ?drop = "dropWhile (\<lambda>y. map_key_of y < Some k) (items m)"
  have good: "tree_wf map_ops m \<and> list_all (\<lambda>_. True) (items m)" and sorted: "key_sorted map_key_of (items m)"
    using assms by (simp_all add: map_wf_def list_all_iff)
  have "tm.below (cursor_position (cursor_new map_key_dim m)) (items m)"
    "cursor_position (cursor_new map_key_dim m) \<le> Some k"
    using tm.below_zero [of "items m"] sorted by (simp_all add: cursor_new_def list_all_iff)
  from tm.slice_key [OF cursor_new_ok good assms(2) this] obtain l c where
    l: "slice map_ops map_key_dim (ord_target (Some k)) Left (cursor_new map_key_dim m) = Some (l, c)"
      "tree_wf map_ops l" "items l = takeWhile (\<lambda>y. map_key_of y < Some k) (items m)"
    and c: "cursor_ok m c ?drop" "did_seek c" "tm.below (cursor_position c) ?drop" "cursor_position c < Some k"
    by (auto simp: cursor_new_def)
  have end_c: "cursor_end map_key_dim c = Some (case list_first ?drop of Some x \<Rightarrow> map_key_of x | None \<Rightarrow> cursor_position c)"
    using cursor_item_summary_ok [OF c(1,2), of map_ops] good
    by (auto simp: cursor_end_def start_def split: option.splits)
  have item_c: "item c = Some (list_first ?drop)" by (rule cursor_item_ok [OF c(1,2)])
  show ?thesis
  proof (cases "lookup_key map_key_of (items m) (Some k)")
    case None
    have "dropWhile (\<lambda>y. map_key_of y \<le> Some k) (items m) = ?drop"
      using None lookup_key_first [OF sorted, of "Some k"] dropWhile_le_key [OF sorted, of "Some k"]
      by (auto split: list.splits if_splits)
    moreover have "ord_target (Some k) (case list_first ?drop of Some x \<Rightarrow> map_key_of x | None \<Rightarrow> cursor_position c) \<noteq> Equal"
      using None lookup_key_first [OF sorted, of "Some k"] c(4)
      by (auto simp: ord_target_def list_first_def split: list.splits if_splits)
    ultimately show ?thesis using l c(1) end_c None by auto
  next
    case (Some x)
    then obtain ys where drop: "?drop = x # ys" "map_key_of x = Some k"
      using lookup_key_first [OF sorted, of "Some k"] by (auto split: list.splits if_splits)
    then have "dropWhile (\<lambda>y. map_key_of y \<le> Some k) (items m) = ys"
      using dropWhile_le_key [OF sorted, of "Some k"] by simp
    moreover from tm.next_key [OF c(1) [unfolded drop] c(2) good assms(2) c(3) [unfolded drop]]
    obtain c' where "cursor_next map_key_dim c = Some c'" "cursor_ok m c' ys" by blast
    ultimately show ?thesis
      using l end_c item_c drop Some by (auto simp: list_first_def ord_target_def)
  qed
qed

lemma map_suffix:
  assumes "map_wf m" "height m < STACK_CAPACITY" "cursor_ok m c rest" "tree_wf map_ops l"
  shows "\<exists>t c' m'. suffix map_ops map_key_dim c = Some (t, c') \<and> append_tree map_ops l t = Some m'
    \<and> tree_wf map_ops m' \<and> items m' = items l @ rest"
proof -
  have all: "list_all (\<lambda>_. True) xs" for xs :: "('a, 'b) map_entry list" by (simp add: list_all_iff)
  from tm.suffix_ok [OF assms(3) _ assms(2) all] all assms(1) obtain t c' where
    t: "suffix map_ops map_key_dim c = Some (t, c')" "tree_wf map_ops t" "items t = rest"
    by (auto simp: map_wf_def)
  from tm.append_ok [of l t] assms(4) t all show ?thesis by auto
qed

lemma map_remove_ok:
  assumes "map_wf m" "height m < STACK_CAPACITY"
  shows "\<exists>m'. map_remove k m = Some (map_abs m k, m') \<and> map_wf m' \<and> map_abs m' = (map_abs m)(k := None)"
proof -
  have sorted: "key_sorted map_key_of (items m)" using assms(1) by (simp add: map_wf_def)
  from map_cut [OF assms, of k] obtain l c e where
    l: "slice map_ops map_key_dim (ord_target (Some k)) Left (cursor_new map_key_dim m) = Some (l, c)"
      "tree_wf map_ops l" "items l = takeWhile (\<lambda>y. map_key_of y < Some k) (items m)" "cursor_end map_key_dim c = Some e"
    and c: "case lookup_key map_key_of (items m) (Some k) of
         None \<Rightarrow> ord_target (Some k) e \<noteq> Equal
           \<and> cursor_ok m c (dropWhile (\<lambda>y. map_key_of y \<le> Some k) (items m))
       | Some x \<Rightarrow> ord_target (Some k) e = Equal \<and> item c = Some (Some x) \<and> map_key_of x = Some k
           \<and> (\<exists>c'. cursor_next map_key_dim c = Some c'
             \<and> cursor_ok m c' (dropWhile (\<lambda>y. map_key_of y \<le> Some k) (items m)))"
    by blast
  from c obtain c2 where c2: "(if ord_target (Some k) e = Equal then do {
          r \<leftarrow> item c; x \<leftarrow> r; c' \<leftarrow> cursor_next map_key_dim c; Some (Some (entry_value x), c') }
        else Some (None, c)) = Some (map_abs m k, c2)"
      "cursor_ok m c2 (dropWhile (\<lambda>y. map_key_of y \<le> Some k) (items m))"
    by (auto simp: map_abs_def split: option.splits)
  from map_suffix [OF assms c2(2) l(2)] obtain t c' m' where
    "suffix map_ops map_key_dim c2 = Some (t, c')" "append_tree map_ops l t = Some m'" "tree_wf map_ops m'"
    "items m' = remove_key map_key_of (Some k) (items m)"
    by (auto simp: l(3) remove_key_def)
  then show ?thesis
    using l(1,4) c2(1) lookup_remove_key [OF sorted, of "Some k"] remove_key_sorted [OF sorted]
    by (auto simp: map_remove_def map_wf_def map_abs_def fun_eq_iff)
qed

text \<open>\<^verbatim>\<open>update\<close> replaces the value under a key that is there, and nothing else.\<close>

lemma map_update_ok:
  assumes "map_wf m" "height m < STACK_CAPACITY"
  shows "\<exists>m'. map_update k f m = Some (map_option (fst \<circ> f) (map_abs m k), m') \<and> map_wf m'
    \<and> map_abs m' = (case map_abs m k of None \<Rightarrow> map_abs m | Some v \<Rightarrow> (map_abs m)(k \<mapsto> snd (f v)))"
proof -
  have sorted: "key_sorted map_key_of (items m)" using assms(1) by (simp add: map_wf_def)
  from map_cut [OF assms, of k] obtain l c e where
    l: "slice map_ops map_key_dim (ord_target (Some k)) Left (cursor_new map_key_dim m) = Some (l, c)"
      "tree_wf map_ops l" "items l = takeWhile (\<lambda>y. map_key_of y < Some k) (items m)" "cursor_end map_key_dim c = Some e"
    and c: "case lookup_key map_key_of (items m) (Some k) of
         None \<Rightarrow> ord_target (Some k) e \<noteq> Equal
           \<and> cursor_ok m c (dropWhile (\<lambda>y. map_key_of y \<le> Some k) (items m))
       | Some x \<Rightarrow> ord_target (Some k) e = Equal \<and> item c = Some (Some x) \<and> map_key_of x = Some k
           \<and> (\<exists>c'. cursor_next map_key_dim c = Some c'
             \<and> cursor_ok m c' (dropWhile (\<lambda>y. map_key_of y \<le> Some k) (items m)))"
    by blast
  show ?thesis
  proof (cases "lookup_key map_key_of (items m) (Some k)")
    case None
    with c have none: "ord_target (Some k) e \<noteq> Equal" "cursor_ok m c (dropWhile (\<lambda>y. map_key_of y \<le> Some k) (items m))"
      by auto
    from map_suffix [OF assms none(2) l(2)] obtain t c' m' where
      "suffix map_ops map_key_dim c = Some (t, c')" "append_tree map_ops l t = Some m'" "tree_wf map_ops m'"
      "items m' = remove_key map_key_of (Some k) (items m)"
      by (auto simp: l(3) remove_key_def)
    with l(1,4) none None lookup_remove_key [OF sorted, of "Some k"] remove_key_sorted [OF sorted] show ?thesis
      by (auto simp: map_update_def map_wf_def map_abs_def fun_eq_iff)
  next
    case (Some x)
    let ?x = "x\<lparr>entry_value := snd (f (entry_value x))\<rparr>"
    from c Some obtain c' where some: "ord_target (Some k) e = Equal" "item c = Some (Some x)" "map_key_of x = Some k"
        "cursor_next map_key_dim c = Some c'" "cursor_ok m c' (dropWhile (\<lambda>y. map_key_of y \<le> Some k) (items m))"
      by auto
    have key: "map_key_of ?x = Some k" using some(3) by (simp add: map_key_of_def)
    from tm.push_ok [of l ?x] l(2) obtain l' where l': "push map_ops l ?x = Some l'" "tree_wf map_ops l'"
      "items l' = items l @ [?x]" by (auto simp: list_all_iff)
    from map_suffix [OF assms some(5) l'(2)] obtain t c'' m' where
      "suffix map_ops map_key_dim c' = Some (t, c'')" "append_tree map_ops l' t = Some m'" "tree_wf map_ops m'"
      "items m' = insert_item map_key_of ?x (items m)"
      by (auto simp: l(3) l'(3) insert_item_def key)
    with l(1,4) l'(1) some Some key lookup_insert_item [OF sorted, of ?x] insert_item_sorted [OF sorted] show ?thesis
      by (auto simp: map_update_def map_wf_def map_abs_def fun_eq_iff split_beta Let_def)
  qed
qed

text \<open>\<^verbatim>\<open>from_ordered_entries\<close>, \<^verbatim>\<open>extend\<close> and \<^verbatim>\<open>retain\<close>.\<close>

lemma lookup_entries:
  "distinct (map fst kvs) \<Longrightarrow>
     map_option entry_value (lookup_key map_key_of (map (\<lambda>(k, v). mk_map_entry k v) kvs) (Some k)) = map_of kvs k"
  by (induction kvs) (auto simp: lookup_key_def)

lemma from_ordered_entries_ok:
  fixes kvs :: "('k::linorder \<times> 'v) list"
  assumes "sorted_wrt (<) (map fst kvs)"
  shows "\<exists>m. from_ordered_entries kvs = Some m \<and> map_wf m \<and> map_abs m = map_of kvs"
proof -
  let ?es = "map (\<lambda>(k, v). mk_map_entry k v) kvs"
  have "list_all (\<lambda>_. True) ?es" by (simp add: list_all_iff)
  from tm.from_iter_ok [OF this] obtain m where m: "from_iter map_ops ?es = Some m" "tree_wf map_ops m" "items m = ?es"
    by auto
  have "key_sorted map_key_of ?es"
    using assms by (induction kvs) auto
  moreover have "distinct (map fst kvs)" using assms strict_sorted_iff by blast
  ultimately show ?thesis
    using m lookup_entries [of kvs] by (auto simp: from_ordered_entries_def map_wf_def map_abs_def fun_eq_iff)
qed

lemma last_insert_edit:
  "list_last (filter (\<lambda>e. edit_key map_key_of e = Some k) (map (\<lambda>(k, v). InsertEdit (mk_map_entry k v)) kvs))
    = map_option (\<lambda>v. InsertEdit (mk_map_entry k v)) (map_of (rev kvs) k)"
  by (induction kvs rule: rev_induct) (auto simp: list_last_def edit_key_def)

lemma map_extend_ok:
  assumes "map_wf m" "height m < STACK_CAPACITY" "distinct (map fst kvs)"
  shows "\<exists>m'. map_extend kvs m = Some m' \<and> map_wf m' \<and> map_abs m' = map_abs m ++ map_of (rev kvs)"
proof -
  let ?es = "map (\<lambda>(k, v). InsertEdit (mk_map_entry k v)) kvs"
  have keys: "map (edit_key map_key_of) ?es = map Some (map fst kvs)"
    by (auto simp: edit_key_def)
  have "distinct (map (edit_key map_key_of) ?es)"
    unfolding keys using assms(3) by (simp only: distinct_map inj_Some conj_ac)
  moreover have "dim_zero map_key_dim < edit_key map_key_of e" if "e \<in> set ?es" for e
    using that by (auto simp: edit_key_def)
  moreover have "tree_wf map_ops m \<and> list_all (\<lambda>_. True) (items m)" "key_sorted map_key_of (items m)"
    using assms(1) by (simp_all add: map_wf_def list_all_iff)
  ultimately obtain removed m' where
    "keyed_edit map_ops map_key_dim map_key_of ?es m = Some (removed, m')" "tree_wf map_ops m'"
    "key_sorted map_key_of (items m')"
    "\<forall>k. lookup_key map_key_of (items m') k =
        (case list_last (filter (\<lambda>e. edit_key map_key_of e = k) ?es) of
           None \<Rightarrow> lookup_key map_key_of (items m) k | Some (InsertEdit x) \<Rightarrow> Some x | Some (RemoveEdit _) \<Rightarrow> None)"
    using tm.keyed_edit_lookup [of m ?es] assms(2) by blast
  then show ?thesis
    by (auto simp: map_extend_def map_wf_def map_abs_def fun_eq_iff last_insert_edit map_add_def split: option.splits)
qed

text \<open>Without the condition the map breaks: an iterator that yields a key twice leaves two items with that key, and
  the first of them is the one found.\<close>

lemma extend_repeated_key:
  "map_option (\<lambda>m. (items m, map_get 1 m)) (map_extend [(1 :: nat, True), (1, False)] tree_map_default)
    = Some ([mk_map_entry 1 True, mk_map_entry 1 False], Some True)"
  by code_simp

lemma retain_loop_ok:
  "cursor_ok m c rest \<Longrightarrow> did_seek c \<Longrightarrow> map_wf m \<Longrightarrow> height m < STACK_CAPACITY \<Longrightarrow> length rest < n
    \<Longrightarrow> tree_wf map_ops acc \<Longrightarrow> \<exists>acc'. retain_loop n f c acc = Some acc' \<and> tree_wf map_ops acc'
      \<and> items acc' = items acc @ filter (\<lambda>e. f (entry_key e) (entry_value e)) rest"
proof (induction n arbitrary: c rest acc)
  case (Suc n)
  have item_c: "item c = Some (list_first rest)" by (rule cursor_item_ok [OF Suc.prems(1,2)])
  show ?case
  proof (cases rest)
    case Nil
    with item_c Suc.prems show ?thesis by (simp add: list_first_def)
  next
    case (Cons e es)
    from tm.cursor_next_ok [OF Suc.prems(1) _ Suc.prems(4), of map_key_dim] Suc.prems(2,3) Cons obtain c' where
      c': "cursor_next map_key_dim c = Some c'" "did_seek c'" "cursor_ok m c' es"
      by (auto simp: map_wf_def list_all_iff)
    from tm.push_ok [of acc e] Suc.prems(6) obtain acc1 where
      "(if f (entry_key e) (entry_value e) then push map_ops acc e else Some acc) = Some acc1" "tree_wf map_ops acc1"
      "items acc1 = items acc @ (if f (entry_key e) (entry_value e) then [e] else [])"
      by (cases "f (entry_key e) (entry_value e)") (auto simp: list_all_iff)
    with Suc.IH [OF c'(3,2) Suc.prems(3,4), of acc1] Suc.prems(5) item_c c'(1) Cons show ?thesis
      by (auto simp: list_first_def)
  qed
qed simp

lemma retain_ok:
  assumes "map_wf m" "height m < STACK_CAPACITY" "length (items m) < n"
  shows "\<exists>m'. retain n f m = Some m' \<and> map_wf m'
    \<and> map_abs m' = (\<lambda>k. case map_abs m k of Some v \<Rightarrow> if f k v then Some v else None | None \<Rightarrow> None)"
proof -
  have sorted: "key_sorted map_key_of (items m)" using assms(1) by (simp add: map_wf_def)
  from tm.cursor_next_ok [OF cursor_new_ok [of m map_key_dim] _ assms(2), of map_key_dim] assms(1) obtain c where
    c: "cursor_next map_key_dim (cursor_new map_key_dim m) = Some c" "did_seek c" "cursor_ok m c (items m)"
    by (auto simp: map_wf_def list_all_iff cursor_new_def)
  from retain_loop_ok [OF c(3,2) assms, of "tree_new map_ops" f] obtain m' where
    m': "retain n f m = Some m'" "tree_wf map_ops m'" "items m' = filter (\<lambda>e. f (entry_key e) (entry_value e)) (items m)"
    using c(1) by (auto simp: retain_def)
  have "lookup_key map_key_of (filter P xs) k =
      (case lookup_key map_key_of xs k of Some e \<Rightarrow> if P e then Some e else None | None \<Rightarrow> None)"
    if "key_sorted map_key_of xs" for P and xs :: "('a, 'b) map_entry list" and k
    using that lookup_key_Some [OF key_sorted_filter [OF that, of P], of k] lookup_key_Some [OF that, of k]
    by (cases "lookup_key map_key_of (filter P xs) k"; cases "lookup_key map_key_of xs k") (auto, metis)
  note look = this [OF sorted, of "\<lambda>e. f (entry_key e) (entry_value e)", folded m'(3)]
  have "map_abs m' k = (case map_abs m k of Some v \<Rightarrow> if f k v then Some v else None | None \<Rightarrow> None)" for k
  proof (cases "lookup_key map_key_of (items m) (Some k)")
    case (Some e)
    then have "entry_key e = k" by (simp add: lookup_key_Some [OF sorted] map_key_of_def)
    with Some look [of "Some k"] show ?thesis by (simp add: map_abs_def)
  qed (use look [of "Some k"] in \<open>simp add: map_abs_def\<close>)
  with m' sorted show ?thesis by (auto simp: map_wf_def key_sorted_filter)
qed

section \<open>The interface\<close>

text \<open>An ordered map as its clients see it.  \<open>ready\<close> is the bound on the depth of the tree under which no
  cursor overflows.\<close>

locale finite_map =
  fixes look :: "'k \<Rightarrow> 'm \<Rightarrow> 'v option"
    and ins :: "'k \<Rightarrow> 'v \<Rightarrow> 'm \<Rightarrow> 'm option"
    and del :: "'k \<Rightarrow> 'm \<Rightarrow> ('v option \<times> 'm) option"
    and invar :: "'m \<Rightarrow> bool"
    and ready :: "'m \<Rightarrow> bool"
  assumes ins_law: "invar m \<Longrightarrow> ready m \<Longrightarrow>
      \<exists>m'. ins k v m = Some m' \<and> invar m' \<and> (\<lambda>j. look j m') = (\<lambda>j. look j m)(k \<mapsto> v)"
    and del_law: "invar m \<Longrightarrow> ready m \<Longrightarrow>
      \<exists>m'. del k m = Some (look k m, m') \<and> invar m' \<and> (\<lambda>j. look j m') = (\<lambda>j. look j m)(k := None)"
begin

lemma ins_look: "invar m \<Longrightarrow> ready m \<Longrightarrow> \<exists>m'. ins k v m = Some m' \<and> look j m' = (if j = k then Some v else look j m)"
  using ins_law [of m k v] by (metis fun_upd_apply)

lemma del_ins:
  assumes "invar m" "ready m" "look k m = None" "ins k v m = Some m'" "ready m'"
  shows "\<exists>m''. del k m' = Some (Some v, m'') \<and> (\<lambda>j. look j m'') = (\<lambda>j. look j m)"
proof -
  have m': "invar m'" "(\<lambda>j. look j m') = (\<lambda>j. look j m)(k \<mapsto> v)"
    using ins_law [OF assms(1,2), of k v] assms(4) by auto
  from del_law [OF m'(1) assms(5), of k] m'(2) assms(3) show ?thesis
    by (auto simp: fun_eq_iff)
qed

end

interpretation tree_maps: finite_map map_get map_insert map_remove map_wf "\<lambda>m. height m < STACK_CAPACITY"
proof
  fix m :: "('k::linorder, 'v) tree_map" and k v
  assume m: "map_wf m" "height m < STACK_CAPACITY"
  have look: "(\<lambda>j. map_get j n) = map_abs n" if "map_wf n" for n :: "('k, 'v) tree_map"
    using map_get_ok [OF that] by blast
  from map_insert_ok [OF m, of k v] look
  show "\<exists>m'. map_insert k v m = Some m' \<and> map_wf m' \<and> (\<lambda>j. map_get j m') = (\<lambda>j. map_get j m)(k \<mapsto> v)"
    using m(1) by metis
  from map_remove_ok [OF m, of k] look
  show "\<exists>m'. map_remove k m = Some (map_get k m, m') \<and> map_wf m' \<and> (\<lambda>j. map_get j m') = (\<lambda>j. map_get j m)(k := None)"
    using m(1) by metis
qed

end
