(* ===== verification/Clock.thy ===== *)
theory Clock
  imports Prelude
begin

text \<open>
  \<^verbatim>\<open>crates/clock/src/clock.rs\<close>: replica ids, Lamport timestamps and version vectors.
  Sequence numbers are 32-bit words and replica ids 16-bit words.  A version vector is the
  vector of sequence numbers indexed by replica id, with the missing entries read as 0.
\<close>

unbundle bit_operations_syntax

section \<open>Replica ids and Lamport timestamps\<close>

type_synonym replica_id = "16 word"

type_synonym seq = "32 word"

definition LOCAL :: replica_id where "LOCAL = 0"
definition REMOTE_SERVER :: replica_id where "REMOTE_SERVER = 1"
definition AGENT :: replica_id where "AGENT = 2"
definition LOCAL_BRANCH :: replica_id where "LOCAL_BRANCH = 3"
definition FIRST_COLLAB_ID :: replica_id where "FIRST_COLLAB_ID = 8"

definition is_remote :: "replica_id \<Rightarrow> bool" where
  "is_remote r = (r = REMOTE_SERVER \<or> FIRST_COLLAB_ID \<le> r)"

datatype lamport = Lamport (lamport_value: seq) (lamport_replica_id: replica_id)

text \<open>\<^verbatim>\<open>impl Ord for Lamport\<close>: the replica id breaks ties between concurrent events.\<close>

definition lamport_cmp :: "lamport \<Rightarrow> lamport \<Rightarrow> cmp_ordering" where
  "lamport_cmp a b =
     then_with (cmp (lamport_value a) (lamport_value b))
       (cmp (lamport_replica_id a) (lamport_replica_id b))"

instantiation lamport :: linorder
begin

definition less_lamport :: "lamport \<Rightarrow> lamport \<Rightarrow> bool" where
  "less_lamport a b = (lamport_cmp a b = Less)"

definition less_eq_lamport :: "lamport \<Rightarrow> lamport \<Rightarrow> bool" where
  "less_eq_lamport a b = (lamport_cmp a b \<noteq> Greater)"

instance
proof
  fix x y z :: lamport
  show "(x < y) = (x \<le> y \<and> \<not> y \<le> x)" and "x \<le> x" and "x \<le> y \<or> y \<le> x"
    by (auto simp: less_lamport_def less_eq_lamport_def lamport_cmp_def then_with_def cmp_def
        split: if_splits cmp_ordering.splits)
  show "x \<le> z" if "x \<le> y" "y \<le> z"
    using that by (auto simp: less_eq_lamport_def lamport_cmp_def then_with_def cmp_def
        split: if_splits cmp_ordering.splits)
  show "x = y" if "x \<le> y" "y \<le> x"
    using that by (cases x; cases y)
      (auto simp: less_eq_lamport_def lamport_cmp_def then_with_def cmp_def
        split: if_splits cmp_ordering.splits)
qed

end

definition lamport_MIN :: lamport where
  "lamport_MIN = Lamport 0 0"

definition lamport_MAX :: lamport where
  "lamport_MAX = Lamport (- 1) (- 1)"

definition lamport_new :: "replica_id \<Rightarrow> lamport" where
  "lamport_new r = Lamport 1 r"

definition as_u64 :: "lamport \<Rightarrow> 64 word" where
  "as_u64 t = push_bit 32 (ucast (lamport_value t)) OR ucast (lamport_replica_id t)"

text \<open>\<^verbatim>\<open>tick\<close> returns the old timestamp; the clock moves on by one (wrapping at 32 bits).\<close>

definition tick :: "lamport \<Rightarrow> lamport \<times> lamport" where
  "tick t = (t, Lamport (lamport_value t + 1) (lamport_replica_id t))"

definition lamport_observe :: "lamport \<Rightarrow> lamport \<Rightarrow> lamport" where
  "lamport_observe c t =
     Lamport (max (lamport_value c) (lamport_value t) + 1) (lamport_replica_id c)"

section \<open>Version vectors\<close>

record global =
  global_values :: "seq list"

definition global_new :: global where
  "global_new = \<lparr>global_values = []\<rparr>"

definition global_get :: "global \<Rightarrow> replica_id \<Rightarrow> seq" where
  "global_get g r =
     (if unat r < length (global_values g) then global_values g ! unat r else 0)"

definition global_observe :: "global \<Rightarrow> lamport \<Rightarrow> global" where
  "global_observe g t =
     (if 0 < lamport_value t then
        let r = unat (lamport_replica_id t);
            new_len = r + 1;
            vs = (if length (global_values g) < new_len
                  then vec_resize (global_values g) new_len 0 else global_values g)
        in g\<lparr>global_values := vs[r := max (vs ! r) (lamport_value t)]\<rparr>
      else g)"

definition global_join :: "global \<Rightarrow> global \<Rightarrow> global" where
  "global_join g h =
     (let vs = (if length (global_values g) < length (global_values h)
                then vec_resize (global_values g) (length (global_values h)) 0
                else global_values g)
      in g\<lparr>global_values := zip_mut max vs (global_values h)\<rparr>)"

text \<open>The body of the loop of \<^verbatim>\<open>meet\<close>: an entry of 0 is a replica not observed.\<close>

definition meet_entry :: "seq \<Rightarrow> seq \<Rightarrow> seq" where
  "meet_entry l r = (if l = 0 then r else if r = 0 then l else min l r)"

text \<open>The length \<^verbatim>\<open>meet\<close> truncates to: one past the last non-zero entry the loop wrote.\<close>

fun meet_len :: "nat \<Rightarrow> nat \<Rightarrow> seq list \<Rightarrow> seq list \<Rightarrow> nat" where
  "meet_len ix new_len (l # ls) (r # rs) =
     meet_len (Suc ix) (if meet_entry l r \<noteq> 0 then Suc ix else new_len) ls rs"
| "meet_len ix new_len ls rs = new_len"

definition global_meet :: "global \<Rightarrow> global \<Rightarrow> global" where
  "global_meet g h =
     (let vs = (if length (global_values g) < length (global_values h)
                then vec_resize (global_values g) (length (global_values h)) 0
                else global_values g);
          ws = zip_mut meet_entry vs (global_values h);
          new_len = meet_len 0 0 vs (global_values h)
      in g\<lparr>global_values :=
            (if length (global_values h) = length vs then take new_len ws else ws)\<rparr>)"

definition observed :: "global \<Rightarrow> lamport \<Rightarrow> bool" where
  "observed g t = (lamport_value t \<le> global_get g (lamport_replica_id t))"

definition global_iter :: "global \<Rightarrow> lamport list" where
  "global_iter g =
     map (\<lambda>(ix, s). Lamport s (of_nat ix)) (enumerate 0 (global_values g))"

definition observed_any :: "global \<Rightarrow> global \<Rightarrow> bool" where
  "observed_any g h =
     list_ex (\<lambda>(l, r). 0 < lamport_value r \<and> lamport_value r \<le> lamport_value l)
       (zip (global_iter g) (global_iter h))"

definition observed_all :: "global \<Rightarrow> global \<Rightarrow> bool" where
  "observed_all g h =
     (if length (global_values g) < length (global_values h) then False
      else list_all (\<lambda>(l, r). lamport_value r \<le> lamport_value l)
             (zip (global_iter g) (global_iter h)))"

definition changed_since :: "global \<Rightarrow> global \<Rightarrow> bool" where
  "changed_since g h =
     (length (global_values h) < length (global_values g)
      \<or> list_ex (\<lambda>(l, r). r < l) (zip (global_values g) (global_values h)))"

text \<open>\<^verbatim>\<open>Iterator::max_by_key\<close> returns the last of several maximal elements.\<close>

fun max_by_value :: "lamport option \<Rightarrow> lamport list \<Rightarrow> lamport option" where
  "max_by_value best [] = best"
| "max_by_value None (t # ts) = max_by_value (Some t) ts"
| "max_by_value (Some b) (t # ts) =
     max_by_value (Some (if lamport_value t < lamport_value b then b else t)) ts"

definition most_recent :: "global \<Rightarrow> lamport option" where
  "most_recent g = max_by_value None (global_iter g)"

definition global_from_iter :: "lamport list \<Rightarrow> global" where
  "global_from_iter ts = foldl global_observe global_new ts"


section \<open>Lamport timestamps: order and clocks\<close>

lemma lamport_less_iff:
  "a < b \<longleftrightarrow> lamport_value a < lamport_value b
     \<or> (lamport_value a = lamport_value b \<and> lamport_replica_id a < lamport_replica_id b)"
  by (auto simp: less_lamport_def lamport_cmp_def then_with_def cmp_def split: if_splits)

lemma lamport_MIN_least [simp]: "\<not> t < lamport_MIN" "lamport_MIN \<le> t"
proof -
  show "\<not> t < lamport_MIN" by (simp add: lamport_less_iff lamport_MIN_def)
  then show "lamport_MIN \<le> t" by simp
qed

lemma unat_as_u64:
  "unat (as_u64 t) = unat (lamport_value t) * 2 ^ 32 + unat (lamport_replica_id t)"
  unfolding as_u64_def by (rule unat_pack_u64) simp

lemma unat_replica_id_less: "unat (r :: replica_id) < 2 ^ 32"
  using unat_less_power [of r] by simp

lemma as_u64_less_iff: "as_u64 a < as_u64 b \<longleftrightarrow> a < b"
  unfolding word_less_nat_alt unat_as_u64 pack_less_iff [OF unat_replica_id_less unat_replica_id_less]
    lamport_less_iff
  by (auto simp: word_unat_eq_iff)

lemma as_u64_inj: "as_u64 a = as_u64 b \<longleftrightarrow> a = b"
  by (metis as_u64_less_iff less_irrefl neqE)

lemma tick_fst: "fst (tick t) = t"
  by (simp add: tick_def)

lemma tick_less: "lamport_value t \<noteq> - 1 \<Longrightarrow> t < snd (tick t)"
  by (simp add: tick_def lamport_less_iff word_less_plus_1)

lemma lamport_observe_greater:
  assumes "lamport_value c \<noteq> - 1" and "lamport_value t \<noteq> - 1"
  shows "c < lamport_observe c t" and "t < lamport_observe c t"
proof -
  have "max (lamport_value c) (lamport_value t) \<noteq> - 1"
    using assms by (simp add: max_def)
  then have "max (lamport_value c) (lamport_value t) < max (lamport_value c) (lamport_value t) + 1"
    by (rule word_less_plus_1)
  then show "c < lamport_observe c t" and "t < lamport_observe c t"
    by (auto simp: lamport_observe_def lamport_less_iff)
qed

section \<open>Version vectors: entries\<close>

text \<open>A version vector is in normal form when it does not end in an unobserved entry.  Every
  operation keeps normal forms, and on them the length checks of the source are exact.\<close>

definition global_wf :: "global \<Rightarrow> bool" where
  "global_wf g =
     ((global_values g = [] \<or> last (global_values g) \<noteq> 0) \<and> length (global_values g) \<le> 2 ^ 16)"

named_theorems global_get_simps
named_theorems global_wf_intros

lemma unat_replica_id_bound: "unat (r :: replica_id) < 2 ^ 16"
  using unat_less_power [of r] by simp

lemma unat_of_nat_replica_id: "i < 2 ^ 16 \<Longrightarrow> unat (of_nat i :: replica_id) = i"
  by (simp add: unat_of_nat)

lemma global_get_new [simp]: "global_get global_new r = 0"
  by (simp add: global_get_def global_new_def)

lemma global_get_observe [global_get_simps]:
  "global_get (global_observe g t) r =
     (if r = lamport_replica_id t then max (global_get g r) (lamport_value t) else global_get g r)"
proof (cases "lamport_value t = 0")
  case True
  then show ?thesis by (simp add: global_observe_def max_absorb1)
next
  case False
  then show ?thesis
    by (auto simp: global_observe_def global_get_def Let_def nth_list_update nth_vec_resize
        word_gt_0 not_less less_Suc_eq max_absorb2 word_unat_eq_iff)
qed

lemma global_get_join [global_get_simps]:
  "global_get (global_join g h) r = max (global_get g r) (global_get h r)"
  by (auto simp: global_join_def global_get_def Let_def nth_zip_mut nth_vec_resize)

lemma meet_len_bound:
  "new_len \<le> ix \<Longrightarrow> meet_len ix new_len ls rs \<le> ix + length ls"
  by (induction ix new_len ls rs rule: meet_len.induct) fastforce+

lemma meet_len_ge: "new_len \<le> ix \<Longrightarrow> new_len \<le> meet_len ix new_len ls rs"
proof (induction ix new_len ls rs rule: meet_len.induct)
  case (1 ix new_len l ls r rs)
  show ?case
  proof (cases "meet_entry l r \<noteq> 0")
    case True
    with "1.IH" have "Suc ix \<le> meet_len (Suc ix) (Suc ix) ls rs" by simp
    with True "1.prems" show ?thesis by simp
  next
    case False
    with 1 show ?thesis by simp
  qed
qed simp_all

lemma meet_len_beyond:
  assumes "new_len \<le> ix" "meet_len ix new_len ls rs \<le> ix + i" "i < length ls" "i < length rs"
  shows "meet_entry (ls ! i) (rs ! i) = 0"
  using assms
proof (induction ix new_len ls rs arbitrary: i rule: meet_len.induct)
  case (1 ix new_len l ls r rs)
  define n where "n = (if meet_entry l r \<noteq> 0 then Suc ix else new_len)"
  have n: "n \<le> Suc ix" using "1.prems" by (simp add: n_def)
  show ?case
  proof (cases i)
    case 0
    with "1.prems" meet_len_ge [OF n, of ls rs] show ?thesis
      by (auto simp: n_def split: if_splits)
  next
    case (Suc j)
    with 1 n show ?thesis by (simp add: n_def)
  qed
qed simp_all

lemma meet_len_last:
  assumes "new_len \<le> ix" "length ls = length rs" "meet_len ix new_len ls rs \<noteq> new_len"
  shows "\<exists>i < length ls. meet_len ix new_len ls rs = Suc (ix + i) \<and> meet_entry (ls ! i) (rs ! i) \<noteq> 0"
  using assms
proof (induction ix new_len ls rs rule: meet_len.induct)
  case (1 ix new_len l ls r rs)
  define n where "n = (if meet_entry l r \<noteq> 0 then Suc ix else new_len)"
  have n: "n \<le> Suc ix" using "1.prems" by (simp add: n_def)
  show ?case
  proof (cases "meet_len (Suc ix) n ls rs = n")
    case True
    with "1.prems" show ?thesis by (intro exI [of _ 0]) (auto simp: n_def split: if_splits)
  next
    case False
    with 1 n obtain i where "i < length ls" "meet_len (Suc ix) n ls rs = Suc (Suc ix + i)"
      "meet_entry (ls ! i) (rs ! i) \<noteq> 0"
      by (auto simp: n_def)
    then show ?thesis by (intro exI [of _ "Suc i"]) (simp add: n_def)
  qed
qed simp_all

lemma meet_entry_0 [simp]: "meet_entry 0 r = r" "meet_entry l 0 = l"
  by (simp_all add: meet_entry_def)

lemma meet_entry_eq_0_iff [simp]: "meet_entry l r = 0 \<longleftrightarrow> l = 0 \<and> r = 0"
  by (auto simp: meet_entry_def min_def)

lemma meet_entry_assoc: "meet_entry (meet_entry a b) c = meet_entry a (meet_entry b c)"
  by (auto simp: meet_entry_def min_def)

lemma meet_entry_commute: "meet_entry a b = meet_entry b a"
  by (auto simp: meet_entry_def min.commute)

lemma global_get_meet [global_get_simps]:
  "global_get (global_meet g h) r = meet_entry (global_get g r) (global_get h r)"
proof -
  define vs where "vs = (if length (global_values g) < length (global_values h)
    then vec_resize (global_values g) (length (global_values h)) 0 else global_values g)"
  define k where "k = meet_len 0 0 vs (global_values h)"
  have le: "length (global_values h) \<le> length vs" by (simp add: vs_def)
  have zip: "(if unat r < length vs then zip_mut meet_entry vs (global_values h) ! unat r else 0)
      = meet_entry (global_get g r) (global_get h r)"
    by (auto simp: global_get_def vs_def nth_zip_mut nth_vec_resize)
  have beyond: "zip_mut meet_entry vs (global_values h) ! unat r = 0"
    if "k \<le> unat r" "unat r < length vs" "length (global_values h) = length vs"
    using that meet_len_beyond [of 0 0 vs "global_values h" "unat r"]
    by (simp add: k_def nth_zip_mut)
  have "k \<le> length vs" using meet_len_bound [of 0 0 vs "global_values h"] by (simp add: k_def)
  then show ?thesis
    using zip beyond by (auto simp: global_meet_def global_get_def Let_def vs_def [symmetric]
        k_def [symmetric] split: if_splits)
qed

lemma global_wf_nth:
  "global_wf g \<longleftrightarrow> (length (global_values g) = 0
      \<or> global_values g ! (length (global_values g) - 1) \<noteq> 0) \<and> length (global_values g) \<le> 2 ^ 16"
  by (auto simp: global_wf_def last_conv_nth)

lemma global_get_of_nat:
  "global_wf g \<Longrightarrow> i < length (global_values g) \<Longrightarrow> global_get g (of_nat i) = global_values g ! i"
  by (simp add: global_get_def global_wf_def unat_of_nat_replica_id)

lemma global_wf_top:
  assumes "global_wf g" "n < length (global_values g)"
  obtains r where "n \<le> unat r" "global_get g r \<noteq> 0"
proof -
  obtain i where i: "Suc i = length (global_values g)"
    using assms(2) by (metis Suc_pred gr_implies_not0 neq0_conv)
  with assms have "i < 2 ^ 16" by (simp add: global_wf_def)
  with i assms have "n \<le> unat (of_nat i :: replica_id)" by (simp add: unat_of_nat_replica_id)
  moreover from i assms have "global_values g ! i \<noteq> 0"
    by (metis Suc_eq_plus1 add_diff_cancel_right' global_wf_nth nat.distinct(1))
  with i assms have "global_get g (of_nat i) \<noteq> 0" by (simp add: global_get_of_nat)
  ultimately show thesis by (rule that)
qed

lemma global_get_beyond: "length (global_values g) \<le> unat r \<Longrightarrow> global_get g r = 0"
  by (simp add: global_get_def)

lemma global_wf_length_le:
  assumes "global_wf g" and "\<And>r. global_get g r \<noteq> 0 \<Longrightarrow> global_get h r \<noteq> 0"
  shows "length (global_values g) \<le> length (global_values h)"
  using assms by (metis global_get_beyond global_wf_top linorder_not_le)

lemma global_eqI:
  assumes "global_wf g" "global_wf h" and get: "\<And>r. global_get g r = global_get h r"
  shows "g = h"
proof -
  have "length (global_values g) = length (global_values h)"
    by (intro antisym) (auto intro!: global_wf_length_le simp: assms)
  moreover have "global_values g ! i = global_values h ! i" if "i < length (global_values g)" for i
    using that assms(1,2) get [of "of_nat i"] calculation by (simp add: global_get_of_nat)
  ultimately show ?thesis by (simp add: list_eq_iff_nth_eq)
qed

section \<open>Version vectors: normal forms and comparisons\<close>

lemma global_wf_new [simp, global_wf_intros]: "global_wf global_new"
  by (simp add: global_wf_def global_new_def)

lemma global_wf_observe [global_wf_intros]:
  assumes "global_wf g"
  shows "global_wf (global_observe g t)"
proof (cases "lamport_value t = 0")
  case True
  with assms show ?thesis by (simp add: global_observe_def)
next
  case False
  moreover have "unat (lamport_replica_id t) < 2 ^ 16" by (rule unat_replica_id_bound)
  moreover have "max x (lamport_value t) \<noteq> 0" for x using False by (auto simp: max_def)
  ultimately show ?thesis using assms
    by (auto simp: global_wf_nth global_observe_def Let_def nth_list_update nth_vec_resize word_gt_0)
qed

lemma global_wf_join [global_wf_intros]:
  assumes "global_wf g" "global_wf h"
  shows "global_wf (global_join g h)"
proof -
  have "max x y \<noteq> 0" if "x \<noteq> 0 \<or> y \<noteq> 0" for x y :: seq
    using that by (auto simp: max_def)
  then show ?thesis using assms
    by (auto simp: global_wf_nth global_join_def Let_def nth_zip_mut nth_vec_resize)
qed

lemma global_wf_meet [global_wf_intros]:
  assumes wf: "global_wf g" "global_wf h"
  shows "global_wf (global_meet g h)"
proof (cases "length (global_values h) < length (global_values g)")
  case True
  with wf show ?thesis
    by (auto simp: global_wf_nth global_meet_def Let_def nth_zip_mut)
next
  case False
  define vs where "vs = vec_resize (global_values g) (length (global_values h)) 0"
  have len: "length vs = length (global_values h)" by (simp add: vs_def)
  from False have vs: "(if length (global_values g) < length (global_values h)
      then vec_resize (global_values g) (length (global_values h)) 0 else global_values g) = vs"
    by (auto simp: vs_def vec_resize_def)
  define k where "k = meet_len 0 0 vs (global_values h)"
  have entries: "global_values (global_meet g h) = take k (zip_mut meet_entry vs (global_values h))"
    using len by (simp add: global_meet_def Let_def vs k_def)
  show ?thesis
  proof (cases "k = 0")
    case True
    then show ?thesis by (simp add: global_wf_def entries)
  next
    case False
    then obtain i where i: "i < length vs" "k = Suc i"
      "meet_entry (vs ! i) (global_values h ! i) \<noteq> 0"
      using meet_len_last [of 0 0 vs "global_values h"] len by (auto simp: k_def)
    with wf len show ?thesis by (auto simp: global_wf_nth entries nth_zip_mut min_def)
  qed
qed

lemma global_wf_from_iter [global_wf_intros]: "global_wf (global_from_iter ts)"
proof -
  have "global_wf g \<Longrightarrow> global_wf (foldl global_observe g ts)" for g
    by (induction ts arbitrary: g) (auto intro: global_wf_intros)
  then show ?thesis by (simp add: global_from_iter_def)
qed

text \<open>The zipped iterations compare the entries index by index.\<close>

lemma nth_global_iter:
  "i < length (global_values g) \<Longrightarrow> lamport_value (global_iter g ! i) = global_values g ! i"
  by (simp add: global_iter_def nth_enumerate_eq)

lemma length_global_iter [simp]: "length (global_iter g) = length (global_values g)"
  by (simp add: global_iter_def)

lemma list_ex_zip:
  "list_ex P (zip xs ys) \<longleftrightarrow> (\<exists>i. i < length xs \<and> i < length ys \<and> P (xs ! i, ys ! i))"
  by (force simp: list_ex_length)

lemma list_all_zip:
  "list_all P (zip xs ys) \<longleftrightarrow> (\<forall>i. i < length xs \<longrightarrow> i < length ys \<longrightarrow> P (xs ! i, ys ! i))"
  by (auto simp: list_all_length)

lemma observed_all_iff:
  assumes "global_wf h"
  shows "observed_all g h \<longleftrightarrow> (\<forall>r. global_get h r \<le> global_get g r)"
proof (cases "length (global_values g) < length (global_values h)")
  case True
  with assms obtain r where "length (global_values g) \<le> unat r" "global_get h r \<noteq> 0"
    by (rule global_wf_top)
  then have "\<not> global_get h r \<le> global_get g r" by (simp add: global_get_beyond)
  with True show ?thesis by (auto simp: observed_all_def)
next
  case False
  then have "observed_all g h \<longleftrightarrow>
      (\<forall>i < length (global_values h). global_values h ! i \<le> global_values g ! i)"
    by (auto simp: observed_all_def list_all_zip nth_global_iter)
  also have "\<dots> \<longleftrightarrow> (\<forall>r. global_get h r \<le> global_get g r)" (is "?L \<longleftrightarrow> ?R")
  proof
    assume ?R
    show ?L
    proof (intro allI impI)
      fix i assume i: "i < length (global_values h)"
      with assms have "i < 2 ^ 16" by (simp add: global_wf_def)
      with i False \<open>?R\<close> [THEN spec, of "of_nat i"]
      show "global_values h ! i \<le> global_values g ! i"
        by (simp add: global_get_def unat_of_nat_replica_id)
    qed
  qed (use False in \<open>auto simp: global_get_def\<close>)
  finally show ?thesis .
qed

lemma observed_any_iff:
  assumes "global_wf h"
  shows "observed_any g h \<longleftrightarrow> (\<exists>r. 0 < global_get h r \<and> global_get h r \<le> global_get g r)"
    (is "?L \<longleftrightarrow> ?R")
proof
  assume ?L
  then obtain i where i: "i < length (global_values g)" "i < length (global_values h)"
      "0 < global_values h ! i" "global_values h ! i \<le> global_values g ! i"
    by (auto simp: observed_any_def list_ex_zip nth_global_iter)
  then have "i < 2 ^ 16" using assms by (simp add: global_wf_def)
  with i show ?R
    by (intro exI [of _ "of_nat i"]) (simp add: global_get_def unat_of_nat_replica_id)
next
  assume ?R
  then obtain r where "0 < global_get h r" "global_get h r \<le> global_get g r" by blast
  then show ?L
    by (auto simp: observed_any_def list_ex_zip nth_global_iter global_get_def split: if_splits
        intro!: exI [of _ "unat r"])
qed

lemma changed_since_iff: "changed_since g h \<longleftrightarrow> \<not> observed_all h g"
  by (auto simp: changed_since_def observed_all_def list_all_zip list_ex_zip nth_global_iter not_le)

section \<open>The version-vector interface\<close>

text \<open>What the buffer relies on: each replica's entry is its highest observed sequence number,
  joining takes the larger entry, and comparison is entry-wise.  The order \<open>all h g\<close> reads
  ``\<open>h\<close> has observed everything \<open>g\<close> has''.\<close>

locale version_vector =
  fixes get :: "'v \<Rightarrow> 'r \<Rightarrow> 's::linorder"
    and join :: "'v \<Rightarrow> 'v \<Rightarrow> 'v"
    and all :: "'v \<Rightarrow> 'v \<Rightarrow> bool"
    and obs :: "'v \<Rightarrow> 't \<Rightarrow> 'v"
    and has :: "'v \<Rightarrow> 't \<Rightarrow> bool"
    and replica :: "'t \<Rightarrow> 'r"
    and seqno :: "'t \<Rightarrow> 's"
    and wf :: "'v \<Rightarrow> bool"
  assumes get_join: "get (join g h) r = max (get g r) (get h r)"
    and get_obs: "get (obs g t) r = (if r = replica t then max (get g r) (seqno t) else get g r)"
    and wf_join: "wf g \<Longrightarrow> wf h \<Longrightarrow> wf (join g h)"
    and wf_obs: "wf g \<Longrightarrow> wf (obs g t)"
    and all_iff: "wf h \<Longrightarrow> all g h \<longleftrightarrow> (\<forall>r. get h r \<le> get g r)"
    and has_iff: "has g t \<longleftrightarrow> seqno t \<le> get g (replica t)"
    and extensional: "wf g \<Longrightarrow> wf h \<Longrightarrow> (\<And>r. get g r = get h r) \<Longrightarrow> g = h"
    and timestamps: "\<exists>t. replica t = r \<and> seqno t = s"
begin

lemma all_refl: "wf g \<Longrightarrow> all g g"
  by (simp add: all_iff)

lemma all_trans: "wf g \<Longrightarrow> wf h \<Longrightarrow> wf k \<Longrightarrow> all g h \<Longrightarrow> all h k \<Longrightarrow> all g k"
  by (metis all_iff order_trans)

lemma all_antisym: "wf g \<Longrightarrow> wf h \<Longrightarrow> all g h \<Longrightarrow> all h g \<Longrightarrow> g = h"
  by (meson all_iff antisym extensional)

lemma all_join_iff: "wf g \<Longrightarrow> wf h \<Longrightarrow> all k (join g h) \<longleftrightarrow> all k g \<and> all k h"
  by (auto simp: all_iff wf_join get_join)

lemma join_upper: "wf g \<Longrightarrow> wf h \<Longrightarrow> all (join g h) g \<and> all (join g h) h"
  by (auto simp: all_iff wf_join get_join)

lemma join_assoc: "wf g \<Longrightarrow> wf h \<Longrightarrow> wf k \<Longrightarrow> join (join g h) k = join g (join h k)"
  by (intro extensional) (auto simp: get_join wf_join max.assoc)

lemma join_commute: "wf g \<Longrightarrow> wf h \<Longrightarrow> join g h = join h g"
  by (intro extensional) (auto simp: get_join wf_join max.commute)

lemma join_idem: "wf g \<Longrightarrow> join g g = g"
  by (intro extensional) (auto simp: get_join wf_join)

lemma has_obs: "has (obs g t) u \<longleftrightarrow> has g u \<or> (replica u = replica t \<and> seqno u \<le> seqno t)"
  by (auto simp: has_iff get_obs le_max_iff_disj)

lemma has_join: "has (join g h) t \<longleftrightarrow> has g t \<or> has h t"
  by (auto simp: has_iff get_join le_max_iff_disj)

lemma has_mono: "wf h \<Longrightarrow> all g h \<Longrightarrow> has h t \<Longrightarrow> has g t"
  by (metis all_iff has_iff order_trans)

lemma all_has:
  assumes "wf g" "wf h"
  shows "all g h \<longleftrightarrow> (\<forall>t. has h t \<longrightarrow> has g t)"
proof
  show "\<forall>t. has h t \<longrightarrow> has g t" if "all g h" using has_mono [OF assms(2) that] by blast
  show "all g h" if *: "\<forall>t. has h t \<longrightarrow> has g t"
    unfolding all_iff [OF assms(2)]
  proof
    fix r
    obtain t where "replica t = r" "seqno t = get h r" using timestamps by blast
    then show "get h r \<le> get g r" using * has_iff by (metis order_refl)
  qed
qed

lemma obs_commute: "wf g \<Longrightarrow> obs (obs g t) u = obs (obs g u) t"
  by (intro extensional) (auto simp: get_obs wf_obs max.commute max.left_commute)

lemma obs_absorb: "wf g \<Longrightarrow> has g t \<Longrightarrow> obs g t = g"
  by (intro extensional) (auto simp: get_obs wf_obs has_iff max_absorb1)

lemma all_obs: "wf g \<Longrightarrow> all (obs g t) g"
  by (auto simp: all_iff get_obs)

end

lemma lamport_of: "\<exists>t. lamport_replica_id t = r \<and> lamport_value t = n"
  by (rule exI [of _ "Lamport n r"]) simp

interpretation vv: version_vector global_get global_join observed_all global_observe observed
  lamport_replica_id lamport_value global_wf
  by unfold_locales
    (auto simp: global_get_simps observed_all_iff observed_def lamport_of intro: global_wf_intros global_eqI)

lemma global_meet_assoc:
  "global_wf g \<Longrightarrow> global_wf h \<Longrightarrow> global_wf k
    \<Longrightarrow> global_meet (global_meet g h) k = global_meet g (global_meet h k)"
  by (intro global_eqI) (auto simp: global_get_simps meet_entry_assoc intro: global_wf_intros)

lemma global_meet_new: "global_wf g \<Longrightarrow> global_meet global_new g = g"
  by (intro global_eqI) (auto simp: global_get_simps intro: global_wf_intros)

lemma global_join_new: "global_wf g \<Longrightarrow> global_join global_new g = g"
  by (intro global_eqI) (auto simp: global_get_simps max_absorb2 intro: global_wf_intros)

lemma global_from_iter_get:
  "global_get (global_from_iter ts) r =
     Max (insert 0 (lamport_value ` {t \<in> set ts. lamport_replica_id t = r}))"
proof (induction ts rule: rev_induct)
  case Nil
  then show ?case by (simp add: global_from_iter_def)
next
  case (snoc t ts)
  have split: "{u \<in> set (ts @ [t]). lamport_replica_id u = r} =
      (if lamport_replica_id t = r then insert t {u \<in> set ts. lamport_replica_id u = r}
       else {u \<in> set ts. lamport_replica_id u = r})"
    by auto
  show ?case
    using snoc.IH unfolding split
    by (auto simp: global_from_iter_def global_get_observe insert_commute [of 0] max.commute)
qed

lemma max_by_value_Some:
  "max_by_value (Some b) ts = Some m \<Longrightarrow>
     m \<in> insert b (set ts) \<and> (\<forall>t \<in> insert b (set ts). lamport_value t \<le> lamport_value m)"
  by (induction "Some b" ts arbitrary: b rule: max_by_value.induct)
    (force split: if_splits)+

lemma most_recent_maximal:
  assumes "global_wf g" "most_recent g = Some t"
  shows "global_get g (lamport_replica_id t) = lamport_value t
    \<and> (\<forall>r. global_get g r \<le> lamport_value t)"
proof -
  obtain u us where iter: "global_iter g = u # us"
    using assms(2) by (cases "global_iter g") (auto simp: most_recent_def)
  with assms have max: "t \<in> set (global_iter g)"
      "\<forall>u \<in> set (global_iter g). lamport_value u \<le> lamport_value t"
    using max_by_value_Some [of u us t] by (auto simp: most_recent_def)
  from max(1) obtain i where "i < length (global_values g)" "t = Lamport (global_values g ! i) (of_nat i)"
    by (auto simp: in_set_conv_nth global_iter_def nth_enumerate_eq)
  then have "global_get g (lamport_replica_id t) = lamport_value t"
    using assms(1) by (simp add: global_get_of_nat)
  moreover have "global_get g r \<le> lamport_value t" for r
  proof (cases "unat r < length (global_values g)")
    case True
    then have "global_iter g ! unat r \<in> set (global_iter g)" by simp
    with max(2) True show ?thesis by (metis global_get_def nth_global_iter)
  qed (simp add: global_get_def)
  ultimately show ?thesis by blast
qed

end
