(* ===== verification/UndoMap.thy ===== *)
theory UndoMap
  imports KeyedTree Clock "HOL-Library.Product_Lexorder"
begin

text \<open>
  \<^verbatim>\<open>crates/text/src/undo_map.rs\<close>: how often each edit has been undone.  The entries are kept in a
  \<^verbatim>\<open>SumTree\<close> sorted by edit and undo operation; the undo count of an edit is the largest count of
  its entries, so replicas that have seen the same undo operations agree on it whatever the order.
\<close>

section \<open>Operations\<close>

text \<open>\<^verbatim>\<open>UndoMapKey\<close> has the derived order: by edit, then by undo operation.\<close>

type_synonym undo_map_key = "lamport \<times> lamport"

record undo_map_entry =
  undo_key :: undo_map_key
  undo_entry_count :: "32 word"

definition mk_undo_entry :: "lamport \<Rightarrow> lamport \<Rightarrow> 32 word \<Rightarrow> undo_map_entry" where
  "mk_undo_entry edit_id undo_id n = \<lparr>undo_key = (edit_id, undo_id), undo_entry_count = n\<rparr>"

definition undo_ops :: "(undo_map_entry, undo_map_key) summary_ops" where
  "undo_ops =
     \<lparr>summary_zero = (lamport_MIN, lamport_MIN), summary_add = max, item_summary = undo_key\<rparr>"

definition undo_dim :: "(undo_map_key, undo_map_key) dimension" where
  "undo_dim = summary_dim undo_ops"

type_synonym undo_map = "(undo_map_entry, undo_map_key) sum_tree"

record undo_operation =
  undo_timestamp :: lamport
  undo_version :: global
  undo_counts :: "(lamport \<times> 32 word) list"

definition undo_map_insert :: "undo_operation \<Rightarrow> undo_map \<Rightarrow> undo_map option" where
  "undo_map_insert undo m =
     map_option snd (keyed_edit undo_ops undo_dim undo_key
       (map (\<lambda>(edit_id, n). InsertEdit (mk_undo_entry edit_id (undo_timestamp undo) n)) (undo_counts undo)) m)"

text \<open>The \<^verbatim>\<open>for entry in cursor\<close> loops; \<open>sel\<close> is the condition on the undo operation (none for
  \<^verbatim>\<open>undo_count\<close>, observed by the version for \<^verbatim>\<open>was_undone\<close>).  The fuel bounds the iterations.\<close>

fun undo_count_loop ::
  "nat \<Rightarrow> (lamport \<Rightarrow> bool) \<Rightarrow> lamport \<Rightarrow> (undo_map_entry, undo_map_key, undo_map_key) cursor \<Rightarrow> 32 word
    \<Rightarrow> 32 word option" where
  "undo_count_loop 0 sel edit_id c n = None"
| "undo_count_loop (Suc fuel) sel edit_id c n = do {
     (r, c') \<leftarrow> iterator_next undo_dim c;
     (case r of
        None \<Rightarrow> Some n
      | Some e \<Rightarrow>
          if fst (undo_key e) \<noteq> edit_id then Some n
          else undo_count_loop fuel sel edit_id c'
                 (if sel (snd (undo_key e)) then max n (undo_entry_count e) else n))
   }"

definition undo_count_where :: "nat \<Rightarrow> (lamport \<Rightarrow> bool) \<Rightarrow> lamport \<Rightarrow> undo_map \<Rightarrow> 32 word option" where
  "undo_count_where fuel sel edit_id m = do {
     (found, c) \<leftarrow> seek undo_ops undo_dim (ord_target (edit_id, lamport_MIN)) Left (cursor_new undo_dim m);
     undo_count_loop fuel sel edit_id c 0
   }"

definition undo_count :: "nat \<Rightarrow> lamport \<Rightarrow> undo_map \<Rightarrow> 32 word option" where
  "undo_count fuel edit_id m = undo_count_where fuel (\<lambda>_. True) edit_id m"

definition is_undone :: "nat \<Rightarrow> lamport \<Rightarrow> undo_map \<Rightarrow> bool option" where
  "is_undone fuel edit_id m = map_option (\<lambda>n. n mod 2 = 1) (undo_count fuel edit_id m)"

definition was_undone :: "nat \<Rightarrow> lamport \<Rightarrow> global \<Rightarrow> undo_map \<Rightarrow> bool option" where
  "was_undone fuel edit_id version m =
     map_option (\<lambda>n. n mod 2 = 1) (undo_count_where fuel (observed version) edit_id m)"

section \<open>Laws\<close>

lemma undo_ops_simps [simp]:
  "summary_zero undo_ops = (lamport_MIN, lamport_MIN)" "summary_add undo_ops = max" "item_summary undo_ops = undo_key"
  by (simp_all add: undo_ops_def)

lemma undo_dim_simps [simp]: "dim_zero undo_dim = (lamport_MIN, lamport_MIN)" "dim_add undo_dim = max"
  by (simp_all add: undo_dim_def summary_dim_def)

lemma undo_key_zero: "(lamport_MIN, lamport_MIN) \<le> (k :: undo_map_key)"
  by (cases k) (simp add: less_eq_prod_def order.order_iff_strict [symmetric])

interpretation um: keyed_laws undo_ops "\<lambda>_. True" "\<lambda>_. True" undo_dim undo_key
  by unfold_locales (auto simp: undo_key_zero max_absorb2 max.assoc)

definition undo_wf :: "undo_map \<Rightarrow> bool" where
  "undo_wf m = (tree_wf undo_ops m \<and> key_sorted undo_key (items m))"

text \<open>The map read as a function: the count an undo operation gave an edit.\<close>

definition undo_abs :: "undo_map \<Rightarrow> lamport \<Rightarrow> lamport \<rightharpoonup> 32 word" where
  "undo_abs m edit_id undo_id = map_option undo_entry_count (lookup_key undo_key (items m) (edit_id, undo_id))"

lemma mk_undo_entry_simps [simp]:
  "undo_key (mk_undo_entry edit_id undo_id n) = (edit_id, undo_id)"
  "undo_entry_count (mk_undo_entry edit_id undo_id n) = n"
  "edit_key undo_key (InsertEdit (mk_undo_entry edit_id undo_id n)) = (edit_id, undo_id)"
  by (simp_all add: mk_undo_entry_def edit_key_def)

lemma last_undo_edit:
  "list_last (filter (\<lambda>e. edit_key undo_key e = (edit_id, undo_id))
      (map (\<lambda>(edit_id, n). InsertEdit (mk_undo_entry edit_id t n)) counts))
    = (if undo_id = t then map_option (\<lambda>n. InsertEdit (mk_undo_entry edit_id t n)) (map_of (rev counts) edit_id) else None)"
  by (induction counts rule: rev_induct) (auto simp: list_last_def split: if_splits)

lemma map_of_rev_distinct: "distinct (map fst kvs) \<Longrightarrow> map_of (rev kvs) = map_of kvs"
  by (metis distinct_rev map_of_inject_set rev_map set_rev)

lemma undo_map_insert_ok:
  assumes "undo_wf m" "height m < STACK_CAPACITY" "distinct (map fst (undo_counts undo))"
    and "undo_timestamp undo \<noteq> lamport_MIN"
  shows "\<exists>m'. undo_map_insert undo m = Some m' \<and> undo_wf m'
    \<and> undo_abs m' = (\<lambda>edit_id undo_id. if undo_id = undo_timestamp undo
        then (case map_of (undo_counts undo) edit_id of Some n \<Rightarrow> Some n | None \<Rightarrow> undo_abs m edit_id undo_id)
        else undo_abs m edit_id undo_id)"
proof -
  let ?es = "map (\<lambda>(edit_id, n). InsertEdit (mk_undo_entry edit_id (undo_timestamp undo) n)) (undo_counts undo)"
  have "map (edit_key undo_key) ?es = map (\<lambda>k. (k, undo_timestamp undo)) (map fst (undo_counts undo))"
    by auto
  then have "distinct (map (edit_key undo_key) ?es)"
    using assms(3) by (simp add: distinct_map inj_on_def)
  moreover have "dim_zero undo_dim < edit_key undo_key e" if "e \<in> set ?es" for e
  proof -
    have "edit_key undo_key e \<noteq> (lamport_MIN, lamport_MIN)"
      using that assms(4) by auto
    then show ?thesis using undo_key_zero [of "edit_key undo_key e"] by simp
  qed
  moreover have "tree_wf undo_ops m \<and> list_all (\<lambda>_. True) (items m)" "key_sorted undo_key (items m)"
    using assms(1) by (simp_all add: undo_wf_def list_all_iff)
  ultimately obtain removed m' where m': "keyed_edit undo_ops undo_dim undo_key ?es m = Some (removed, m')"
    "tree_wf undo_ops m'" "key_sorted undo_key (items m')"
    "\<forall>k. lookup_key undo_key (items m') k =
        (case list_last (filter (\<lambda>e. edit_key undo_key e = k) ?es) of
           None \<Rightarrow> lookup_key undo_key (items m) k | Some (InsertEdit x) \<Rightarrow> Some x | Some (RemoveEdit _) \<Rightarrow> None)"
    using um.keyed_edit_lookup [of m ?es] assms(2) by blast
  have "undo_abs m' edit_id undo_id = (if undo_id = undo_timestamp undo
        then (case map_of (undo_counts undo) edit_id of Some n \<Rightarrow> Some n | None \<Rightarrow> undo_abs m edit_id undo_id)
        else undo_abs m edit_id undo_id)" for edit_id undo_id
    unfolding undo_abs_def m'(4) [rule_format] last_undo_edit map_of_rev_distinct [OF assms(3)]
    by (auto split: option.splits)
  with m' show ?thesis by (auto simp: undo_map_insert_def undo_wf_def fun_eq_iff)
qed

section \<open>Counting\<close>

definition max_count :: "32 word list \<Rightarrow> 32 word" where
  "max_count ns = foldl max 0 ns"

lemma max_count_ge: "n \<in> set ns \<Longrightarrow> n \<le> max_count ns"
  and max_count_in: "max_count ns \<in> insert 0 (set ns)"
proof -
  have "(\<forall>n \<in> insert a (set ns). n \<le> foldl max a ns) \<and> foldl max a ns \<in> insert a (set ns)" for a :: "32 word"
    by (induction ns arbitrary: a) (auto simp: max_def, fastforce+)
  then show "n \<in> set ns \<Longrightarrow> n \<le> max_count ns" and "max_count ns \<in> insert 0 (set ns)"
    unfolding max_count_def by blast+
qed

definition edit_counts :: "(lamport \<Rightarrow> bool) \<Rightarrow> lamport \<Rightarrow> undo_map \<Rightarrow> 32 word list" where
  "edit_counts sel edit_id m =
     map undo_entry_count (filter (\<lambda>e. fst (undo_key e) = edit_id \<and> sel (snd (undo_key e))) (items m))"

lemma iterator_next_ok:
  assumes "cursor_ok m c rest" "did_seek c" "undo_wf m" "height m < STACK_CAPACITY"
  shows "\<exists>c'. iterator_next undo_dim c = Some (list_first rest, c') \<and> did_seek c' \<and> cursor_ok m c' (tl rest)"
proof (cases rest)
  case Nil
  with assms cursor_item_ok [OF assms(1,2)] show ?thesis by (auto simp: iterator_next_def list_first_def)
next
  case (Cons x xs)
  with um.cursor_next_ok [OF assms(1) _ assms(4), of undo_dim] assms(2,3) cursor_item_ok [OF assms(1,2)] show ?thesis
    by (auto simp: iterator_next_def list_first_def undo_wf_def list_all_iff)
qed

definition run_counts :: "(lamport \<Rightarrow> bool) \<Rightarrow> lamport \<Rightarrow> undo_map_entry list \<Rightarrow> 32 word list" where
  "run_counts sel edit_id es =
     map undo_entry_count (filter (\<lambda>e. sel (snd (undo_key e))) (takeWhile (\<lambda>e. fst (undo_key e) = edit_id) es))"

lemma undo_count_loop_ok:
  "cursor_ok m c rest \<Longrightarrow> did_seek c \<Longrightarrow> undo_wf m \<Longrightarrow> height m < STACK_CAPACITY \<Longrightarrow> length rest < fuel
    \<Longrightarrow> undo_count_loop fuel sel edit_id c n = Some (foldl max n (run_counts sel edit_id rest))"
proof (induction fuel arbitrary: c rest n)
  case (Suc fuel)
  from iterator_next_ok [OF Suc.prems(1-4)] obtain c' where
    c': "iterator_next undo_dim c = Some (list_first rest, c')" "did_seek c'" "cursor_ok m c' (tl rest)" by blast
  show ?case
  proof (cases rest)
    case Nil
    with c' show ?thesis by (simp add: list_first_def run_counts_def)
  next
    case (Cons e es)
    with c' Suc.IH [OF _ c'(2) Suc.prems(3,4), of es] Suc.prems(5) show ?thesis
      by (auto simp: list_first_def run_counts_def)
  qed
qed simp

text \<open>The entries of one edit are a contiguous run, which starts where the seek stops.\<close>

lemma run_of_edit:
  assumes "key_sorted undo_key xs"
  shows "takeWhile (\<lambda>e. fst (undo_key e) = edit_id) (dropWhile (\<lambda>e. undo_key e < (edit_id, lamport_MIN)) xs)
    = filter (\<lambda>e. fst (undo_key e) = edit_id) xs"
proof -
  have split: "undo_key e < (edit_id, lamport_MIN) \<longleftrightarrow> fst (undo_key e) < edit_id" for e
    by (cases "undo_key e") (auto simp: less_prod_def order.order_iff_strict [symmetric] dest: leD)
  have tail: "takeWhile (\<lambda>e. fst (undo_key e) = edit_id) ys = filter (\<lambda>e. fst (undo_key e) = edit_id) ys"
    if "key_sorted undo_key ys" "\<forall>e \<in> set ys. edit_id \<le> fst (undo_key e)" for ys
    using that
  proof (induction ys)
    case (Cons y ys)
    have "edit_id < fst (undo_key e)" if "e \<in> set ys" "fst (undo_key y) \<noteq> edit_id" for e
    proof -
      have "undo_key y < undo_key e" using Cons.prems(1) that(1) by simp
      then have "fst (undo_key y) \<le> fst (undo_key e)" by (auto simp: less_prod_def intro: less_imp_le)
      with that(2) Cons.prems(2) show ?thesis by (auto intro: order.strict_trans1)
    qed
    then have "fst (undo_key y) \<noteq> edit_id \<Longrightarrow> filter (\<lambda>e. fst (undo_key e) = edit_id) ys = []"
      by (fastforce simp: filter_empty_conv)
    with Cons show ?case by auto
  qed simp
  have drop: "dropWhile (\<lambda>e. undo_key e < (edit_id, lamport_MIN)) xs
      = filter (\<lambda>e. (edit_id, lamport_MIN) \<le> undo_key e) xs"
    by (rule dropWhile_less_filter [OF assms])
  have ge: "(edit_id, lamport_MIN) \<le> undo_key e \<longleftrightarrow> edit_id \<le> fst (undo_key e)" for e
    using split [of e] by (simp add: not_less [symmetric])
  show ?thesis
    unfolding drop ge
    using tail [OF key_sorted_filter [OF assms], of "\<lambda>e. edit_id \<le> fst (undo_key e)"]
    by (auto simp: conj_commute intro!: filter_cong)
qed

lemma undo_count_where_ok:
  assumes "undo_wf m" "height m < STACK_CAPACITY" "length (items m) < fuel"
  shows "undo_count_where fuel sel edit_id m = Some (max_count (edit_counts sel edit_id m))"
proof -
  let ?k = "(edit_id, lamport_MIN)"
  have sorted: "key_sorted undo_key (items m)" using assms(1) by (simp add: undo_wf_def)
  have below: "um.below (dim_zero undo_dim) (items m)"
    using sorted by (intro um.below_zero) (simp_all add: list_all_iff)
  have tgt: "ord_target ?k (dim_zero undo_dim) \<noteq> Less" using undo_key_zero [of ?k] by (simp add: ord_target_def)
  note past = um.take_past_below [OF um.seek_past_left below, of ?k]
  have good: "tree_wf undo_ops m \<and> list_all (\<lambda>_. True) (items m)"
    using assms(1) by (simp add: undo_wf_def list_all_iff)
  from um.seek_ok [OF cursor_new_ok [of m undo_dim] good assms(2) tgt um.seekable_below [OF below] refl refl] past
  obtain found c where c: "seek undo_ops undo_dim (ord_target ?k) Left (cursor_new undo_dim m) = Some (found, c)"
    "cursor_ok m c (dropWhile (\<lambda>e. undo_key e < ?k) (items m))" "did_seek c"
    by auto
  have "length (dropWhile (\<lambda>e. undo_key e < ?k) (items m)) < fuel"
    using assms(3) length_dropWhile_le le_less_trans by blast
  from undo_count_loop_ok [OF c(2,3) assms(1,2) this] c(1) run_of_edit [OF sorted] show ?thesis
    by (simp add: undo_count_where_def run_counts_def edit_counts_def max_count_def conj_commute)
qed

end
