(* ===== verification/History.thy ===== *)
theory History
  imports TreeMap UndoMap "HOL-Library.Multiset"
begin

text \<open>
  The operations of \<^verbatim>\<open>crates/text/src/text.rs\<close> (\<^verbatim>\<open>EditOperation\<close>, \<^verbatim>\<open>UndoOperation\<close>, \<^verbatim>\<open>Operation\<close>) and
  its \<^verbatim>\<open>History\<close>: the operations a buffer has seen, and the undo and redo stacks of transactions.

  The lemmas show that the assertions and \<^verbatim>\<open>unwrap\<close>s of the code never fire on well-formed
  histories, that grouping keeps the sequence of edits, that moving transactions between the stacks
  loses none, and that redo undoes undo.
\<close>

section \<open>Operations\<close>

text \<open>A \<^verbatim>\<open>FullOffset\<close> counts deleted text too.\<close>

type_synonym full_offset = nat

record edit_operation =
  edit_timestamp :: lamport
  edit_version :: global
  edit_ranges :: "(full_offset \<times> full_offset) list"
  edit_new_text :: "char list list"

datatype operation = EditOp edit_operation | UndoOp undo_operation

definition timestamp :: "operation \<Rightarrow> lamport" where
  "timestamp op = (case op of EditOp e \<Rightarrow> edit_timestamp e | UndoOp u \<Rightarrow> undo_timestamp u)"

definition operation_replica_id :: "operation \<Rightarrow> replica_id" where
  "operation_replica_id op = lamport_replica_id (timestamp op)"

definition as_edit :: "operation \<Rightarrow> edit_operation option" where
  "as_edit op = (case op of EditOp e \<Rightarrow> Some e | _ \<Rightarrow> None)"

definition is_edit :: "operation \<Rightarrow> bool" where
  "is_edit op = (case op of EditOp _ \<Rightarrow> True | _ \<Rightarrow> False)"

section \<open>State\<close>

text \<open>An \<^verbatim>\<open>Instant\<close> is the time since some fixed instant; the difference of two instants saturates
  at zero, as \<^verbatim>\<open>Instant::sub\<close> does.\<close>

type_synonym instant = nat

record transaction =
  transaction_id :: lamport
  edit_ids :: "lamport list"
  transaction_start :: global

record history_entry =
  entry_transaction :: transaction
  first_edit_at :: instant
  last_edit_at :: instant
  suppress_grouping :: bool

record history =
  base_text :: "char list"
  operations :: "(lamport, operation) tree_map"
  undo_stack :: "history_entry list"
  redo_stack :: "history_entry list"
  transaction_depth :: nat
  group_interval :: nat

abbreviation entry_id :: "history_entry \<Rightarrow> lamport" where
  "entry_id e \<equiv> transaction_id (entry_transaction e)"

abbreviation entry_edits :: "history_entry \<Rightarrow> lamport list" where
  "entry_edits e \<equiv> edit_ids (entry_transaction e)"

definition history_new :: "char list \<Rightarrow> history" where
  "history_new txt =
     \<lparr>base_text = txt, operations = tree_map_default, undo_stack = [], redo_stack = [],
      transaction_depth = 0, group_interval = 300\<rparr>"

definition merge_in :: "transaction \<Rightarrow> transaction \<Rightarrow> transaction" where
  "merge_in other t = t\<lparr>edit_ids := edit_ids t @ edit_ids other\<rparr>"

definition history_push :: "operation \<Rightarrow> history \<Rightarrow> history option" where
  "history_push op h = do {
     ops \<leftarrow> map_insert (timestamp op) op (operations h);
     Some (h\<lparr>operations := ops\<rparr>)
   }"

section \<open>Transactions\<close>

definition new_entry :: "transaction \<Rightarrow> instant \<Rightarrow> history_entry" where
  "new_entry t now = \<lparr>entry_transaction = t, first_edit_at = now, last_edit_at = now, suppress_grouping = False\<rparr>"

definition start_transaction ::
  "global \<Rightarrow> instant \<Rightarrow> lamport \<Rightarrow> history \<Rightarrow> lamport option \<times> lamport \<times> history" where
  "start_transaction since now clock h =
     (let h = h\<lparr>transaction_depth := transaction_depth h + 1\<rparr> in
      if transaction_depth h = 1 then
        (case tick clock of (tid, clock) \<Rightarrow>
          (Some tid, clock,
           h\<lparr>undo_stack := undo_stack h @
             [new_entry \<lparr>transaction_id = tid, edit_ids = [], transaction_start = since\<rparr> now]\<rparr>))
      else (None, clock, h))"

definition end_transaction :: "instant \<Rightarrow> history \<Rightarrow> (history_entry option \<times> history) option" where
  "end_transaction now h =
     (if transaction_depth h = 0 then None
      else
        (let h = h\<lparr>transaction_depth := transaction_depth h - 1\<rparr> in
         if transaction_depth h = 0 then do {
           entry \<leftarrow> list_last (undo_stack h);
           (if entry_edits entry = [] then Some (None, h\<lparr>undo_stack := butlast (undo_stack h)\<rparr>)
            else
              (let entry = entry\<lparr>last_edit_at := now\<rparr>
               in Some (Some entry, h\<lparr>redo_stack := [], undo_stack := butlast (undo_stack h) @ [entry]\<rparr>)))
         }
         else Some (None, h)))"

definition group_trailing :: "nat \<Rightarrow> history \<Rightarrow> (lamport option \<times> history) option" where
  "group_trailing n h = do {
     new_len \<leftarrow> usize_sub (length (undo_stack h)) n;
     let to_keep = take new_len (undo_stack h);
     let to_merge = drop new_len (undo_stack h);
     let kept =
       (case list_last to_keep of
          None \<Rightarrow> to_keep
        | Some last_entry \<Rightarrow>
            (let t = entry_transaction last_entry;
                 last_entry = last_entry\<lparr>entry_transaction := t\<lparr>edit_ids := edit_ids t @ concat (map entry_edits to_merge)\<rparr>\<rparr>;
                 last_entry = (case list_last to_merge of
                     Some e \<Rightarrow> last_entry\<lparr>last_edit_at := last_edit_at e\<rparr> | None \<Rightarrow> last_entry)
             in butlast to_keep @ [last_entry]));
     Some (map_option entry_id (list_last kept), h\<lparr>undo_stack := kept\<rparr>)
   }"

text \<open>The \<^verbatim>\<open>while let\<close> loop of \<^verbatim>\<open>group\<close>, over the entries before \<open>entry\<close> in reverse.\<close>

fun group_count :: "nat \<Rightarrow> history_entry \<Rightarrow> history_entry list \<Rightarrow> nat" where
  "group_count interval entry [] = 0"
| "group_count interval entry (prev_entry # es) =
     (if \<not> suppress_grouping prev_entry \<and> first_edit_at entry - last_edit_at prev_entry < interval
      then Suc (group_count interval prev_entry es) else 0)"

definition group :: "history \<Rightarrow> (lamport option \<times> history) option" where
  "group h =
     (let n = (case rev (undo_stack h) of entry # es \<Rightarrow> group_count (group_interval h) entry es | [] \<Rightarrow> 0)
      in group_trailing n h)"

text \<open>How many entries \<^verbatim>\<open>group_until\<close> walks over, \<open>None\<close> when it leaves the loop without grouping.\<close>

fun group_until_count :: "lamport \<Rightarrow> history_entry list \<Rightarrow> nat option" where
  "group_until_count tid [] = None"
| "group_until_count tid (entry # es) =
     (if entry_id entry = tid then Some 0
      else if suppress_grouping entry then None
      else map_option Suc (group_until_count tid es))"

definition group_until :: "lamport \<Rightarrow> history \<Rightarrow> history option" where
  "group_until tid h =
     (case group_until_count tid (rev (undo_stack h)) of
        Some n \<Rightarrow> map_option snd (group_trailing n h)
      | None \<Rightarrow> Some h)"

definition finalize_last_transaction :: "history \<Rightarrow> transaction option \<times> history" where
  "finalize_last_transaction h =
     (case list_last (undo_stack h) of
        None \<Rightarrow> (None, h)
      | Some entry \<Rightarrow>
          (Some (entry_transaction entry),
           h\<lparr>undo_stack := butlast (undo_stack h) @ [entry\<lparr>suppress_grouping := True\<rparr>]\<rparr>))"

definition push_transaction :: "transaction \<Rightarrow> instant \<Rightarrow> history \<Rightarrow> history option" where
  "push_transaction t now h =
     (if transaction_depth h \<noteq> 0 then None
      else Some (h\<lparr>undo_stack := undo_stack h @ [new_entry t now]\<rparr>))"

definition push_empty_transaction ::
  "global \<Rightarrow> instant \<Rightarrow> lamport \<Rightarrow> history \<Rightarrow> (lamport \<times> lamport \<times> history) option" where
  "push_empty_transaction since now clock h =
     (if transaction_depth h \<noteq> 0 then None
      else
        (case tick clock of (tid, clock) \<Rightarrow>
          Some (tid, clock,
            h\<lparr>undo_stack := undo_stack h @
              [new_entry \<lparr>transaction_id = tid, edit_ids = [], transaction_start = since\<rparr> now]\<rparr>)))"

definition push_undo :: "lamport \<Rightarrow> history \<Rightarrow> history option" where
  "push_undo op_id h =
     (if transaction_depth h = 0 then None
      else
        (case map_get op_id (operations h) of
           Some (EditOp _) \<Rightarrow> do {
             entry \<leftarrow> list_last (undo_stack h);
             let t = entry_transaction entry;
             Some (h\<lparr>undo_stack := butlast (undo_stack h) @
               [entry\<lparr>entry_transaction := t\<lparr>edit_ids := edit_ids t @ [op_id]\<rparr>\<rparr>]\<rparr>) }
         | _ \<Rightarrow> Some h))"

section \<open>Moving transactions between the stacks\<close>

text \<open>\<^verbatim>\<open>Iterator::rposition\<close> and \<^verbatim>\<open>Vec::remove\<close>.\<close>

definition rposition :: "('a \<Rightarrow> bool) \<Rightarrow> 'a list \<Rightarrow> nat option" where
  "rposition P xs =
     (let n = length (takeWhile (\<lambda>x. \<not> P x) (rev xs))
      in if n < length xs then Some (length xs - 1 - n) else None)"

definition vec_remove :: "nat \<Rightarrow> 'a list \<Rightarrow> ('a \<times> 'a list) option" where
  "vec_remove i xs = (if i < length xs then Some (xs ! i, take i xs @ drop (Suc i) xs) else None)"

definition pop_undo :: "history \<Rightarrow> (history_entry option \<times> history) option" where
  "pop_undo h =
     (if transaction_depth h \<noteq> 0 then None
      else
        (case list_last (undo_stack h) of
           Some entry \<Rightarrow>
             Some (Some entry, h\<lparr>undo_stack := butlast (undo_stack h), redo_stack := redo_stack h @ [entry]\<rparr>)
         | None \<Rightarrow> Some (None, h)))"

definition remove_from_undo :: "lamport \<Rightarrow> history \<Rightarrow> (history_entry option \<times> history) option" where
  "remove_from_undo tid h =
     (if transaction_depth h \<noteq> 0 then None
      else
        (case rposition (\<lambda>e. entry_id e = tid) (undo_stack h) of
           None \<Rightarrow> Some (None, h)
         | Some ix \<Rightarrow> do {
             (entry, stack) \<leftarrow> vec_remove ix (undo_stack h);
             Some (Some entry, h\<lparr>undo_stack := stack, redo_stack := redo_stack h @ [entry]\<rparr>) }))"

definition remove_from_undo_until :: "lamport \<Rightarrow> history \<Rightarrow> (history_entry list \<times> history) option" where
  "remove_from_undo_until tid h =
     (if transaction_depth h \<noteq> 0 then None
      else
        (let h' =
           (case rposition (\<lambda>e. entry_id e = tid) (undo_stack h) of
              None \<Rightarrow> h
            | Some ix \<Rightarrow> h\<lparr>redo_stack := redo_stack h @ rev (drop ix (undo_stack h)), undo_stack := take ix (undo_stack h)\<rparr>)
         in Some (drop (length (redo_stack h)) (redo_stack h'), h')))"

definition forget :: "lamport \<Rightarrow> history \<Rightarrow> (transaction option \<times> history) option" where
  "forget tid h =
     (if transaction_depth h \<noteq> 0 then None
      else
        (case rposition (\<lambda>e. entry_id e = tid) (undo_stack h) of
           Some ix \<Rightarrow> do {
             (entry, stack) \<leftarrow> vec_remove ix (undo_stack h);
             Some (Some (entry_transaction entry), h\<lparr>undo_stack := stack\<rparr>) }
         | None \<Rightarrow>
             (case rposition (\<lambda>e. entry_id e = tid) (redo_stack h) of
                Some ix \<Rightarrow> do {
                  (entry, stack) \<leftarrow> vec_remove ix (redo_stack h);
                  Some (Some (entry_transaction entry), h\<lparr>redo_stack := stack\<rparr>) }
              | None \<Rightarrow> Some (None, h))))"

definition history_transaction :: "lamport \<Rightarrow> history \<Rightarrow> transaction option" where
  "history_transaction tid h =
     (case find (\<lambda>e. entry_id e = tid) (rev (undo_stack h)) of
        Some e \<Rightarrow> Some (entry_transaction e)
      | None \<Rightarrow> map_option entry_transaction (find (\<lambda>e. entry_id e = tid) (rev (redo_stack h))))"

text \<open>Updating through \<^verbatim>\<open>transaction_mut\<close>: \<open>None\<close> when there is no such transaction.\<close>

definition update_at :: "nat \<Rightarrow> (transaction \<Rightarrow> transaction) \<Rightarrow> history_entry list \<Rightarrow> history_entry list" where
  "update_at ix f es = es[ix := (es ! ix)\<lparr>entry_transaction := f (entry_transaction (es ! ix))\<rparr>]"

definition transaction_mut :: "lamport \<Rightarrow> (transaction \<Rightarrow> transaction) \<Rightarrow> history \<Rightarrow> history option" where
  "transaction_mut tid f h =
     (case rposition (\<lambda>e. entry_id e = tid) (undo_stack h) of
        Some ix \<Rightarrow> Some (h\<lparr>undo_stack := update_at ix f (undo_stack h)\<rparr>)
      | None \<Rightarrow>
          (case rposition (\<lambda>e. entry_id e = tid) (redo_stack h) of
             Some ix \<Rightarrow> Some (h\<lparr>redo_stack := update_at ix f (redo_stack h)\<rparr>)
           | None \<Rightarrow> None))"

definition merge_transactions :: "lamport \<Rightarrow> lamport \<Rightarrow> history \<Rightarrow> history option" where
  "merge_transactions t destination h = do {
     (r, h) \<leftarrow> forget t h;
     (case r of
        None \<Rightarrow> Some h
      | Some tr \<Rightarrow>
          (case transaction_mut destination (\<lambda>d. d\<lparr>edit_ids := edit_ids d @ edit_ids tr\<rparr>) h of
             Some h' \<Rightarrow> Some h'
           | None \<Rightarrow> Some h))
   }"

definition pop_redo :: "history \<Rightarrow> (history_entry option \<times> history) option" where
  "pop_redo h =
     (if transaction_depth h \<noteq> 0 then None
      else
        (case list_last (redo_stack h) of
           Some entry \<Rightarrow>
             Some (Some entry, h\<lparr>redo_stack := butlast (redo_stack h), undo_stack := undo_stack h @ [entry]\<rparr>)
         | None \<Rightarrow> Some (None, h)))"

definition remove_from_redo :: "lamport \<Rightarrow> history \<Rightarrow> (history_entry list \<times> history) option" where
  "remove_from_redo tid h =
     (if transaction_depth h \<noteq> 0 then None
      else
        (let h' =
           (case rposition (\<lambda>e. entry_id e = tid) (redo_stack h) of
              None \<Rightarrow> h
            | Some ix \<Rightarrow> h\<lparr>undo_stack := undo_stack h @ rev (drop ix (redo_stack h)), redo_stack := take ix (redo_stack h)\<rparr>)
         in Some (drop (length (undo_stack h)) (undo_stack h'), h')))"

section \<open>Searching and removing\<close>

lemma rposition_Some:
  assumes "rposition P xs = Some i"
  shows "i < length xs" "P (xs ! i)" "\<And>j. i < j \<Longrightarrow> j < length xs \<Longrightarrow> \<not> P (xs ! j)"
proof -
  define n where "n = length (takeWhile (\<lambda>x. \<not> P x) (rev xs))"
  from assms have n: "n < length xs" "i = length xs - 1 - n"
    by (auto simp: rposition_def n_def Let_def split: if_splits)
  then show "i < length xs" by simp
  have "P (rev xs ! n)" using nth_length_takeWhile [of "\<lambda>x. \<not> P x" "rev xs"] n(1) by (simp add: n_def)
  then show "P (xs ! i)" using n by (simp add: rev_nth)
  show "\<not> P (xs ! j)" if "i < j" "j < length xs" for j
  proof -
    let ?k = "length xs - 1 - j"
    have "?k < n" using that n by simp
    then have "\<not> P (rev xs ! ?k)"
      unfolding n_def by (metis nth_mem set_takeWhileD takeWhile_nth)
    moreover have "rev xs ! ?k = xs ! j" using that(2) by (simp add: rev_nth Suc_diff_Suc)
    ultimately show ?thesis by simp
  qed
qed

lemma takeWhile_shorter: "length (takeWhile (\<lambda>x. \<not> P x) xs) < length xs \<longleftrightarrow> (\<exists>x \<in> set xs. P x)"
  by (induction xs) auto

lemma rposition_None: "rposition P xs = None \<longleftrightarrow> (\<forall>x \<in> set xs. \<not> P x)"
proof -
  have "length (takeWhile (\<lambda>x. \<not> P x) (rev xs)) < length (rev xs) \<longleftrightarrow> (\<exists>x \<in> set (rev xs). P x)"
    by (rule takeWhile_shorter)
  then show ?thesis by (auto simp: rposition_def Let_def)
qed

lemma rposition_unique:
  assumes "distinct (map f xs)" "i < length xs" "f (xs ! i) = k"
  shows "rposition (\<lambda>x. f x = k) xs = Some i"
proof (cases "rposition (\<lambda>x. f x = k) xs")
  case None
  with assms(2,3) show ?thesis by (auto simp: rposition_None)
next
  case (Some j)
  note j = rposition_Some(1,2) [OF Some]
  with assms have "map f xs ! i = map f xs ! j" by simp
  with assms j Some show ?thesis by (metis length_map nth_eq_iff_index_eq)
qed

lemma take_nth_drop: "i < length xs \<Longrightarrow> take i xs @ xs ! i # drop (Suc i) xs = xs"
  by (rule id_take_nth_drop [symmetric])

lemma list_last_append [simp]: "list_last (xs @ [x]) = Some x" "list_last [] = None"
  by (simp_all add: list_last_def)

lemma list_last_Some: "list_last xs = Some x \<longleftrightarrow> (\<exists>ys. xs = ys @ [x])"
  by (cases xs rule: rev_cases) (auto simp: list_last_def)

lemma list_last_None [simp]: "list_last xs = None \<longleftrightarrow> xs = []"
  by (simp add: list_last_def)

section \<open>Invariant\<close>

definition stack_edits :: "history_entry list \<Rightarrow> lamport list" where
  "stack_edits es = concat (map entry_edits es)"

definition stack_ids :: "history \<Rightarrow> lamport list" where
  "stack_ids h = map entry_id (undo_stack h @ redo_stack h)"

text \<open>All the edits that can still be undone or redone.\<close>

definition all_edits :: "history \<Rightarrow> lamport multiset" where
  "all_edits h = mset (stack_edits (undo_stack h)) + mset (stack_edits (redo_stack h))"

definition hist_wf :: "history \<Rightarrow> bool" where
  "hist_wf h = (distinct (stack_ids h) \<and> (0 < transaction_depth h \<longrightarrow> undo_stack h \<noteq> []))"

lemma stack_edits_simps [simp]:
  "stack_edits [] = []" "stack_edits (e # es) = entry_edits e @ stack_edits es"
  "stack_edits (es @ fs) = stack_edits es @ stack_edits fs"
  by (simp_all add: stack_edits_def)

lemma new_entry_simps [simp]:
  "entry_id (new_entry t now) = transaction_id t" "entry_edits (new_entry t now) = edit_ids t"
  "suppress_grouping (new_entry t now) = False" "entry_transaction (new_entry t now) = t"
  by (simp_all add: new_entry_def)

section \<open>Starting and ending\<close>

lemma start_transaction_ok:
  assumes "hist_wf h" "clock \<notin> set (stack_ids h)"
  shows "\<exists>r c' h'. start_transaction since now clock h = (r, c', h') \<and> hist_wf h'
    \<and> transaction_depth h' = transaction_depth h + 1 \<and> redo_stack h' = redo_stack h \<and> operations h' = operations h
    \<and> (if transaction_depth h = 0
       then r = Some clock \<and> (\<exists>e. undo_stack h' = undo_stack h @ [e] \<and> entry_id e = clock \<and> entry_edits e = [])
       else r = None \<and> undo_stack h' = undo_stack h)"
  using assms by (auto simp: start_transaction_def tick_def hist_wf_def stack_ids_def Let_def)

text \<open>A started transaction without edits leaves no trace when it ends.\<close>

lemma start_end_empty:
  assumes "transaction_depth h = 0" "start_transaction since now clock h = (r, c', h')"
  shows "end_transaction later h' = Some (None, h)"
  using assms by (auto simp: start_transaction_def end_transaction_def tick_def Let_def)

lemma end_transaction_ok:
  assumes "hist_wf h" "0 < transaction_depth h"
  shows "\<exists>r h'. end_transaction now h = Some (r, h') \<and> hist_wf h' \<and> transaction_depth h' = transaction_depth h - 1
    \<and> stack_edits (undo_stack h') = stack_edits (undo_stack h)
    \<and> (redo_stack h' = redo_stack h \<or> redo_stack h' = [] \<and> transaction_depth h = 1 \<and> stack_edits (undo_stack h) \<noteq> [])"
proof -
  from assms obtain es e where h: "undo_stack h = es @ [e]" by (cases "undo_stack h" rule: rev_cases) (auto simp: hist_wf_def)
  show ?thesis
  proof (cases "transaction_depth h = 1")
    case False
    with assms h show ?thesis by (auto simp: end_transaction_def hist_wf_def stack_ids_def Let_def)
  next
    case True
    with assms h show ?thesis
      by (cases "entry_edits e = []") (auto simp: end_transaction_def hist_wf_def stack_ids_def Let_def)
  qed
qed

lemma end_transaction_depth_0: "transaction_depth h = 0 \<Longrightarrow> end_transaction now h = None"
  by (simp add: end_transaction_def)

lemma push_undo_ok:
  assumes "hist_wf h" "0 < transaction_depth h"
  shows "\<exists>h'. push_undo op_id h = Some h' \<and> hist_wf h' \<and> redo_stack h' = redo_stack h
    \<and> transaction_depth h' = transaction_depth h
    \<and> stack_edits (undo_stack h') = stack_edits (undo_stack h)
        @ (case map_get op_id (operations h) of Some (EditOp _) \<Rightarrow> [op_id] | _ \<Rightarrow> [])"
proof -
  from assms obtain es e where h: "undo_stack h = es @ [e]" by (cases "undo_stack h" rule: rev_cases) (auto simp: hist_wf_def)
  with assms show ?thesis
    by (auto simp: push_undo_def hist_wf_def stack_ids_def Let_def split: option.splits operation.splits)
qed

section \<open>Grouping\<close>

lemma group_trailing_ok:
  assumes "hist_wf h" "n < length (undo_stack h) \<or> n = 0"
  shows "\<exists>h'. group_trailing n h = Some (map_option entry_id (list_last (undo_stack h')), h')
    \<and> hist_wf h' \<and> stack_edits (undo_stack h') = stack_edits (undo_stack h)
    \<and> map entry_id (undo_stack h') = take (length (undo_stack h) - n) (map entry_id (undo_stack h))
    \<and> redo_stack h' = redo_stack h \<and> transaction_depth h' = transaction_depth h"
proof (cases "undo_stack h = []")
  case True
  with assms show ?thesis by (auto simp: group_trailing_def hist_wf_def list_last_def stack_ids_def)
next
  case False
  define m where "m = length (undo_stack h) - n"
  with assms(2) False have m: "0 < m" "m \<le> length (undo_stack h)" by auto
  then obtain es e where keep: "take m (undo_stack h) = es @ [e]"
    by (metis False rev_exhaust less_numeral_extra(3) take_eq_Nil)
  let ?merge = "drop m (undo_stack h)"
  have all: "undo_stack h = es @ e # ?merge" using keep append_take_drop_id [of m "undo_stack h"] by simp
  have len: "length es = m - 1" using keep m by (metis diff_Suc_1 length_append_singleton length_take min_absorb2)
  have sub: "usize_sub (length (undo_stack h)) n = Some m" using assms(2) False by (auto simp: m_def)
  define e1 where "e1 = e\<lparr>entry_transaction := (entry_transaction e)\<lparr>edit_ids := entry_edits e @ concat (map entry_edits ?merge)\<rparr>\<rparr>"
  define e2 where "e2 = (case list_last ?merge of Some f \<Rightarrow> e1\<lparr>last_edit_at := last_edit_at f\<rparr> | None \<Rightarrow> e1)"
  have e2: "entry_id e2 = entry_id e" "entry_edits e2 = entry_edits e @ stack_edits ?merge"
    by (auto simp: e2_def e1_def stack_edits_def split: option.splits)
  have step: "group_trailing n h = Some (Some (entry_id e2), h\<lparr>undo_stack := es @ [e2]\<rparr>)"
    unfolding group_trailing_def sub
    by (simp add: keep e1_def e2_def Let_def split: option.split)
  have edits: "stack_edits (es @ [e2]) = stack_edits (undo_stack h)"
    using arg_cong [OF all, of stack_edits] by (simp add: e2)
  have ids: "map entry_id (es @ [e2]) = take m (map entry_id (undo_stack h))"
    using keep e2(1) by (simp add: take_map)
  have "distinct (map entry_id (es @ [e2]) @ map entry_id (redo_stack h))"
    using assms(1) set_take_subset [of m "map entry_id (undo_stack h)"]
    unfolding ids by (fastforce simp: hist_wf_def stack_ids_def)
  then have "hist_wf (h\<lparr>undo_stack := es @ [e2]\<rparr>)" by (simp add: hist_wf_def stack_ids_def)
  with step edits ids show ?thesis unfolding m_def by simp
qed

lemma group_count_le: "group_count interval entry es \<le> length es"
  by (induction interval entry es rule: group_count.induct) auto

lemma group_until_count_less: "group_until_count tid es = Some n \<Longrightarrow> n < length es \<and> entry_id (es ! n) = tid"
  by (induction tid es arbitrary: n rule: group_until_count.induct) (auto split: if_splits)

lemma group_ok:
  assumes "hist_wf h"
  shows "\<exists>r h'. group h = Some (r, h') \<and> hist_wf h' \<and> stack_edits (undo_stack h') = stack_edits (undo_stack h)
    \<and> redo_stack h' = redo_stack h \<and> (undo_stack h \<noteq> [] \<longrightarrow> undo_stack h' \<noteq> [])
    \<and> r = map_option entry_id (list_last (undo_stack h')) \<and> transaction_depth h' = transaction_depth h
    \<and> set (map entry_id (undo_stack h')) \<subseteq> set (map entry_id (undo_stack h))"
proof -
  let ?n = "case rev (undo_stack h) of entry # es \<Rightarrow> group_count (group_interval h) entry es | [] \<Rightarrow> 0"
  have "?n < length (undo_stack h) \<or> ?n = 0"
  proof (cases "rev (undo_stack h)")
    case (Cons e es)
    then have "length (undo_stack h) = Suc (length es)" by (metis length_Cons length_rev)
    with Cons group_count_le [of "group_interval h" e es] show ?thesis by simp
  qed simp
  from group_trailing_ok [OF assms this] obtain h' where h': "group_trailing ?n h = Some (map_option entry_id (list_last (undo_stack h')), h')"
    "hist_wf h'" "stack_edits (undo_stack h') = stack_edits (undo_stack h)"
    "map entry_id (undo_stack h') = take (length (undo_stack h) - ?n) (map entry_id (undo_stack h))"
    "redo_stack h' = redo_stack h" "transaction_depth h' = transaction_depth h" by blast
  have sub: "set (map entry_id (undo_stack h')) \<subseteq> set (map entry_id (undo_stack h))" unfolding h'(4) by (rule set_take_subset)
  have "undo_stack h' \<noteq> []" if "undo_stack h \<noteq> []"
    using \<open>?n < length (undo_stack h) \<or> ?n = 0\<close> h'(4) that by (metis (no_types, lifting) diff_is_0_eq diff_zero length_0_conv linorder_not_less list.map_disc_iff take_eq_Nil)
  with h' sub show ?thesis unfolding group_def Let_def by blast
qed

lemma group_until_ok:
  assumes "hist_wf h"
  shows "\<exists>h'. group_until tid h = Some h' \<and> hist_wf h' \<and> stack_edits (undo_stack h') = stack_edits (undo_stack h)
    \<and> redo_stack h' = redo_stack h"
proof (cases "group_until_count tid (rev (undo_stack h))")
  case (Some n)
  then have "n < length (undo_stack h)" using group_until_count_less by fastforce
  with group_trailing_ok [OF assms, of n] Some show ?thesis by (auto simp: group_until_def)
qed (use assms in \<open>simp add: group_until_def\<close>)

section \<open>Undo and redo\<close>

text \<open>Every operation below either asserts that no transaction is open or, on a well-formed history
  with depth 0, succeeds.\<close>

definition moved :: "history \<Rightarrow> history \<Rightarrow> bool" where
  "moved h h' \<longleftrightarrow> hist_wf h' \<and> transaction_depth h' = 0 \<and> operations h' = operations h
     \<and> mset (undo_stack h') + mset (redo_stack h') = mset (undo_stack h) + mset (redo_stack h)"

lemma moved_edits: "moved h h' \<Longrightarrow> all_edits h' = all_edits h"
proof -
  have "mset (stack_edits es) = \<Sum>\<^sub># (image_mset (\<lambda>e. mset (entry_edits e)) (mset es))" for es
    by (induction es) auto
  moreover assume "moved h h'"
  ultimately show ?thesis by (simp add: all_edits_def moved_def flip: sum_mset.union image_mset_union)
qed

lemma movedI:
  assumes "hist_wf h" "transaction_depth h = 0"
    and "mset us + mset rs = mset (undo_stack h) + mset (redo_stack h)"
  shows "moved h (h\<lparr>undo_stack := us, redo_stack := rs\<rparr>)"
proof -
  have "mset (map entry_id (us @ rs)) = mset (stack_ids h)"
    unfolding stack_ids_def mset_map mset_append assms(3) ..
  then have "distinct (map entry_id (us @ rs))" using assms(1) by (metis hist_wf_def mset_eq_imp_distinct_iff)
  with assms show ?thesis by (simp add: moved_def hist_wf_def stack_ids_def)
qed

lemma movedI_swapped:
  assumes "hist_wf h" "transaction_depth h = 0"
    and "mset us + mset rs = mset (undo_stack h) + mset (redo_stack h)"
  shows "moved h (h\<lparr>redo_stack := rs, undo_stack := us\<rparr>)"
  using movedI [OF assms] by (simp add: moved_def hist_wf_def stack_ids_def)

lemma pop_undo_ok:
  assumes "hist_wf h" "transaction_depth h = 0"
  shows "\<exists>r h'. pop_undo h = Some (r, h') \<and> moved h h' \<and> r = list_last (undo_stack h)"
proof (cases "undo_stack h" rule: rev_cases)
  case Nil
  with assms show ?thesis by (auto simp: pop_undo_def moved_def list_last_def)
next
  case (snoc es e)
  with assms show ?thesis by (auto simp: pop_undo_def intro!: movedI)
qed

lemma pop_redo_ok:
  assumes "hist_wf h" "transaction_depth h = 0"
  shows "\<exists>r h'. pop_redo h = Some (r, h') \<and> moved h h' \<and> r = list_last (redo_stack h)"
proof (cases "redo_stack h" rule: rev_cases)
  case Nil
  with assms show ?thesis by (auto simp: pop_redo_def moved_def list_last_def)
next
  case (snoc es e)
  with assms show ?thesis by (auto simp: pop_redo_def intro!: movedI_swapped)
qed

lemma pop_undo_pop_redo:
  assumes "pop_undo h = Some (Some e, h')"
  shows "pop_redo h' = Some (Some e, h)"
  using assms by (auto simp: pop_undo_def pop_redo_def list_last_Some split: if_splits option.splits)

lemma pop_redo_pop_undo:
  assumes "pop_redo h = Some (Some e, h')"
  shows "pop_undo h' = Some (Some e, h)"
  using assms by (auto simp: pop_undo_def pop_redo_def list_last_Some split: if_splits option.splits)

lemma mset_remove_nth: "i < length xs \<Longrightarrow> mset (take i xs @ drop (Suc i) xs) + {#xs ! i#} = mset xs"
  using take_nth_drop [of i xs] by (metis add_mset_add_single mset.simps(2) mset_append union_mset_add_mset_right)

lemma remove_from_undo_ok:
  assumes "hist_wf h" "transaction_depth h = 0"
  shows "\<exists>r h'. remove_from_undo tid h = Some (r, h') \<and> moved h h'
    \<and> (r = None \<longleftrightarrow> tid \<notin> entry_id ` set (undo_stack h))"
proof (cases "rposition (\<lambda>e. entry_id e = tid) (undo_stack h)")
  case None
  note none = None [unfolded rposition_None]
  with assms show ?thesis by (auto simp: remove_from_undo_def moved_def None)
next
  case (Some ix)
  note ix = rposition_Some(1,2) [OF Some]
  then have "tid \<in> entry_id ` set (undo_stack h)" by auto
  moreover have "moved h (h\<lparr>undo_stack := take ix (undo_stack h) @ drop (Suc ix) (undo_stack h),
      redo_stack := redo_stack h @ [undo_stack h ! ix]\<rparr>)"
    using assms mset_remove_nth [OF ix(1)] by (intro movedI) simp_all
  ultimately show ?thesis using assms(2) ix(1) by (auto simp: remove_from_undo_def vec_remove_def Some)
qed

lemma mset_split: "mset (take i xs) + mset (drop i xs) = mset xs"
  by (simp flip: mset_append)

lemma remove_from_undo_until_ok:
  assumes "hist_wf h" "transaction_depth h = 0"
  shows "\<exists>es h'. remove_from_undo_until tid h = Some (es, h') \<and> moved h h'
    \<and> undo_stack h = undo_stack h' @ rev es \<and> redo_stack h' = redo_stack h @ es
    \<and> (tid \<in> entry_id ` set (undo_stack h) \<longrightarrow> es \<noteq> [] \<and> entry_id (last es) = tid)"
proof (cases "rposition (\<lambda>e. entry_id e = tid) (undo_stack h)")
  case None
  note none = None [unfolded rposition_None]
  with assms show ?thesis by (auto simp: remove_from_undo_until_def moved_def None)
next
  case (Some ix)
  note ix = rposition_Some(1,2) [OF Some]
  then have "drop ix (undo_stack h) = undo_stack h ! ix # drop (Suc ix) (undo_stack h)"
    by (simp add: Cons_nth_drop_Suc)
  then have "rev (drop ix (undo_stack h)) \<noteq> [] \<and> entry_id (last (rev (drop ix (undo_stack h)))) = tid"
    using ix by simp
  moreover have "moved h (h\<lparr>redo_stack := redo_stack h @ rev (drop ix (undo_stack h)), undo_stack := take ix (undo_stack h)\<rparr>)"
    using assms mset_split [of ix "undo_stack h"] by (intro movedI_swapped) (simp_all add: ac_simps)
  ultimately show ?thesis using Some assms(2)
    by (auto simp: remove_from_undo_until_def Let_def)
qed

lemma remove_from_redo_ok:
  assumes "hist_wf h" "transaction_depth h = 0"
  shows "\<exists>es h'. remove_from_redo tid h = Some (es, h') \<and> moved h h'
    \<and> redo_stack h = redo_stack h' @ rev es \<and> undo_stack h' = undo_stack h @ es
    \<and> (tid \<in> entry_id ` set (redo_stack h) \<longrightarrow> es \<noteq> [] \<and> entry_id (last es) = tid)"
proof (cases "rposition (\<lambda>e. entry_id e = tid) (redo_stack h)")
  case None
  note none = None [unfolded rposition_None]
  with assms show ?thesis by (auto simp: remove_from_redo_def moved_def None)
next
  case (Some ix)
  note ix = rposition_Some(1,2) [OF Some]
  then have "drop ix (redo_stack h) = redo_stack h ! ix # drop (Suc ix) (redo_stack h)"
    by (simp add: Cons_nth_drop_Suc)
  then have "rev (drop ix (redo_stack h)) \<noteq> [] \<and> entry_id (last (rev (drop ix (redo_stack h)))) = tid"
    using ix by simp
  moreover have "moved h (h\<lparr>undo_stack := undo_stack h @ rev (drop ix (redo_stack h)), redo_stack := take ix (redo_stack h)\<rparr>)"
    using assms mset_split [of ix "redo_stack h"] by (intro movedI) (simp_all add: ac_simps)
  ultimately show ?thesis using Some assms(2)
    by (auto simp: remove_from_redo_def Let_def)
qed

text \<open>Undoing to a transaction and redoing to the transaction that was on top gives back the
  history.\<close>

lemma undo_until_redo:
  assumes "hist_wf h" "transaction_depth h = 0" "tid \<in> entry_id ` set (undo_stack h)"
    and "remove_from_undo_until tid h = Some (es, h')"
  shows "remove_from_redo (entry_id (last (undo_stack h))) h' = Some (rev es, h)"
proof -
  from remove_from_undo_until_ok [OF assms(1,2), of tid] assms(3,4)
  have es: "moved h h'" "undo_stack h = undo_stack h' @ rev es" "redo_stack h' = redo_stack h @ es" "es \<noteq> []"
    by auto
  have top: "last (undo_stack h) = es ! 0" using es(2,4) by (simp add: hd_conv_nth last_rev)
  have "distinct (map entry_id (redo_stack h'))" using es(1) by (simp add: moved_def hist_wf_def stack_ids_def)
  then have "rposition (\<lambda>e. entry_id e = entry_id (last (undo_stack h))) (redo_stack h') = Some (length (redo_stack h))"
    by (rule rposition_unique) (use es top in \<open>simp_all add: nth_append\<close>)
  moreover have "transaction_depth h' = 0" using es(1) by (simp add: moved_def)
  moreover have "h'\<lparr>undo_stack := undo_stack h, redo_stack := redo_stack h\<rparr> = h"
    using assms(4) by (auto simp: remove_from_undo_until_def Let_def split: if_splits option.splits)
  ultimately show ?thesis using es(2,3) by (auto simp: remove_from_redo_def)
qed

section \<open>Forgetting and merging\<close>

lemma forget_ok:
  assumes "hist_wf h" "transaction_depth h = 0"
  shows "\<exists>r h'. forget tid h = Some (r, h') \<and> hist_wf h' \<and> transaction_depth h' = 0
    \<and> set (stack_ids h') = set (stack_ids h) - {tid}
    \<and> (case r of None \<Rightarrow> tid \<notin> set (stack_ids h) \<and> h' = h
       | Some t \<Rightarrow> transaction_id t = tid \<and> all_edits h = all_edits h' + mset (edit_ids t))"
proof -
  have dist: "distinct (map entry_id (undo_stack h))" "distinct (map entry_id (redo_stack h))"
    "set (map entry_id (undo_stack h)) \<inter> set (map entry_id (redo_stack h)) = {}"
    using assms(1) by (auto simp: hist_wf_def stack_ids_def)
  have rem: "distinct (map entry_id (take i es @ drop (Suc i) es))
      \<and> set (map entry_id (take i es @ drop (Suc i) es)) = set (map entry_id es) - {entry_id (es ! i)}
      \<and> mset (stack_edits es) = mset (stack_edits (take i es @ drop (Suc i) es)) + mset (entry_edits (es ! i))"
    if "distinct (map entry_id es)" "i < length es" for es i
  proof -
    have "es = take i es @ es ! i # drop (Suc i) es" using take_nth_drop [OF that(2)] by simp
    then obtain xs x ys where es: "take i es = xs" "es ! i = x" "drop (Suc i) es = ys" "es = xs @ x # ys" by metis
    show ?thesis using that(1) unfolding es(1-3) by (simp add: es(4))
  qed
  show ?thesis
  proof (cases "rposition (\<lambda>e. entry_id e = tid) (undo_stack h)")
    case (Some ix)
    note ix = rposition_Some(1,2) [OF Some]
    define ks where "ks = take ix (undo_stack h) @ drop (Suc ix) (undo_stack h)"
    let ?h = "h\<lparr>undo_stack := ks\<rparr>"
    note r = rem [OF dist(1) ix(1), folded ks_def, unfolded ix(2)]
    have "forget tid h = Some (Some (entry_transaction (undo_stack h ! ix)), ?h)"
      using assms(2) ix(1) by (simp add: forget_def vec_remove_def Some ks_def)
    moreover have "set (stack_ids ?h) = set (stack_ids h) - {tid}"
      using r dist(3) nth_mem [OF ix(1)] ix(2) by (auto simp: stack_ids_def)
    moreover have "hist_wf ?h" using r dist assms(2) by (auto simp: hist_wf_def stack_ids_def)
    moreover have "all_edits h = all_edits ?h + mset (entry_edits (undo_stack h ! ix))"
      using r by (simp add: all_edits_def)
    ultimately show ?thesis using ix(2) assms(2) by (intro exI [of _ "Some (entry_transaction (undo_stack h ! ix))"] exI [of _ ?h]) simp
  next
    case undo: None
    show ?thesis
    proof (cases "rposition (\<lambda>e. entry_id e = tid) (redo_stack h)")
      case (Some ix)
      note ix = rposition_Some(1,2) [OF Some]
      define ks where "ks = take ix (redo_stack h) @ drop (Suc ix) (redo_stack h)"
      let ?h = "h\<lparr>redo_stack := ks\<rparr>"
      note r = rem [OF dist(2) ix(1), folded ks_def, unfolded ix(2)]
      have "forget tid h = Some (Some (entry_transaction (redo_stack h ! ix)), ?h)"
        using assms(2) ix(1) by (simp add: forget_def vec_remove_def Some undo ks_def)
      moreover have "set (stack_ids ?h) = set (stack_ids h) - {tid}"
        using r dist(3) undo [unfolded rposition_None] by (auto simp: stack_ids_def)
      moreover have "hist_wf ?h" using r dist assms(2) by (auto simp: hist_wf_def stack_ids_def)
      moreover have "all_edits h = all_edits ?h + mset (entry_edits (redo_stack h ! ix))"
        using r by (simp add: all_edits_def)
      ultimately show ?thesis using ix(2) assms(2) by (intro exI [of _ "Some (entry_transaction (redo_stack h ! ix))"] exI [of _ ?h]) simp
    next
      case None
      note none = None [unfolded rposition_None] undo [unfolded rposition_None]
      with assms show ?thesis by (auto simp: forget_def None undo stack_ids_def)
    qed
  qed
qed

lemma update_at_append:
  fixes xs :: "lamport list"
  assumes "ix < length es"
  defines "es' \<equiv> update_at ix (\<lambda>d. d\<lparr>edit_ids := edit_ids d @ xs\<rparr>) es"
  shows "map entry_id es' = map entry_id es" "mset (stack_edits es') = mset (stack_edits es) + mset xs"
proof -
  have "es' = take ix es @ (es ! ix)\<lparr>entry_transaction := (entry_transaction (es ! ix))\<lparr>edit_ids := entry_edits (es ! ix) @ xs\<rparr>\<rparr>
      # drop (Suc ix) es"
    using assms(1) by (simp add: es'_def update_at_def upd_conv_take_nth_drop)
  moreover obtain ys y zs where es: "take ix es = ys" "es ! ix = y" "drop (Suc ix) es = zs" "es = ys @ y # zs"
    using take_nth_drop [OF assms(1)] by metis
  ultimately show "map entry_id es' = map entry_id es" "mset (stack_edits es') = mset (stack_edits es) + mset xs"
    unfolding es(1-3) by (simp_all add: es(4))
qed

lemma transaction_mut_append_ok:
  assumes "hist_wf h" "tid \<in> set (stack_ids h)"
  shows "\<exists>h'. transaction_mut tid (\<lambda>d. d\<lparr>edit_ids := edit_ids d @ xs\<rparr>) h = Some h' \<and> stack_ids h' = stack_ids h
    \<and> hist_wf h' \<and> transaction_depth h' = transaction_depth h \<and> all_edits h' = all_edits h + mset xs"
proof (cases "rposition (\<lambda>e. entry_id e = tid) (undo_stack h)")
  case (Some ix)
  note u = update_at_append [OF rposition_Some(1) [OF Some], of xs]
    arg_cong [OF update_at_append(1) [OF rposition_Some(1) [OF Some], of xs], of set, unfolded list.set_map]
  have "update_at ix (\<lambda>d. d\<lparr>edit_ids := edit_ids d @ xs\<rparr>) (undo_stack h) \<noteq> [] \<longleftrightarrow> undo_stack h \<noteq> []"
    by (simp add: update_at_def)
  with assms(1) u Some show ?thesis
    by (simp add: transaction_mut_def stack_ids_def hist_wf_def all_edits_def)
next
  case undo: None
  then obtain ix where ix: "rposition (\<lambda>e. entry_id e = tid) (redo_stack h) = Some ix"
    using assms(2) by (cases "rposition (\<lambda>e. entry_id e = tid) (redo_stack h)") (auto simp: rposition_None stack_ids_def)
  note u = update_at_append [OF rposition_Some(1) [OF ix], of xs]
    arg_cong [OF update_at_append(1) [OF rposition_Some(1) [OF ix], of xs], of set, unfolded list.set_map]
  with assms(1) undo ix show ?thesis
    by (simp add: transaction_mut_def stack_ids_def hist_wf_def all_edits_def)
qed

lemma merge_transactions_ok:
  assumes "hist_wf h" "transaction_depth h = 0" "t \<in> set (stack_ids h)" "destination \<in> set (stack_ids h)" "t \<noteq> destination"
  shows "\<exists>h'. merge_transactions t destination h = Some h' \<and> hist_wf h' \<and> all_edits h' = all_edits h
    \<and> set (stack_ids h') = set (stack_ids h) - {t}"
proof -
  from forget_ok [OF assms(1,2), of t] assms(3) obtain tr h1 where
    h1: "forget t h = Some (Some tr, h1)" "hist_wf h1" "set (stack_ids h1) = set (stack_ids h) - {t}"
    "all_edits h = all_edits h1 + mset (edit_ids tr)"
    by (auto split: option.splits)
  from transaction_mut_append_ok [OF h1(2), of destination "edit_ids tr"] assms(4,5) h1(3) obtain h2 where
    "transaction_mut destination (\<lambda>d. d\<lparr>edit_ids := edit_ids d @ edit_ids tr\<rparr>) h1 = Some h2" "stack_ids h2 = stack_ids h1"
    "hist_wf h2" "all_edits h2 = all_edits h1 + mset (edit_ids tr)" by auto
  with h1 show ?thesis by (simp add: merge_transactions_def)
qed

end
