(* ===== verification/Fragment.thy ===== *)
theory Fragment
  imports Locator LineEnding Subscription History
begin

text \<open>
  The pieces a buffer is made of, from \<^verbatim>\<open>crates/text/src/text.rs\<close>: \<^verbatim>\<open>Fragment\<close> with its summary and the
  dimensions the buffer seeks by, \<^verbatim>\<open>InsertionFragment\<close>, \<^verbatim>\<open>InsertionSlice\<close>, and the two builders that
  assemble the next version of the fragment tree and of the two ropes.

  A rope is represented by its text.  \<^verbatim>\<open>rope::Cursor::slice\<close> moves to character boundaries when it is
  asked for others; here such a slice is \<open>None\<close>, as is one beyond the text (where the code panics), so
  that a result \<open>Some\<close> shows that only boundaries were used.
\<close>

section \<open>Fragments\<close>

type_synonym rope = "char list"

record fragment =
  frag_id :: locator
  frag_timestamp :: lamport
  frag_insertion_offset :: "32 word"
  frag_len :: "32 word"
  frag_visible :: bool
  frag_deletions :: "lamport list"
  frag_max_undos :: global

record fragment_text_summary =
  fts_visible :: nat
  fts_deleted :: nat

record fragment_summary =
  fs_text :: fragment_text_summary
  fs_max_id :: locator
  fs_max_version :: global
  fs_min_insertion_version :: global
  fs_max_insertion_version :: global

text \<open>\<^verbatim>\<open>HashMap\<close> and tree lookups of the undo map are fallible here; \<open>undo_fuel\<close> is one more than the number
  of entries its loops can visit.\<close>

definition undo_fuel :: "undo_map \<Rightarrow> nat" where
  "undo_fuel m = Suc (length (items m))"

fun all_checked :: "('a \<Rightarrow> bool option) \<Rightarrow> 'a list \<Rightarrow> bool option" where
  "all_checked P [] = Some True"
| "all_checked P (x # xs) = do { b \<leftarrow> P x; if b then all_checked P xs else Some False }"

definition is_visible :: "fragment \<Rightarrow> undo_map \<Rightarrow> bool option" where
  "is_visible f undos = do {
     undone \<leftarrow> is_undone (undo_fuel undos) (frag_timestamp f) undos;
     if \<not> undone then all_checked (\<lambda>d. is_undone (undo_fuel undos) d undos) (frag_deletions f)
     else Some False
   }"

definition was_visible :: "fragment \<Rightarrow> global \<Rightarrow> undo_map \<Rightarrow> bool option" where
  "was_visible f version undos =
     (if observed version (frag_timestamp f) then do {
        undone \<leftarrow> was_undone (undo_fuel undos) (frag_timestamp f) version undos;
        if \<not> undone
        then all_checked (\<lambda>d. if \<not> observed version d then Some True
                              else was_undone (undo_fuel undos) d version undos) (frag_deletions f)
        else Some False }
      else Some False)"

section \<open>Summaries\<close>

definition fragment_item_summary :: "fragment \<Rightarrow> fragment_summary" where
  "fragment_item_summary f =
     (let max_version = global_observe global_new (frag_timestamp f);
          max_version = foldl global_observe max_version (frag_deletions f);
          max_version = global_join max_version (frag_max_undos f);
          min_insertion_version = global_observe global_new (frag_timestamp f)
      in \<lparr>fs_text = (if frag_visible f then \<lparr>fts_visible = unat (frag_len f), fts_deleted = 0\<rparr>
                     else \<lparr>fts_visible = 0, fts_deleted = unat (frag_len f)\<rparr>),
          fs_max_id = frag_id f,
          fs_max_version = max_version,
          fs_min_insertion_version = min_insertion_version,
          fs_max_insertion_version = min_insertion_version\<rparr>)"

definition fragment_summary_default :: fragment_summary where
  "fragment_summary_default =
     \<lparr>fs_text = \<lparr>fts_visible = 0, fts_deleted = 0\<rparr>, fs_max_id = locator_min, fs_max_version = global_new,
      fs_min_insertion_version = global_new, fs_max_insertion_version = global_new\<rparr>"

definition fragment_summary_add :: "fragment_summary \<Rightarrow> fragment_summary \<Rightarrow> fragment_summary" where
  "fragment_summary_add self other =
     \<lparr>fs_text = \<lparr>fts_visible = fts_visible (fs_text self) + fts_visible (fs_text other),
                 fts_deleted = fts_deleted (fs_text self) + fts_deleted (fs_text other)\<rparr>,
      fs_max_id = locator_assign (fs_max_id self) (fs_max_id other),
      fs_max_version = global_join (fs_max_version self) (fs_max_version other),
      fs_min_insertion_version = global_meet (fs_min_insertion_version self) (fs_min_insertion_version other),
      fs_max_insertion_version = global_join (fs_max_insertion_version self) (fs_max_insertion_version other)\<rparr>"

definition fragment_ops :: "(fragment, fragment_summary) summary_ops" where
  "fragment_ops =
     \<lparr>summary_zero = fragment_summary_default, summary_add = fragment_summary_add, item_summary = fragment_item_summary\<rparr>"

type_synonym fragment_tree = "(fragment, fragment_summary) sum_tree"

section \<open>Dimensions\<close>

definition fts_add :: "fragment_text_summary \<Rightarrow> fragment_summary \<Rightarrow> fragment_text_summary" where
  "fts_add p s =
     \<lparr>fts_visible = fts_visible p + fts_visible (fs_text s), fts_deleted = fts_deleted p + fts_deleted (fs_text s)\<rparr>"

definition fts_dim :: "(fragment_text_summary, fragment_summary) dimension" where
  "fts_dim = \<lparr>dim_zero = \<lparr>fts_visible = 0, fts_deleted = 0\<rparr>, dim_add = fts_add\<rparr>"

definition visible_dim :: "(nat, fragment_summary) dimension" where
  "visible_dim = \<lparr>dim_zero = 0, dim_add = (\<lambda>p s. p + fts_visible (fs_text s))\<rparr>"

definition full_offset_dim :: "(full_offset, fragment_summary) dimension" where
  "full_offset_dim = \<lparr>dim_zero = 0, dim_add = (\<lambda>p s. p + (fts_visible (fs_text s) + fts_deleted (fs_text s)))\<rparr>"

definition max_id_dim :: "(locator option, fragment_summary) dimension" where
  "max_id_dim = \<lparr>dim_zero = None, dim_add = (\<lambda>_ s. Some (fs_max_id s))\<rparr>"

text \<open>\<^verbatim>\<open>SeekTarget<FragmentSummary, FragmentTextSummary> for usize\<close>.\<close>

definition visible_target :: "nat \<Rightarrow> fragment_text_summary target" where
  "visible_target n = (\<lambda>p. cmp n (fts_visible p))"

datatype versioned_full_offset = Offset full_offset | Invalid

text \<open>\<^verbatim>\<open>full_offset\<close> panics on \<^verbatim>\<open>Invalid\<close>.\<close>

definition versioned_full_offset :: "versioned_full_offset \<Rightarrow> full_offset option" where
  "versioned_full_offset v = (case v of Offset p \<Rightarrow> Some p | Invalid \<Rightarrow> None)"

definition versioned_add :: "global \<Rightarrow> versioned_full_offset \<Rightarrow> fragment_summary \<Rightarrow> versioned_full_offset" where
  "versioned_add version v s =
     (case v of
        Offset offset \<Rightarrow>
          if observed_all version (fs_max_insertion_version s)
          then Offset (offset + (fts_visible (fs_text s) + fts_deleted (fs_text s)))
          else if observed_any version (fs_min_insertion_version s) then Invalid
          else Offset offset
      | Invalid \<Rightarrow> Invalid)"

definition versioned_dim :: "global \<Rightarrow> (versioned_full_offset, fragment_summary) dimension" where
  "versioned_dim version = \<lparr>dim_zero = Offset 0, dim_add = versioned_add version\<rparr>"

text \<open>The target of a remote edit is an \<^verbatim>\<open>Offset\<close>; comparing \<^verbatim>\<open>Invalid\<close> itself is unreachable.\<close>

definition versioned_target :: "full_offset \<Rightarrow> versioned_full_offset target" where
  "versioned_target a = (\<lambda>v. case v of Offset b \<Rightarrow> cmp a b | Invalid \<Rightarrow> Less)"

section \<open>Insertions\<close>

record insertion_fragment =
  ins_timestamp :: lamport
  ins_split_offset :: "32 word"
  ins_fragment_id :: locator

type_synonym insertion_fragment_key = "lamport \<times> 32 word"

definition insertion_fragment_new :: "fragment \<Rightarrow> insertion_fragment" where
  "insertion_fragment_new f =
     \<lparr>ins_timestamp = frag_timestamp f, ins_split_offset = frag_insertion_offset f, ins_fragment_id = frag_id f\<rparr>"

definition insertion_key :: "insertion_fragment \<Rightarrow> insertion_fragment_key" where
  "insertion_key i = (ins_timestamp i, ins_split_offset i)"

definition insert_new :: "fragment \<Rightarrow> (insertion_fragment, insertion_fragment_key) tree_edit" where
  "insert_new f = InsertEdit (insertion_fragment_new f)"

definition insertion_ops :: "(insertion_fragment, insertion_fragment_key) summary_ops" where
  "insertion_ops = \<lparr>summary_zero = (lamport_MIN, 0), summary_add = (\<lambda>_ s. s), item_summary = insertion_key\<rparr>"

definition insertion_dim :: "(insertion_fragment_key, insertion_fragment_key) dimension" where
  "insertion_dim = summary_dim insertion_ops"

type_synonym insertion_tree = "(insertion_fragment, insertion_fragment_key) sum_tree"

record insertion_slice =
  slice_edit_id :: lamport
  slice_insertion_id :: lamport
  slice_range :: "32 word \<times> 32 word"

definition insertion_slice_cmp :: "insertion_slice \<Rightarrow> insertion_slice \<Rightarrow> cmp_ordering" where
  "insertion_slice_cmp a b =
     then_with (then_with (then_with
       (lamport_cmp (slice_edit_id a) (slice_edit_id b))
       (lamport_cmp (slice_insertion_id a) (slice_insertion_id b)))
       (cmp (fst (slice_range a)) (fst (slice_range b))))
       (cmp (snd (slice_range a)) (snd (slice_range b)))"

definition slice_from_fragment :: "lamport \<Rightarrow> fragment \<Rightarrow> insertion_slice" where
  "slice_from_fragment edit_id f =
     \<lparr>slice_edit_id = edit_id, slice_insertion_id = frag_timestamp f,
      slice_range = (frag_insertion_offset f, frag_insertion_offset f + frag_len f)\<rparr>"

section \<open>Builders\<close>

datatype fragment_chunk = Tree fragment_tree | Loose "fragment list"

record fragment_builder =
  fb_chunks :: "fragment_chunk list"
  fb_summary :: fragment_summary

definition fragment_builder_new :: "fragment_tree \<Rightarrow> fragment_builder" where
  "fragment_builder_new init = \<lparr>fb_chunks = (if is_empty init then [] else [Tree init]), fb_summary = summary init\<rparr>"

definition fb_append :: "fragment_tree \<Rightarrow> fragment_builder \<Rightarrow> fragment_builder" where
  "fb_append t b =
     (if is_empty t then b
      else b\<lparr>fb_summary := fragment_summary_add (fb_summary b) (summary t), fb_chunks := fb_chunks b @ [Tree t]\<rparr>)"

definition fb_push :: "fragment \<Rightarrow> fragment_builder \<Rightarrow> fragment_builder" where
  "fb_push f b =
     b\<lparr>fb_summary := fragment_summary_add (fb_summary b) (fragment_item_summary f),
       fb_chunks := (case list_last (fb_chunks b) of
           Some (Loose fs) \<Rightarrow> butlast (fb_chunks b) @ [Loose (fs @ [f])]
         | _ \<Rightarrow> fb_chunks b @ [Loose [f]])\<rparr>"

fun fb_append_chunks :: "fragment_tree \<Rightarrow> fragment_chunk list \<Rightarrow> fragment_tree option" where
  "fb_append_chunks tree [] = Some tree"
| "fb_append_chunks tree (Tree t # cs) = do {
     tree \<leftarrow> append_tree fragment_ops tree t;
     fb_append_chunks tree cs }"
| "fb_append_chunks tree (Loose fs # cs) = do {
     t \<leftarrow> (if length fs > 1024 then from_par_iter fragment_ops fs else from_iter fragment_ops fs);
     tree \<leftarrow> append_tree fragment_ops tree t;
     fb_append_chunks tree cs }"

definition to_sum_tree :: "fragment_builder \<Rightarrow> fragment_tree option" where
  "to_sum_tree b = fb_append_chunks (tree_new fragment_ops) (fb_chunks b)"

text \<open>A rope cursor is the text with the offset reached.\<close>

record rope_cursor =
  rc_rope :: rope
  rc_offset :: nat

definition rope_cursor_slice :: "nat \<Rightarrow> rope_cursor \<Rightarrow> (rope \<times> rope_cursor) option" where
  "rope_cursor_slice end_offset c =
     (if rc_offset c \<le> end_offset \<and> end_offset \<le> length (rc_rope c)
        \<and> is_char_boundary (rc_rope c) (rc_offset c) \<and> is_char_boundary (rc_rope c) end_offset
      then Some (take (end_offset - rc_offset c) (drop (rc_offset c) (rc_rope c)), c\<lparr>rc_offset := end_offset\<rparr>)
      else None)"

record rope_builder =
  old_visible_cursor :: rope_cursor
  old_deleted_cursor :: rope_cursor
  new_visible :: rope
  new_deleted :: rope

definition rope_builder_new :: "rope \<Rightarrow> rope \<Rightarrow> rope_builder" where
  "rope_builder_new visible deleted =
     \<lparr>old_visible_cursor = \<lparr>rc_rope = visible, rc_offset = 0\<rparr>,
      old_deleted_cursor = \<lparr>rc_rope = deleted, rc_offset = 0\<rparr>, new_visible = [], new_deleted = []\<rparr>"

definition rb_push :: "nat \<Rightarrow> bool \<Rightarrow> bool \<Rightarrow> rope_builder \<Rightarrow> rope_builder option" where
  "rb_push len was is b = do {
     (text, b) \<leftarrow>
       (if was then do {
          (text, c) \<leftarrow> rope_cursor_slice (rc_offset (old_visible_cursor b) + len) (old_visible_cursor b);
          Some (text, b\<lparr>old_visible_cursor := c\<rparr>) }
        else do {
          (text, c) \<leftarrow> rope_cursor_slice (rc_offset (old_deleted_cursor b) + len) (old_deleted_cursor b);
          Some (text, b\<lparr>old_deleted_cursor := c\<rparr>) });
     Some (if is then b\<lparr>new_visible := new_visible b @ text\<rparr> else b\<lparr>new_deleted := new_deleted b @ text\<rparr>)
   }"

definition rb_append :: "fragment_text_summary \<Rightarrow> rope_builder \<Rightarrow> rope_builder option" where
  "rb_append len b = do {
     b \<leftarrow> rb_push (fts_visible len) True True b;
     rb_push (fts_deleted len) False False b }"

definition rb_push_fragment :: "fragment \<Rightarrow> bool \<Rightarrow> rope_builder \<Rightarrow> rope_builder option" where
  "rb_push_fragment f was b = rb_push (unat (frag_len f)) was (frag_visible f) b"

definition rb_push_str :: "rope \<Rightarrow> rope_builder \<Rightarrow> rope_builder" where
  "rb_push_str text b = b\<lparr>new_visible := new_visible b @ text\<rparr>"

definition rope_cursor_suffix :: "rope_cursor \<Rightarrow> rope option" where
  "rope_cursor_suffix c = map_option fst (rope_cursor_slice (length (rc_rope c)) c)"

definition rb_finish :: "rope_builder \<Rightarrow> (rope \<times> rope) option" where
  "rb_finish b = do {
     v \<leftarrow> rope_cursor_suffix (old_visible_cursor b);
     d \<leftarrow> rope_cursor_suffix (old_deleted_cursor b);
     Some (new_visible b @ v, new_deleted b @ d) }"

section \<open>Laws of the summaries\<close>

definition fragment_valid :: "fragment_summary \<Rightarrow> bool" where
  "fragment_valid s \<longleftrightarrow> global_wf (fs_max_version s) \<and> global_wf (fs_min_insertion_version s)
     \<and> global_wf (fs_max_insertion_version s)"

definition fragment_ok :: "fragment \<Rightarrow> bool" where
  "fragment_ok f \<longleftrightarrow> global_wf (frag_max_undos f)"

lemma fragment_ops_simps [simp]:
  "summary_zero fragment_ops = fragment_summary_default" "summary_add fragment_ops = fragment_summary_add"
  "item_summary fragment_ops = fragment_item_summary"
  by (simp_all add: fragment_ops_def)

lemma global_wf_foldl_observe: "global_wf g \<Longrightarrow> global_wf (foldl global_observe g ts)"
  by (induction ts arbitrary: g) (auto intro: global_wf_observe)

lemma fragment_summary_add_assoc:
  assumes "fragment_valid a" "fragment_valid b" "fragment_valid c"
  shows "fragment_summary_add (fragment_summary_add a b) c = fragment_summary_add a (fragment_summary_add b c)"
  using assms unfolding fragment_valid_def
  by (simp add: fragment_summary_add_def vv.join_assoc global_meet_assoc)

interpretation fragment_tree: summary_laws fragment_ops fragment_valid fragment_ok
proof
  show "fragment_valid (summary_zero fragment_ops)"
    by (simp add: fragment_valid_def fragment_summary_default_def global_wf_new)
  show "fragment_valid (summary_add fragment_ops a b)" if "fragment_valid a" "fragment_valid b" for a b
    using that by (simp add: fragment_valid_def fragment_summary_add_def global_wf_join global_wf_meet)
  show "fragment_valid (item_summary fragment_ops f)" if "fragment_ok f" for f
    using that
    by (auto simp: fragment_valid_def fragment_item_summary_def fragment_ok_def Let_def
        intro!: global_wf_join global_wf_foldl_observe global_wf_observe global_wf_new)
  show "summary_add fragment_ops (summary_zero fragment_ops) a = a" if "fragment_valid a" for a
    using that by (cases a) (auto simp: fragment_summary_add_def fragment_summary_default_def fragment_valid_def
        global_join_new global_meet_new)
qed (simp add: fragment_summary_add_assoc)

lemma dim_simps [simp]:
  "dim_zero fts_dim = \<lparr>fts_visible = 0, fts_deleted = 0\<rparr>" "dim_add fts_dim = fts_add"
  "dim_zero visible_dim = 0" "dim_add visible_dim p s = p + fts_visible (fs_text s)"
  "dim_zero full_offset_dim = 0" "dim_add full_offset_dim p s = p + (fts_visible (fs_text s) + fts_deleted (fs_text s))"
  "dim_zero max_id_dim = None" "dim_add max_id_dim l s = Some (fs_max_id s)"
  "dim_zero (versioned_dim v) = Offset 0" "dim_add (versioned_dim v) = versioned_add v"
  by (simp_all add: fts_dim_def visible_dim_def full_offset_dim_def max_id_dim_def versioned_dim_def)

interpretation fts_seek: dimension_laws fragment_ops fragment_valid fragment_ok fts_dim
  by unfold_locales (simp add: fts_add_def fragment_summary_add_def)

interpretation visible_seek: dimension_laws fragment_ops fragment_valid fragment_ok visible_dim
  by unfold_locales (simp add: fragment_summary_add_def)

interpretation full_offset_seek: dimension_laws fragment_ops fragment_valid fragment_ok full_offset_dim
  by unfold_locales (simp add: fragment_summary_add_def)

interpretation max_id_seek: dimension_laws fragment_ops fragment_valid fragment_ok max_id_dim
  by unfold_locales (simp add: fragment_summary_add_def)

text \<open>A pair of dimensions.\<close>

lemma dim_pair_simps [simp]:
  "dim_zero (dim_pair d e) = (dim_zero d, dim_zero e)" "dim_add (dim_pair d e) p s = (dim_add d (fst p) s, dim_add e (snd p) s)"
  by (simp_all add: dim_pair_def)

interpretation max_id_visible_seek: dimension_laws fragment_ops fragment_valid fragment_ok "dim_pair max_id_dim visible_dim"
  by unfold_locales (simp add: fragment_summary_add_def)

lemma insertion_ops_simps [simp]:
  "summary_zero insertion_ops = (lamport_MIN, 0)" "summary_add insertion_ops a b = b" "item_summary insertion_ops = insertion_key"
  by (simp_all add: insertion_ops_def)

lemma insertion_dim_simps [simp]: "dim_zero insertion_dim = (lamport_MIN, 0)" "dim_add insertion_dim a b = b"
  by (simp_all add: insertion_dim_def summary_dim_def)

interpretation insertions: keyed_laws insertion_ops "\<lambda>_. True" "\<lambda>_. True" insertion_dim insertion_key
  by unfold_locales
    (auto simp: insertion_key_def less_eq_prod_def order.order_iff_strict [symmetric])

section \<open>Order of the insertion slices\<close>

definition slice_key :: "'a insertion_slice_scheme \<Rightarrow> (lamport \<times> lamport \<times> 32 word \<times> 32 word) \<times> 'a" where
  "slice_key s = ((slice_edit_id s, slice_insertion_id s, slice_range s), insertion_slice.more s)"

lemma slice_key_inj: "slice_key a = slice_key b \<longleftrightarrow> a = b"
  by (cases a; cases b) (auto simp: slice_key_def)

instantiation insertion_slice_ext :: (linorder) linorder
begin

definition less_insertion_slice_ext :: "'a insertion_slice_scheme \<Rightarrow> 'a insertion_slice_scheme \<Rightarrow> bool" where
  "less_insertion_slice_ext a b = (slice_key a < slice_key b)"

definition less_eq_insertion_slice_ext :: "'a insertion_slice_scheme \<Rightarrow> 'a insertion_slice_scheme \<Rightarrow> bool" where
  "less_eq_insertion_slice_ext a b = (slice_key a \<le> slice_key b)"

instance
proof
  fix a b c :: "'a insertion_slice_scheme"
  show "(a < b) = (a \<le> b \<and> \<not> b \<le> a)"
    unfolding less_insertion_slice_ext_def less_eq_insertion_slice_ext_def by (rule less_le_not_le)
  show "a \<le> a" unfolding less_eq_insertion_slice_ext_def by simp
  show "a \<le> b \<Longrightarrow> b \<le> c \<Longrightarrow> a \<le> c" unfolding less_eq_insertion_slice_ext_def by (rule order_trans)
  show "a \<le> b \<Longrightarrow> b \<le> a \<Longrightarrow> a = b"
    unfolding less_eq_insertion_slice_ext_def by (metis antisym slice_key_inj)
  show "a \<le> b \<or> b \<le> a" unfolding less_eq_insertion_slice_ext_def by (rule linear)
qed

end

lemma lamport_cmp_eq: "lamport_cmp a b = cmp a b"
  by (cases a; cases b) (auto simp: lamport_cmp_def cmp_def then_with_def lamport_less_iff)

lemma insertion_slice_cmp_eq: "insertion_slice_cmp a b = cmp a b"
proof -
  have "insertion_slice_cmp a b = cmp (slice_key a) (slice_key b)"
    by (cases "slice_range a"; cases "slice_range b")
      (auto simp: insertion_slice_cmp_def slice_key_def lamport_cmp_eq cmp_def then_with_def less_prod_def)
  then show ?thesis by (simp add: cmp_def less_insertion_slice_ext_def slice_key_inj)
qed

section \<open>Builders hold a sequence of fragments\<close>

fun chunk_fragments :: "fragment_chunk \<Rightarrow> fragment list" where
  "chunk_fragments (Tree t) = items t"
| "chunk_fragments (Loose fs) = fs"

fun chunk_good :: "fragment_chunk \<Rightarrow> bool" where
  "chunk_good (Tree t) = fragment_tree.good t"
| "chunk_good (Loose fs) = list_all fragment_ok fs"

definition fb_holds :: "fragment_builder \<Rightarrow> fragment list \<Rightarrow> bool" where
  "fb_holds b fs \<longleftrightarrow> concat (map chunk_fragments (fb_chunks b)) = fs \<and> list_all chunk_good (fb_chunks b)
     \<and> list_all fragment_ok fs \<and> fb_summary b = fragment_tree.items_total fs"

lemma fb_holds_new:
  assumes "fragment_tree.good t"
  shows "fb_holds (fragment_builder_new t) (items t)"
  using assms fragment_tree.summary_items [OF assms] is_empty_iff [of fragment_ops t]
  by (auto simp: fb_holds_def fragment_builder_new_def)

lemma fb_holds_append:
  assumes "fb_holds b fs" "fragment_tree.good t"
  shows "fb_holds (fb_append t b) (fs @ items t)"
proof (cases "is_empty t")
  case False
  have "fragment_tree.items_total (fs @ items t) = fragment_summary_add (fb_summary b) (summary t)"
    using assms False is_empty_iff [of fragment_ops t] fragment_tree.items_total_append [of fs "items t"]
      fragment_tree.summary_items [OF assms(2)]
    by (simp add: fb_holds_def)
  with assms False show ?thesis by (simp add: fb_holds_def fb_append_def)
qed (use assms is_empty_iff [of fragment_ops t] in \<open>simp add: fb_append_def\<close>)

lemma fb_holds_push:
  assumes "fb_holds b fs" "fragment_ok f"
  shows "fb_holds (fb_push f b) (fs @ [f])"
proof -
  have total: "fragment_tree.items_total (fs @ [f]) = fragment_summary_add (fb_summary b) (fragment_item_summary f)"
    using assms by (simp add: fb_holds_def sum_summaries_def)
  show ?thesis
  proof (cases "fb_chunks b" rule: rev_cases)
    case (snoc cs c)
    with assms total show ?thesis by (cases c) (auto simp: fb_holds_def fb_push_def list_last_def)
  qed (use assms total in \<open>simp add: fb_holds_def fb_push_def list_last_def\<close>)
qed

lemma fb_append_chunks_ok:
  assumes "fragment_tree.good t" "list_all chunk_good cs"
  shows "\<exists>t'. fb_append_chunks t cs = Some t' \<and> fragment_tree.good t' \<and> items t' = items t @ concat (map chunk_fragments cs)"
  using assms
proof (induction t cs rule: fb_append_chunks.induct)
  case (2 tree t cs)
  from fragment_tree.append_ok [of tree t] 2 obtain t1 where
    "append_tree fragment_ops tree t = Some t1" "fragment_tree.good t1" "items t1 = items tree @ items t" by auto
  with 2 show ?case by fastforce
next
  case (3 tree fs cs)
  from fragment_tree.from_iter_ok [of fs] 3 obtain u where
    u: "from_iter fragment_ops fs = Some u" "from_par_iter fragment_ops fs = Some u" "fragment_tree.good u" "items u = fs" by auto
  from fragment_tree.append_ok [of tree u] 3 u obtain t1 where
    "append_tree fragment_ops tree u = Some t1" "fragment_tree.good t1" "items t1 = items tree @ fs" by auto
  with 3 u show ?case by (cases "1024 < length fs") fastforce+
qed auto

lemma to_sum_tree_ok:
  assumes "fb_holds b fs"
  shows "\<exists>t. to_sum_tree b = Some t \<and> fragment_tree.good t \<and> items t = fs"
  using fb_append_chunks_ok [of "tree_new fragment_ops" "fb_chunks b"] assms
  by (auto simp: to_sum_tree_def fb_holds_def)

end
