(* ===== verification/LocalEdit.thy ===== *)
theory LocalEdit
  imports Fragment
begin

text \<open>
  \<^verbatim>\<open>BufferSnapshot::apply_edit_internal\<close> of \<^verbatim>\<open>crates/text/src/text.rs\<close>: one pass over the fragment tree that
  splits the fragments at the edited ranges, inserts new fragments and marks old ones deleted, while
  the two ropes, the index of insertions and the patch for the subscribers are built alongside.
\<close>

section \<open>Snapshot\<close>

record buffer_snapshot =
  visible_text :: rope
  deleted_text :: rope
  fragments :: fragment_tree
  insertions :: insertion_tree
  insertion_slices :: "(insertion_slice, unit) tree_map"
  undo_map :: undo_map
  version :: global
  remote_id :: "64 word"
  replica_id :: replica_id
  line_ending :: line_ending

section \<open>State of an edit\<close>

text \<open>The local variables of the pass.  \<open>'d\<close> is the dimension the cursor carries; the position of the
  cursor in the coordinates of the edit is read off it by \<open>rd\<close>, which may panic.\<close>

record 'd edit_state =
  old_fragments :: "(fragment, fragment_summary, 'd) cursor"
  new_fragments :: fragment_builder
  new_ropes :: rope_builder
  new_insertions :: "(insertion_fragment, insertion_fragment_key) tree_edit list"
  new_slices :: "insertion_slice list"
  insertion_offset :: "32 word"
  edits_patch :: patch
  fragment_start :: nat

text \<open>The value of every build except the tests of the crate, which use 16 so that short texts are split.\<close>

definition MAX_INSERTION_LEN :: nat where
  "MAX_INSERTION_LEN = 2 ^ 32 - 1"

text \<open>A clone of a fragment reduced to the \<open>n\<close> bytes from its byte \<open>k\<close>; both casts to \<^verbatim>\<open>u32\<close> truncate.\<close>

definition fragment_part :: "fragment \<Rightarrow> nat \<Rightarrow> nat \<Rightarrow> fragment" where
  "fragment_part f k n =
     f\<lparr>frag_len := of_nat n, frag_insertion_offset := frag_insertion_offset f + of_nat k\<rparr>"

text \<open>The three pushes that follow each split: the insertion index, the ropes, the fragments.\<close>

definition emit_fragment :: "fragment \<Rightarrow> bool \<Rightarrow> 'd edit_state \<Rightarrow> 'd edit_state option" where
  "emit_fragment f was st = do {
     ropes \<leftarrow> rb_push_fragment f was (new_ropes st);
     Some (st\<lparr>new_insertions := new_insertions st @ [insert_new f], new_ropes := ropes,
              new_fragments := fb_push f (new_fragments st)\<rparr>)
   }"

definition item_unwrap :: "('t, 's, 'd) cursor \<Rightarrow> 't option" where
  "item_unwrap c = do { r \<leftarrow> item c; r }"

definition start_at :: "('d \<Rightarrow> nat option) \<Rightarrow> 'd edit_state \<Rightarrow> nat option" where
  "start_at rd st = rd (start (old_fragments st))"

definition end_at :: "('d, fragment_summary) dimension \<Rightarrow> ('d \<Rightarrow> nat option) \<Rightarrow> 'd edit_state \<Rightarrow> nat option" where
  "end_at dm rd st = do { e \<leftarrow> cursor_end dm (old_fragments st); rd e }"

definition advance :: "('d, fragment_summary) dimension \<Rightarrow> 'd edit_state \<Rightarrow> 'd edit_state option" where
  "advance dm st = do { c \<leftarrow> cursor_next dm (old_fragments st); Some (st\<lparr>old_fragments := c\<rparr>) }"

text \<open>If the current fragment has been partially consumed, consume the rest of it and advance.\<close>

definition consume_rest ::
  "('d, fragment_summary) dimension \<Rightarrow> ('d \<Rightarrow> nat option) \<Rightarrow> 'd edit_state \<Rightarrow> 'd edit_state option" where
  "consume_rest dm rd st = do {
     p \<leftarrow> start_at rd st;
     (if fragment_start st > p then do {
        fragment_end \<leftarrow> end_at dm rd st;
        st \<leftarrow> (if fragment_end > fragment_start st then do {
                 f \<leftarrow> item_unwrap (old_fragments st);
                 let rest = fragment_part f (fragment_start st - p) (fragment_end - fragment_start st);
                 emit_fragment rest (frag_visible rest) st }
               else Some st);
        advance dm st }
      else Some st)
   }"

text \<open>Append the fragments up to a target unchanged.\<close>

definition append_slice ::
  "('d, fragment_summary) dimension \<Rightarrow> ('d \<Rightarrow> nat option) \<Rightarrow> 'd target \<Rightarrow> bias \<Rightarrow> 'd edit_state \<Rightarrow> 'd edit_state option" where
  "append_slice dm rd tgt b st = do {
     (t, c) \<leftarrow> slice fragment_ops dm tgt b (old_fragments st);
     ropes \<leftarrow> rb_append (fs_text (summary t)) (new_ropes st);
     p \<leftarrow> rd (start c);
     Some (st\<lparr>old_fragments := c, new_ropes := ropes, new_fragments := fb_append t (new_fragments st),
              fragment_start := p\<rparr>)
   }"

text \<open>Preserve the portion of the current fragment that precedes the range.\<close>

definition push_prefix :: "('d \<Rightarrow> nat option) \<Rightarrow> nat \<Rightarrow> 'd edit_state \<Rightarrow> 'd edit_state option" where
  "push_prefix rd range_start st =
     (if fragment_start st < range_start then do {
        f \<leftarrow> item_unwrap (old_fragments st);
        p \<leftarrow> start_at rd st;
        k \<leftarrow> usize_sub (fragment_start st) p;
        let prefix = fragment_part f k (range_start - fragment_start st);
        let prefix = prefix\<lparr>frag_id := between (fs_max_id (fb_summary (new_fragments st))) (frag_id prefix)\<rparr>;
        st \<leftarrow> emit_fragment prefix (frag_visible prefix) st;
        Some (st\<lparr>fragment_start := range_start\<rparr>) }
      else Some st)"

section \<open>Insertion of new text\<close>

definition next_chunk_end :: "char list \<Rightarrow> nat \<Rightarrow> nat" where
  "next_chunk_end new_text text_offset =
     (let target_end = min (length new_text) (text_offset + MAX_INSERTION_LEN)
      in if target_end = length new_text then target_end else back_to_boundary new_text target_end)"

text \<open>Evaluation compares the length as an integer, so that the bound is not counted in unary.\<close>

lemma next_chunk_end_code [code]:
  "next_chunk_end new_text text_offset =
     (if int (length new_text) \<le> int text_offset + 4294967295 then length new_text
      else back_to_boundary new_text (text_offset + MAX_INSERTION_LEN))"
proof -
  have "int (length new_text) \<le> int text_offset + 4294967295 \<longleftrightarrow> length new_text \<le> text_offset + MAX_INSERTION_LEN"
    by (simp add: MAX_INSERTION_LEN_def) linarith
  then show ?thesis by (simp add: next_chunk_end_def Let_def min_def)
qed

definition new_fragment :: "locator \<Rightarrow> lamport \<Rightarrow> 32 word \<Rightarrow> nat \<Rightarrow> fragment" where
  "new_fragment fid ts offset len =
     \<lparr>frag_id = fid, frag_timestamp = ts, frag_insertion_offset = offset, frag_len = of_nat len,
      frag_visible = True, frag_deletions = [], frag_max_undos = global_new\<rparr>"

text \<open>The loop of \<^verbatim>\<open>push_fragments_for_insertion\<close>; \<^verbatim>\<open>chunk_end - text_offset\<close> panics below zero.\<close>

function push_chunks ::
  "char list \<Rightarrow> lamport \<Rightarrow> locator \<Rightarrow> lamport \<Rightarrow> nat \<Rightarrow> 'd edit_state \<Rightarrow> 'd edit_state option" where
  "push_chunks new_text ts next_id ets text_offset st =
     (if text_offset < length new_text then
        (let chunk_end = next_chunk_end new_text text_offset in
         if chunk_end = text_offset then Some st
         else if chunk_end < text_offset then None
         else
           (let chunk_len = chunk_end - text_offset;
                f = new_fragment (between (fs_max_id (fb_summary (new_fragments st))) next_id) ts
                      (insertion_offset st) chunk_len
            in push_chunks new_text ts next_id ets chunk_end
                 (st\<lparr>new_slices := new_slices st @ [slice_from_fragment ets f],
                     new_insertions := new_insertions st @ [insert_new f],
                     new_fragments := fb_push f (new_fragments st),
                     insertion_offset := insertion_offset st + of_nat chunk_len\<rparr>)))
      else Some st)"
  by pat_completeness auto
termination
  by (relation "measure (\<lambda>(new_text, ts, n, ets, text_offset, st). length new_text - text_offset)") auto

declare push_chunks.simps [simp del]

definition push_fragments_for_insertion ::
  "char list \<Rightarrow> lamport \<Rightarrow> locator \<Rightarrow> lamport \<Rightarrow> 'd edit_state \<Rightarrow> 'd edit_state option" where
  "push_fragments_for_insertion new_text ts next_id ets st = do {
     st \<leftarrow> push_chunks new_text ts next_id ets 0 st;
     Some (st\<lparr>new_ropes := rb_push_str new_text (new_ropes st)\<rparr>)
   }"

definition next_fragment_id :: "fragment option \<Rightarrow> locator" where
  "next_fragment_id r = (case r of None \<Rightarrow> locator_max | Some f \<Rightarrow> frag_id f)"

definition push_edit :: "nat \<times> nat \<Rightarrow> nat \<times> nat \<Rightarrow> 'd edit_state \<Rightarrow> 'd edit_state" where
  "push_edit old new st = st\<lparr>edits_patch := patch_push \<lparr>old_range = old, new_range = new\<rparr> (edits_patch st)\<rparr>"

definition new_visible_len :: "'d edit_state \<Rightarrow> nat" where
  "new_visible_len st = fts_visible (fs_text (fb_summary (new_fragments st)))"

section \<open>A local edit\<close>

definition visible_at :: "fragment_text_summary \<Rightarrow> nat option" where
  "visible_at p = Some (fts_visible p)"

type_synonym local_state = "fragment_text_summary edit_state"

definition local_insert :: "lamport \<Rightarrow> char list \<Rightarrow> local_state \<Rightarrow> local_state option" where
  "local_insert ts new_text st =
     (if new_text \<noteq> [] then do {
        let new_start = new_visible_len st;
        r \<leftarrow> item (old_fragments st);
        st \<leftarrow> push_fragments_for_insertion new_text ts (next_fragment_id r) ts st;
        Some (push_edit (fragment_start st, fragment_start st) (new_start, new_start + length new_text) st) }
      else Some st)"

text \<open>One turn of the deletion loop.\<close>

definition local_delete_step :: "lamport \<Rightarrow> nat \<Rightarrow> local_state \<Rightarrow> local_state option" where
  "local_delete_step ts range_end st = do {
     fragment \<leftarrow> item_unwrap (old_fragments st);
     fragment_end \<leftarrow> end_at fts_dim visible_at st;
     let intersection_end = min range_end fragment_end;
     intersection \<leftarrow>
       (if frag_visible fragment then do {
          n \<leftarrow> usize_sub intersection_end (fragment_start st);
          p \<leftarrow> start_at visible_at st;
          k \<leftarrow> usize_sub (fragment_start st) p;
          let f = fragment_part fragment k n;
          Some (f\<lparr>frag_id := between (fs_max_id (fb_summary (new_fragments st))) (frag_id f),
                  frag_deletions := frag_deletions f @ [ts], frag_visible := False\<rparr>) }
        else Some fragment);
     st \<leftarrow>
       (if frag_len intersection > 0 then do {
          let st = (if frag_visible fragment \<and> \<not> frag_visible intersection
                    then (push_edit (fragment_start st, intersection_end) (new_visible_len st, new_visible_len st) st)
                           \<lparr>new_slices := new_slices st @ [slice_from_fragment ts intersection]\<rparr>
                    else st);
          st \<leftarrow> emit_fragment intersection (frag_visible fragment) st;
          Some (st\<lparr>fragment_start := intersection_end\<rparr>) }
        else Some st);
     if fragment_end \<le> range_end then advance fts_dim st else Some st
   }"

partial_function (option) local_delete :: "lamport \<Rightarrow> nat \<Rightarrow> local_state \<Rightarrow> local_state option" where
  "local_delete ts range_end st =
     (if fragment_start st < range_end then do {
        st \<leftarrow> local_delete_step ts range_end st;
        local_delete ts range_end st }
      else Some st)"

declare local_delete.simps [code]

text \<open>The body of the loop over the edits: the new state and the range in full offsets.\<close>

definition local_edit_step ::
  "lamport \<Rightarrow> nat \<times> nat \<Rightarrow> char list \<Rightarrow> local_state \<Rightarrow> (local_state \<times> (full_offset \<times> full_offset)) option" where
  "local_edit_step ts rng new_text st = do {
     fragment_end \<leftarrow> end_at fts_dim visible_at st;
     st \<leftarrow> (if fragment_end < fst rng then do {
              st \<leftarrow> consume_rest fts_dim visible_at st;
              append_slice fts_dim visible_at (visible_target (fst rng)) Right st }
            else Some st);
     let full_range_start = fst rng + fts_deleted (start (old_fragments st));
     st \<leftarrow> push_prefix visible_at (fst rng) st;
     st \<leftarrow> local_insert ts new_text st;
     st \<leftarrow> local_delete ts (snd rng) st;
     let full_range_end = snd rng + fts_deleted (start (old_fragments st));
     Some (st, (full_range_start, full_range_end))
   }"

fun local_edit_loop ::
  "(char list \<Rightarrow> cow) \<Rightarrow> lamport \<Rightarrow> ((nat \<times> nat) \<times> char list) list \<Rightarrow> edit_operation \<Rightarrow> local_state
    \<Rightarrow> (local_state \<times> edit_operation) option" where
  "local_edit_loop replace_all ts [] edit_op st = Some (st, edit_op)"
| "local_edit_loop replace_all ts ((rng, new_text) # edits) edit_op st = do {
     let new_text = normalize replace_all new_text;
     (st, full_range) \<leftarrow> local_edit_step ts rng new_text st;
     local_edit_loop replace_all ts edits
       (edit_op\<lparr>edit_ranges := edit_ranges edit_op @ [full_range], edit_new_text := edit_new_text edit_op @ [new_text]\<rparr>) st
   }"

text \<open>The common beginning and end of the two passes.\<close>

definition edit_state_new ::
  "('d, fragment_summary) dimension \<Rightarrow> ('d \<Rightarrow> nat option) \<Rightarrow> 'd target \<Rightarrow> bias \<Rightarrow> buffer_snapshot \<Rightarrow> 'd edit_state option" where
  "edit_state_new dm rd tgt b s = do {
     let ropes = rope_builder_new (visible_text s) (deleted_text s);
     (init, c) \<leftarrow> slice fragment_ops dm tgt b (cursor_new dm (fragments s));
     let nf = fragment_builder_new init;
     ropes \<leftarrow> rb_append (fs_text (fb_summary nf)) ropes;
     p \<leftarrow> rd (start c);
     Some \<lparr>old_fragments = c, new_fragments = nf, new_ropes = ropes, new_insertions = [], new_slices = [],
           insertion_offset = 0, edits_patch = patch_empty, fragment_start = p\<rparr>
   }"

definition edit_state_finish ::
  "('d, fragment_summary) dimension \<Rightarrow> ('d \<Rightarrow> nat option) \<Rightarrow> 'd edit_state \<Rightarrow> buffer_snapshot \<Rightarrow> buffer_snapshot option" where
  "edit_state_finish dm rd st s = do {
     st \<leftarrow> consume_rest dm rd st;
     (t, c) \<leftarrow> suffix fragment_ops dm (old_fragments st);
     ropes \<leftarrow> rb_append (fs_text (summary t)) (new_ropes st);
     (v, d) \<leftarrow> rb_finish ropes;
     tree \<leftarrow> to_sum_tree (fb_append t (new_fragments st));
     (removed, ins) \<leftarrow> keyed_edit insertion_ops insertion_dim insertion_key (new_insertions st) (insertions s);
     slices \<leftarrow> map_extend (map (\<lambda>x. (x, ())) (new_slices st)) (insertion_slices s);
     Some (s\<lparr>fragments := tree, insertions := ins, visible_text := v, deleted_text := d, insertion_slices := slices\<rparr>)
   }"

definition apply_edit_internal ::
  "(char list \<Rightarrow> cow) \<Rightarrow> ((nat \<times> nat) \<times> char list) list \<Rightarrow> lamport \<Rightarrow> buffer_snapshot
    \<Rightarrow> (edit_operation \<times> patch \<times> buffer_snapshot) option" where
  "apply_edit_internal replace_all edits ts s =
     (let edit_op = \<lparr>edit_timestamp = ts, edit_version = version s, edit_ranges = [], edit_new_text = []\<rparr> in
      if edits = [] then Some (edit_op, patch_empty, s)
      else do {
        st \<leftarrow> edit_state_new fts_dim visible_at (visible_target (fst (fst (hd edits)))) Right s;
        (st, edit_op) \<leftarrow> local_edit_loop replace_all ts edits edit_op st;
        s \<leftarrow> edit_state_finish fts_dim visible_at st s;
        Some (edit_op, edits_patch st, s) })"

end
