(* ===== verification/RemoteEdit.thy ===== *)
theory RemoteEdit
  imports LocalEdit
begin

text \<open>
  \<^verbatim>\<open>Buffer::apply_remote_edit\<close> of \<^verbatim>\<open>crates/text/src/text.rs\<close>: the edit of another replica, whose ranges count the
  bytes that were inserted before its version, visible or not.
\<close>

section \<open>Positions\<close>

text \<open>\<^verbatim>\<open>Dimensions<VersionedFullOffset, usize>\<close>: a target compares with the first component.\<close>

type_synonym remote_position = "versioned_full_offset \<times> nat"
type_synonym remote_state = "remote_position edit_state"

definition remote_dim :: "global \<Rightarrow> (remote_position, fragment_summary) dimension" where
  "remote_dim v = dim_pair (versioned_dim v) visible_dim"

definition remote_target :: "full_offset \<Rightarrow> remote_position target" where
  "remote_target a = (\<lambda>p. versioned_target a (fst p))"

definition full_offset_at :: "remote_position \<Rightarrow> full_offset option" where
  "full_offset_at p = versioned_full_offset (fst p)"

section \<open>One range\<close>

text \<open>If the cursor is at the end of a fragment the edit's version knows, advance to the next one.\<close>

definition finish_fragment :: "global \<Rightarrow> full_offset \<Rightarrow> remote_state \<Rightarrow> remote_state option" where
  "finish_fragment v range_start st = do {
     fragment_end \<leftarrow> end_at (remote_dim v) full_offset_at st;
     (if fragment_end = range_start \<and> fragment_end > fragment_start st then do {
        f \<leftarrow> item_unwrap (old_fragments st);
        p \<leftarrow> start_at full_offset_at st;
        k \<leftarrow> usize_sub (fragment_start st) p;
        let fragment = fragment_part f k (fragment_end - fragment_start st);
        st \<leftarrow> emit_fragment fragment (frag_visible fragment) st;
        st \<leftarrow> advance (remote_dim v) st;
        p \<leftarrow> start_at full_offset_at st;
        Some (st\<lparr>fragment_start := p\<rparr>) }
      else Some st)
   }"

text \<open>Skip over insertions that are concurrent to the edit and have a higher timestamp.\<close>

definition push_whole :: "fragment \<Rightarrow> remote_state \<Rightarrow> remote_state option" where
  "push_whole f st = do {
     ropes \<leftarrow> rb_push_fragment f (frag_visible f) (new_ropes st);
     Some (st\<lparr>new_ropes := ropes, new_fragments := fb_push f (new_fragments st)\<rparr>)
   }"

partial_function (option) skip_concurrent :: "global \<Rightarrow> lamport \<Rightarrow> full_offset \<Rightarrow> remote_state \<Rightarrow> remote_state option" where
  "skip_concurrent v ts range_start st = do {
     r \<leftarrow> item (old_fragments st);
     (case r of
        None \<Rightarrow> Some st
      | Some f \<Rightarrow>
          if fragment_start st = range_start \<and> frag_timestamp f > ts then do {
            st \<leftarrow> push_whole f st;
            st \<leftarrow> advance (remote_dim v) st;
            skip_concurrent v ts range_start st }
          else Some st)
   }"

declare skip_concurrent.simps [code]

definition assert_not_past :: "full_offset \<Rightarrow> remote_state \<Rightarrow> unit option" where
  "assert_not_past range_start st = (if fragment_start st \<le> range_start then Some () else None)"

definition remote_insert :: "lamport \<Rightarrow> char list \<Rightarrow> remote_state \<Rightarrow> remote_state option" where
  "remote_insert ts new_text st =
     (if new_text \<noteq> [] then do {
        r \<leftarrow> item (old_fragments st);
        let visible_start = snd (start (old_fragments st));
        old_start \<leftarrow>
          (case r of
             Some f \<Rightarrow>
               if frag_visible f then do {
                 p \<leftarrow> start_at full_offset_at st;
                 k \<leftarrow> usize_sub (fragment_start st) p;
                 Some (visible_start + k) }
               else Some visible_start
           | None \<Rightarrow> Some visible_start);
        let new_start = new_visible_len st;
        st \<leftarrow> push_fragments_for_insertion new_text ts (next_fragment_id r) ts st;
        Some (push_edit (old_start, old_start) (new_start, new_start + length new_text) st) }
      else Some st)"

text \<open>The intersection of the current fragment with the range, and whether the edit deletes it: only what
  the version has observed is cut, and only what was visible in it is deleted.\<close>

definition remote_intersection ::
  "global \<Rightarrow> undo_map \<Rightarrow> lamport \<Rightarrow> fragment \<Rightarrow> full_offset \<Rightarrow> remote_state \<Rightarrow> (fragment \<times> bool) option" where
  "remote_intersection v undos ts fragment intersection_end st =
     (if observed v (frag_timestamp fragment) then do {
        n \<leftarrow> usize_sub intersection_end (fragment_start st);
        p \<leftarrow> start_at full_offset_at st;
        k \<leftarrow> usize_sub (fragment_start st) p;
        let f = fragment_part fragment k n;
        let f = f\<lparr>frag_id := between (fs_max_id (fb_summary (new_fragments st))) (frag_id f)\<rparr>;
        was \<leftarrow> was_visible fragment v undos;
        Some (if was then (f\<lparr>frag_deletions := frag_deletions f @ [ts], frag_visible := False\<rparr>, True) else (f, False)) }
      else Some (fragment, False))"

definition remote_delete_step ::
  "global \<Rightarrow> undo_map \<Rightarrow> lamport \<Rightarrow> full_offset \<Rightarrow> remote_state \<Rightarrow> remote_state option" where
  "remote_delete_step v undos ts range_end st = do {
     fragment \<leftarrow> item_unwrap (old_fragments st);
     fragment_end \<leftarrow> end_at (remote_dim v) full_offset_at st;
     let intersection_end = min range_end fragment_end;
     (intersection, del) \<leftarrow> remote_intersection v undos ts fragment intersection_end st;
     let st = (if del then st\<lparr>new_slices := new_slices st @ [slice_from_fragment ts intersection]\<rparr> else st);
     st \<leftarrow>
       (if frag_len intersection > 0 then do {
          st \<leftarrow>
            (if frag_visible fragment \<and> \<not> frag_visible intersection then do {
               p \<leftarrow> start_at full_offset_at st;
               k \<leftarrow> usize_sub (fragment_start st) p;
               let old_start = snd (start (old_fragments st)) + k;
               Some (push_edit (old_start, old_start + unat (frag_len intersection))
                       (new_visible_len st, new_visible_len st) st) }
             else Some st);
          st \<leftarrow> emit_fragment intersection (frag_visible fragment) st;
          Some (st\<lparr>fragment_start := intersection_end\<rparr>) }
        else Some st);
     if fragment_end \<le> range_end then advance (remote_dim v) st else Some st
   }"

partial_function (option) remote_delete ::
  "global \<Rightarrow> undo_map \<Rightarrow> lamport \<Rightarrow> full_offset \<Rightarrow> remote_state \<Rightarrow> remote_state option" where
  "remote_delete v undos ts range_end st =
     (if fragment_start st < range_end then do {
        st \<leftarrow> remote_delete_step v undos ts range_end st;
        remote_delete v undos ts range_end st }
      else Some st)"

declare remote_delete.simps [code]

definition remote_edit_step ::
  "global \<Rightarrow> undo_map \<Rightarrow> lamport \<Rightarrow> full_offset \<times> full_offset \<Rightarrow> char list \<Rightarrow> remote_state \<Rightarrow> remote_state option" where
  "remote_edit_step v undos ts rng new_text st = do {
     fragment_end \<leftarrow> end_at (remote_dim v) full_offset_at st;
     st \<leftarrow> (if fragment_end < fst rng then do {
              st \<leftarrow> consume_rest (remote_dim v) full_offset_at st;
              append_slice (remote_dim v) full_offset_at (remote_target (fst rng)) Left st }
            else Some st);
     st \<leftarrow> finish_fragment v (fst rng) st;
     st \<leftarrow> skip_concurrent v ts (fst rng) st;
     assert_not_past (fst rng) st;
     st \<leftarrow> push_prefix full_offset_at (fst rng) st;
     st \<leftarrow> remote_insert ts new_text st;
     remote_delete v undos ts (snd rng) st
   }"

fun remote_edit_loop ::
  "global \<Rightarrow> undo_map \<Rightarrow> lamport \<Rightarrow> ((full_offset \<times> full_offset) \<times> char list) list \<Rightarrow> remote_state \<Rightarrow> remote_state option" where
  "remote_edit_loop v undos ts [] st = Some st"
| "remote_edit_loop v undos ts ((rng, new_text) # edits) st = do {
     st \<leftarrow> remote_edit_step v undos ts rng new_text st;
     remote_edit_loop v undos ts edits st
   }"

section \<open>The whole edit\<close>

text \<open>The patch is published to the subscribers; an operation without ranges publishes nothing.\<close>

definition apply_remote_edit ::
  "global \<Rightarrow> (full_offset \<times> full_offset) list \<Rightarrow> char list list \<Rightarrow> lamport \<Rightarrow> buffer_snapshot
    \<Rightarrow> (patch option \<times> buffer_snapshot) option" where
  "apply_remote_edit v ranges new_text ts s =
     (if ranges = [] then Some (None, s)
      else do {
        st \<leftarrow> edit_state_new (remote_dim v) full_offset_at (remote_target (fst (hd ranges))) Left s;
        st \<leftarrow> remote_edit_loop v (undo_map s) ts (zip ranges new_text) st;
        s \<leftarrow> edit_state_finish (remote_dim v) full_offset_at st s;
        Some (Some (edits_patch st), s) })"

end
