(* ===== verification/Pieces.thy ===== *)
theory Pieces
  imports LocalEdit
begin

text \<open>
  The abstract view of a buffer.  A piece is a fragment with its text; the ropes are the texts of the
  visible and of the deleted pieces.  A cell is one byte with the identity (timestamp and offset) its
  insertion gave it and with its deletions, so that splitting a fragment does not change the cells.

  An edit pass is described by a step relation on sequences of pieces: it may copy, split, mark or skip
  old pieces and insert new ones.  The invariants of the pass are proved once, by induction on the
  steps, and the passes of the code are shown to take such steps.
\<close>

section \<open>Pieces and cells\<close>

type_synonym piece = "fragment \<times> char list"

definition starts_char :: "char list \<Rightarrow> bool" where
  "starts_char t \<longleftrightarrow> t = [] \<or> \<not> is_continuation (hd t)"

definition piece_ok :: "piece \<Rightarrow> bool" where
  "piece_ok p \<longleftrightarrow> length (snd p) = unat (frag_len (fst p)) \<and> snd p \<noteq> [] \<and> starts_char (snd p)
     \<and> fragment_ok (fst p) \<and> unat (frag_insertion_offset (fst p)) + unat (frag_len (fst p)) < 2 ^ 32"

definition vis :: "piece list \<Rightarrow> char list" where
  "vis ps = concat (map (\<lambda>p. if frag_visible (fst p) then snd p else []) ps)"

definition del :: "piece list \<Rightarrow> char list" where
  "del ps = concat (map (\<lambda>p. if frag_visible (fst p) then [] else snd p) ps)"

lemma vis_simps [simp]:
  "vis [] = []" "vis (p # ps) = (if frag_visible (fst p) then snd p else []) @ vis ps" "vis (ps @ qs) = vis ps @ vis qs"
  by (simp_all add: vis_def)

lemma del_simps [simp]:
  "del [] = []" "del (p # ps) = (if frag_visible (fst p) then [] else snd p) @ del ps" "del (ps @ qs) = del ps @ del qs"
  by (simp_all add: del_def)

record cell =
  c_timestamp :: lamport
  c_offset :: nat
  c_visible :: bool
  c_deletions :: "lamport list"
  c_max_undos :: global
  c_byte :: char

definition mk_cell :: "fragment \<Rightarrow> nat \<Rightarrow> char \<Rightarrow> cell" where
  "mk_cell f i b =
     \<lparr>c_timestamp = frag_timestamp f, c_offset = unat (frag_insertion_offset f) + i, c_visible = frag_visible f,
      c_deletions = frag_deletions f, c_max_undos = frag_max_undos f, c_byte = b\<rparr>"

definition piece_cells :: "piece \<Rightarrow> cell list" where
  "piece_cells p = map (\<lambda>(i, b). mk_cell (fst p) i b) (enumerate 0 (snd p))"

definition cells :: "piece list \<Rightarrow> cell list" where
  "cells ps = concat (map piece_cells ps)"

definition cell_key :: "cell \<Rightarrow> lamport \<times> nat" where
  "cell_key c = (c_timestamp c, c_offset c)"

definition mark :: "lamport \<Rightarrow> cell \<Rightarrow> cell" where
  "mark ts c = c\<lparr>c_visible := False, c_deletions := c_deletions c @ [ts]\<rparr>"

lemma cells_simps [simp]:
  "cells [] = []" "cells (p # ps) = piece_cells p @ cells ps" "cells (ps @ qs) = cells ps @ cells qs"
  by (simp_all add: cells_def)

lemma length_piece_cells [simp]: "length (piece_cells p) = length (snd p)"
  by (simp add: piece_cells_def)

lemma nth_piece_cells: "i < length (snd p) \<Longrightarrow> piece_cells p ! i = mk_cell (fst p) i (snd p ! i)"
  by (simp add: piece_cells_def nth_enumerate_eq)

lemma vis_cells: "vis ps = map c_byte (filter c_visible (cells ps))"
proof -
  have "map c_byte (filter c_visible (piece_cells p)) = (if frag_visible (fst p) then snd p else [])" for p
  proof -
    have "c_visible c = frag_visible (fst p)" if "c \<in> set (piece_cells p)" for c
      using that by (auto simp: piece_cells_def mk_cell_def)
    then have "filter c_visible (piece_cells p) = (if frag_visible (fst p) then piece_cells p else [])"
      by (auto simp: filter_True filter_False)
    moreover have "map c_byte (piece_cells p) = snd p"
      by (rule nth_equalityI) (simp_all add: nth_piece_cells mk_cell_def)
    ultimately show ?thesis by simp
  qed
  then show ?thesis by (induction ps) simp_all
qed

text \<open>The cells of a part of a piece are a part of its cells.\<close>

lemma unat_of_nat_32: "n < 2 ^ 32 \<Longrightarrow> unat (of_nat n :: 32 word) = n"
  by (simp add: unat_of_nat)

lemma unat_add_of_nat: "unat (w :: 32 word) + k < 2 ^ 32 \<Longrightarrow> unat (w + of_nat k) = unat w + k"
  by (simp add: unat_word_ariths unat_of_nat)

definition part :: "piece \<Rightarrow> nat \<Rightarrow> nat \<Rightarrow> piece" where
  "part p k n = (fragment_part (fst p) k n, take n (drop k (snd p)))"

lemma part_fields:
  assumes "piece_ok p" "k + n \<le> length (snd p)"
  shows "unat (frag_len (fst (part p k n))) = n"
    and "unat (frag_insertion_offset (fst (part p k n))) = unat (frag_insertion_offset (fst p)) + k"
proof -
  have "k + n < 2 ^ 32" "unat (frag_insertion_offset (fst p)) + k < 2 ^ 32" using assms by (auto simp: piece_ok_def)
  then show "unat (frag_len (fst (part p k n))) = n"
    and "unat (frag_insertion_offset (fst (part p k n))) = unat (frag_insertion_offset (fst p)) + k"
    by (simp_all add: part_def fragment_part_def unat_of_nat_32 unat_add_of_nat)
qed

lemma part_ok:
  assumes "piece_ok p" "0 < n" "k + n \<le> length (snd p)" "starts_char (drop k (snd p))"
  shows "piece_ok (part p k n)"
proof -
  have "take n (drop k (snd p)) \<noteq> []" "hd (take n (drop k (snd p))) = hd (drop k (snd p))"
    using assms(2,3) by (cases "drop k (snd p)"; cases n; auto)+
  with assms part_fields [OF assms(1,3)] show ?thesis
    by (auto simp: piece_ok_def starts_char_def part_def fragment_part_def fragment_ok_def)
qed

lemma piece_cells_part:
  assumes "piece_ok p" "k + n \<le> length (snd p)"
  shows "piece_cells (part p k n) = take n (drop k (piece_cells p))"
proof (rule nth_equalityI)
  fix i assume "i < length (piece_cells (part p k n))"
  then have i: "i < n" "k + i < length (snd p)" using assms(2) by (auto simp: part_def)
  then have "piece_cells (part p k n) ! i = mk_cell (fst (part p k n)) i (snd p ! (k + i))"
    by (subst nth_piece_cells) (auto simp: part_def)
  also have "\<dots> = mk_cell (fst p) (k + i) (snd p ! (k + i))"
    using part_fields(2) [OF assms] by (simp add: mk_cell_def) (simp add: part_def fragment_part_def)
  finally show "piece_cells (part p k n) ! i = take n (drop k (piece_cells p)) ! i"
    using i by (simp add: nth_piece_cells)
qed (use assms in \<open>simp add: part_def\<close>)

text \<open>Changing the id leaves the cells alone; deleting marks them.\<close>

definition with_id :: "locator \<Rightarrow> piece \<Rightarrow> piece" where
  "with_id i p = ((fst p)\<lparr>frag_id := i\<rparr>, snd p)"

definition deleted_by :: "lamport \<Rightarrow> piece \<Rightarrow> piece" where
  "deleted_by ts p = ((fst p)\<lparr>frag_deletions := frag_deletions (fst p) @ [ts], frag_visible := False\<rparr>, snd p)"

lemma piece_cells_with_id [simp]: "piece_cells (with_id i p) = piece_cells p"
  by (simp add: piece_cells_def with_id_def mk_cell_def)

lemma piece_cells_deleted_by [simp]: "piece_cells (deleted_by ts p) = map (mark ts) (piece_cells p)"
  by (simp add: piece_cells_def deleted_by_def mk_cell_def mark_def comp_def case_prod_unfold)

lemma piece_ok_simps [simp]:
  "piece_ok (with_id i p) = piece_ok p" "piece_ok (deleted_by ts p) = piece_ok p"
  by (simp_all add: piece_ok_def with_id_def deleted_by_def fragment_ok_def)

lemma piece_fields [simp]:
  "frag_id (fst (with_id i p)) = i" "snd (with_id i p) = snd p" "frag_visible (fst (with_id i p)) = frag_visible (fst p)"
  "frag_timestamp (fst (with_id i p)) = frag_timestamp (fst p)"
  "frag_insertion_offset (fst (with_id i p)) = frag_insertion_offset (fst p)"
  "frag_deletions (fst (with_id i p)) = frag_deletions (fst p)"
  "frag_id (fst (deleted_by ts p)) = frag_id (fst p)" "snd (deleted_by ts p) = snd p"
  "frag_visible (fst (deleted_by ts p)) = False" "frag_timestamp (fst (deleted_by ts p)) = frag_timestamp (fst p)"
  "frag_insertion_offset (fst (deleted_by ts p)) = frag_insertion_offset (fst p)"
  "frag_deletions (fst (deleted_by ts p)) = frag_deletions (fst p) @ [ts]"
  "frag_id (fst (part p k n)) = frag_id (fst p)" "snd (part p k n) = take n (drop k (snd p))"
  "frag_visible (fst (part p k n)) = frag_visible (fst p)" "frag_timestamp (fst (part p k n)) = frag_timestamp (fst p)"
  "frag_deletions (fst (part p k n)) = frag_deletions (fst p)"
  by (simp_all add: with_id_def deleted_by_def part_def fragment_part_def)

end
