(* ===== verification/Pass.thy ===== *)
theory Pass
  imports Pieces "HOL-Library.Sublist"
begin

text \<open>
  The steps an edit pass may take on the sequence of pieces, and what they preserve: the order of the
  fragment identifiers, the cells of the old text, the index of insertions, and the patch that is
  reported to subscribers.
\<close>

section \<open>Steps\<close>

record pass =
  p_done :: "piece list"
  p_rest :: "piece list"
  p_used :: nat
  p_new :: "piece list"
  p_emit :: "fragment list"
  p_slices :: "insertion_slice list"
  p_offset :: nat
  p_patch :: patch

text \<open>Where the pass is: the number of old cells consumed, and the number of visible ones.\<close>

definition p_index :: "pass \<Rightarrow> nat" where
  "p_index p = length (cells (p_done p)) + p_used p"

definition p_vis :: "pass \<Rightarrow> nat" where
  "p_vis p = length (vis (p_done p)) +
     (case p_rest p of [] \<Rightarrow> 0 | x # _ \<Rightarrow> if frag_visible (fst x) then p_used p else 0)"

definition max_id :: "piece list \<Rightarrow> locator" where
  "max_id ps = (if ps = [] then locator_min else frag_id (fst (last ps)))"

definition next_id :: "piece list \<Rightarrow> locator" where
  "next_id ps = (case ps of [] \<Rightarrow> locator_max | x # _ \<Rightarrow> frag_id (fst x))"

text \<open>New pieces for the chunks of an inserted text.\<close>

fun new_pieces :: "lamport \<Rightarrow> locator \<Rightarrow> locator \<Rightarrow> nat \<Rightarrow> char list list \<Rightarrow> piece list" where
  "new_pieces ts prev nxt off [] = []"
| "new_pieces ts prev nxt off (c # cs) =
     (new_fragment (between prev nxt) ts (of_nat off) (length c), c)
     # new_pieces ts (between prev nxt) nxt (off + length c) cs"

definition chunk_ok :: "char list \<Rightarrow> bool" where
  "chunk_ok c \<longleftrightarrow> c \<noteq> [] \<and> starts_char c"

definition emit_piece :: "piece \<Rightarrow> pass \<Rightarrow> pass" where
  "emit_piece x p = p\<lparr>p_new := p_new p @ [x], p_emit := p_emit p @ [fst x]\<rparr>"

inductive pass_step :: "lamport \<Rightarrow> (nat \<Rightarrow> bool) \<Rightarrow> pass \<Rightarrow> pass \<Rightarrow> bool" for ts dl where
  keep: "p_rest p = x # R \<Longrightarrow> 0 < n \<Longrightarrow> p_used p + n \<le> length (snd x) \<Longrightarrow> starts_char (drop (p_used p + n) (snd x))
    \<Longrightarrow> (\<And>j. p_index p \<le> j \<Longrightarrow> j < p_index p + n \<Longrightarrow> \<not> dl j)
    \<Longrightarrow> pass_step ts dl p
      ((emit_piece (with_id (between (max_id (p_new p)) (frag_id (fst x))) (part x (p_used p) n)) p)\<lparr>p_used := p_used p + n\<rparr>)"
| finish: "p_rest p = x # R \<Longrightarrow> p_used p < length (snd x)
    \<Longrightarrow> (\<And>j. p_index p \<le> j \<Longrightarrow> j < length (cells (p_done p)) + length (snd x) \<Longrightarrow> \<not> dl j)
    \<Longrightarrow> pass_step ts dl p
      ((emit_piece (part x (p_used p) (length (snd x) - p_used p)) p)\<lparr>p_done := p_done p @ [x], p_rest := R, p_used := 0\<rparr>)"
| mark: "p_rest p = x # R \<Longrightarrow> 0 < n \<Longrightarrow> p_used p + n \<le> length (snd x) \<Longrightarrow> starts_char (drop (p_used p + n) (snd x))
    \<Longrightarrow> (\<And>j. p_index p \<le> j \<Longrightarrow> j < p_index p + n \<Longrightarrow> dl j)
    \<Longrightarrow> y = deleted_by ts (with_id (between (max_id (p_new p)) (frag_id (fst x))) (part x (p_used p) n))
    \<Longrightarrow> pass_step ts dl p
      ((emit_piece y p)\<lparr>p_used := p_used p + n, p_slices := p_slices p @ [slice_from_fragment ts (fst y)],
         p_patch := (if frag_visible (fst x)
           then patch_push (mk_edit (p_vis p) (p_vis p + n) (length (vis (p_new p))) (length (vis (p_new p)))) (p_patch p)
           else p_patch p)\<rparr>)"
| insert: "cs \<noteq> [] \<Longrightarrow> list_all chunk_ok cs \<Longrightarrow> p_offset p + length (concat cs) < 2 ^ 32
    \<Longrightarrow> ns = new_pieces ts (max_id (p_new p)) (next_id (p_rest p)) (p_offset p) cs
    \<Longrightarrow> pass_step ts dl p
      (p\<lparr>p_new := p_new p @ ns, p_emit := p_emit p @ map fst ns,
         p_slices := p_slices p @ map (slice_from_fragment ts \<circ> fst) ns, p_offset := p_offset p + length (concat cs),
         p_patch := patch_push (mk_edit (p_vis p) (p_vis p) (length (vis (p_new p)))
           (length (vis (p_new p)) + length (concat cs))) (p_patch p)\<rparr>)"
| skip: "p_used p = 0 \<Longrightarrow> p_rest p = a @ b
    \<Longrightarrow> (\<And>j. p_index p \<le> j \<Longrightarrow> j < p_index p + length (cells a) \<Longrightarrow> \<not> dl j)
    \<Longrightarrow> pass_step ts dl p (p\<lparr>p_done := p_done p @ a, p_rest := b, p_new := p_new p @ a\<rparr>)"
| advance: "p_rest p = x # R \<Longrightarrow> p_used p = length (snd x) \<Longrightarrow> 0 < p_used p
    \<Longrightarrow> pass_step ts dl p (p\<lparr>p_done := p_done p @ [x], p_rest := R, p_used := 0\<rparr>)"

definition pass_start :: "piece list \<Rightarrow> pass" where
  "pass_start ps =
     \<lparr>p_done = [], p_rest = ps, p_used = 0, p_new = [], p_emit = [], p_slices = [], p_offset = 0, p_patch = []\<rparr>"

abbreviation pass_steps :: "lamport \<Rightarrow> (nat \<Rightarrow> bool) \<Rightarrow> pass \<Rightarrow> pass \<Rightarrow> bool" where
  "pass_steps ts dl \<equiv> (pass_step ts dl)\<^sup>*\<^sup>*"

section \<open>Shape\<close>

text \<open>The pieces a buffer may hold: identifiers ascending between the two ends, cells distinct.\<close>

definition id_ok :: "piece \<Rightarrow> bool" where
  "id_ok x \<longleftrightarrow> locator_valid (frag_id (fst x)) \<and> locator_min < frag_id (fst x) \<and> frag_id (fst x) < locator_max"

definition ids_ok :: "piece list \<Rightarrow> bool" where
  "ids_ok ps \<longleftrightarrow> sorted_wrt (<) (map (frag_id \<circ> fst) ps) \<and> list_all id_ok ps"

definition pieces_ok :: "piece list \<Rightarrow> bool" where
  "pieces_ok ps \<longleftrightarrow> list_all piece_ok ps \<and> ids_ok ps \<and> distinct (map cell_key (cells ps))"

lemma ids_ok_simps [simp]: "ids_ok []"
  "ids_ok (ps @ qs) \<longleftrightarrow> ids_ok ps \<and> ids_ok qs \<and> (\<forall>x \<in> set ps. \<forall>y \<in> set qs. frag_id (fst x) < frag_id (fst y))"
  by (auto simp: ids_ok_def sorted_wrt_append)

lemma ids_ok_Cons [simp]: "ids_ok (x # qs) \<longleftrightarrow> id_ok x \<and> ids_ok qs \<and> (\<forall>y \<in> set qs. frag_id (fst x) < frag_id (fst y))"
  by (auto simp: ids_ok_def)

text \<open>The invariant of the shape: what is left, and the order of identifiers across the two sequences.\<close>

definition pass_shape :: "lamport \<Rightarrow> piece list \<Rightarrow> pass \<Rightarrow> bool" where
  "pass_shape ts ps p \<longleftrightarrow> p_done p @ p_rest p = ps
     \<and> p_used p \<le> (case p_rest p of [] \<Rightarrow> 0 | x # _ \<Rightarrow> length (snd x))
     \<and> (case p_rest p of [] \<Rightarrow> True | x # _ \<Rightarrow> starts_char (drop (p_used p) (snd x)))
     \<and> list_all piece_ok (p_new p) \<and> ids_ok (p_new p @ p_rest p)"

lemma max_id_less:
  assumes "ids_ok (ps @ x # qs)"
  shows "max_id ps < frag_id (fst x)" "locator_valid (frag_id (fst x))"
  using assms by (auto simp: max_id_def id_ok_def)

lemma max_id_less_next:
  assumes "ids_ok (ps @ qs)"
  shows "max_id ps < next_id qs" "locator_valid (next_id qs)" "next_id qs \<le> locator_max"
proof -
  have "locator_min < locator_max" by (simp add: locator_min_def locator_max_def word_gt_0)
  moreover have "ps \<noteq> [] \<Longrightarrow> id_ok (last ps)" using assms by (simp add: ids_ok_def list_all_iff)
  ultimately show "max_id ps < next_id qs" "locator_valid (next_id qs)" "next_id qs \<le> locator_max"
    using assms by (cases qs; auto simp: next_id_def max_id_def locator_valid_max id_ok_def)+
qed

lemma max_id_ge: "ids_ok ps \<Longrightarrow> x \<in> set ps \<Longrightarrow> frag_id (fst x) \<le> max_id ps"
  by (cases ps rule: rev_cases) (auto simp: max_id_def less_imp_le)

lemma min_le_max_id: "ids_ok ps \<Longrightarrow> locator_min \<le> max_id ps"
  by (cases ps rule: rev_cases) (auto simp: max_id_def id_ok_def less_imp_le)

text \<open>A piece with an identifier between the new pieces and the rest fits in.\<close>

lemma ids_ok_insert:
  assumes "ids_ok (ps @ qs)" "max_id ps < frag_id (fst y)" "frag_id (fst y) < next_id qs" "locator_valid (frag_id (fst y))"
  shows "ids_ok (ps @ y # qs)"
proof -
  have "frag_id (fst y) < frag_id (fst z)" if "z \<in> set qs" for z
    using assms(1,3) that by (cases qs) (auto simp: next_id_def intro: less_trans)
  moreover have "frag_id (fst x) < frag_id (fst y)" if "x \<in> set ps" for x
    using max_id_ge [of ps x] assms(1,2) that by auto
  moreover have "id_ok y"
    using min_le_max_id [of ps] assms max_id_less_next(3) [OF assms(1)] by (auto simp: id_ok_def)
  ultimately show ?thesis using assms(1) by auto
qed

lemma ids_ok_between:
  assumes "ids_ok (ps @ qs)" "frag_id (fst y) = between (max_id ps) (next_id qs)"
  shows "ids_ok (ps @ y # qs)"
  using assms(2) max_id_less_next [OF assms(1)]
  by (intro ids_ok_insert [OF assms(1)]) (simp_all add: between_greater between_less between_valid)

lemma max_id_snoc [simp]: "max_id (ps @ [y]) = frag_id (fst y)"
  by (simp add: max_id_def)

lemma new_pieces_ids:
  assumes "ids_ok (ps @ qs)"
  shows "ids_ok (ps @ new_pieces ts (max_id ps) (next_id qs) off cs @ qs)"
  using assms
proof (induction cs arbitrary: ps off)
  case (Cons c cs)
  let ?y = "(new_fragment (between (max_id ps) (next_id qs)) ts (of_nat off) (length c), c)"
  have "ids_ok ((ps @ [?y]) @ qs)" using ids_ok_between [OF Cons.prems, of ?y] by (simp add: new_fragment_def)
  from Cons.IH [OF this] show ?case by (simp add: new_fragment_def)
qed simp

lemma new_pieces_ok:
  assumes "list_all chunk_ok cs" "off + length (concat cs) < 2 ^ 32"
  shows "list_all piece_ok (new_pieces ts prev nxt off cs)"
  using assms
proof (induction cs arbitrary: prev off)
  case (Cons c cs)
  then show ?case
    by (auto simp: piece_ok_def chunk_ok_def new_fragment_def fragment_ok_def global_wf_new unat_of_nat_32)
qed simp

lemma pass_shape_start:
  assumes "list_all piece_ok ps" "ids_ok ps"
  shows "pass_shape ts ps (pass_start ps)"
  using assms by (cases ps) (auto simp: pass_shape_def pass_start_def piece_ok_def)

lemma emit_piece_simps [simp]:
  "p_done (emit_piece x p) = p_done p" "p_rest (emit_piece x p) = p_rest p" "p_used (emit_piece x p) = p_used p"
  "p_new (emit_piece x p) = p_new p @ [x]" "p_emit (emit_piece x p) = p_emit p @ [fst x]"
  "p_slices (emit_piece x p) = p_slices p" "p_offset (emit_piece x p) = p_offset p" "p_patch (emit_piece x p) = p_patch p"
  by (simp_all add: emit_piece_def)

lemma pass_shape_step:
  assumes "pass_step ts dl p q" "pass_shape ts ps p" "list_all piece_ok ps"
  shows "pass_shape ts ps q"
  using assms(1)
proof cases
  case (keep x R n)
  have ids: "ids_ok (p_new p @ x # R)" and x: "piece_ok x" using assms(2,3) keep by (auto simp: pass_shape_def)
  let ?y = "with_id (between (max_id (p_new p)) (frag_id (fst x))) (part x (p_used p) n)"
  have "ids_ok (p_new p @ ?y # x # R)" by (rule ids_ok_between [OF ids]) (simp add: next_id_def)
  moreover have "piece_ok ?y" using part_ok [OF x] keep assms(2) by (simp add: pass_shape_def)
  ultimately show ?thesis using keep assms(2) by (simp add: pass_shape_def)
next
  case (mark x R n y)
  have ids: "ids_ok (p_new p @ x # R)" and x: "piece_ok x" using assms(2,3) mark by (auto simp: pass_shape_def)
  have "ids_ok (p_new p @ y # x # R)" by (rule ids_ok_between [OF ids]) (simp add: next_id_def mark)
  moreover have "piece_ok y" using part_ok [OF x] mark assms(2) by (simp add: pass_shape_def)
  ultimately show ?thesis using mark assms(2) by (simp add: pass_shape_def)
next
  case (finish x R)
  have ids: "ids_ok (p_new p @ x # R)" and x: "piece_ok x" using assms(2,3) finish by (auto simp: pass_shape_def)
  let ?y = "part x (p_used p) (length (snd x) - p_used p)"
  have "piece_ok ?y" using part_ok [OF x] finish assms(2) by (simp add: pass_shape_def)
  moreover have "ids_ok (p_new p @ ?y # R)" using ids by (auto simp: id_ok_def)
  moreover have "R \<noteq> [] \<Longrightarrow> piece_ok (hd R)" using assms(2,3) finish by (auto simp: pass_shape_def neq_Nil_conv)
  ultimately show ?thesis using finish assms(2) by (auto simp: pass_shape_def piece_ok_def split: list.splits)
next
  case (insert cs ns)
  have "ids_ok (p_new p @ p_rest p)" using assms(2) by (simp add: pass_shape_def)
  from new_pieces_ids [OF this, of ts "p_offset p" cs] new_pieces_ok [OF insert(3,4), of ts] show ?thesis
    using insert assms(2) by (cases "p_rest p") (simp_all add: pass_shape_def ball_Un)
next
  case (skip a b)
  then have "list_all piece_ok (a @ b)" using assms(2,3) by (auto simp: pass_shape_def)
  then show ?thesis using skip assms(2) by (auto simp: pass_shape_def piece_ok_def split: list.splits)
next
  case (advance x R)
  then have "list_all piece_ok (x # R)" using assms(2,3) by (auto simp: pass_shape_def)
  then show ?thesis using advance assms(2) by (auto simp: pass_shape_def piece_ok_def split: list.splits)
qed

lemma pass_shape_steps:
  assumes "pass_steps ts dl p q" "pass_shape ts ps p" "list_all piece_ok ps"
  shows "pass_shape ts ps q"
  using assms by (induction rule: rtranclp_induct) (auto intro: pass_shape_step)

section \<open>Cells\<close>

fun marks :: "lamport \<Rightarrow> (nat \<Rightarrow> bool) \<Rightarrow> nat \<Rightarrow> cell list \<Rightarrow> cell list" where
  "marks ts dl j [] = []"
| "marks ts dl j (c # cs) = (if dl j then mark ts c else c) # marks ts dl (Suc j) cs"

lemma marks_append: "marks ts dl j (cs @ ds) = marks ts dl j cs @ marks ts dl (j + length cs) ds"
  by (induction cs arbitrary: j) auto

lemma marks_none: "(\<And>i. j \<le> i \<Longrightarrow> i < j + length cs \<Longrightarrow> \<not> dl i) \<Longrightarrow> marks ts dl j cs = cs"
  by (induction cs arbitrary: j) auto

lemma marks_all: "(\<And>i. j \<le> i \<Longrightarrow> i < j + length cs \<Longrightarrow> dl i) \<Longrightarrow> marks ts dl j cs = map (mark ts) cs"
  by (induction cs arbitrary: j) auto

lemma mark_fields [simp]: "c_timestamp (mark ts c) = c_timestamp c" "cell_key (mark ts c) = cell_key c" "c_byte (mark ts c) = c_byte c"
  "c_visible (mark ts c) = False" "c_deletions (mark ts c) = c_deletions c @ [ts]"
  by (simp_all add: mark_def cell_key_def)

lemma marks_keys [simp]: "map cell_key (marks ts dl j cs) = map cell_key cs"
  by (induction cs arbitrary: j) auto

definition consumed :: "pass \<Rightarrow> cell list" where
  "consumed p = cells (p_done p) @ (case p_rest p of [] \<Rightarrow> [] | x # _ \<Rightarrow> take (p_used p) (piece_cells x))"

lemma length_consumed: "pass_shape ts ps p \<Longrightarrow> length (consumed p) = p_index p"
  by (cases "p_rest p") (auto simp: consumed_def p_index_def pass_shape_def)

definition old_cell :: "lamport \<Rightarrow> cell \<Rightarrow> bool" where
  "old_cell ts c \<longleftrightarrow> c_timestamp c \<noteq> ts"

definition new_cell :: "lamport \<Rightarrow> nat \<Rightarrow> char \<Rightarrow> cell" where
  "new_cell ts i b =
     \<lparr>c_timestamp = ts, c_offset = i, c_visible = True, c_deletions = [], c_max_undos = global_new, c_byte = b\<rparr>"

definition fresh :: "lamport \<Rightarrow> piece list \<Rightarrow> bool" where
  "fresh ts ps \<longleftrightarrow> (\<forall>x \<in> set ps. frag_timestamp (fst x) \<noteq> ts \<and> ts \<notin> set (frag_deletions (fst x)))"

definition pass_cells :: "lamport \<Rightarrow> (nat \<Rightarrow> bool) \<Rightarrow> pass \<Rightarrow> bool" where
  "pass_cells ts dl p \<longleftrightarrow> filter (old_cell ts) (cells (p_new p)) = marks ts dl 0 (consumed p)
     \<and> (\<exists>bs. length bs = p_offset p \<and>
        filter (\<lambda>c. \<not> old_cell ts c) (cells (p_new p)) = map (\<lambda>(i, b). new_cell ts i b) (enumerate 0 bs))"

lemma piece_cells_old:
  "frag_timestamp (fst x) \<noteq> ts \<Longrightarrow> filter (old_cell ts) (piece_cells x) = piece_cells x \<and> filter (\<lambda>c. \<not> old_cell ts c) (piece_cells x) = []"
  by (auto simp: piece_cells_def mk_cell_def old_cell_def filter_map comp_def case_prod_unfold)

lemma cells_old:
  "(\<forall>x \<in> set ps. frag_timestamp (fst x) \<noteq> ts) \<Longrightarrow> filter (old_cell ts) (cells ps) = cells ps \<and> filter (\<lambda>c. \<not> old_cell ts c) (cells ps) = []"
  by (induction ps) (auto simp: piece_cells_old)

lemma cells_new_pieces:
  assumes "off + length (concat cs) < 2 ^ 32"
  shows "cells (new_pieces ts prev nxt off cs) = map (\<lambda>(i, b). new_cell ts i b) (enumerate off (concat cs))"
  using assms
proof (induction cs arbitrary: prev off)
  case (Cons c cs)
  have "piece_cells (new_fragment (between prev nxt) ts (of_nat off) (length c), c)
      = map (\<lambda>(i, b). new_cell ts i b) (enumerate off c)"
    using Cons.prems
    by (intro nth_equalityI)
      (simp_all add: nth_piece_cells nth_enumerate_eq mk_cell_def new_fragment_def new_cell_def unat_of_nat_32 length_piece_cells)
  with Cons show ?case by (simp add: enumerate_append_eq)
qed simp

lemma new_cells_old:
  "filter (old_cell ts) (map (\<lambda>(i, b). new_cell ts i b) xs) = [] \<and>
   filter (\<lambda>c. \<not> old_cell ts c) (map (\<lambda>(i, b). new_cell ts i b) xs) = map (\<lambda>(i, b). new_cell ts i b) xs"
  by (auto simp: old_cell_def new_cell_def filter_map comp_def case_prod_unfold)

text \<open>The index of the next cell, and what a step consumes.\<close>

lemma consumed_rest:
  "p_rest p = x # R \<Longrightarrow> consumed p = cells (p_done p) @ take (p_used p) (piece_cells x)"
  by (simp add: consumed_def)

lemma take_more: "take (k + n) xs = take k xs @ take n (drop k xs)"
  by (simp add: take_add)

lemma take_consumed:
  assumes "pass_shape ts ps p"
  shows "take (p_index p) (cells ps) = consumed p"
proof -
  have "cells ps = cells (p_done p) @ cells (p_rest p)" using assms by (simp add: pass_shape_def flip: cells_simps(3))
  then show ?thesis using assms by (cases "p_rest p") (auto simp: p_index_def consumed_def pass_shape_def)
qed

text \<open>A step that inserts nothing consumes some cells and appends them, marked as told.\<close>

lemma pass_step_consumes:
  assumes "pass_step ts dl p q" "pass_shape ts ps p" "list_all piece_ok ps" "p_offset q = p_offset p"
  shows "\<exists>t. consumed q = consumed p @ t \<and> cells (p_new q) = cells (p_new p) @ marks ts dl (p_index p) t"
proof -
  have rest: "piece_ok x" if "x \<in> set (p_rest p)" for x
    using that assms(2,3) by (auto simp: pass_shape_def list_all_iff)
  show ?thesis
    using assms(1)
  proof cases
    case (keep x R n)
    have y: "piece_cells (part x (p_used p) n) = take n (drop (p_used p) (piece_cells x))" using piece_cells_part [of x] rest [of x] keep by simp
    have "marks ts dl (p_index p) (take n (drop (p_used p) (piece_cells x))) = take n (drop (p_used p) (piece_cells x))"
      using keep(6) by (intro marks_none) (use keep(4) in simp)
    then show ?thesis
      using keep y by (intro exI [of _ "take n (drop (p_used p) (piece_cells x))"]) (simp add: consumed_def take_more)
  next
    case (mark x R n y)
    have z: "piece_cells (part x (p_used p) n) = take n (drop (p_used p) (piece_cells x))" using piece_cells_part [of x] rest [of x] mark by simp
    have "marks ts dl (p_index p) (take n (drop (p_used p) (piece_cells x))) = map (mark ts) (take n (drop (p_used p) (piece_cells x)))"
      using mark(6) by (intro marks_all) (use mark(4) in simp)
    then show ?thesis
      using mark z by (intro exI [of _ "take n (drop (p_used p) (piece_cells x))"]) (simp add: consumed_def take_more)
  next
    case (finish x R)
    have y: "piece_cells (part x (p_used p) (length (snd x) - p_used p)) = drop (p_used p) (piece_cells x)"
      using piece_cells_part [of x] rest [of x] finish by simp
    have "marks ts dl (p_index p) (drop (p_used p) (piece_cells x)) = drop (p_used p) (piece_cells x)"
      using finish(4) by (intro marks_none) (use finish(3) in \<open>auto simp: p_index_def\<close>)
    then show ?thesis
      using finish y by (intro exI [of _ "drop (p_used p) (piece_cells x)"]) (cases R; simp add: consumed_def)
  next
    case (insert cs ns)
    then have "concat cs = []" using assms(4) by simp
    then have "list_all chunk_ok cs \<Longrightarrow> cs = []" by (cases cs) (auto simp: chunk_ok_def)
    then show ?thesis using insert(2,3) by blast
  next
    case (skip a b)
    have "marks ts dl (p_index p) (cells a) = cells a" using skip(4) by (intro marks_none) auto
    then show ?thesis using skip by (intro exI [of _ "cells a"]) (auto simp: consumed_def split: list.splits)
  next
    case (advance x R)
    then show ?thesis by (intro exI [of _ "[]"]) (cases R; simp add: consumed_def)
  qed
qed

lemma pass_step_offset: "pass_step ts dl p q \<Longrightarrow> p_offset p \<le> p_offset q"
  by (erule pass_step.cases) simp_all

lemma marks_old: "(\<forall>c \<in> set cs. old_cell ts c) \<Longrightarrow> filter (old_cell ts) (marks ts dl j cs) = marks ts dl j cs \<and> filter (\<lambda>c. \<not> old_cell ts c) (marks ts dl j cs) = []"
  by (induction cs arbitrary: j) (auto simp: old_cell_def)

lemma pass_cells_step:
  assumes "pass_step ts dl p q" "pass_cells ts dl p" "pass_shape ts ps p" "list_all piece_ok ps" "fresh ts ps"
  shows "pass_cells ts dl q"
proof (cases "p_offset q = p_offset p")
  case True
  have sh: "pass_shape ts ps q" using pass_shape_step [OF assms(1,3,4)] .
  from pass_step_consumes [OF assms(1,3,4) True] obtain t where
    t: "consumed q = consumed p @ t" "cells (p_new q) = cells (p_new p) @ marks ts dl (p_index p) t" by blast
  have "set t \<subseteq> set (cells ps)" using take_consumed [OF sh] t(1) set_take_subset [of "p_index q" "cells ps"] by auto
  moreover have "filter (\<lambda>c. \<not> old_cell ts c) (cells ps) = []" using assms(5) cells_old [of ps ts] by (auto simp: fresh_def)
  ultimately have "\<forall>c \<in> set t. old_cell ts c" by (auto simp: filter_empty_conv)
  from marks_old [OF this, of dl "p_index p"] t length_consumed [OF assms(3)] assms(2) True show ?thesis
    by (simp add: pass_cells_def marks_append)
next
  case False
  show ?thesis
    using assms(1)
  proof cases
    case (insert cs ns)
    have "consumed q = consumed p" using insert by (simp add: consumed_def split: list.splits)
    moreover have ns: "cells ns = map (\<lambda>(i, b). new_cell ts i b) (enumerate (p_offset p) (concat cs))"
      using cells_new_pieces insert by simp
    moreover obtain bs where "length bs = p_offset p"
      "filter (\<lambda>c. \<not> old_cell ts c) (cells (p_new p)) = map (\<lambda>(i, b). new_cell ts i b) (enumerate 0 bs)"
      using assms(2) by (auto simp: pass_cells_def)
    ultimately show ?thesis
      using assms(2) insert new_cells_old [of ts "enumerate (p_offset p) (concat cs)"]
      by (auto simp: pass_cells_def enumerate_append_eq intro!: exI [of _ "bs @ concat cs"])
  qed (use False in simp_all)
qed

text \<open>So do several steps.\<close>

lemma pass_steps_consume:
  assumes "pass_steps ts dl p q" "pass_shape ts ps p" "list_all piece_ok ps"
  shows "p_offset p \<le> p_offset q"
    and "p_offset q = p_offset p \<Longrightarrow> \<exists>t. consumed q = consumed p @ t \<and> cells (p_new q) = cells (p_new p) @ marks ts dl (p_index p) t"
proof -
  have "p_offset p \<le> p_offset q \<and> (p_offset q = p_offset p \<longrightarrow>
      (\<exists>t. consumed q = consumed p @ t \<and> cells (p_new q) = cells (p_new p) @ marks ts dl (p_index p) t))"
    using assms(1)
  proof (induction rule: rtranclp_induct)
    case (step q r)
    have q: "pass_shape ts ps q" using pass_shape_steps [OF step.hyps(1) assms(2,3)] .
    show ?case
    proof (intro conjI impI)
      show le: "p_offset p \<le> p_offset r" using step.IH pass_step_offset [OF step.hyps(2)] by simp
      assume same: "p_offset r = p_offset p"
      then have "p_offset q = p_offset p" "p_offset r = p_offset q" using step.IH pass_step_offset [OF step.hyps(2)] by simp_all
      then obtain t u where "consumed q = consumed p @ t" "cells (p_new q) = cells (p_new p) @ marks ts dl (p_index p) t"
          "consumed r = consumed q @ u" "cells (p_new r) = cells (p_new q) @ marks ts dl (p_index q) u"
        using step.IH pass_step_consumes [OF step.hyps(2) q assms(3)] by blast
      moreover from this have "p_index q = p_index p + length t"
        using length_consumed [OF q] length_consumed [OF assms(2)] by simp
      ultimately show "\<exists>t. consumed r = consumed p @ t \<and> cells (p_new r) = cells (p_new p) @ marks ts dl (p_index p) t"
        by (intro exI [of _ "t @ u"]) (simp add: marks_append)
    qed
  qed auto
  then show "p_offset p \<le> p_offset q"
    and "p_offset q = p_offset p \<Longrightarrow> \<exists>t. consumed q = consumed p @ t \<and> cells (p_new q) = cells (p_new p) @ marks ts dl (p_index p) t"
    by blast+
qed

lemma pass_cells_start: "pass_cells ts dl (pass_start ps)"
  by (cases ps) (simp_all add: pass_cells_def pass_start_def consumed_def)

section \<open>Index of insertions\<close>

definition frag_key :: "fragment \<Rightarrow> insertion_fragment_key" where
  "frag_key f = (frag_timestamp f, frag_insertion_offset f)"

text \<open>Every new piece is indexed by the pass or is an old piece left as it was, and no old key is lost.\<close>

definition pass_index :: "pass \<Rightarrow> bool" where
  "pass_index p \<longleftrightarrow> subseq (p_emit p) (map fst (p_new p))
     \<and> (\<forall>x \<in> set (p_new p). fst x \<in> set (p_emit p) \<or> x \<in> set (p_done p))
     \<and> (\<forall>x \<in> set (p_done p @ (if p_used p = 0 then [] else take 1 (p_rest p))).
          frag_key (fst x) \<in> frag_key ` fst ` set (p_new p))"

lemma pass_index_start: "pass_index (pass_start ps)"
  by (simp add: pass_index_def pass_start_def)

lemma frag_key_part_0: "frag_key (fst (part x 0 n)) = frag_key (fst x)"
  by (simp add: frag_key_def part_def fragment_part_def)

lemma frag_key_simps [simp]: "frag_key (fst (with_id i x)) = frag_key (fst x)" "frag_key (fst (deleted_by ts x)) = frag_key (fst x)"
  by (simp_all add: frag_key_def)

lemma pass_index_emit:
  assumes "pass_index p" "p_rest p = x # R" "frag_key (fst y) = frag_key (fst (part x (p_used p) n))"
  shows "subseq (p_emit p @ [fst y]) (map fst (p_new p @ [y]))"
    and "\<forall>z \<in> set (p_new p @ [y]). fst z \<in> set (p_emit p @ [fst y]) \<or> z \<in> set (p_done p)"
    and "\<forall>z \<in> set (p_done p @ [x]). frag_key (fst z) \<in> frag_key ` fst ` set (p_new p @ [y])"
proof -
  show "subseq (p_emit p @ [fst y]) (map fst (p_new p @ [y]))" using assms(1) by (simp add: pass_index_def)
  show "\<forall>z \<in> set (p_new p @ [y]). fst z \<in> set (p_emit p @ [fst y]) \<or> z \<in> set (p_done p)"
    using assms(1) by (auto simp: pass_index_def)
  show "\<forall>z \<in> set (p_done p @ [x]). frag_key (fst z) \<in> frag_key ` fst ` set (p_new p @ [y])"
    using assms frag_key_part_0 [of x n] by (cases "p_used p = 0") (auto simp: pass_index_def)
qed

lemma pass_index_step:
  assumes "pass_step ts dl p q" "pass_index p"
  shows "pass_index q"
  using assms(1)
proof cases
  case (keep x R n)
  from pass_index_emit [OF assms(2) keep(2), of "with_id (between (max_id (p_new p)) (frag_id (fst x))) (part x (p_used p) n)" n] keep
  show ?thesis unfolding pass_index_def by simp
next
  case (mark x R n y)
  from pass_index_emit [OF assms(2) mark(2), of y n] mark show ?thesis unfolding pass_index_def by simp
next
  case (finish x R)
  from pass_index_emit [OF assms(2) finish(2), of "part x (p_used p) (length (snd x) - p_used p)"] finish
  show ?thesis unfolding pass_index_def by auto
next
  case (insert cs ns)
  have "fst ` set (p_new p) \<subseteq> fst ` set (p_new p @ ns)" by auto
  then show ?thesis using assms(2) insert unfolding pass_index_def by (auto simp: image_iff)
next
  case (skip a b)
  have "subseq (p_emit p) (map fst (p_new p @ a))"
    using assms(2) by (auto simp: pass_index_def intro: subseq_rev_drop_many)
  then show ?thesis using assms(2) skip unfolding pass_index_def by (auto simp: image_iff)
next
  case (advance x R)
  then show ?thesis using assms(2) unfolding pass_index_def by (auto split: if_splits)
qed

section \<open>Slices\<close>

definition touched :: "lamport \<Rightarrow> fragment \<Rightarrow> bool" where
  "touched ts f \<longleftrightarrow> frag_timestamp f = ts \<or> ts \<in> set (frag_deletions f)"

text \<open>The slices recorded for an edit are the fragments it inserted or deleted.\<close>

definition pass_slices :: "lamport \<Rightarrow> pass \<Rightarrow> bool" where
  "pass_slices ts p \<longleftrightarrow> p_slices p = map (slice_from_fragment ts) (filter (touched ts) (map fst (p_new p)))"

lemma pass_slices_start: "pass_slices ts (pass_start ps)"
  by (simp add: pass_slices_def pass_start_def)

lemma new_pieces_touched: "filter (touched ts) (map fst (new_pieces ts prev nxt off cs)) = map fst (new_pieces ts prev nxt off cs)"
  by (induction cs arbitrary: prev off) (auto simp: touched_def new_fragment_def)

lemma pass_slices_step:
  assumes "pass_step ts dl p q" "pass_slices ts p" "pass_shape ts ps p" "fresh ts ps"
  shows "pass_slices ts q"
proof -
  have rest: "\<not> touched ts (fst x)" if "x \<in> set (p_rest p)" for x
    using that assms(3,4) by (auto simp: pass_shape_def fresh_def touched_def)
  show ?thesis
    using assms(1)
  proof cases
    case (skip a b)
    then have "filter (touched ts) (map fst a) = []" using rest by (auto simp: filter_empty_conv)
    then show ?thesis using assms(2) skip by (simp add: pass_slices_def)
  next
    case (insert cs ns)
    then show ?thesis using assms(2) new_pieces_touched by (simp add: pass_slices_def)
  qed (use assms(2) rest in \<open>auto simp: pass_slices_def touched_def\<close>)
qed

section \<open>Patch\<close>

definition pass_patch :: "piece list \<Rightarrow> pass \<Rightarrow> bool" where
  "pass_patch ps p \<longleftrightarrow> patch_upto (p_patch p) (take (p_vis p) (vis ps)) (vis (p_new p))"

lemma pass_patch_start: "pass_patch ps (pass_start ps)"
  by (cases ps) (simp_all add: pass_patch_def pass_start_def p_vis_def)

lemma take_p_vis:
  assumes "pass_shape ts ps p"
  shows "take (p_vis p) (vis ps) = vis (p_done p) @
    (case p_rest p of [] \<Rightarrow> [] | x # _ \<Rightarrow> if frag_visible (fst x) then take (p_used p) (snd x) else [])"
proof -
  have "ps = p_done p @ p_rest p" using assms by (simp add: pass_shape_def)
  then show ?thesis using assms by (cases "p_rest p") (auto simp: p_vis_def pass_shape_def)
qed

lemma length_take_p_vis: "pass_shape ts ps p \<Longrightarrow> length (take (p_vis p) (vis ps)) = p_vis p"
  unfolding take_p_vis by (cases "p_rest p") (auto simp: p_vis_def pass_shape_def)

lemma vis_new_pieces: "vis (new_pieces ts prev nxt off cs) = concat cs"
  by (induction cs arbitrary: prev off) (auto simp: new_fragment_def)

lemma pass_patch_step:
  assumes "pass_step ts dl p q" "pass_patch ps p" "pass_shape ts ps p" "pass_shape ts ps q"
  shows "pass_patch ps q"
proof -
  note before = take_p_vis [OF assms(3)] and after = take_p_vis [OF assms(4)]
  have upto: "patch_upto (p_patch p) (take (p_vis p) (vis ps)) (vis (p_new p))" using assms(2) by (simp add: pass_patch_def)
  have len: "length (take (p_vis p) (vis ps)) = p_vis p" using length_take_p_vis [OF assms(3)] .
  show ?thesis
    using assms(1)
  proof cases
    case (keep x R n)
    then have "take (p_vis q) (vis ps) = take (p_vis p) (vis ps) @ (if frag_visible (fst x) then take n (drop (p_used p) (snd x)) else [])"
      unfolding before after by (simp add: take_more)
    then show ?thesis using keep upto by (simp add: pass_patch_def patch_upto_copy)
  next
    case (mark x R n y)
    then have v: "take (p_vis q) (vis ps) = take (p_vis p) (vis ps) @ (if frag_visible (fst x) then take n (drop (p_used p) (snd x)) else [])"
      unfolding before after by (simp add: take_more)
    have "length (take n (drop (p_used p) (snd x))) = n" using mark by simp
    from patch_upto_push [OF upto this [symmetric], of 0 "[]"] len upto v show ?thesis
      using mark by (simp add: pass_patch_def)
  next
    case (finish x R)
    then have "take (p_vis q) (vis ps) = take (p_vis p) (vis ps) @ (if frag_visible (fst x) then drop (p_used p) (snd x) else [])"
      unfolding before after by (cases R) simp_all
    then show ?thesis using finish upto by (simp add: pass_patch_def patch_upto_copy)
  next
    case (insert cs ns)
    then have "take (p_vis q) (vis ps) = take (p_vis p) (vis ps)" unfolding before after by (simp split: list.splits)
    with patch_upto_push [OF upto, of 0 "[]" "length (concat cs)" "concat cs"] len show ?thesis
      using insert vis_new_pieces by (simp add: pass_patch_def)
  next
    case (skip a b)
    then have "take (p_vis q) (vis ps) = take (p_vis p) (vis ps) @ vis a"
      unfolding before after by (cases a; cases b) simp_all
    then show ?thesis using skip upto by (simp add: pass_patch_def patch_upto_copy)
  next
    case (advance x R)
    then have "take (p_vis q) (vis ps) = take (p_vis p) (vis ps)" unfolding before after by (cases R) simp_all
    then show ?thesis using advance upto by (simp add: pass_patch_def)
  qed
qed

section \<open>A whole pass\<close>

text \<open>Everything a pass has established when it reaches a state.\<close>

definition pass_inv :: "lamport \<Rightarrow> (nat \<Rightarrow> bool) \<Rightarrow> piece list \<Rightarrow> pass \<Rightarrow> bool" where
  "pass_inv ts dl ps p \<longleftrightarrow> pass_shape ts ps p \<and> pass_cells ts dl p \<and> pass_index p \<and> pass_slices ts p \<and> pass_patch ps p"

lemma pass_inv_steps:
  assumes "pass_steps ts dl (pass_start ps) q" "pieces_ok ps" "fresh ts ps"
  shows "pass_inv ts dl ps q"
  using assms(1)
proof (induction rule: rtranclp_induct)
  case base
  then show ?case
    using assms(2) pass_shape_start pass_cells_start pass_index_start pass_slices_start pass_patch_start
    by (simp add: pass_inv_def pieces_ok_def)
next
  case (step p q)
  have ok: "list_all piece_ok ps" using assms(2) by (simp add: pieces_ok_def)
  have "pass_shape ts ps q" using pass_shape_step step ok by (auto simp: pass_inv_def)
  moreover have "pass_cells ts dl q" using pass_cells_step step ok assms(3) by (auto simp: pass_inv_def)
  moreover have "pass_index q" using pass_index_step step by (auto simp: pass_inv_def)
  moreover have "pass_slices ts q" using pass_slices_step step assms(3) by (auto simp: pass_inv_def)
  moreover have "pass_patch ps q" using pass_patch_step step calculation(1) by (auto simp: pass_inv_def)
  ultimately show ?case by (simp add: pass_inv_def)
qed

lemma distinct_partition: "distinct (map f (filter P xs)) \<Longrightarrow> distinct (map f (filter (\<lambda>x. \<not> P x) xs))
    \<Longrightarrow> f ` {x \<in> set xs. P x} \<inter> f ` {x \<in> set xs. \<not> P x} = {} \<Longrightarrow> distinct (map f xs)"
proof (induction xs)
  case (Cons x xs)
  have "f x \<notin> f ` set xs" using Cons.prems by (auto split: if_splits)
  moreover have "distinct (map f xs)"
    using Cons.prems by (intro Cons.IH) (auto split: if_splits)
  ultimately show ?case by simp
qed simp

text \<open>The pieces at the end of a pass are well formed again.\<close>

lemma pass_result_ok:
  assumes "pass_inv ts dl ps q" "p_rest q = []" "pieces_ok ps"
  shows "pieces_ok (p_new q)"
proof -
  have sh: "pass_shape ts ps q" and ce: "pass_cells ts dl q" using assms(1) by (simp_all add: pass_inv_def)
  have "consumed q = cells ps" using sh assms(2) by (simp add: consumed_def pass_shape_def)
  with ce have old: "map cell_key (filter (old_cell ts) (cells (p_new q))) = map cell_key (cells ps)"
    by (simp add: pass_cells_def)
  obtain bs where new: "filter (\<lambda>c. \<not> old_cell ts c) (cells (p_new q)) = map (\<lambda>(i, b). new_cell ts i b) (enumerate 0 bs)"
    using ce by (auto simp: pass_cells_def)
  have "distinct (map cell_key (cells (p_new q)))"
  proof (rule distinct_partition [where P = "old_cell ts"])
    show "distinct (map cell_key (filter (old_cell ts) (cells (p_new q))))" using old assms(3) by (simp add: pieces_ok_def)
    have "map cell_key (map (\<lambda>(i, b). new_cell ts i b) (enumerate 0 bs)) = map (\<lambda>(i, b). (ts, i)) (enumerate 0 bs)"
      by (simp add: comp_def case_prod_unfold new_cell_def cell_key_def)
    also have "\<dots> = map (\<lambda>i. (ts, i)) [0..<length bs]" by (rule nth_equalityI) (simp_all add: nth_enumerate_eq)
    finally show "distinct (map cell_key (filter (\<lambda>c. \<not> old_cell ts c) (cells (p_new q))))"
      unfolding new by (simp add: distinct_map inj_on_def)
    show "cell_key ` {c \<in> set (cells (p_new q)). old_cell ts c} \<inter> cell_key ` {c \<in> set (cells (p_new q)). \<not> old_cell ts c} = {}"
      by (auto simp: cell_key_def old_cell_def)
  qed
  with sh assms(2) show ?thesis by (simp add: pieces_ok_def pass_shape_def)
qed

text \<open>Distinct cells give distinct keys in the index.\<close>

lemma frag_keys_distinct:
  assumes "pieces_ok ps"
  shows "distinct (map (frag_key \<circ> fst) ps)"
proof -
  have "list_all piece_ok ps \<Longrightarrow> distinct (map cell_key (cells ps)) \<Longrightarrow> distinct (map (frag_key \<circ> fst) ps)"
  proof (induction ps)
    case (Cons x ps)
    have key: "\<exists>c \<in> set (piece_cells y). cell_key c = (frag_timestamp (fst y), unat (frag_insertion_offset (fst y)))"
      if "piece_ok y" for y
    proof -
      have "snd y \<noteq> []" using that by (simp add: piece_ok_def)
      then have "0 < length (snd y)" by (rule length_greater_0_conv [THEN iffD2])
      then show ?thesis
        by (intro bexI [of _ "piece_cells y ! 0"] nth_mem) (simp_all add: nth_piece_cells cell_key_def mk_cell_def)
    qed
    have "frag_key (fst x) \<noteq> frag_key (fst y)" if "y \<in> set ps" for y
    proof
      assume eq: "frag_key (fst x) = frag_key (fst y)"
      have "piece_ok x" "piece_ok y" using Cons.prems(1) that by (auto simp: list_all_iff)
      with key obtain c d where "c \<in> set (piece_cells x)" "d \<in> set (piece_cells y)" "cell_key c = cell_key d"
        using eq unfolding frag_key_def by (metis prod.inject)
      moreover have "set (piece_cells y) \<subseteq> set (cells ps)" using that by (auto simp: cells_def)
      moreover have "cell_key ` set (piece_cells x) \<inter> cell_key ` set (cells ps) = {}" using Cons.prems(2) by simp
      ultimately show False by (metis disjoint_iff imageI subsetD)
    qed
    then show ?case using Cons by auto
  qed simp
  then show ?thesis using assms by (simp add: pieces_ok_def)
qed

section \<open>Moves\<close>

text \<open>The pass moved from one state to another without inserting.\<close>

definition moves :: "lamport \<Rightarrow> (nat \<Rightarrow> bool) \<Rightarrow> pass \<Rightarrow> pass \<Rightarrow> bool" where
  "moves ts dl p q \<longleftrightarrow> pass_steps ts dl p q \<and> p_offset q = p_offset p"

lemma moves_refl [simp]: "moves ts dl p p"
  by (simp add: moves_def)

lemma moves_trans: "moves ts dl p q \<Longrightarrow> moves ts dl q r \<Longrightarrow> moves ts dl p r"
  by (auto simp: moves_def)

lemma moves_step: "pass_step ts dl p q \<Longrightarrow> p_offset q = p_offset p \<Longrightarrow> moves ts dl p q"
  by (auto simp: moves_def)

lemma p_index_le: "pass_shape ts ps p \<Longrightarrow> p_index p \<le> length (cells ps)"
  using length_consumed [of ts ps p] take_consumed [of ts ps p] by (metis length_take min.bounded_iff order_refl)

lemma moves_cells:
  assumes "pass_shape ts ps p" "list_all piece_ok ps" "moves ts dl p q"
  shows "p_index p \<le> p_index q" "p_index q \<le> length (cells ps)"
    "cells (p_new q) = cells (p_new p) @ marks ts dl (p_index p) (take (p_index q - p_index p) (drop (p_index p) (cells ps)))"
proof -
  have steps: "pass_steps ts dl p q" "p_offset q = p_offset p" using assms(3) by (simp_all add: moves_def)
  have q: "pass_shape ts ps q" by (rule pass_shape_steps [OF steps(1) assms(1,2)])
  from pass_steps_consume(2) [OF steps(1) assms(1,2) steps(2)] obtain t where
    t: "consumed q = consumed p @ t" "cells (p_new q) = cells (p_new p) @ marks ts dl (p_index p) t" by blast
  have idx: "p_index q = p_index p + length t" using length_consumed [OF q] length_consumed [OF assms(1)] t(1) by simp
  then show "p_index p \<le> p_index q" by simp
  show "p_index q \<le> length (cells ps)" by (rule p_index_le [OF q])
  have "take (p_index q) (cells ps) = take (p_index p) (cells ps) @ t" using take_consumed [OF q] take_consumed [OF assms(1)] t(1) by simp
  then have "t = take (length t) (drop (p_index p) (cells ps))" by (simp add: idx take_add)
  then show "cells (p_new q) = cells (p_new p) @ marks ts dl (p_index p) (take (p_index q - p_index p) (drop (p_index p) (cells ps)))"
    using t(2) idx by simp
qed

section \<open>Weaving texts into cells\<close>

text \<open>The texts are put before the cells with the given indices, in ascending order; the cells are marked as told.\<close>

fun weave :: "lamport \<Rightarrow> (nat \<Rightarrow> bool) \<Rightarrow> cell list \<Rightarrow> nat \<Rightarrow> nat \<Rightarrow> (nat \<times> char list) list \<Rightarrow> cell list" where
  "weave ts dl cs i off [] = marks ts dl i (drop i cs)"
| "weave ts dl cs i off ((k, t) # ks) =
     marks ts dl i (take (k - i) (drop i cs)) @ map (\<lambda>(n, c). new_cell ts n c) (enumerate off t)
       @ weave ts dl cs k (off + length t) ks"

lemma marks_split:
  assumes "i \<le> j" "j \<le> k"
  shows "marks ts dl i (take (k - i) (drop i cs)) = marks ts dl i (take (j - i) (drop i cs)) @ marks ts dl (min j (length cs)) (take (k - j) (drop j cs))"
proof -
  have "take (k - i) (drop i cs) = take (j - i) (drop i cs) @ take (k - j) (drop j cs)"
    using assms take_add [of "j - i" "k - j" "drop i cs"] by simp
  moreover have "i + length (take (j - i) (drop i cs)) = min j (length cs) \<or> take (k - j) (drop j cs) = []" using assms(1) by auto
  ultimately show ?thesis by (auto simp: marks_append)
qed

lemma weave_advance:
  assumes "i \<le> j" "j \<le> length cs" "\<And>k t ks'. ks = (k, t) # ks' \<Longrightarrow> j \<le> k"
  shows "weave ts dl cs i off ks = marks ts dl i (take (j - i) (drop i cs)) @ weave ts dl cs j off ks"
proof (cases ks)
  case Nil
  then show ?thesis using marks_split [OF assms(1,2), of ts dl cs] assms(2) by (simp add: min_absorb1)
next
  case (Cons x ks')
  then show ?thesis
    using marks_split [OF assms(1) assms(3), of "fst x" "snd x" ks' ts dl cs] assms(2) by (cases x) (simp add: min_absorb1)
qed

lemma marks_hidden:
  "(\<And>i. i < length cs \<Longrightarrow> c_visible (cs ! i) \<Longrightarrow> dl (j + i)) \<Longrightarrow> filter c_visible (marks ts dl j cs) = []"
proof (induction cs arbitrary: j)
  case (Cons c cs)
  have "filter c_visible (marks ts dl (Suc j) cs) = []" using Cons.prems [of "Suc i" for i] by (intro Cons.IH) simp
  then show ?case using Cons.prems [of 0] by auto
qed simp

end
