(* ===== verification/EditSim.thy ===== *)
theory EditSim
  imports Pass
begin

text \<open>
  The state of an edit pass in the code simulates a state of the pass on pieces: the cursor stands at
  the rest of the pieces, the builders hold the new ones, and the rope cursors stand where the consumed
  text ends.  Each action of the code is shown to succeed and to keep the simulation.
\<close>

section \<open>Ropes\<close>

definition mk_rb :: "rope \<Rightarrow> nat \<Rightarrow> rope \<Rightarrow> nat \<Rightarrow> rope \<Rightarrow> rope \<Rightarrow> rope_builder" where
  "mk_rb v i d j nv nd =
     \<lparr>old_visible_cursor = \<lparr>rc_rope = v, rc_offset = i\<rparr>, old_deleted_cursor = \<lparr>rc_rope = d, rc_offset = j\<rparr>,
      new_visible = nv, new_deleted = nd\<rparr>"

lemma starts_char_append: "starts_char a \<Longrightarrow> starts_char b \<Longrightarrow> starts_char (a @ b)"
  by (cases a) (auto simp: starts_char_def)

lemma boundary_append: "starts_char b \<Longrightarrow> is_char_boundary (a @ b) (length a)"
  by (cases b) (auto simp: is_char_boundary_def starts_char_def)

lemma starts_char_vis: "list_all piece_ok ps \<Longrightarrow> starts_char (vis ps) \<and> starts_char (del ps)"
proof (induction ps)
  case (Cons x ps)
  then show ?case by (auto simp: piece_ok_def intro!: starts_char_append)
qed (simp add: starts_char_def)

lemma rope_slice_append:
  assumes "v = a @ t @ b" "starts_char (t @ b)" "starts_char b"
  shows "rope_cursor_slice (length a + length t) \<lparr>rc_rope = v, rc_offset = length a\<rparr>
    = Some (t, \<lparr>rc_rope = v, rc_offset = length a + length t\<rparr>)"
  using assms boundary_append [of "t @ b" a] boundary_append [of b "a @ t"] by (simp add: rope_cursor_slice_def)

lemma rb_push_visible:
  assumes "v = a @ t @ b" "starts_char (t @ b)" "starts_char b"
  shows "rb_push (length t) True is (mk_rb v (length a) d j nv nd)
    = Some (mk_rb v (length a + length t) d j (nv @ (if is then t else [])) (nd @ (if is then [] else t)))"
  using rope_slice_append [OF assms] by (simp add: rb_push_def mk_rb_def)

lemma rb_push_deleted:
  assumes "d = a @ t @ b" "starts_char (t @ b)" "starts_char b"
  shows "rb_push (length t) False is (mk_rb v i d (length a) nv nd)
    = Some (mk_rb v i d (length a + length t) (nv @ (if is then t else [])) (nd @ (if is then [] else t)))"
  using rope_slice_append [OF assms] by (simp add: rb_push_def mk_rb_def)

definition p_del :: "pass \<Rightarrow> nat" where
  "p_del p = length (del (p_done p)) +
     (case p_rest p of [] \<Rightarrow> 0 | x # _ \<Rightarrow> if frag_visible (fst x) then 0 else p_used p)"

definition ropes_of :: "piece list \<Rightarrow> pass \<Rightarrow> rope_builder" where
  "ropes_of ps p = mk_rb (vis ps) (p_vis p) (del ps) (p_del p) (vis (p_new p)) (del (p_new p))"

lemma rb_push_part:
  assumes "p_done p @ p_rest p = ps" "list_all piece_ok ps" "p_rest p = x # R"
    and "p_used p + n \<le> length (snd x)" "starts_char (drop (p_used p) (snd x))" "starts_char (drop (p_used p + n) (snd x))"
  defines "t \<equiv> take n (drop (p_used p) (snd x))"
  shows "rb_push n (frag_visible (fst x)) is (ropes_of ps p) =
    Some (mk_rb (vis ps) (p_vis p + (if frag_visible (fst x) then n else 0)) (del ps)
      (p_del p + (if frag_visible (fst x) then 0 else n)) (vis (p_new p) @ (if is then t else []))
      (del (p_new p) @ (if is then [] else t)))"
proof -
  let ?a = "take (p_used p) (snd x)" and ?b = "drop (p_used p + n) (snd x)"
  have x: "snd x = ?a @ t @ ?b"
    unfolding t_def by (metis append_take_drop_id drop_drop add.commute)
  have n: "length t = n" "length ?a = p_used p" using assms(4) by (simp_all add: t_def)
  have R: "starts_char (vis R)" "starts_char (del R)" using assms(1-3) starts_char_vis [of R] by auto
  have tb: "t @ ?b = drop (p_used p) (snd x)"
    unfolding t_def by (metis append_take_drop_id drop_drop add.commute)
  show ?thesis
  proof (cases "frag_visible (fst x)")
    case True
    have "vis ps = vis (p_done p) @ snd x @ vis R" using assms(1,3) True by auto
    also have "\<dots> = vis (p_done p) @ (?a @ t @ ?b) @ vis R" by (rule arg_cong [where f = "\<lambda>s. vis (p_done p) @ s @ vis R", OF x])
    finally have v: "vis ps = (vis (p_done p) @ ?a) @ t @ (?b @ vis R)" by simp
    have "starts_char (t @ (?b @ vis R))"
      using starts_char_append [OF assms(5) R(1)] tb by (simp flip: append_assoc)
    moreover have "starts_char (?b @ vis R)" using assms(6) R(1) by (rule starts_char_append)
    moreover have "p_vis p = length (vis (p_done p) @ ?a)" using True assms(3) n by (simp add: p_vis_def)
    ultimately show ?thesis
      using rb_push_visible [OF v] n True by (simp add: ropes_of_def)
  next
    case False
    have "del ps = del (p_done p) @ snd x @ del R" using assms(1,3) False by auto
    also have "\<dots> = del (p_done p) @ (?a @ t @ ?b) @ del R" by (rule arg_cong [where f = "\<lambda>s. del (p_done p) @ s @ del R", OF x])
    finally have v: "del ps = (del (p_done p) @ ?a) @ t @ (?b @ del R)" by simp
    have "starts_char (t @ (?b @ del R))"
      using starts_char_append [OF assms(5) R(2)] tb by (simp flip: append_assoc)
    moreover have "starts_char (?b @ del R)" using assms(6) R(2) by (rule starts_char_append)
    moreover have "p_del p = length (del (p_done p) @ ?a)" using False assms(3) n by (simp add: p_del_def)
    ultimately show ?thesis
      using rb_push_deleted [OF v] n False by (simp add: ropes_of_def)
  qed
qed

text \<open>Appending whole pieces.\<close>

lemma rb_append_pieces:
  assumes "p_done p @ a @ b = ps" "list_all piece_ok ps" "p_rest p = a @ b" "p_used p = 0"
  shows "rb_append \<lparr>fts_visible = length (vis a), fts_deleted = length (del a)\<rparr> (ropes_of ps p) =
    Some (ropes_of ps (p\<lparr>p_done := p_done p @ a, p_rest := b, p_new := p_new p @ a\<rparr>))"
proof -
  have ok: "starts_char (vis b)" "starts_char (del b)" "starts_char (vis (a @ b))" "starts_char (del (a @ b))"
    using starts_char_vis [of b] starts_char_vis [of "a @ b"] assms(1,2) by auto
  have v: "vis ps = vis (p_done p) @ vis a @ vis b" "del ps = del (p_done p) @ del a @ del b"
    using assms(1) by auto
  have "p_vis p = length (vis (p_done p))" "p_del p = length (del (p_done p))"
    using assms(3,4) by (simp_all add: p_vis_def p_del_def split: list.splits)
  then show ?thesis
    using rb_push_visible [OF v(1)] rb_push_deleted [OF v(2)] ok assms(4)
    by (simp add: rb_append_def ropes_of_def p_vis_def p_del_def split: list.splits)
qed

section \<open>The simulation\<close>

definition edit_base :: "fragment_tree \<Rightarrow> piece list \<Rightarrow> bool" where
  "edit_base root ps \<longleftrightarrow> fragment_tree.good root \<and> height root < STACK_CAPACITY \<and> items root = map fst ps
     \<and> pieces_ok ps"

definition simulates ::
  "('d, fragment_summary) dimension \<Rightarrow> fragment_tree \<Rightarrow> piece list \<Rightarrow> 'd edit_state \<Rightarrow> pass \<Rightarrow> bool" where
  "simulates dm root ps st p \<longleftrightarrow>
     p_done p @ p_rest p = ps
     \<and> cursor_ok root (old_fragments st) (map fst (p_rest p)) \<and> did_seek (old_fragments st)
     \<and> cursor_position (old_fragments st) = pos_after fragment_ops dm (dim_zero dm) (map fst (p_done p))
     \<and> fb_holds (new_fragments st) (map fst (p_new p)) \<and> new_ropes st = ropes_of ps p
     \<and> new_insertions st = map insert_new (p_emit p) \<and> new_slices st = p_slices p
     \<and> insertion_offset st = of_nat (p_offset p) \<and> edits_patch st = p_patch p"

definition item_pos :: "('d, fragment_summary) dimension \<Rightarrow> pass \<Rightarrow> 'd" where
  "item_pos dm p = pos_after fragment_ops dm (dim_zero dm) (map fst (p_done p))"

lemma list_first_map [simp]: "list_first (map f xs) = map_option f (list_first xs)"
  by (cases xs) (simp_all add: list_first_def)

lemma sim_item:
  assumes "simulates dm root ps st p"
  shows "item (old_fragments st) = Some (map_option fst (list_first (p_rest p)))"
    and "p_rest p = x # R \<Longrightarrow> item_unwrap (old_fragments st) = Some (fst x)"
proof -
  show i: "item (old_fragments st) = Some (map_option fst (list_first (p_rest p)))"
    using assms cursor_item_ok by (fastforce simp: simulates_def)
  then show "p_rest p = x # R \<Longrightarrow> item_unwrap (old_fragments st) = Some (fst x)"
    by (simp add: item_unwrap_def list_first_def)
qed

lemma sim_start:
  assumes "simulates dm root ps st p"
  shows "start (old_fragments st) = item_pos dm p" "start_at rd st = rd (item_pos dm p)"
  using assms by (simp_all add: simulates_def start_def start_at_def item_pos_def)

lemma sim_end:
  assumes "simulates dm root ps st p" "edit_base root ps"
  shows "end_at dm rd st = rd (case p_rest p of [] \<Rightarrow> item_pos dm p | x # _ \<Rightarrow> item_end fragment_ops dm (item_pos dm p) (fst x))"
proof -
  have "cursor_item_summary (old_fragments st) = Some (map_option (item_summary fragment_ops) (list_first (map fst (p_rest p))))"
    using assms by (intro cursor_item_summary_ok [where root = root]) (auto simp: simulates_def edit_base_def)
  then show ?thesis
    using sim_start(1) [OF assms(1)]
    by (auto simp: end_at_def cursor_end_def list_first_def item_end_def split: list.splits)
qed

lemma sim_advance:
  assumes "simulates dm root ps st p" "edit_base root ps" "p_rest p = x # R" "p_used p = length (snd x)"
  shows "\<exists>st'. advance dm st = Some st' \<and> simulates dm root ps st' (p\<lparr>p_done := p_done p @ [x], p_rest := R, p_used := 0\<rparr>)
    \<and> fragment_start st' = fragment_start st"
proof -
  have c: "cursor_ok root (old_fragments st) (map fst (p_rest p))" "did_seek (old_fragments st)"
    using assms(1) by (simp_all add: simulates_def)
  have root: "fragment_tree.good root" "height root < STACK_CAPACITY" using assms(2) unfolding edit_base_def by blast+
  from fragment_tree.cursor_next_ok [OF c(1) root, of dm] c(2) assms(3) obtain c' where
    c': "cursor_next dm (old_fragments st) = Some c'" "did_seek c'" "cursor_ok root c' (map fst R)"
      "cursor_position c' = item_end fragment_ops dm (cursor_position (old_fragments st)) (fst x)"
    by auto
  have "ropes_of ps (p\<lparr>p_done := p_done p @ [x], p_rest := R, p_used := 0\<rparr>) = ropes_of ps p"
    using assms(3,4) by (simp add: ropes_of_def p_vis_def p_del_def split: list.splits)
  with assms(1,3) c' show ?thesis by (simp add: advance_def simulates_def)
qed

lemma sim_emit:
  assumes "simulates dm root ps st p" "edit_base root ps" "p_rest p = x # R"
    and "p_used p + n \<le> length (snd x)" "starts_char (drop (p_used p) (snd x))" "starts_char (drop (p_used p + n) (snd x))"
    and "snd y = take n (drop (p_used p) (snd x))" "unat (frag_len (fst y)) = n" "fragment_ok (fst y)"
  shows "\<exists>st'. emit_fragment (fst y) (frag_visible (fst x)) st = Some st'
    \<and> simulates dm root ps st' ((emit_piece y p)\<lparr>p_used := p_used p + n\<rparr>) \<and> fragment_start st' = fragment_start st
    \<and> old_fragments st' = old_fragments st"
proof -
  have ok: "list_all piece_ok ps" using assms(2) by (simp add: edit_base_def pieces_ok_def)
  have d: "p_done p @ p_rest p = ps" using assms(1) by (simp add: simulates_def)
  let ?q = "(emit_piece y p)\<lparr>p_used := p_used p + n\<rparr>"
  have "ropes_of ps ?q = mk_rb (vis ps) (p_vis p + (if frag_visible (fst x) then n else 0)) (del ps)
      (p_del p + (if frag_visible (fst x) then 0 else n)) (vis (p_new p) @ (if frag_visible (fst y) then snd y else []))
      (del (p_new p) @ (if frag_visible (fst y) then [] else snd y))"
    using assms(3) by (simp add: ropes_of_def p_vis_def p_del_def add.assoc)
  with rb_push_part [OF d ok assms(3-6), of "frag_visible (fst y)"] assms(7)
  have "rb_push n (frag_visible (fst x)) (frag_visible (fst y)) (ropes_of ps p) = Some (ropes_of ps ?q)" by simp
  moreover have "fb_holds (fb_push (fst y) (new_fragments st)) (map fst (p_new ?q))"
    using assms(1,9) fb_holds_push by (simp add: simulates_def)
  ultimately show ?thesis
    using assms(1,8) by (simp add: emit_fragment_def rb_push_fragment_def simulates_def)
qed

text \<open>The largest identifier so far, and the visible length so far.\<close>

lemma total_max_id: "fs_max_id (fragment_tree.items_total fs) = (if fs = [] then locator_min else frag_id (last fs))"
  by (induction fs rule: rev_induct)
    (simp_all add: sum_summaries_def fragment_summary_default_def fragment_summary_add_def fragment_item_summary_def Let_def)

lemma total_text:
  "fs_text (fragment_tree.items_total (map fst ps)) = \<lparr>fts_visible = length (vis ps), fts_deleted = length (del ps)\<rparr>"
  if "list_all piece_ok ps"
  using that
proof (induction ps rule: rev_induct)
  case (snoc x ps)
  then show ?case
    by (simp add: sum_summaries_def fragment_summary_add_def fragment_item_summary_def Let_def piece_ok_def)
qed (simp add: sum_summaries_def fragment_summary_default_def)

lemma sim_max_id:
  assumes "simulates dm root ps st p"
  shows "fs_max_id (fb_summary (new_fragments st)) = max_id (p_new p)"
  using assms total_max_id [of "map fst (p_new p)"] by (auto simp: simulates_def fb_holds_def max_id_def last_map)

lemma sim_visible_len:
  assumes "simulates dm root ps st p" "list_all piece_ok (p_new p)"
  shows "new_visible_len st = length (vis (p_new p))"
  using assms total_text [OF assms(2)] by (simp add: simulates_def fb_holds_def new_visible_len_def)

section \<open>Slices\<close>

abbreviation moved_past :: "pass \<Rightarrow> piece list \<Rightarrow> piece list \<Rightarrow> pass" where
  "moved_past p a b \<equiv> p\<lparr>p_done := p_done p @ a, p_rest := b, p_new := p_new p @ a\<rparr>"

lemma edit_base_root:
  assumes "edit_base root ps"
  shows "fragment_tree.good root" "height root < STACK_CAPACITY" "items root = map fst ps" "list_all piece_ok ps"
  using assms unfolding edit_base_def pieces_ok_def by blast+

lemma fragment_ok_pieces: "list_all piece_ok ps \<Longrightarrow> list_all fragment_ok (map fst ps)"
  by (auto simp: list_all_iff piece_ok_def)

text \<open>What the target splits off, read on the pieces.\<close>

definition splits_off :: "('d, fragment_summary) dimension \<Rightarrow> 'd target \<Rightarrow> bias \<Rightarrow> 'd \<Rightarrow> piece list \<Rightarrow> piece list \<Rightarrow> bool" where
  "splits_off dm tgt bi pos a b \<longleftrightarrow> tgt pos \<noteq> Less
     \<and> seekable fragment_ops dm (seek_past tgt bi) pos (map fst (a @ b))
     \<and> take_past fragment_ops dm (seek_past tgt bi) pos (map fst (a @ b)) = map fst a"

lemma splits_off_drop:
  "splits_off dm tgt bi pos a b \<Longrightarrow> drop_past fragment_ops dm (seek_past tgt bi) pos (map fst (a @ b)) = map fst b"
  using take_drop_past [of fragment_ops dm "seek_past tgt bi" pos "map fst (a @ b)"] by (simp add: splits_off_def)

lemma slice_pieces:
  assumes "cursor_ok root c (map fst (a @ b))" "edit_base root ps" "splits_off dm tgt bi (cursor_position c) a b"
    and "list_all piece_ok a"
  shows "\<exists>t c'. slice fragment_ops dm tgt bi c = Some (t, c') \<and> fragment_tree.good t \<and> items t = map fst a
    \<and> cursor_ok root c' (map fst b) \<and> did_seek c' \<and> cursor_position c' = pos_after fragment_ops dm (cursor_position c) (map fst a)
    \<and> fs_text (summary t) = \<lparr>fts_visible = length (vis a), fts_deleted = length (del a)\<rparr>"
proof -
  note root = edit_base_root [OF assms(2)]
  from fragment_tree.slice_ok [OF assms(1) root(1,2), of tgt dm bi] assms(3) splits_off_drop [OF assms(3)]
  obtain t c' where t: "slice fragment_ops dm tgt bi c = Some (t, c')" "fragment_tree.good t" "items t = map fst a"
    "cursor_ok root c' (map fst b)" "did_seek c'" "cursor_position c' = pos_after fragment_ops dm (cursor_position c) (items t)"
    by (auto simp: splits_off_def)
  have "fs_text (summary t) = \<lparr>fts_visible = length (vis a), fts_deleted = length (del a)\<rparr>"
    using fragment_tree.summary_items [OF t(2)] total_text [OF assms(4)] t(3) by simp
  with t show ?thesis by auto
qed

lemma sim_slice:
  assumes "simulates dm root ps st p" "edit_base root ps" "p_used p = 0" "p_rest p = a @ b"
    and "splits_off dm tgt bi (item_pos dm p) a b" "rd (item_pos dm (moved_past p a b)) = Some v"
  shows "\<exists>st'. append_slice dm rd tgt bi st = Some st' \<and> simulates dm root ps st' (moved_past p a b) \<and> fragment_start st' = v"
proof -
  note root = edit_base_root [OF assms(2)]
  have pos: "cursor_position (old_fragments st) = item_pos dm p" using sim_start(1) [OF assms(1)] by (simp add: start_def)
  have d: "p_done p @ a @ b = ps" using assms(1,4) by (simp add: simulates_def)
  then have a: "list_all piece_ok a" using root(4) by auto
  from slice_pieces [OF _ assms(2) _ a, of "old_fragments st" b dm tgt bi] assms(1,4,5) pos
  obtain t c' where t: "slice fragment_ops dm tgt bi (old_fragments st) = Some (t, c')" "fragment_tree.good t" "items t = map fst a"
    "cursor_ok root c' (map fst b)" "did_seek c'" "cursor_position c' = item_pos dm (moved_past p a b)"
    "fs_text (summary t) = \<lparr>fts_visible = length (vis a), fts_deleted = length (del a)\<rparr>"
    by (auto simp: simulates_def item_pos_def)
  have "fb_holds (fb_append t (new_fragments st)) (map fst (p_new p @ a))"
    using fb_holds_append [OF _ t(2)] assms(1) t(3) by (simp add: simulates_def)
  moreover have "rb_append (fs_text (summary t)) (new_ropes st) = Some (ropes_of ps (moved_past p a b))"
    using rb_append_pieces [OF d root(4) assms(4,3)] t(7) assms(1) by (simp add: simulates_def)
  ultimately show ?thesis
    using assms(1,6) t d by (simp add: append_slice_def simulates_def start_def item_pos_def)
qed

lemma sim_start_state:
  assumes "edit_base (fragments s) ps" "visible_text s = vis ps" "deleted_text s = del ps" "ps = a @ b"
    and "splits_off dm tgt bi (dim_zero dm) a b" "rd (item_pos dm (moved_past (pass_start ps) a b)) = Some v"
  shows "\<exists>st. edit_state_new dm rd tgt bi s = Some st \<and> simulates dm (fragments s) ps st (moved_past (pass_start ps) a b)
    \<and> fragment_start st = v"
proof -
  note root = edit_base_root [OF assms(1)]
  have a: "list_all piece_ok a" using root(4) assms(4) by auto
  have "cursor_ok (fragments s) (cursor_new dm (fragments s)) (map fst (a @ b))"
    using cursor_new_ok [of "fragments s" dm] root(3) assms(4) by simp
  from slice_pieces [OF this assms(1) _ a, of dm tgt bi] assms(5)
  obtain t c' where t: "slice fragment_ops dm tgt bi (cursor_new dm (fragments s)) = Some (t, c')" "fragment_tree.good t" "items t = map fst a"
    "cursor_ok (fragments s) c' (map fst b)" "did_seek c'" "cursor_position c' = item_pos dm (moved_past (pass_start ps) a b)"
    "fs_text (summary t) = \<lparr>fts_visible = length (vis a), fts_deleted = length (del a)\<rparr>"
    by (auto simp: item_pos_def cursor_new_def pass_start_def)
  have "rope_builder_new (visible_text s) (deleted_text s) = ropes_of ps (pass_start ps)"
    using assms(2,3) by (simp add: rope_builder_new_def ropes_of_def mk_rb_def pass_start_def p_vis_def p_del_def split: list.splits)
  moreover have "rb_append (fs_text (summary t)) (ropes_of ps (pass_start ps)) = Some (ropes_of ps (moved_past (pass_start ps) a b))"
    using rb_append_pieces [of "pass_start ps" a b ps] root(4) assms(4) t(7) by (simp add: pass_start_def)
  moreover have "fb_holds (fragment_builder_new t) (map fst a)" using fb_holds_new [OF t(2)] t(3) by simp
  moreover have "fb_summary (fragment_builder_new t) = summary t" by (simp add: fragment_builder_new_def)
  ultimately show ?thesis
    using assms(4,6) t by (simp add: edit_state_new_def simulates_def start_def item_pos_def pass_start_def patch_empty_def)
qed

section \<open>Consuming, splitting and inserting\<close>

definition move_on :: "pass \<Rightarrow> pass" where
  "move_on p = (case p_rest p of [] \<Rightarrow> p | x # R \<Rightarrow> p\<lparr>p_done := p_done p @ [x], p_rest := R, p_used := 0\<rparr>)"

text \<open>The state after the rest of a partially consumed piece has been kept.\<close>

definition finish_piece :: "pass \<Rightarrow> pass" where
  "finish_piece p = (case p_rest p of [] \<Rightarrow> p | x # R \<Rightarrow>
     if p_used p = 0 then p
     else if p_used p < length (snd x) then move_on (emit_piece (part x (p_used p) (length (snd x) - p_used p)) p)
     else move_on p)"

lemma finish_piece_used: "pass_shape ts ps p \<Longrightarrow> p_used (finish_piece p) = 0"
  by (auto simp: finish_piece_def move_on_def pass_shape_def split: list.splits)

lemma finish_piece_steps:
  assumes "pass_shape ts ps p"
    and "\<And>x R j. p_rest p = x # R \<Longrightarrow> 0 < p_used p \<Longrightarrow> p_index p \<le> j \<Longrightarrow> j < length (cells (p_done p)) + length (snd x) \<Longrightarrow> \<not> dl j"
  shows "pass_steps ts dl p (finish_piece p)"
proof (cases "p_rest p = [] \<or> p_used p = 0")
  case False
  then obtain x R where x: "p_rest p = x # R" "0 < p_used p" by (cases "p_rest p") auto
  have "pass_step ts dl p (finish_piece p)"
  proof (cases "p_used p < length (snd x)")
    case True
    have "pass_step ts dl p ((emit_piece (part x (p_used p) (length (snd x) - p_used p)) p)\<lparr>p_done := p_done p @ [x], p_rest := R, p_used := 0\<rparr>)"
      using x True assms(2) by (intro pass_step.finish) auto
    then show ?thesis using x True by (simp add: finish_piece_def move_on_def)
  next
    case False
    then have "p_used p = length (snd x)" using assms(1) x by (simp add: pass_shape_def)
    then show ?thesis using x pass_step.advance [of p x R ts dl] by (simp add: finish_piece_def move_on_def)
  qed
  then show ?thesis by (rule r_into_rtranclp)
qed (auto simp: finish_piece_def split: list.splits)

lemma starts_char_drop_all: "starts_char (drop (length t) t)"
  by (simp add: starts_char_def)

lemma part_fragment: "fst (part x k n) = fragment_part (fst x) k n"
  by (simp add: part_def)

lemma piece_ok_rest: "pass_shape ts ps p \<Longrightarrow> edit_base root ps \<Longrightarrow> p_rest p = x # R \<Longrightarrow> piece_ok x"
  using edit_base_root(4) [of root ps] by (auto simp: pass_shape_def)

lemma fragment_ok_part: "piece_ok x \<Longrightarrow> fragment_ok (fst (part x k n))"
  by (simp add: piece_ok_def part_def fragment_part_def fragment_ok_def)

lemma sim_consume_rest:
  assumes "simulates dm root ps st p" "edit_base root ps" "pass_shape ts ps p" "rd (item_pos dm p) = Some b"
    and "p_used p = 0 \<Longrightarrow> fragment_start st \<le> b"
    and "\<And>x R. p_rest p = x # R \<Longrightarrow> 0 < p_used p \<Longrightarrow>
      fragment_start st = b + p_used p \<and> rd (item_end fragment_ops dm (item_pos dm p) (fst x)) = Some (b + length (snd x))"
  shows "\<exists>st'. consume_rest dm rd st = Some st' \<and> simulates dm root ps st' (finish_piece p) \<and> fragment_start st' = fragment_start st"
proof (cases "p_used p = 0")
  case True
  then have "finish_piece p = p" by (simp add: finish_piece_def split: list.splits)
  then show ?thesis using True assms(1,4,5) sim_start(2) [OF assms(1), of rd] by (simp add: consume_rest_def not_less)
next
  case False
  then obtain x R where x: "p_rest p = x # R" using assms(3) by (cases "p_rest p") (auto simp: pass_shape_def)
  have fs: "fragment_start st = b + p_used p" and e: "end_at dm rd st = Some (b + length (snd x))"
    using assms(6) [OF x] False sim_end [OF assms(1,2), of rd] x by simp_all
  have ok: "piece_ok x" using piece_ok_rest [OF assms(3,2) x] .
  let ?n = "length (snd x) - p_used p" and ?y = "part x (p_used p) (length (snd x) - p_used p)"
  have le: "p_used p \<le> length (snd x)" using assms(3) x by (simp add: pass_shape_def)
  show ?thesis
  proof (cases "p_used p < length (snd x)")
    case True
    have "unat (frag_len (fst ?y)) = ?n" using part_fields(1) [OF ok, of "p_used p" ?n] le by simp
    with sim_emit [OF assms(1,2) x, of ?n ?y] le assms(3) x fragment_ok_part [OF ok] starts_char_drop_all
    obtain st' where st': "emit_fragment (fst ?y) (frag_visible (fst x)) st = Some st'"
      "simulates dm root ps st' ((emit_piece ?y p)\<lparr>p_used := length (snd x)\<rparr>)" "fragment_start st' = fragment_start st"
      by (auto simp: pass_shape_def)
    from sim_advance [OF st'(2) assms(2), of x R] x obtain st'' where
      st'': "advance dm st' = Some st''" "fragment_start st'' = fragment_start st'"
        "simulates dm root ps st'' (finish_piece p)"
      using True False by (auto simp: finish_piece_def move_on_def)
    have "frag_visible (fst ?y) = frag_visible (fst x)" by simp
    then show ?thesis
      using False True st' st'' fs e sim_start(2) [OF assms(1), of rd] assms(4) sim_item(2) [OF assms(1) x]
      by (simp add: consume_rest_def Let_def part_fragment)
  next
    case used: False
    from sim_advance [OF assms(1,2) x] used le x False obtain st' where
      "advance dm st = Some st'" "simulates dm root ps st' (finish_piece p)" "fragment_start st' = fragment_start st"
      by (auto simp: finish_piece_def move_on_def)
    then show ?thesis
      using False used le fs e sim_start(2) [OF assms(1), of rd] assms(4) by (simp add: consume_rest_def)
  qed
qed

definition keep_part :: "nat \<Rightarrow> pass \<Rightarrow> pass" where
  "keep_part n p = (case p_rest p of [] \<Rightarrow> p | x # R \<Rightarrow>
     (emit_piece (with_id (between (max_id (p_new p)) (frag_id (fst x))) (part x (p_used p) n)) p)\<lparr>p_used := p_used p + n\<rparr>)"

lemma sim_push_prefix:
  assumes "simulates dm root ps st p" "edit_base root ps" "pass_shape ts ps p" "rd (item_pos dm p) = Some b"
    and "p_rest p = x # R" "fragment_start st = b + p_used p" "fragment_start st < s" "s \<le> b + length (snd x)"
    and "starts_char (drop (s - b) (snd x))"
  shows "\<exists>st'. push_prefix rd s st = Some st' \<and> simulates dm root ps st' (keep_part (s - fragment_start st) p) \<and> fragment_start st' = s"
proof -
  have ok: "piece_ok x" using piece_ok_rest [OF assms(3,2,5)] .
  let ?n = "s - fragment_start st"
  let ?y = "with_id (between (max_id (p_new p)) (frag_id (fst x))) (part x (p_used p) ?n)"
  have n: "p_used p + ?n = s - b" "p_used p + ?n \<le> length (snd x)" using assms(6-8) by auto
  have "unat (frag_len (fst ?y)) = ?n" using part_fields(1) [OF ok n(2)] by (simp add: with_id_def)
  moreover have "fragment_ok (fst ?y)" using fragment_ok_part [OF ok] by (simp add: with_id_def fragment_ok_def)
  ultimately obtain st' where st': "emit_fragment (fst ?y) (frag_visible (fst x)) st = Some st'"
      "simulates dm root ps st' ((emit_piece ?y p)\<lparr>p_used := p_used p + ?n\<rparr>)"
    using sim_emit [OF assms(1,2,5), of ?n ?y] n assms(3,5,9) by (auto simp: pass_shape_def)
  have y: "fst ?y = (fragment_part (fst x) (p_used p) ?n)\<lparr>frag_id := between (max_id (p_new p)) (frag_id (fst x))\<rparr>"
    by (simp add: with_id_def part_fragment)
  have "frag_id (fragment_part (fst x) k m) = frag_id (fst x)" for k m by (simp add: fragment_part_def)
  moreover have "frag_visible ((fragment_part (fst x) (p_used p) ?n)\<lparr>frag_id := i\<rparr>) = frag_visible (fst x)" for i
    by (simp add: fragment_part_def)
  moreover have "simulates dm root ps (st'\<lparr>fragment_start := s\<rparr>) (keep_part ?n p)"
    using st'(2) assms(5) by (simp add: simulates_def keep_part_def)
  ultimately show ?thesis
    using st'(1) [unfolded y] assms(4,6,7) sim_start(2) [OF assms(1), of rd] sim_item(2) [OF assms(1,5)] sim_max_id [OF assms(1)]
    by (simp add: push_prefix_def Let_def)
qed

lemma push_chunks_single:
  fixes nxt ts
  assumes "t \<noteq> []" "length t \<le> MAX_INSERTION_LEN"
  defines "f \<equiv> \<lambda>st. new_fragment (between (fs_max_id (fb_summary (new_fragments st))) nxt) ts (insertion_offset st) (length t)"
  shows "push_chunks t ts nxt ets 0 st =
    Some (st\<lparr>new_slices := new_slices st @ [slice_from_fragment ets (f st)], new_insertions := new_insertions st @ [insert_new (f st)],
             new_fragments := fb_push (f st) (new_fragments st), insertion_offset := insertion_offset st + of_nat (length t)\<rparr>)"
proof -
  have "next_chunk_end t 0 = length t" using assms(2) by (simp add: next_chunk_end_def min_absorb1 Let_def)
  moreover have "push_chunks t ts nxt ets (length t) st' = Some st'" for st' :: "'a edit_state"
    by (subst push_chunks.simps) simp
  ultimately show ?thesis using assms(1) by (subst push_chunks.simps) (simp add: f_def Let_def)
qed

definition insert_text :: "lamport \<Rightarrow> char list \<Rightarrow> pass \<Rightarrow> pass" where
  "insert_text ts t p =
     (let ns = new_pieces ts (max_id (p_new p)) (next_id (p_rest p)) (p_offset p) [t] in
      p\<lparr>p_new := p_new p @ ns, p_emit := p_emit p @ map fst ns,
        p_slices := p_slices p @ map (slice_from_fragment ts \<circ> fst) ns, p_offset := p_offset p + length t,
        p_patch := patch_push (mk_edit (p_vis p) (p_vis p) (length (vis (p_new p)))
           (length (vis (p_new p)) + length t)) (p_patch p)\<rparr>)"

lemma insert_text_step:
  assumes "t \<noteq> []" "starts_char t" "p_offset p + length t < 2 ^ 32"
  shows "pass_step ts dl p (insert_text ts t p)"
  using pass_step.insert [of "[t]" p _ ts dl, OF _ _ _ refl] assms by (simp add: insert_text_def chunk_ok_def Let_def)

lemma next_fragment_id_eq: "next_fragment_id (map_option fst (list_first ps)) = next_id ps"
  by (cases ps) (simp_all add: next_fragment_id_def next_id_def list_first_def)

text \<open>\<open>old\<close> is the old visible offset reported for the insertion.\<close>

lemma sim_insert:
  assumes "simulates dm root ps st p" "list_all piece_ok (p_new p)" "t \<noteq> []" "p_offset p + length t < 2 ^ 32" "old = p_vis p"
  shows "\<exists>st'. push_fragments_for_insertion t ts (next_id (p_rest p)) ts st = Some st'
    \<and> simulates dm root ps (push_edit (old, old) (new_visible_len st, new_visible_len st + length t) st') (insert_text ts t p)
    \<and> fragment_start st' = fragment_start st"
proof -
  let ?f = "new_fragment (between (max_id (p_new p)) (next_id (p_rest p))) ts (of_nat (p_offset p)) (length t)"
  have len: "length t \<le> MAX_INSERTION_LEN" using assms(4) by (simp add: MAX_INSERTION_LEN_def)
  have "fragment_ok ?f" by (simp add: new_fragment_def fragment_ok_def global_wf_new)
  then have fb: "fb_holds (fb_push ?f (new_fragments st)) (map fst (p_new p) @ [?f])"
    using fb_holds_push assms(1) by (simp add: simulates_def)
  have "rb_push_str t (ropes_of ps p) = ropes_of ps (insert_text ts t p)"
    by (simp add: rb_push_str_def ropes_of_def mk_rb_def insert_text_def Let_def p_vis_def p_del_def new_fragment_def split: list.splits)
  with fb assms show ?thesis
    using sim_max_id [OF assms(1)] sim_visible_len [OF assms(1,2)]
    by (simp add: push_fragments_for_insertion_def push_chunks_single [OF assms(3) len] simulates_def insert_text_def Let_def
        push_edit_def)
qed

end
