(* ===== verification/Snapshot.thy ===== *)
theory Snapshot
  imports EditSim
begin

text \<open>
  The invariant of a \<^verbatim>\<open>BufferSnapshot\<close> and the common end of the edit passes: the new tree, the new
  ropes, the index of insertions and the set of insertion slices fit together again.
\<close>

section \<open>Invariant\<close>

text \<open>The insertion index maps the key of every fragment to its identifier, and has no other keys.\<close>

definition index_ok :: "insertion_tree \<Rightarrow> piece list \<Rightarrow> bool" where
  "index_ok ins ps \<longleftrightarrow> tree_wf insertion_ops ins \<and> key_sorted insertion_key (items ins)
     \<and> (\<forall>x \<in> set ps. lookup_key insertion_key (items ins) (frag_key (fst x)) = Some (insertion_fragment_new (fst x)))
     \<and> (\<forall>k. lookup_key insertion_key (items ins) k \<noteq> None \<longrightarrow> k \<in> frag_key ` fst ` set ps)"

text \<open>Every deletion of a cell, and its insertion unless it belongs to the base text, is recorded by a
  slice that covers it.\<close>

definition base_timestamp :: lamport where
  "base_timestamp = lamport_new LOCAL"

definition covers :: "insertion_slice set \<Rightarrow> lamport \<Rightarrow> cell \<Rightarrow> bool" where
  "covers sl d c \<longleftrightarrow> (\<exists>s \<in> sl. slice_edit_id s = d \<and> slice_insertion_id s = c_timestamp c
     \<and> unat (fst (slice_range s)) \<le> c_offset c \<and> c_offset c < unat (snd (slice_range s)))"

definition slice_set :: "(insertion_slice, unit) tree_map \<Rightarrow> insertion_slice set" where
  "slice_set m = dom (map_abs m)"

definition slices_ok :: "(insertion_slice, unit) tree_map \<Rightarrow> piece list \<Rightarrow> bool" where
  "slices_ok m ps \<longleftrightarrow> map_wf m \<and> (\<forall>x \<in> slice_set m. slice_insertion_id x \<noteq> lamport_MIN) \<and> (\<forall>c \<in> set (cells ps).
     (\<forall>d \<in> set (c_deletions c). covers (slice_set m) d c)
     \<and> (c_timestamp c \<noteq> base_timestamp \<longrightarrow> covers (slice_set m) (c_timestamp c) c))"

definition snapshot_ok :: "buffer_snapshot \<Rightarrow> piece list \<Rightarrow> bool" where
  "snapshot_ok s ps \<longleftrightarrow> fragment_tree.good (fragments s) \<and> items (fragments s) = map fst ps \<and> pieces_ok ps
     \<and> visible_text s = vis ps \<and> deleted_text s = del ps
     \<and> index_ok (insertions s) ps \<and> slices_ok (insertion_slices s) ps
     \<and> (\<forall>x \<in> set ps. frag_timestamp (fst x) \<noteq> lamport_MIN)"

text \<open>The depth the fixed stacks of the cursors allow.\<close>

definition heights_ok :: "buffer_snapshot \<Rightarrow> bool" where
  "heights_ok s \<longleftrightarrow> height (fragments s) < STACK_CAPACITY \<and> height (insertions s) < STACK_CAPACITY
     \<and> height (insertion_slices s) < STACK_CAPACITY \<and> height (undo_map s) < STACK_CAPACITY"

lemma snapshot_base: "snapshot_ok s ps \<Longrightarrow> heights_ok s \<Longrightarrow> edit_base (fragments s) ps"
  unfolding snapshot_ok_def heights_ok_def edit_base_def by blast

section \<open>The index after a pass\<close>

lemma subseq_distinct_map: "subseq xs ys \<Longrightarrow> distinct (map f ys) \<Longrightarrow> distinct (map f xs)"
  by (metis subseq_map distinct_nthsI subseq_conv_nths)

lemma edit_key_insert_new [simp]: "edit_key insertion_key (insert_new f) = frag_key f"
  by (simp add: edit_key_def insert_new_def insertion_key_def insertion_fragment_new_def frag_key_def)

lemma last_insert_new:
  assumes "distinct (map frag_key fs)" "f \<in> set fs"
  shows "list_last (filter (\<lambda>e. edit_key insertion_key e = frag_key f) (map insert_new fs)) = Some (insert_new f)"
proof -
  obtain as bs where fs: "fs = as @ f # bs" using assms(2) by (meson split_list)
  have "filter (\<lambda>e. edit_key insertion_key e = frag_key f) (map insert_new bs) = []"
    using assms(1) by (auto simp: fs filter_empty_conv image_iff)
  then show ?thesis by (simp add: fs list_last_def)
qed

lemma last_insert_new_None:
  "k \<notin> frag_key ` set fs \<Longrightarrow> list_last (filter (\<lambda>e. edit_key insertion_key e = k) (map insert_new fs)) = None"
  by (auto simp: list_last_def filter_empty_conv image_iff)

lemma lamport_MIN_less_key: "t \<noteq> lamport_MIN \<Longrightarrow> (lamport_MIN, 0) < (t, n :: 32 word)"
  using lamport_MIN_least [of t] by (auto simp: less_prod_def order.order_iff_strict)

text \<open>The fragments of a pass that are not indexed again were indexed before.\<close>

lemma index_after_pass:
  assumes "index_ok ins ps" "height ins < STACK_CAPACITY" "pass_index q" "p_done q = ps"
    and "pieces_ok ps" "pieces_ok (p_new q)" "\<forall>x \<in> set (p_new q). frag_timestamp (fst x) \<noteq> lamport_MIN"
    and "p_used q = 0"
  shows "\<exists>removed ins'. keyed_edit insertion_ops insertion_dim insertion_key (map insert_new (p_emit q)) ins = Some (removed, ins')
    \<and> index_ok ins' (p_new q)"
proof -
  have emit: "subseq (p_emit q) (map fst (p_new q))" and
    origin: "\<And>x. x \<in> set (p_new q) \<Longrightarrow> fst x \<in> set (p_emit q) \<or> x \<in> set ps" and
    keys: "\<And>x. x \<in> set ps \<Longrightarrow> frag_key (fst x) \<in> frag_key ` fst ` set (p_new q)"
    using assms(3,4,8) by (auto simp: pass_index_def)
  have dn: "distinct (map frag_key (map fst (p_new q)))" using frag_keys_distinct [OF assms(6)] by simp
  then have inj: "inj_on frag_key (fst ` set (p_new q))" by (simp only: distinct_map set_map)
  from dn have de: "distinct (map frag_key (p_emit q))" by (rule subseq_distinct_map [OF emit])
  have sub: "set (p_emit q) \<subseteq> fst ` set (p_new q)"
  proof
    fix f assume "f \<in> set (p_emit q)"
    then show "f \<in> fst ` set (p_new q)" using list_emb_set [OF emit] by (metis image_set)
  qed
  let ?es = "map insert_new (p_emit q)"
  have good: "tree_wf insertion_ops ins \<and> list_all (\<lambda>_. True) (items ins)" "key_sorted insertion_key (items ins)"
    using assms(1) by (simp_all add: index_ok_def list_all_iff)
  have ed: "distinct (map (edit_key insertion_key) ?es)" using de by (simp add: comp_def)
  have above: "dim_zero insertion_dim < edit_key insertion_key e" if "e \<in> set ?es" for e
  proof -
    obtain f where "f \<in> set (p_emit q)" "e = insert_new f" using \<open>e \<in> set ?es\<close> by auto
    then show ?thesis using sub assms(7) lamport_MIN_less_key by (auto simp: frag_key_def)
  qed
  from insertions.keyed_edit_lookup [OF good(1) assms(2) good(2) ed _ above] obtain removed ins' where
    ins': "keyed_edit insertion_ops insertion_dim insertion_key ?es ins = Some (removed, ins')" "tree_wf insertion_ops ins'"
      "key_sorted insertion_key (items ins')"
      "\<And>k. lookup_key insertion_key (items ins') k = (case list_last (filter (\<lambda>e. edit_key insertion_key e = k) ?es) of
           None \<Rightarrow> lookup_key insertion_key (items ins) k | Some (InsertEdit x) \<Rightarrow> Some x | Some (RemoveEdit _) \<Rightarrow> None)"
    by blast
  have emitted: "lookup_key insertion_key (items ins') (frag_key f) = Some (insertion_fragment_new f)" if "f \<in> set (p_emit q)" for f
    using ins'(4) [of "frag_key f"] last_insert_new [OF de that] by (simp add: insert_new_def)
  have other: "lookup_key insertion_key (items ins') k = lookup_key insertion_key (items ins) k" if "k \<notin> frag_key ` set (p_emit q)" for k
    using ins'(4) [of k] last_insert_new_None [OF that] by simp
  have "lookup_key insertion_key (items ins') (frag_key (fst x)) = Some (insertion_fragment_new (fst x))" if x: "x \<in> set (p_new q)" for x
  proof (cases "frag_key (fst x) \<in> frag_key ` set (p_emit q)")
    case True
    then obtain f where f: "f \<in> set (p_emit q)" "frag_key (fst x) = frag_key f" by blast
    then have "f = fst x" using inj_onD [OF inj, of f "fst x"] sub x by auto
    then show ?thesis using emitted f by simp
  next
    case False
    then have "x \<in> set ps" using origin [OF x] by blast
    then show ?thesis using other [OF False] assms(1) by (simp add: index_ok_def)
  qed
  moreover have "k \<in> frag_key ` fst ` set (p_new q)" if "lookup_key insertion_key (items ins') k \<noteq> None" for k
  proof (cases "k \<in> frag_key ` set (p_emit q)")
    case False
    then have "k \<in> frag_key ` fst ` set ps" using that other [OF False] assms(1) unfolding index_ok_def by metis
    then show ?thesis using keys by auto
  qed (use sub in blast)
  ultimately show ?thesis using ins'(1-3) unfolding index_ok_def by blast
qed

section \<open>The slices after a pass\<close>

lemma set_cells: "c \<in> set (cells ps) \<longleftrightarrow> (\<exists>x \<in> set ps. \<exists>i < length (snd x). c = mk_cell (fst x) i (snd x ! i))"
proof -
  have "c \<in> set (piece_cells x) \<longleftrightarrow> (\<exists>i < length (snd x). c = mk_cell (fst x) i (snd x ! i))" for x
    by (auto simp: in_set_conv_nth nth_piece_cells)
  then show ?thesis by (auto simp: cells_def)
qed

text \<open>A cell at the end of a pass is an old one, perhaps marked, or a new one.\<close>

lemma marks_origin: "c \<in> set (marks ts dl j cs) \<Longrightarrow> \<exists>b \<in> set cs. c = b \<or> c = mark ts b"
  by (induction cs arbitrary: j) (auto split: if_splits)

lemma pass_cell_origin:
  assumes "pass_inv ts dl ps q"
  shows "p_rest q = [] \<Longrightarrow> c \<in> set (cells (p_new q)) \<Longrightarrow> c_timestamp c \<noteq> ts \<Longrightarrow> \<exists>b \<in> set (cells ps). c = b \<or> c = mark ts b"
    and "c \<in> set (cells (p_new q)) \<Longrightarrow> c_timestamp c = ts \<Longrightarrow> \<exists>i b. c = new_cell ts i b"
proof -
  have ce: "pass_cells ts dl q" and sh: "pass_shape ts ps q" using assms by (simp_all add: pass_inv_def)
  show "\<exists>b \<in> set (cells ps). c = b \<or> c = mark ts b"
    if "p_rest q = []" "c \<in> set (cells (p_new q))" "c_timestamp c \<noteq> ts"
  proof -
    have "c \<in> set (filter (old_cell ts) (cells (p_new q)))" using that by (simp add: old_cell_def)
    then have "c \<in> set (marks ts dl 0 (consumed q))" using ce unfolding pass_cells_def by metis
    then have "\<exists>b \<in> set (consumed q). c = b \<or> c = mark ts b" by (rule marks_origin)
    moreover have "consumed q = cells ps" using sh that(1) by (simp add: consumed_def pass_shape_def)
    ultimately show ?thesis by simp
  qed
  show "\<exists>i b. c = new_cell ts i b" if "c \<in> set (cells (p_new q))" "c_timestamp c = ts"
  proof -
    have "c \<in> set (filter (\<lambda>c. \<not> old_cell ts c) (cells (p_new q)))" using that by (simp add: old_cell_def)
    moreover obtain bs where "filter (\<lambda>c. \<not> old_cell ts c) (cells (p_new q)) = map (\<lambda>(i, b). new_cell ts i b) (enumerate 0 bs)"
      using ce by (auto simp: pass_cells_def)
    ultimately have "c \<in> set (map (\<lambda>(i, b). new_cell ts i b) (enumerate 0 bs))" by simp
    then show ?thesis by auto
  qed
qed

lemma pass_timestamps:
  assumes "pass_inv ts dl ps q" "p_rest q = []" "x \<in> set (p_new q)"
  shows "frag_timestamp (fst x) = ts \<or> frag_timestamp (fst x) \<in> (frag_timestamp \<circ> fst) ` set ps"
proof -
  have "piece_ok x" using assms(1,3) by (auto simp: pass_inv_def pass_shape_def list_all_iff)
  then have "0 < length (snd x)" unfolding piece_ok_def by (intro length_greater_0_conv [THEN iffD2]) blast
  then have "mk_cell (fst x) 0 (snd x ! 0) \<in> set (cells (p_new q))" using assms(3) by (auto simp: set_cells)
  from pass_cell_origin(1) [OF assms(1,2) this] have
    "frag_timestamp (fst x) = ts \<or> (\<exists>b \<in> set (cells ps). c_timestamp b = frag_timestamp (fst x))"
    by (metis cell.select_convs(1) mark_fields(1) mk_cell_def)
  then show ?thesis
  proof (elim disjE bexE)
    fix b assume "b \<in> set (cells ps)" "c_timestamp b = frag_timestamp (fst x)"
    then show ?thesis by (metis cell.select_convs(1) comp_apply imageI mk_cell_def set_cells)
  qed simp
qed

lemma touched_covered:
  assumes "pass_slices ts q" "list_all piece_ok (p_new q)" "c \<in> set (cells (p_new q))" "c_timestamp c = ts \<or> ts \<in> set (c_deletions c)"
  shows "covers (set (p_slices q)) ts c"
proof -
  from assms(3) obtain x i where x: "x \<in> set (p_new q)" "i < length (snd x)" "c = mk_cell (fst x) i (snd x ! i)"
    by (auto simp: set_cells)
  then have "touched ts (fst x)" using assms(4) by (auto simp: touched_def mk_cell_def)
  then have s: "slice_from_fragment ts (fst x) \<in> set (p_slices q)" using assms(1) x(1) by (auto simp: pass_slices_def)
  have "piece_ok x" using assms(2) x(1) by (simp add: list_all_iff)
  then have "unat (frag_insertion_offset (fst x) + frag_len (fst x)) = unat (frag_insertion_offset (fst x)) + length (snd x)"
    by (simp add: piece_ok_def unat_word_ariths)
  with s x(2,3) show ?thesis
    unfolding covers_def by (intro bexI [OF _ s]) (simp add: slice_from_fragment_def mk_cell_def)
qed

lemma covers_mono: "covers sl d c \<Longrightarrow> sl \<subseteq> sl' \<Longrightarrow> covers sl' d c"
  unfolding covers_def by blast

lemma covers_mark [simp]: "covers sl d (mark ts c) = covers sl d c"
  by (simp add: covers_def mark_def)

lemma slices_distinct:
  assumes "pass_slices ts q" "pieces_ok (p_new q)"
  shows "distinct (p_slices q)"
proof -
  have "inj_on (slice_from_fragment ts) (set (map fst (p_new q)))"
    using frag_keys_distinct [OF assms(2)]
    by (auto simp: inj_on_def slice_from_fragment_def frag_key_def distinct_map)
  moreover have "distinct (map fst (p_new q))" using frag_keys_distinct [OF assms(2)] by (metis distinct_map map_map)
  ultimately show ?thesis using assms(1)
    by (auto simp: pass_slices_def distinct_map intro: inj_on_subset)
qed

lemma slices_after_pass:
  assumes "slices_ok m ps" "height m < STACK_CAPACITY" "pass_inv ts dl ps q" "p_rest q = []" "pieces_ok (p_new q)"
    and "\<forall>x \<in> set (p_new q). frag_timestamp (fst x) \<noteq> lamport_MIN"
  shows "\<exists>m'. map_extend (map (\<lambda>x. (x, ())) (p_slices q)) m = Some m' \<and> slices_ok m' (p_new q)
    \<and> slice_set m' = slice_set m \<union> set (p_slices q)"
proof -
  have sl: "pass_slices ts q" using assms(3) by (simp add: pass_inv_def)
  have "distinct (map fst (map (\<lambda>x. (x, ())) (p_slices q)))" using slices_distinct [OF sl assms(5)] by (simp add: comp_def)
  from map_extend_ok [OF _ assms(2) this] assms(1) obtain m' where
    m': "map_extend (map (\<lambda>x. (x, ())) (p_slices q)) m = Some m'" "map_wf m'"
      "map_abs m' = map_abs m ++ map_of (rev (map (\<lambda>x. (x, ())) (p_slices q)))" by (auto simp: slices_ok_def)
  have "dom (map_of (rev (map (\<lambda>x. (x, ())) xs))) = set xs" for xs :: "insertion_slice list"
    by (auto simp: dom_map_of_conv_image_fst image_image)
  then have set: "slice_set m' = slice_set m \<union> set (p_slices q)" by (auto simp: slice_set_def m'(3))
  have "\<forall>x \<in> set (p_slices q). slice_insertion_id x \<noteq> lamport_MIN"
    using sl assms(6) by (auto simp: pass_slices_def slice_from_fragment_def)
  moreover have "covers (slice_set m') d c"
    if c: "c \<in> set (cells (p_new q))" and d: "d \<in> set (c_deletions c) \<or> d = c_timestamp c \<and> c_timestamp c \<noteq> base_timestamp" for c d
  proof (cases "d = ts")
    case True
    then have "covers (set (p_slices q)) ts c"
      using touched_covered [OF sl _ c] assms(5) d by (auto simp: pieces_ok_def)
    then show ?thesis using True set covers_mono by blast
  next
    case False
    have "c_timestamp c \<noteq> ts \<or> c_deletions c = []" using pass_cell_origin(2) [OF assms(3) c] unfolding new_cell_def by (metis cell.select_convs(4))
    then have "c_timestamp c \<noteq> ts" using d False by auto
    with pass_cell_origin(1) [OF assms(3,4) c] obtain b where b: "b \<in> set (cells ps)" "c = b \<or> c = mark ts b" by blast
    then have "covers (slice_set m) d b" using assms(1) d False by (auto simp: slices_ok_def)
    then show ?thesis using b(2) set covers_mono by auto
  qed
  moreover have "\<forall>x \<in> slice_set m. slice_insertion_id x \<noteq> lamport_MIN" using assms(1) by (simp add: slices_ok_def)
  ultimately have "slices_ok m' (p_new q)" using m'(2) set unfolding slices_ok_def by blast
  then show ?thesis using m'(1) set by blast
qed

section \<open>The end of a pass\<close>

definition finish_pass :: "pass \<Rightarrow> pass" where
  "finish_pass p = moved_past (finish_piece p) (p_rest (finish_piece p)) []"

lemma finish_pass_fields [simp]: "p_rest (finish_pass p) = []" "p_patch (finish_pass p) = p_patch p" "p_slices (finish_pass p) = p_slices p"
  "p_offset (finish_pass p) = p_offset p"
  by (simp_all add: finish_pass_def finish_piece_def move_on_def split: list.splits)

lemma finish_piece_slices: "p_slices (finish_piece p) = p_slices p"
  by (simp add: finish_piece_def move_on_def split: list.splits)

lemma finish_pass_used: "pass_shape ts ps p \<Longrightarrow> p_used (finish_pass p) = 0"
  by (simp add: finish_pass_def finish_piece_used)

lemma finish_pass_steps:
  assumes "pass_shape ts ps p" "list_all piece_ok ps" "\<And>j. p_index p \<le> j \<Longrightarrow> \<not> dl j"
  shows "pass_steps ts dl p (finish_pass p)"
proof -
  have first: "pass_steps ts dl p (finish_piece p)" using finish_piece_steps [OF assms(1)] assms(3) by blast
  have "p_index p \<le> p_index (finish_piece p)"
    using assms(1) by (auto simp: finish_piece_def move_on_def p_index_def pass_shape_def split: list.splits)
  then have "pass_step ts dl (finish_piece p) (finish_pass p)"
    unfolding finish_pass_def using assms(3) finish_piece_used [OF assms(1)] by (intro pass_step.skip) auto
  with first show ?thesis by (rule rtranclp.rtrancl_into_rtrancl)
qed

text \<open>The suffix of a cursor on the fragments is the tree of the fragments that are left.\<close>

definition suffix_total :: "('d, fragment_summary) dimension \<Rightarrow> fragment_tree \<Rightarrow> bool" where
  "suffix_total dm root \<longleftrightarrow> (\<forall>c rest. cursor_ok root c rest \<longrightarrow> list_all fragment_ok rest \<longrightarrow>
     (\<exists>t c'. Cursor.suffix fragment_ops dm c = Some (t, c') \<and> fragment_tree.good t \<and> items t = rest))"

lemma suffix_total_fts:
  assumes "edit_base root ps"
  shows "suffix_total fts_dim root"
  unfolding suffix_total_def using fts_seek.suffix_ok edit_base_root(1,2) [OF assms] by blast

text \<open>The suffix is appended, the ropes are drained, and every part of the snapshot is rebuilt.\<close>

lemma edit_state_finish_ok:
  assumes s: "snapshot_ok s ps" "heights_ok s" and sim: "simulates dm (fragments s) ps st p"
    and p: "pass_steps ts dl (pass_start ps) p" "fresh ts ps" "ts \<noteq> lamport_MIN" "\<And>j. p_index p \<le> j \<Longrightarrow> \<not> dl j"
    and suf: "suffix_total dm (fragments s)"
    and b: "rd (item_pos dm p) = Some b" "p_used p = 0 \<Longrightarrow> fragment_start st \<le> b"
      "\<And>x R. p_rest p = x # R \<Longrightarrow> 0 < p_used p \<Longrightarrow>
        fragment_start st = b + p_used p \<and> rd (item_end fragment_ops dm (item_pos dm p) (fst x)) = Some (b + length (snd x))"
  shows "\<exists>t i v d m. edit_state_finish dm rd st s =
      Some (s\<lparr>fragments := t, insertions := i, visible_text := v, deleted_text := d, insertion_slices := m\<rparr>)
    \<and> snapshot_ok (s\<lparr>fragments := t, insertions := i, visible_text := v, deleted_text := d, insertion_slices := m\<rparr>) (p_new (finish_pass p))
    \<and> slice_set m = slice_set (insertion_slices s) \<union> set (p_slices p)
    \<and> pass_inv ts dl ps (finish_pass p)"
proof -
  let ?q = "finish_piece p" and ?r = "finish_pass p"
  have base: "edit_base (fragments s) ps" using snapshot_base [OF s] .
  note root = edit_base_root [OF base]
  have ok: "pieces_ok ps" using s(1) by (simp add: snapshot_ok_def)
  have sh: "pass_shape ts ps p" using pass_inv_steps [OF p(1) ok p(2)] by (simp add: pass_inv_def)
  have inv: "pass_inv ts dl ps ?r"
    using rtranclp_trans [OF p(1) finish_pass_steps [OF sh root(4), of dl]] p(4) by (intro pass_inv_steps [OF _ ok p(2)]) auto
  have "\<exists>st'. consume_rest dm rd st = Some st' \<and> simulates dm (fragments s) ps st' ?q \<and> fragment_start st' = fragment_start st"
    by (rule sim_consume_rest [where rd = rd, OF sim base sh b(1)]) (fact b)+
  then obtain st' where st': "consume_rest dm rd st = Some st'" "simulates dm (fragments s) ps st' ?q" by blast
  have d: "p_done ?q @ p_rest ?q = ps" "p_used ?q = 0" using st'(2) finish_piece_used [OF sh] by (simp_all add: simulates_def)
  then have rest: "list_all piece_ok (p_rest ?q)" using root(4) by (metis list_all_append)
  have "cursor_ok (fragments s) (old_fragments st') (map fst (p_rest ?q))" using st'(2) by (simp add: simulates_def)
  with suf fragment_ok_pieces [OF rest] obtain t c where
    t: "Cursor.suffix fragment_ops dm (old_fragments st') = Some (t, c)" "fragment_tree.good t" "items t = map fst (p_rest ?q)"
    unfolding suffix_total_def by blast
  have "fs_text (summary t) = \<lparr>fts_visible = length (vis (p_rest ?q)), fts_deleted = length (del (p_rest ?q))\<rparr>"
    using fragment_tree.summary_items [OF t(2)] total_text [OF rest] t(3) by simp
  then have "rb_append (fs_text (summary t)) (new_ropes st') = Some (ropes_of ps ?r)"
    using rb_append_pieces [of ?q "p_rest ?q" "[]" ps] root(4) d st'(2) by (simp add: simulates_def finish_pass_def)
  moreover have "rb_finish (ropes_of ps ?r) = Some (vis (p_new ?r), del (p_new ?r))"
    using d by (simp add: rb_finish_def rope_cursor_suffix_def rope_cursor_slice_def ropes_of_def mk_rb_def finish_pass_def p_vis_def p_del_def
        is_char_boundary_def flip: vis_simps del_simps)
  moreover obtain tree where "to_sum_tree (fb_append t (new_fragments st')) = Some tree" "fragment_tree.good tree"
      "items tree = map fst (p_new ?r)"
    using to_sum_tree_ok [OF fb_holds_append [OF _ t(2)]] st'(2) t(3) by (fastforce simp: simulates_def finish_pass_def)
  moreover have new: "pieces_ok (p_new ?r)" using pass_result_ok [OF inv _ ok] by simp
  moreover have times: "\<forall>x \<in> set (p_new ?r). frag_timestamp (fst x) \<noteq> lamport_MIN"
    using pass_timestamps [OF inv] p(3) s(1) by (fastforce simp: snapshot_ok_def)
  moreover obtain removed ins where "keyed_edit insertion_ops insertion_dim insertion_key (new_insertions st') (insertions s) = Some (removed, ins)"
      "index_ok ins (p_new ?r)"
    using index_after_pass [of "insertions s" ps ?r] s inv d new times finish_pass_used [OF sh] st'(2)
    by (auto simp: snapshot_ok_def heights_ok_def pass_inv_def pass_shape_def simulates_def finish_pass_def)
  moreover obtain m where "map_extend (map (\<lambda>x. (x, ())) (new_slices st')) (insertion_slices s) = Some m"
      "slices_ok m (p_new ?r)" "slice_set m = slice_set (insertion_slices s) \<union> set (p_slices p)"
    using slices_after_pass [OF _ _ inv _ new times, of "insertion_slices s"] s st'(2) finish_piece_slices [of p]
    by (auto simp: snapshot_ok_def heights_ok_def simulates_def)
  ultimately show ?thesis
    using st'(1) t(1) inv
    by (intro exI [of _ tree] exI [of _ ins] exI [of _ "vis (p_new ?r)"] exI [of _ "del (p_new ?r)"] exI [of _ m])
      (simp add: edit_state_finish_def snapshot_ok_def)
qed

end
