(* ===== verification/RemotePositions.thy ===== *)
theory RemotePositions
  imports RemoteEdit Snapshot
begin

text \<open>
  Positions of the cursor of a remote edit.  They count the bytes of the fragments the version of the edit
  has observed; the summary of a subtree that mixes observed and unobserved fragments has no such count,
  and the seek descends into it.
\<close>

section \<open>The suffix does not depend on the dimension\<close>

text \<open>A cursor moved to the end collects everything, whatever it measures on the way.\<close>

abbreviation entry_slot :: "('t, 's, 'd) stack_entry \<Rightarrow> ('t, 's) sum_tree \<times> nat" where
  "entry_slot e \<equiv> (entry_tree e, entry_index e)"

lemma seek_children_end:
  "map_option (\<lambda>(p, i, a, r). (i, a, r)) (seek_children ops dm od (\<lambda>_. True) p i agg cs)
    = map_option (\<lambda>(p, i, a, r). (i, a, r)) (seek_children ops dm' od (\<lambda>_. True) p' i agg cs)"
proof (induction cs arbitrary: p p' i agg)
  case (Cons c cs)
  then show ?case by (cases c; cases "push_tree ops od agg (fst c) (snd c)") auto
qed simp

lemma seek_children_None: "seek_children ops dm od (\<lambda>_. True) p i agg cs = Some (p', i', a', r) \<Longrightarrow> r = None"
  by (induction cs arbitrary: p i agg) (auto split: bind_splits)

lemma seek_items_end:
  "map_option (\<lambda>(p, i, a, r). (i, a, r)) (seek_items ops dm od (\<lambda>_. True) p i agg cs)
    = map_option (\<lambda>(p, i, a, r). (i, a, r)) (seek_items ops dm' od (\<lambda>_. True) p' i agg cs)"
proof (induction cs arbitrary: p p' i agg)
  case (Cons c cs)
  then show ?case by (cases c; cases "push_item ops od agg (fst c) (snd c)") auto
qed simp

lemma seek_items_stop: "seek_items ops dm od (\<lambda>_. True) p i agg cs = Some (p', i', a', r) \<Longrightarrow> \<not> r"
  by (induction cs arbitrary: p i agg) (auto split: bind_splits)

lemma seek_loop_end:
  fixes dm :: "('d, 's) dimension" and dm' :: "('e, 's) dimension"
  shows "map entry_slot st = map entry_slot st' \<Longrightarrow>
    map_option (snd \<circ> snd) (seek_loop ops dm od (\<lambda>_. True) st p asc agg)
    = map_option (snd \<circ> snd) (seek_loop ops dm' od (\<lambda>_. True) st' p' asc agg)"
proof (induction "length st" arbitrary: st st' p p' asc agg)
  case (Suc n)
  then obtain e es where st: "st = e # es" "length es = n" by (cases st) auto
  with Suc.prems obtain e' es' where st': "st' = e' # es'" "map entry_slot es = map entry_slot es'"
    "entry_tree e' = entry_tree e" "entry_index e' = entry_index e" by (cases st') auto
  note IH = Suc.hyps(1) [of es es', OF st(2) [symmetric] st'(2)]
  show ?case
  proof (cases "entry_tree e")
    case (Internal h s css cts)
    let ?i = "if asc then entry_index e + 1 else entry_index e"
    note eq = seek_children_end [of ops dm od p ?i agg "zip (drop ?i cts) (drop ?i css)" dm' p']
    show ?thesis
    proof (cases "seek_children ops dm od (\<lambda>_. True) p ?i agg (zip (drop ?i cts) (drop ?i css))")
      case None
      then show ?thesis using eq Internal st st' by (cases asc) (simp_all add: seek_loop.simps(2) Let_def)
    next
      case (Some r)
      obtain q i a c where r: "r = (q, i, a, c)" by (cases r) auto
      have c: "c = None" using seek_children_None [of ops dm od p ?i agg] Some r by blast
      from eq Some r c obtain q' where q': "seek_children ops dm' od (\<lambda>_. True) p' ?i agg (zip (drop ?i cts) (drop ?i css)) = Some (q', i, a, None)"
        by (cases "seek_children ops dm' od (\<lambda>_. True) p' ?i agg (zip (drop ?i cts) (drop ?i css))") auto
      show ?thesis using Some r c q' Internal st st' IH by (cases asc) (simp_all add: seek_loop.simps(2) Let_def)
    qed
  next
    case (Leaf s its iss)
    let ?i = "entry_index e"
    note eq = seek_items_end [of ops dm od p ?i agg "zip (drop ?i its) (drop ?i iss)" dm' p']
    show ?thesis
    proof (cases "seek_items ops dm od (\<lambda>_. True) p ?i agg (zip (drop ?i its) (drop ?i iss))")
      case None
      then show ?thesis using eq Leaf st st' by (simp add: seek_loop.simps(2) Let_def)
    next
      case (Some r)
      obtain q i a c where r: "r = (q, i, a, c)" by (cases r) auto
      have c: "c = False" using seek_items_stop [of ops dm od p ?i agg] Some r by blast
      from eq Some r c obtain q' where q': "seek_items ops dm' od (\<lambda>_. True) p' ?i agg (zip (drop ?i its) (drop ?i iss)) = Some (q', i, a, False)"
        by (cases "seek_items ops dm' od (\<lambda>_. True) p' ?i agg (zip (drop ?i its) (drop ?i iss))") auto
      show ?thesis using Some r c q' Leaf st st' IH by (cases "end_leaf ops a") (simp_all add: seek_loop.simps(2) Let_def)
    qed
  qed
qed simp

definition forget_positions :: "('t, 's, 'd) cursor \<Rightarrow> ('t, 's, unit) cursor" where
  "forget_positions c =
     \<lparr>cursor_tree = cursor_tree c, cursor_stack = map (\<lambda>e. mk_entry (entry_tree e) (entry_index e) ()) (cursor_stack c),
      cursor_position = (), did_seek = did_seek c, at_end = at_end c\<rparr>"

lemma suffix_eq:
  "map_option fst (Cursor.suffix ops dm c) = do {
     st \<leftarrow> (if did_seek c then Some (cursor_stack c) else stack_push (cursor_stack c) (mk_entry (cursor_tree c) 0 (dim_zero dm)));
     agg \<leftarrow> map_option (snd \<circ> snd) (seek_loop ops dm unit_dim (\<lambda>_. True) st (cursor_position c) False
       (SliceSeekAggregate \<lparr>slice_tree = tree_new ops, leaf_items = [], leaf_item_summaries = [], leaf_summary = summary_zero ops\<rparr>));
     (case agg of SliceSeekAggregate a \<Rightarrow> Some (slice_tree a) | _ \<Rightarrow> None) }"
proof -
  have past: "seek_past end_target Right = (\<lambda>_. True)" by (simp add: seek_past_def end_target_def fun_eq_iff)
  have tgt: "end_target (cursor_position c) \<noteq> Less" by (simp add: end_target_def)
  show ?thesis
    unfolding Cursor.suffix_def slice_def seek_internal_def past Let_def
    by (simp add: tgt split: option.splits seek_aggregate.splits bind_splits)
qed

lemma suffix_forget:
  fixes ops :: "('a, 'b) summary_ops"
  shows "map_option fst (Cursor.suffix ops dm c) = map_option fst (Cursor.suffix ops unit_dim (forget_positions c))"
proof -
  let ?st = "if did_seek c then Some (cursor_stack c) else stack_push (cursor_stack c) (mk_entry (cursor_tree c) 0 (dim_zero dm))"
  let ?c = "forget_positions c"
  let ?st' = "if did_seek ?c then Some (cursor_stack ?c) else stack_push (cursor_stack ?c) (mk_entry (cursor_tree ?c) 0 (dim_zero (unit_dim :: (unit, 'b) dimension)))"
  have keys: "map_option (map entry_slot) ?st = map_option (map entry_slot) ?st'"
    by (simp add: forget_positions_def mk_entry_def stack_push_def comp_def)
  show ?thesis
  proof (cases ?st)
    case None
    moreover from this have "?st' = None" using keys by (cases ?st') auto
    ultimately show ?thesis unfolding suffix_eq by (simp only: bind.simps)
  next
    case (Some st)
    with keys obtain st' where st': "?st' = Some st'" "map entry_slot st = map entry_slot st'" by (cases ?st') auto
    show ?thesis
      unfolding suffix_eq Some st'(1) bind.simps seek_loop_end [OF st'(2), of ops dm unit_dim "cursor_position c" False _ unit_dim "cursor_position ?c"] ..
  qed
qed

lemma path_ok_forget: "path_ok root (map (\<lambda>e. mk_entry (entry_tree e) (entry_index e) ()) st) = path_ok root st"
  by (induction root st rule: path_ok.induct) (auto simp: mk_entry_def split: sum_tree.splits)

lemma stack_rest_forget: "stack_rest k (map (\<lambda>e. mk_entry (entry_tree e) (entry_index e) ()) st) = stack_rest k st"
  by (induction st arbitrary: k) (simp_all add: entry_rest_def mk_entry_def split: sum_tree.splits)

lemma at_item_forget: "at_item (map (\<lambda>e. mk_entry (entry_tree e) (entry_index e) ()) st) = at_item st"
  by (cases st) (simp_all add: at_item_def mk_entry_def split: sum_tree.splits)

lemma cursor_ok_forget: "cursor_ok root c rest \<Longrightarrow> cursor_ok root (forget_positions c) rest"
  by (simp add: cursor_ok_def forget_positions_def path_ok_forget stack_rest_forget at_item_forget)

interpretation unit_seek: dimension_laws fragment_ops fragment_valid fragment_ok unit_dim
  by unfold_locales simp

lemma suffix_total_any:
  assumes "edit_base root ps"
  shows "suffix_total dm root"
  unfolding suffix_total_def
proof (intro allI impI)
  fix c :: "(fragment, fragment_summary, 'a) cursor" and rest
  assume c: "cursor_ok root c rest" and ok: "list_all fragment_ok rest"
  note root = edit_base_root [OF assms]
  from unit_seek.suffix_ok [OF cursor_ok_forget [OF c] root(1,2) ok] obtain t c' where
    t: "Cursor.suffix fragment_ops unit_dim (forget_positions c) = Some (t, c')" "fragment_tree.good t" "items t = rest" by blast
  then show "\<exists>t c'. Cursor.suffix fragment_ops dm c = Some (t, c') \<and> fragment_tree.good t \<and> items t = rest"
    using suffix_forget [of fragment_ops dm c] by (cases "Cursor.suffix fragment_ops dm c") auto
qed

section \<open>Observed fragments\<close>

definition known :: "global \<Rightarrow> piece \<Rightarrow> bool" where
  "known v x \<longleftrightarrow> observed v (frag_timestamp (fst x))"

definition olen :: "global \<Rightarrow> piece \<Rightarrow> nat" where
  "olen v x = (if known v x then length (snd x) else 0)"

text \<open>The text the ranges of an edit of version \<open>v\<close> refer to.\<close>

definition obs :: "global \<Rightarrow> piece list \<Rightarrow> char list" where
  "obs v ps = concat (map (\<lambda>x. if known v x then snd x else []) ps)"

lemma obs_simps [simp]: "obs v [] = []" "obs v (x # ps) = (if known v x then snd x else []) @ obs v ps" "obs v (ps @ qs) = obs v ps @ obs v qs"
  by (simp_all add: obs_def)

lemma length_obs_Cons: "length (obs v (x # ps)) = olen v x + length (obs v ps)"
  by (simp add: olen_def)

text \<open>Timestamps count from one.\<close>

definition counted :: "piece list \<Rightarrow> bool" where
  "counted ps \<longleftrightarrow> (\<forall>x \<in> set ps. lamport_value (frag_timestamp (fst x)) \<noteq> 0)"

lemma observed_all_single: "observed_all v (global_observe global_new t) = observed v t"
  by (auto simp: observed_all_iff global_wf_intros global_get_simps observed_def)

lemma observed_any_single: "lamport_value t \<noteq> 0 \<Longrightarrow> observed_any v (global_observe global_new t) = observed v t"
  by (auto simp: observed_any_iff global_wf_intros global_get_simps observed_def word_gt_0)

lemma observed_any_meet:
  assumes "global_wf g" "global_wf h"
  shows "observed_any v (global_meet g h) \<longleftrightarrow> observed_any v g \<or> observed_any v h"
proof -
  have entry: "0 < meet_entry a b \<and> meet_entry a b \<le> c \<longleftrightarrow> 0 < a \<and> a \<le> c \<or> 0 < b \<and> b \<le> c" for a b c :: seq
    by (cases "a = 0"; cases "b = 0") (auto simp: meet_entry_def min_le_iff_disj word_gt_0)
  show ?thesis
    unfolding observed_any_iff [OF assms(1)] observed_any_iff [OF assms(2)] observed_any_iff [OF global_wf_meet [OF assms]] global_get_simps entry
    by blast
qed

lemma item_end_remote:
  assumes "piece_ok x" "lamport_value (frag_timestamp (fst x)) \<noteq> 0"
  shows "item_end fragment_ops (remote_dim v) (Offset a, b) (fst x)
    = (Offset (a + olen v x), b + (if frag_visible (fst x) then length (snd x) else 0))"
  using assms observed_all_single [of v "frag_timestamp (fst x)"] observed_any_single [of "frag_timestamp (fst x)" v]
  by (auto simp: item_end_def remote_dim_def versioned_add_def fragment_item_summary_def Let_def piece_ok_def olen_def known_def)

lemma counted_simps [simp]: "counted []" "counted (x # ps) \<longleftrightarrow> lamport_value (frag_timestamp (fst x)) \<noteq> 0 \<and> counted ps"
  "counted (ps @ qs) \<longleftrightarrow> counted ps \<and> counted qs"
  by (auto simp: counted_def)

lemma pos_after_remote:
  "list_all piece_ok ps \<Longrightarrow> counted ps \<Longrightarrow>
    pos_after fragment_ops (remote_dim v) (Offset a, b) (map fst ps) = (Offset (a + length (obs v ps)), b + length (vis ps))"
proof (induction ps arbitrary: a b)
  case (Cons x ps)
  then show ?case by (simp add: item_end_remote length_obs_Cons del: obs_simps(2))
qed simp

text \<open>The summary of a run of fragments knows whether all or none of them are observed.\<close>

lemma total_observed:
  assumes "list_all fragment_ok fs"
  shows "observed_all v (fs_max_insertion_version (fragment_tree.items_total fs)) \<longleftrightarrow> (\<forall>f \<in> set fs. observed v (frag_timestamp f))"
    and "(\<forall>f \<in> set fs. lamport_value (frag_timestamp f) \<noteq> 0) \<Longrightarrow>
      observed_any v (fs_min_insertion_version (fragment_tree.items_total fs)) \<longleftrightarrow> (\<exists>f \<in> set fs. observed v (frag_timestamp f))"
proof -
  have "global_wf (fs_max_insertion_version (fragment_tree.items_total fs)) \<and> global_wf (fs_min_insertion_version (fragment_tree.items_total fs))
    \<and> (observed_all v (fs_max_insertion_version (fragment_tree.items_total fs)) \<longleftrightarrow> (\<forall>f \<in> set fs. observed v (frag_timestamp f)))
    \<and> ((\<forall>f \<in> set fs. lamport_value (frag_timestamp f) \<noteq> 0) \<longrightarrow>
      (observed_any v (fs_min_insertion_version (fragment_tree.items_total fs)) \<longleftrightarrow> (\<exists>f \<in> set fs. observed v (frag_timestamp f))))"
    using assms
  proof (induction fs rule: rev_induct)
    case Nil
    show ?case
      by (auto simp: sum_summaries_def fragment_summary_default_def observed_all_iff observed_any_iff global_wf_intros global_get_simps)
  next
    case (snoc f fs)
    have one: "global_wf (global_observe global_new (frag_timestamp f))" by (simp add: global_wf_intros)
    show ?case
      using snoc one observed_all_single [of v "frag_timestamp f"] observed_any_single [of "frag_timestamp f" v]
      by (auto simp: sum_summaries_def fragment_summary_add_def fragment_item_summary_def Let_def vv.all_join_iff observed_any_meet
          global_wf_join global_wf_meet)
  qed
  then show "observed_all v (fs_max_insertion_version (fragment_tree.items_total fs)) \<longleftrightarrow> (\<forall>f \<in> set fs. observed v (frag_timestamp f))"
    and "(\<forall>f \<in> set fs. lamport_value (frag_timestamp f) \<noteq> 0) \<Longrightarrow>
      observed_any v (fs_min_insertion_version (fragment_tree.items_total fs)) \<longleftrightarrow> (\<exists>f \<in> set fs. observed v (frag_timestamp f))"
    by blast+
qed

lemma obs_all: "(\<forall>x \<in> set ps. known v x) \<Longrightarrow> length (obs v ps) = length (vis ps) + length (del ps)"
  by (induction ps) auto

lemma obs_none: "(\<forall>x \<in> set ps. \<not> known v x) \<Longrightarrow> obs v ps = []"
  by (induction ps) auto

lemma total_remote:
  assumes "list_all piece_ok ps" "counted ps"
  shows "dim_add (remote_dim v) (Offset a, b) (fragment_tree.items_total (map fst ps)) =
    (if (\<exists>x \<in> set ps. known v x) \<and> (\<exists>x \<in> set ps. \<not> known v x) then Invalid else Offset (a + length (obs v ps)),
     b + length (vis ps))"
proof -
  have ok: "list_all fragment_ok (map fst ps)" using fragment_ok_pieces [OF assms(1)] .
  have "\<forall>f \<in> set (map fst ps). lamport_value (frag_timestamp f) \<noteq> 0" using assms(2) by (auto simp: counted_def)
  note o = total_observed(1) [OF ok, of v] total_observed(2) [OF ok this, of v]
  have txts: "fs_text (fragment_tree.items_total (map fst ps)) = \<lparr>fts_visible = length (vis ps), fts_deleted = length (del ps)\<rparr>"
    by (rule total_text [OF assms(1)])
  consider "\<forall>x \<in> set ps. known v x" | "\<exists>x \<in> set ps. \<not> known v x" "\<exists>x \<in> set ps. known v x" | "\<exists>x \<in> set ps. \<not> known v x" "\<forall>x \<in> set ps. \<not> known v x"
    by blast
  then show ?thesis
  proof cases
    case 1
    then show ?thesis using o txts obs_all [OF 1] by (auto simp: remote_dim_def versioned_add_def known_def)
  next
    case 2
    then show ?thesis using o txts by (auto simp: remote_dim_def versioned_add_def known_def)
  next
    case 3
    then show ?thesis using o txts obs_none [OF 3(2)] by (auto simp: remote_dim_def versioned_add_def known_def)
  qed
qed

lemma past_remote: "seek_past (remote_target s) Left (Offset a, b) \<longleftrightarrow> a < s" "\<not> seek_past (remote_target s) Left (Invalid, b)"
  by (auto simp: seek_past_def remote_target_def versioned_target_def)

lemma all_past_remote:
  "list_all piece_ok ps \<Longrightarrow> counted ps \<Longrightarrow> a + length (obs v ps) < s
    \<Longrightarrow> all_past fragment_ops (remote_dim v) (seek_past (remote_target s) Left) (Offset a, b) (map fst ps)"
  unfolding all_past_def
proof (induction ps arbitrary: a b)
  case (Cons x ps)
  then have "a + olen v x + length (obs v ps) < s" by (simp add: olen_def split: if_splits)
  then show ?case using Cons by (simp add: item_end_remote past_remote)
qed simp

lemma seekable_remote:
  assumes "list_all piece_ok ps" "counted ps"
  shows "seekable fragment_ops (remote_dim v) (seek_past (remote_target s) Left) (Offset a, b) (map fst ps)"
  unfolding seekable_def Let_def
proof (intro allI impI)
  fix u x w
  let ?q = "pos_after fragment_ops (remote_dim v) (Offset a, b) u"
  let ?e = "dim_add (remote_dim v) ?q (sum_summaries fragment_ops (map (item_summary fragment_ops) x))"
  assume split: "map fst ps = u @ x @ w" and past: "seek_past (remote_target s) Left ?e"
  obtain pu px pw where p: "ps = pu @ px @ pw" "u = map fst pu" "x = map fst px"
    using split by (auto simp: map_eq_append_conv append_eq_map_conv)
  have ok: "list_all piece_ok pu" "counted pu" "list_all piece_ok px" "counted px" using assms p(1) by simp_all
  have q: "?q = (Offset (a + length (obs v pu)), b + length (vis pu))" unfolding p(2) by (rule pos_after_remote [OF ok(1,2)])
  note e = total_remote [OF ok(3,4), of v "a + length (obs v pu)" "b + length (vis pu)"]
  have "\<not> ((\<exists>x \<in> set px. known v x) \<and> (\<exists>x \<in> set px. \<not> known v x))"
    using past e unfolding q p(3) by (auto simp: past_remote split: if_splits)
  with e have e': "?e = (Offset (a + length (obs v pu) + length (obs v px)), b + length (vis pu) + length (vis px))"
    unfolding q p(3) by simp
  moreover have "pos_after fragment_ops (remote_dim v) ?q x = ?e"
    unfolding e' unfolding q p(3) by (rule pos_after_remote [OF ok(3,4)])
  moreover have "a + length (obs v pu) + length (obs v px) < s" using past unfolding e' by (simp add: past_remote)
  ultimately show "?e = pos_after fragment_ops (remote_dim v) ?q x \<and> all_past fragment_ops (remote_dim v) (seek_past (remote_target s) Left) ?q x"
    using all_past_remote [OF ok(3,4)] unfolding q p(3) by auto
qed

text \<open>The pieces that end before the target.\<close>

fun take_before :: "global \<Rightarrow> nat \<Rightarrow> nat \<Rightarrow> piece list \<Rightarrow> piece list" where
  "take_before v s a [] = []"
| "take_before v s a (x # ps) = (if a + olen v x < s then x # take_before v s (a + olen v x) ps else [])"

fun drop_before :: "global \<Rightarrow> nat \<Rightarrow> nat \<Rightarrow> piece list \<Rightarrow> piece list" where
  "drop_before v s a [] = []"
| "drop_before v s a (x # ps) = (if a + olen v x < s then drop_before v s (a + olen v x) ps else x # ps)"

lemma take_drop_before: "take_before v s a ps @ drop_before v s a ps = ps"
  by (induction ps arbitrary: a) simp_all

lemma take_before_past:
  "list_all piece_ok ps \<Longrightarrow> counted ps \<Longrightarrow>
    take_past fragment_ops (remote_dim v) (seek_past (remote_target s) Left) (Offset a, b) (map fst ps) = map fst (take_before v s a ps)"
  by (induction ps arbitrary: a b) (auto simp: item_end_remote past_remote)

lemma take_before_less: "a < s \<Longrightarrow> a + length (obs v (take_before v s a ps)) < s"
proof (induction ps arbitrary: a)
  case (Cons y ps)
  show ?case
    using Cons.IH [of "a + olen v y"] Cons.prems by (simp add: length_obs_Cons add.assoc del: obs_simps(2))
qed simp

lemma take_before_zero: "s \<le> a \<Longrightarrow> take_before v s a ps = []"
  by (cases ps) auto

lemma drop_before_first: "drop_before v s a ps = x # R \<Longrightarrow> s \<le> a + length (obs v (take_before v s a ps)) + olen v x"
proof (induction ps arbitrary: a)
  case (Cons y ps)
  show ?case
  proof (cases "a + olen v y < s")
    case True
    with Cons.IH [of "a + olen v y"] Cons.prems show ?thesis by (simp add: length_obs_Cons del: obs_simps(2))
  qed (use Cons.prems in simp)
qed simp

lemma splits_off_remote:
  assumes "list_all piece_ok ps" "counted ps" "a \<le> s"
  shows "splits_off (remote_dim v) (remote_target s) Left (Offset a, b) (take_before v s a ps) (drop_before v s a ps)"
  using seekable_remote [OF assms(1,2), of v s a b] take_before_past [OF assms(1,2), of v s a b] assms(3)
  unfolding splits_off_def take_drop_before by (auto simp: remote_target_def versioned_target_def)

end
