(* ===== verification/LocalEdit_Correct.thy ===== *)
theory LocalEdit_Correct
  imports Snapshot
begin

text \<open>
  What \<^verbatim>\<open>apply_edit_internal\<close> does: it succeeds on sorted edits at character boundaries, the visible text
  becomes the old one with the ranges replaced, the cells of the old text keep their identity and
  gain the deletion exactly where they were visible and in an edited range, and the patch that is
  published describes the change.
\<close>

section \<open>Visible offsets of cells\<close>

definition voff :: "cell list \<Rightarrow> nat \<Rightarrow> nat" where
  "voff cs j = length (filter c_visible (take j cs))"

lemma voff_mono: "i \<le> j \<Longrightarrow> voff cs i \<le> voff cs j"
proof -
  assume "i \<le> j"
  then obtain k where "j = i + k" using le_Suc_ex by blast
  then show ?thesis by (simp add: voff_def take_add)
qed

lemma voff_Suc: "j < length cs \<Longrightarrow> c_visible (cs ! j) \<Longrightarrow> voff cs (Suc j) = Suc (voff cs j)"
  by (simp add: voff_def take_Suc_conv_app_nth)

lemma voff_less: "j < i \<Longrightarrow> i \<le> length cs \<Longrightarrow> c_visible (cs ! j) \<Longrightarrow> voff cs j < voff cs i"
  using voff_mono [of "Suc j" i cs] voff_Suc [of j cs] by simp

lemma length_visible_cells: "length (filter c_visible (cells ps)) = length (vis ps)"
  by (simp add: vis_cells)

lemma filter_take_piece:
  "length (filter c_visible (take k (piece_cells x))) = (if frag_visible (fst x) then min k (length (snd x)) else 0)"
proof -
  have v: "c_visible c = frag_visible (fst x)" if "c \<in> set (piece_cells x)" for c
    using that by (auto simp: piece_cells_def mk_cell_def)
  have "filter c_visible (take k (piece_cells x)) = (if frag_visible (fst x) then take k (piece_cells x) else [])"
    using v by (auto simp: filter_empty_conv dest: in_set_takeD intro!: filter_True)
  then show ?thesis by (simp add: min.commute)
qed

lemma voff_index:
  assumes "pass_shape ts ps p"
  shows "voff (cells ps) (p_index p) = p_vis p"
proof -
  have "voff (cells ps) (p_index p) = length (filter c_visible (consumed p))" by (simp add: voff_def take_consumed [OF assms])
  also have "\<dots> = p_vis p"
    using assms
    by (cases "p_rest p") (simp_all add: consumed_def p_vis_def length_visible_cells filter_take_piece pass_shape_def)
  finally show ?thesis .
qed

text \<open>The cells an edit deletes: visible, at a visible offset in one of the ranges.\<close>

definition in_ranges :: "((nat \<times> nat) \<times> 'a) list \<Rightarrow> nat \<Rightarrow> bool" where
  "in_ranges es v \<longleftrightarrow> (\<exists>e \<in> set es. fst (fst e) \<le> v \<and> v < snd (fst e))"

definition deletes :: "piece list \<Rightarrow> ((nat \<times> nat) \<times> 'a) list \<Rightarrow> nat \<Rightarrow> bool" where
  "deletes ps es j \<longleftrightarrow> j < length (cells ps) \<and> c_visible (cells ps ! j) \<and> in_ranges es (voff (cells ps) j)"

text \<open>Between two states of a pass only offsets between theirs are met.\<close>

lemma no_deletes_between:
  assumes "pass_shape ts ps p" "pass_shape ts ps q" "p_index p \<le> j" "j < p_index q"
    and "\<And>v. p_vis p \<le> v \<Longrightarrow> v < p_vis q \<Longrightarrow> \<not> in_ranges es v"
  shows "\<not> deletes ps es j"
proof
  assume d: "deletes ps es j"
  then have "p_vis p \<le> voff (cells ps) j" "voff (cells ps) j < p_vis q"
    using voff_mono [OF assms(3), of "cells ps"] voff_less [OF assms(4) p_index_le [OF assms(2)]] voff_index assms(1,2)
    by (auto simp: deletes_def)
  with assms(5) d show False by (auto simp: deletes_def)
qed

lemma visible_piece_cells:
  assumes "pass_shape ts ps p" "p_rest p = x # R" "p_used p + i < length (snd x)"
  shows "p_index p + i < length (cells ps)" "c_visible (cells ps ! (p_index p + i)) = frag_visible (fst x)"
    "frag_visible (fst x) \<Longrightarrow> voff (cells ps) (p_index p + i) = p_vis p + i"
proof -
  have cells: "cells ps = cells (p_done p) @ piece_cells x @ cells R"
    using assms(1,2) by (auto simp: pass_shape_def simp flip: cells_simps)
  show "p_index p + i < length (cells ps)" using assms(3) by (simp add: cells p_index_def)
  have nth: "cells ps ! (p_index p + i) = piece_cells x ! (p_used p + i)"
    using assms(3) by (simp add: cells p_index_def nth_append add.assoc)
  then show "c_visible (cells ps ! (p_index p + i)) = frag_visible (fst x)"
    using assms(3) by (simp add: nth_piece_cells mk_cell_def)
  show "voff (cells ps) (p_index p + i) = p_vis p + i" if "frag_visible (fst x)"
  proof -
    have "take (p_index p + i) (cells ps) = cells (p_done p) @ take (p_used p + i) (piece_cells x)"
      using assms(3) by (simp add: cells p_index_def)
    then show ?thesis
      using that assms(2,3) by (simp add: voff_def filter_take_piece length_visible_cells p_vis_def)
  qed
qed

section \<open>Positions of the cursor\<close>

lemma pos_after_fts:
  "list_all piece_ok ps \<Longrightarrow> pos_after fragment_ops fts_dim q (map fst ps) =
    \<lparr>fts_visible = fts_visible q + length (vis ps), fts_deleted = fts_deleted q + length (del ps)\<rparr>"
proof (induction ps arbitrary: q)
  case (Cons x ps)
  then show ?case
    by (simp add: item_end_def fts_add_def fragment_item_summary_def Let_def piece_ok_def)
qed simp

lemma item_pos_fts:
  assumes "list_all piece_ok (p_done p)"
  shows "item_pos fts_dim p = \<lparr>fts_visible = length (vis (p_done p)), fts_deleted = length (del (p_done p))\<rparr>"
  using pos_after_fts [OF assms, of "dim_zero fts_dim"] by (simp add: item_pos_def)

lemma item_end_fts:
  "piece_ok x \<Longrightarrow> item_end fragment_ops fts_dim q (fst x) =
    \<lparr>fts_visible = fts_visible q + (if frag_visible (fst x) then length (snd x) else 0),
     fts_deleted = fts_deleted q + (if frag_visible (fst x) then 0 else length (snd x))\<rparr>"
  by (simp add: item_end_def fts_add_def fragment_item_summary_def Let_def piece_ok_def)

text \<open>The target of a local edit splits off the pieces that end at or before it.\<close>

definition vlen :: "piece \<Rightarrow> nat" where
  "vlen x = (if frag_visible (fst x) then length (snd x) else 0)"

lemma length_vis_Cons: "length (vis (x # ps)) = vlen x + length (vis ps)"
  by (simp add: vlen_def)

fun take_upto :: "nat \<Rightarrow> nat \<Rightarrow> piece list \<Rightarrow> piece list" where
  "take_upto s b [] = []"
| "take_upto s b (x # ps) = (if b + vlen x \<le> s then x # take_upto s (b + vlen x) ps else [])"

fun drop_upto :: "nat \<Rightarrow> nat \<Rightarrow> piece list \<Rightarrow> piece list" where
  "drop_upto s b [] = []"
| "drop_upto s b (x # ps) = (if b + vlen x \<le> s then drop_upto s (b + vlen x) ps else x # ps)"

lemma seek_past_visible: "seek_past (visible_target s) Right q \<longleftrightarrow> fts_visible q \<le> s"
  by (auto simp: seek_past_def visible_target_def)

lemma take_upto_past:
  "list_all piece_ok ps \<Longrightarrow> fts_visible q = b \<Longrightarrow>
    take_past fragment_ops fts_dim (seek_past (visible_target s) Right) q (map fst ps) = map fst (take_upto s b ps)"
  by (induction ps arbitrary: q b) (auto simp: item_end_fts seek_past_visible vlen_def)

lemma take_drop_upto: "take_upto s b ps @ drop_upto s b ps = ps"
  by (induction ps arbitrary: b) simp_all

lemma drop_upto_first: "drop_upto s b ps = x # R \<Longrightarrow> s < b + length (vis (take_upto s b ps)) + vlen x"
proof (induction ps arbitrary: b)
  case (Cons y ps)
  show ?case
  proof (cases "b + vlen y \<le> s")
    case True
    with Cons.IH [of "b + vlen y"] Cons.prems show ?thesis by (simp add: length_vis_Cons del: vis_simps(2))
  qed (use Cons.prems in simp)
qed simp

lemma take_upto_le: "b \<le> s \<Longrightarrow> b + length (vis (take_upto s b ps)) \<le> s"
proof (induction ps arbitrary: b)
  case (Cons y ps)
  show ?case
    using Cons.IH [of "b + vlen y"] Cons.prems by (simp add: length_vis_Cons add.assoc del: vis_simps(2))
qed simp

lemma seekable_visible:
  assumes "list_all piece_ok ps"
  shows "seekable fragment_ops fts_dim (seek_past (visible_target s) Right) q (map fst ps)"
proof (rule fts_seek.seekable_if_monotone)
  show "list_all fragment_ok (map fst ps)" using assms by (rule fragment_ok_pieces)
  fix u x w
  assume split: "map fst ps = u @ x # w" and past: "seek_past (visible_target s) Right (pos_after fragment_ops fts_dim q (u @ [x]))"
  have "fts_visible r \<le> fts_visible (item_end fragment_ops fts_dim r x)" for r
    by (simp add: item_end_def fts_add_def)
  then show "seek_past (visible_target s) Right (pos_after fragment_ops fts_dim q u)"
    using past by (simp add: seek_past_visible) (metis le_trans)
qed

lemma splits_off_visible:
  assumes "list_all piece_ok ps" "fts_visible q \<le> s"
  shows "splits_off fts_dim (visible_target s) Right q (take_upto s (fts_visible q) ps) (drop_upto s (fts_visible q) ps)"
proof -
  have "visible_target s q \<noteq> Less" using assms(2) by (auto simp: visible_target_def)
  with seekable_visible [OF assms(1), of s q] take_upto_past [OF assms(1) refl, of s q] show ?thesis
    unfolding splits_off_def take_drop_upto by simp
qed

section \<open>The state of a local pass\<close>

definition local_at ::
  "fragment_tree \<Rightarrow> piece list \<Rightarrow> lamport \<Rightarrow> (nat \<Rightarrow> bool) \<Rightarrow> local_state \<Rightarrow> pass \<Rightarrow> bool" where
  "local_at root ps ts dl st p \<longleftrightarrow> simulates fts_dim root ps st p \<and> pass_steps ts dl (pass_start ps) p
     \<and> fragment_start st = p_vis p \<and> (0 < p_used p \<longrightarrow> frag_visible (fst (hd (p_rest p))))"

lemma local_at_facts:
  assumes "local_at root ps ts dl st p" "edit_base root ps" "fresh ts ps"
  shows "pass_inv ts dl ps p" "pass_shape ts ps p" "list_all piece_ok (p_done p)" "list_all piece_ok (p_rest p)"
    "list_all piece_ok (p_new p)" "simulates fts_dim root ps st p" "fragment_start st = p_vis p"
proof -
  show inv: "pass_inv ts dl ps p"
    using assms pass_inv_steps by (auto simp: local_at_def edit_base_def)
  then show sh: "pass_shape ts ps p" by (simp add: pass_inv_def)
  then show "list_all piece_ok (p_done p)" "list_all piece_ok (p_rest p)" "list_all piece_ok (p_new p)"
    using edit_base_root(4) [OF assms(2)] by (auto simp: pass_shape_def)
qed (use assms in \<open>simp_all add: local_at_def\<close>)

text \<open>Where the cursor stands and ends.\<close>

lemma local_positions:
  assumes "local_at root ps ts dl st p" "edit_base root ps" "fresh ts ps"
  shows "visible_at (item_pos fts_dim p) = Some (length (vis (p_done p)))"
    and "fts_deleted (start (old_fragments st)) = length (del (p_done p))"
    and "end_at fts_dim visible_at st = Some (length (vis (p_done p)) + (case p_rest p of [] \<Rightarrow> 0 | x # _ \<Rightarrow> vlen x))"
    and "p_vis p = length (vis (p_done p)) + p_used p"
    and "p_rest p = x # R \<Longrightarrow> visible_at (item_end fragment_ops fts_dim (item_pos fts_dim p) (fst x)) = Some (length (vis (p_done p)) + vlen x)"
    and "p_index p = p_vis p + length (del (p_done p))"
proof -
  note f = local_at_facts [OF assms]
  note pos = item_pos_fts [OF f(3)]
  show "visible_at (item_pos fts_dim p) = Some (length (vis (p_done p)))" by (simp add: visible_at_def pos)
  show "fts_deleted (start (old_fragments st)) = length (del (p_done p))" by (simp add: sim_start(1) [OF f(6)] pos)
  show e: "visible_at (item_end fragment_ops fts_dim (item_pos fts_dim p) (fst x)) = Some (length (vis (p_done p)) + vlen x)"
    if "p_rest p = x # R" for x R
    using that f(4) by (simp add: visible_at_def pos item_end_fts vlen_def)
  show "end_at fts_dim visible_at st = Some (length (vis (p_done p)) + (case p_rest p of [] \<Rightarrow> 0 | x # _ \<Rightarrow> vlen x))"
    using sim_end [OF f(6) assms(2), of visible_at] e by (simp add: visible_at_def pos split: list.splits)
  show v: "p_vis p = length (vis (p_done p)) + p_used p"
    using assms(1) f(2) by (auto simp: p_vis_def local_at_def pass_shape_def split: list.splits)
  have "length (cells qs) = length (vis qs) + length (del qs)" for qs
    by (induction qs) auto
  then show "p_index p = p_vis p + length (del (p_done p))" using v by (simp add: p_index_def)
qed

text \<open>A move copies the visible text between two positions unless it deletes, and adds nothing if it deletes
  all of it.\<close>

lemma moves_vis:
  assumes "pass_shape ts ps p" "list_all piece_ok ps" "moves ts dl p q"
  shows "p_vis p \<le> p_vis q"
    and "(\<And>j. p_index p \<le> j \<Longrightarrow> j < p_index q \<Longrightarrow> \<not> dl j) \<Longrightarrow>
      vis (p_new q) = vis (p_new p) @ take (p_vis q - p_vis p) (drop (p_vis p) (vis ps))"
    and "(\<And>j. p_index p \<le> j \<Longrightarrow> j < p_index q \<Longrightarrow> c_visible (cells ps ! j) \<Longrightarrow> dl j) \<Longrightarrow> vis (p_new q) = vis (p_new p)"
proof -
  have q: "pass_shape ts ps q" using assms(3) pass_shape_steps [OF _ assms(1,2)] by (auto simp: moves_def)
  note c = moves_cells [OF assms] and v = voff_index [OF assms(1)] voff_index [OF q]
  let ?B = "\<lambda>cs. map c_byte (filter c_visible cs)" and ?i = "p_index p" and ?k = "p_index q - p_index p"
  let ?t = "take ?k (drop ?i (cells ps))"
  have split: "cells ps = take ?i (cells ps) @ ?t @ drop (p_index q) (cells ps)" "take (p_index q) (cells ps) = take ?i (cells ps) @ ?t"
    using c(1) append_take_drop_id [of ?k "drop ?i (cells ps)"] take_add [of ?i ?k "cells ps"] by simp_all
  have len: "length (?B (take ?i (cells ps))) = p_vis p" "length (?B ?t) = p_vis q - p_vis p"
    using v split(2) by (simp_all add: voff_def)
  show "p_vis p \<le> p_vis q" using voff_mono [OF c(1), of "cells ps"] v by simp
  have "vis ps = ?B (take ?i (cells ps)) @ ?B ?t @ ?B (drop (p_index q) (cells ps))"
    unfolding vis_cells by (subst split(1)) simp
  then have t: "?B ?t = take (p_vis q - p_vis p) (drop (p_vis p) (vis ps))" using len by simp
  show "vis (p_new q) = vis (p_new p) @ take (p_vis q - p_vis p) (drop (p_vis p) (vis ps))"
    if none: "\<And>j. p_index p \<le> j \<Longrightarrow> j < p_index q \<Longrightarrow> \<not> dl j"
  proof -
    have "marks ts dl ?i ?t = ?t" using none c(1) by (intro marks_none) auto
    then show ?thesis using c(3) t by (simp add: vis_cells)
  qed
  show "vis (p_new q) = vis (p_new p)" if all: "\<And>j. p_index p \<le> j \<Longrightarrow> j < p_index q \<Longrightarrow> c_visible (cells ps ! j) \<Longrightarrow> dl j"
  proof -
    have "filter c_visible (marks ts dl ?i ?t) = []" using all c(1,2) by (intro marks_hidden) auto
    then show ?thesis using c(3) by (simp add: vis_cells)
  qed
qed

text \<open>A step is also a step that deletes nothing in particular, which is enough for the shape.\<close>

lemma shape_finish_piece:
  assumes "pass_shape ts ps p" "list_all piece_ok ps"
  shows "pass_shape ts ps (finish_piece p)"
  by (rule pass_shape_steps [OF finish_piece_steps [where dl = "\<lambda>_. False"] assms(1,2)]) (use assms(1) in simp_all)

lemma shape_moved_past:
  assumes "pass_shape ts ps p" "list_all piece_ok ps" "p_used p = 0" "p_rest p = a @ b"
  shows "pass_shape ts ps (moved_past p a b)"
  by (rule pass_shape_step [OF pass_step.skip [where dl = "\<lambda>_. False"] assms(1,2)]) (use assms in simp_all)

lemma moved_past_simps:
  assumes "p_used p = 0"
  shows "p_vis (moved_past p a b) = length (vis (p_done p)) + length (vis a)"
    and "p_index (moved_past p a b) = p_index p + length (cells a)"
  using assms by (simp_all add: p_vis_def p_index_def split: list.splits)

lemma local_skip:
  assumes at: "local_at root ps ts (deletes ps es) st p" and base: "edit_base root ps" "fresh ts ps"
    and used: "p_used p = 0" and s: "p_vis p \<le> s" "s \<le> length (vis ps)"
    and none: "\<And>v. p_vis p \<le> v \<Longrightarrow> v < s \<Longrightarrow> \<not> in_ranges es v"
  shows "\<exists>st' q. append_slice fts_dim visible_at (visible_target s) Right st = Some st'
    \<and> local_at root ps ts (deletes ps es) st' q \<and> moves ts (deletes ps es) p q \<and> p_vis q \<le> s
    \<and> (p_vis q < s \<longrightarrow> (\<exists>x R. p_rest q = x # R \<and> frag_visible (fst x) \<and> s \<le> length (vis (p_done q)) + length (snd x)))"
proof -
  note f = local_at_facts [OF at base] and pos = local_positions [OF at base]
  let ?b = "length (vis (p_done p))"
  define a r where "a = take_upto s ?b (p_rest p)" and "r = drop_upto s ?b (p_rest p)"
  have split: "p_rest p = a @ r" by (simp add: a_def r_def take_drop_upto)
  have ps: "list_all piece_ok ps" using edit_base_root(4) [OF base(1)] .
  have b: "?b = p_vis p" using pos(4) used by simp
  have pv: "p_vis (moved_past p a r) = ?b + length (vis a)" using moved_past_simps(1) [OF used] .
  have "?b + length (vis a) \<le> s" unfolding a_def by (rule take_upto_le) (use b s(1) in simp)
  then have le: "p_vis (moved_past p a r) \<le> s" using pv by simp
  have sh: "pass_shape ts ps (moved_past p a r)" by (rule shape_moved_past [OF f(2) ps used split])
  have ar: "list_all piece_ok (a @ r)" using f(4) split by simp
  have q: "fts_visible (item_pos fts_dim p) = ?b" using item_pos_fts [OF f(3)] by simp
  have "splits_off fts_dim (visible_target s) Right (item_pos fts_dim p) a r"
    using splits_off_visible [OF f(4), of "item_pos fts_dim p" s] q b s(1) by (simp add: a_def r_def)
  moreover have "visible_at (item_pos fts_dim (moved_past p a r)) = Some (p_vis (moved_past p a r))"
    using item_pos_fts [of "moved_past p a r"] f(3) ar pv by (simp add: visible_at_def)
  ultimately obtain st' where st': "append_slice fts_dim visible_at (visible_target s) Right st = Some st'"
      "simulates fts_dim root ps st' (moved_past p a r)" "fragment_start st' = p_vis (moved_past p a r)"
    using sim_slice [OF f(6) base(1) used split] by blast
  have "\<not> deletes ps es j" if "p_index p \<le> j" "j < p_index p + length (cells a)" for j
    by (rule no_deletes_between [OF f(2) sh that(1)]) (use that moved_past_simps(2) [OF used] none le in auto)
  then have step: "pass_step ts (deletes ps es) p (moved_past p a r)" by (intro pass_step.skip used split) auto
  moreover have "pass_steps ts (deletes ps es) (pass_start ps) p" using at by (simp add: local_at_def)
  ultimately have "local_at root ps ts (deletes ps es) st' (moved_past p a r)"
    using st'(2,3) used by (simp add: local_at_def)
  moreover have "\<exists>x R. r = x # R \<and> frag_visible (fst x) \<and> s \<le> length (vis (p_done p @ a)) + length (snd x)"
    if less: "p_vis (moved_past p a r) < s"
  proof (cases r)
    case Nil
    have "vis ps = vis (p_done p) @ vis a" using f(2) split Nil by (auto simp: pass_shape_def)
    then show ?thesis using less s(2) pv by simp
  next
    case (Cons x R)
    with drop_upto_first [of s ?b "p_rest p" x R] less pv show ?thesis
      by (auto simp: a_def r_def vlen_def split: if_splits)
  qed
  ultimately show ?thesis
    using st'(1) le moves_step [OF step]
    by (intro exI [of _ st'] exI [of _ "moved_past p a r"]) auto
qed

lemma local_catch_up:
  assumes at: "local_at root ps ts (deletes ps es) st p" and base: "edit_base root ps" "fresh ts ps"
    and s: "p_vis p \<le> s" "s \<le> length (vis ps)"
    and none: "\<And>v. p_vis p \<le> v \<Longrightarrow> v < s \<Longrightarrow> \<not> in_ranges es v"
    and e: "end_at fts_dim visible_at st = Some fragment_end"
  shows "\<exists>st' q. (if fragment_end < s then do {
              st \<leftarrow> consume_rest fts_dim visible_at st;
              append_slice fts_dim visible_at (visible_target s) Right st }
            else Some st) = Some st'
    \<and> local_at root ps ts (deletes ps es) st' q \<and> moves ts (deletes ps es) p q \<and> p_vis q \<le> s
    \<and> (p_vis q < s \<longrightarrow> (\<exists>x R. p_rest q = x # R \<and> frag_visible (fst x) \<and> s \<le> length (vis (p_done q)) + length (snd x)))"
proof -
  note f = local_at_facts [OF at base] and pos = local_positions [OF at base]
  have ps: "list_all piece_ok ps" using edit_base_root(4) [OF base(1)] .
  have fe: "fragment_end = length (vis (p_done p)) + (case p_rest p of [] \<Rightarrow> 0 | x # _ \<Rightarrow> vlen x)" using pos(3) e by simp
  show ?thesis
  proof (cases "fragment_end < s")
    case False
    have "\<exists>x R. p_rest p = x # R \<and> frag_visible (fst x) \<and> s \<le> length (vis (p_done p)) + length (snd x)" if "p_vis p < s"
    proof (cases "p_rest p")
      case Nil
      then show ?thesis using that False fe pos(4) by simp
    next
      case (Cons x R)
      then show ?thesis using that False fe pos(4) by (auto simp: vlen_def split: if_splits)
    qed
    then show ?thesis using False at s by (intro exI [of _ st] exI [of _ p]) auto
  next
    case True
    have vx: "vlen x = length (snd x)" if "p_rest p = x # R" "0 < p_used p" for x R
      using that at by (simp add: local_at_def vlen_def)
    obtain st1 where st1: "consume_rest fts_dim visible_at st = Some st1" "simulates fts_dim root ps st1 (finish_piece p)"
        "fragment_start st1 = fragment_start st"
    proof -
      have "fragment_start st = length (vis (p_done p)) + p_used p" using f(7) pos(4) by simp
      moreover have "visible_at (item_end fragment_ops fts_dim (item_pos fts_dim p) (fst x)) = Some (length (vis (p_done p)) + length (snd x))"
        if "p_rest p = x # R" "0 < p_used p" for x R using pos(5) [OF that(1)] vx [OF that] by simp
      ultimately show ?thesis
        using sim_consume_rest [where rd = visible_at, OF f(6) base(1) f(2) pos(1)] that by auto
    qed
    have sh: "pass_shape ts ps (finish_piece p)" by (rule shape_finish_piece [OF f(2) ps])
    have used: "p_used (finish_piece p) = 0" by (rule finish_piece_used [OF f(2)])
    have fp: "p_vis (finish_piece p) = (if p_used p = 0 then p_vis p else fragment_end)"
      "0 < p_used p \<Longrightarrow> p_rest p = x # R \<Longrightarrow> p_index (finish_piece p) = length (cells (p_done p)) + length (snd x)" for x R
      using f(2) fe vx by (auto simp: finish_piece_def move_on_def p_vis_def p_index_def pass_shape_def vlen_def split: list.splits)
    have le: "p_vis (finish_piece p) \<le> s" using fp(1) True s(1) by (auto split: if_splits)
    have steps: "pass_steps ts (deletes ps es) p (finish_piece p)"
    proof (rule finish_piece_steps [OF f(2)])
      fix x R j assume x: "p_rest p = x # R" "0 < p_used p" "p_index p \<le> j" "j < length (cells (p_done p)) + length (snd x)"
      show "\<not> deletes ps es j"
        by (rule no_deletes_between [OF f(2) sh x(3)]) (use x fp(2) none le in auto)
    qed
    then have mv: "moves ts (deletes ps es) p (finish_piece p)"
      by (auto simp: moves_def finish_piece_def move_on_def split: list.splits)
    have "pass_steps ts (deletes ps es) (pass_start ps) (finish_piece p)"
      using steps at rtranclp_trans [of "pass_step ts (deletes ps es)"] unfolding local_at_def by blast
    then have st1': "simulates fts_dim root ps (st1\<lparr>fragment_start := p_vis (finish_piece p)\<rparr>) (finish_piece p)
        \<and> local_at root ps ts (deletes ps es) (st1\<lparr>fragment_start := p_vis (finish_piece p)\<rparr>) (finish_piece p)"
      using st1(2) used by (simp add: local_at_def simulates_def)
    have slice_fs: "append_slice fts_dim visible_at (visible_target s) Right (st1\<lparr>fragment_start := n\<rparr>) =
        append_slice fts_dim visible_at (visible_target s) Right st1" for n
      by (simp add: append_slice_def)
    have "\<not> in_ranges es v" if "p_vis (finish_piece p) \<le> v" "v < s" for v
      using that none moves_vis(1) [OF f(2) ps mv] by auto
    from local_skip [OF conjunct2 [OF st1'] base used le s(2) this] obtain st' q where
      "append_slice fts_dim visible_at (visible_target s) Right st1 = Some st'"
      "local_at root ps ts (deletes ps es) st' q" "moves ts (deletes ps es) (finish_piece p) q" "p_vis q \<le> s"
      "p_vis q < s \<longrightarrow> (\<exists>x R. p_rest q = x # R \<and> frag_visible (fst x) \<and> s \<le> length (vis (p_done q)) + length (snd x))"
      unfolding slice_fs by blast
    then show ?thesis
      using True st1(1) moves_trans [OF mv] by (intro exI [of _ st'] exI [of _ q]) auto
  qed
qed

section \<open>Prefix and insertion\<close>

text \<open>A boundary of the visible text is a boundary in the piece it falls into.\<close>

lemma boundary_in_piece:
  assumes "pass_shape ts ps p" "p_rest p = x # R" "frag_visible (fst x)" "is_char_boundary (vis ps) s"
    and "length (vis (p_done p)) < s" "s \<le> length (vis (p_done p)) + length (snd x)"
  shows "starts_char (drop (s - length (vis (p_done p))) (snd x))"
proof (cases "s = length (vis (p_done p)) + length (snd x)")
  case False
  let ?k = "s - length (vis (p_done p))"
  have k: "?k < length (snd x)" using assms(5,6) False by simp
  have v: "vis ps = vis (p_done p) @ snd x @ vis R" using assms(1-3) by (auto simp: pass_shape_def)
  have "vis ps ! s = snd x ! ?k" "s < length (vis ps)" using k assms(5) by (simp_all add: v nth_append)
  then have "\<not> is_continuation (snd x ! ?k)" using assms(4,5) by (auto simp: is_char_boundary_def)
  then show ?thesis using k by (simp add: starts_char_def hd_drop_conv_nth)
qed (simp add: starts_char_def)

lemma keep_part_simps:
  assumes "p_rest p = x # R"
  shows "p_done (keep_part n p) = p_done p" "p_rest (keep_part n p) = x # R" "p_used (keep_part n p) = p_used p + n"
    "p_offset (keep_part n p) = p_offset p" "p_index (keep_part n p) = p_index p + n"
    "p_vis (keep_part n p) = p_vis p + (if frag_visible (fst x) then n else 0)"
    "p_new (keep_part n p) = p_new p @ [with_id (between (max_id (p_new p)) (frag_id (fst x))) (part x (p_used p) n)]"
  using assms by (simp_all add: keep_part_def p_index_def p_vis_def)

lemma keep_part_step:
  assumes "p_rest p = x # R" "0 < n" "p_used p + n \<le> length (snd x)" "starts_char (drop (p_used p + n) (snd x))"
    and "\<And>j. p_index p \<le> j \<Longrightarrow> j < p_index p + n \<Longrightarrow> \<not> dl j"
  shows "pass_step ts dl p (keep_part n p)"
  using pass_step.keep [of p x R n dl ts] assms by (simp add: keep_part_def)

lemma local_prefix:
  assumes at: "local_at root ps ts (deletes ps es) st p" and base: "edit_base root ps" "fresh ts ps"
    and s: "p_vis p \<le> s" "is_char_boundary (vis ps) s"
    and none: "\<And>v. p_vis p \<le> v \<Longrightarrow> v < s \<Longrightarrow> \<not> in_ranges es v"
    and x: "p_vis p < s \<longrightarrow> (\<exists>x R. p_rest p = x # R \<and> frag_visible (fst x) \<and> s \<le> length (vis (p_done p)) + length (snd x))"
  shows "\<exists>st' q. push_prefix visible_at s st = Some st' \<and> local_at root ps ts (deletes ps es) st' q \<and> moves ts (deletes ps es) p q \<and> p_vis q = s
    \<and> p_done q = p_done p"
proof (cases "p_vis p < s")
  case False
  then show ?thesis using at s(1)
    by (intro exI [of _ st] exI [of _ p]) (simp add: push_prefix_def local_at_def)
next
  case True
  note f = local_at_facts [OF at base] and pos = local_positions [OF at base]
  from x True obtain x R where x: "p_rest p = x # R" "frag_visible (fst x)" "s \<le> length (vis (p_done p)) + length (snd x)" by blast
  let ?n = "s - p_vis p" and ?b = "length (vis (p_done p))"
  have n: "0 < ?n" "p_used p + ?n \<le> length (snd x)" "p_used p + ?n = s - ?b" using True x(3) pos(4) by auto
  have sc: "starts_char (drop (s - ?b) (snd x))"
    using boundary_in_piece [OF f(2) x(1,2) s(2) _ x(3)] True pos(4) by simp
  have "fragment_start st = ?b + p_used p" "fragment_start st < s" using f(7) pos(4) True by simp_all
  from sim_push_prefix [where rd = visible_at, OF f(6) base(1) f(2) pos(1) x(1) this x(3) sc] f(7) obtain st' where
    st': "push_prefix visible_at s st = Some st'" "simulates fts_dim root ps st' (keep_part ?n p)" "fragment_start st' = s"
    by auto
  have pv: "p_vis (keep_part ?n p) = s" using keep_part_simps(6) [OF x(1), of ?n] x(2) True by simp
  have sh: "pass_shape ts ps (keep_part ?n p)"
    by (rule pass_shape_step [OF keep_part_step [where dl = "\<lambda>_. False", OF x(1) n(1,2)] f(2) edit_base_root(4) [OF base(1)]])
      (use sc n(3) in simp_all)
  have "\<not> deletes ps es j" if "p_index p \<le> j" "j < p_index p + ?n" for j
    by (rule no_deletes_between [OF f(2) sh that(1)]) (use that none pv keep_part_simps(5) [OF x(1)] in auto)
  then have step: "pass_step ts (deletes ps es) p (keep_part ?n p)"
    by (intro keep_part_step [OF x(1) n(1,2)]) (use sc n(3) in simp_all)
  then have "local_at root ps ts (deletes ps es) st' (keep_part ?n p)"
    using at st' pv x keep_part_simps(2) [OF x(1)] by (auto simp: local_at_def)
  then show ?thesis
    using st'(1) pv keep_part_simps(1) [OF x(1)] moves_step [OF step keep_part_simps(4) [OF x(1)]]
    by (intro exI [of _ st'] exI [of _ "keep_part ?n p"]) simp
qed

lemma insert_text_simps:
  "p_done (insert_text ts t p) = p_done p" "p_rest (insert_text ts t p) = p_rest p" "p_used (insert_text ts t p) = p_used p"
  "p_vis (insert_text ts t p) = p_vis p" "p_index (insert_text ts t p) = p_index p"
  "p_offset (insert_text ts t p) = p_offset p + length t" "vis (p_new (insert_text ts t p)) = vis (p_new p) @ t"
  by (simp_all add: insert_text_def Let_def p_vis_def p_index_def new_fragment_def split: list.splits)

lemma insert_text_cells:
  "p_offset p + length t < 2 ^ 32 \<Longrightarrow>
    cells (p_new (insert_text ts t p)) = cells (p_new p) @ map (\<lambda>(i, b). new_cell ts i b) (enumerate (p_offset p) t)"
  using cells_new_pieces [of "p_offset p" "[t]" ts] by (simp add: insert_text_def Let_def)

lemma local_insert_ok:
  assumes at: "local_at root ps ts dl st p" and base: "edit_base root ps" "fresh ts ps"
    and t: "starts_char t" "p_offset p + length t < 2 ^ 32"
  shows "\<exists>st' q. local_insert ts t st = Some st' \<and> local_at root ps ts dl st' q
    \<and> p_done q = p_done p \<and> p_rest q = p_rest p \<and> p_used q = p_used p \<and> p_vis q = p_vis p \<and> p_index q = p_index p
    \<and> p_offset q = p_offset p + length t \<and> vis (p_new q) = vis (p_new p) @ t
    \<and> cells (p_new q) = cells (p_new p) @ map (\<lambda>(i, b). new_cell ts i b) (enumerate (p_offset p) t)"
proof (cases "t = []")
  case True
  then show ?thesis using at by (intro exI [of _ st] exI [of _ p]) (simp add: local_insert_def)
next
  case False
  note f = local_at_facts [OF at base]
  from sim_insert [OF f(6,5) False t(2) refl, of ts] obtain st' where
    st': "push_fragments_for_insertion t ts (next_id (p_rest p)) ts st = Some st'"
      "simulates fts_dim root ps (push_edit (p_vis p, p_vis p) (new_visible_len st, new_visible_len st + length t) st') (insert_text ts t p)"
      "fragment_start st' = fragment_start st" by blast
  have "pass_step ts dl p (insert_text ts t p)" by (rule insert_text_step [OF False t])
  then have "local_at root ps ts dl (push_edit (p_vis p, p_vis p) (new_visible_len st, new_visible_len st + length t) st') (insert_text ts t p)"
    using at st'(2,3) f(7) by (auto simp: local_at_def insert_text_simps push_edit_def)
  then show ?thesis
    using False st' f(7) sim_item(1) [OF f(6)] insert_text_cells [OF t(2)]
    by (intro exI [of _ "push_edit (p_vis p, p_vis p) (new_visible_len st, new_visible_len st + length t) st'"]
        exI [of _ "insert_text ts t p"])
      (simp add: local_insert_def next_fragment_id_eq insert_text_simps Let_def)
qed

section \<open>Deletion\<close>

definition mark_part :: "lamport \<Rightarrow> nat \<Rightarrow> pass \<Rightarrow> pass" where
  "mark_part ts n p = (case p_rest p of [] \<Rightarrow> p | x # R \<Rightarrow>
     (let y = deleted_by ts (with_id (between (max_id (p_new p)) (frag_id (fst x))) (part x (p_used p) n)) in
      (emit_piece y p)\<lparr>p_used := p_used p + n, p_slices := p_slices p @ [slice_from_fragment ts (fst y)],
         p_patch := (if frag_visible (fst x)
           then patch_push (mk_edit (p_vis p) (p_vis p + n) (length (vis (p_new p))) (length (vis (p_new p)))) (p_patch p)
           else p_patch p)\<rparr>))"

lemma mark_part_simps:
  assumes "p_rest p = x # R"
  shows "p_done (mark_part ts n p) = p_done p" "p_rest (mark_part ts n p) = x # R" "p_used (mark_part ts n p) = p_used p + n"
    "p_offset (mark_part ts n p) = p_offset p" "p_vis (mark_part ts n p) = p_vis p + (if frag_visible (fst x) then n else 0)"
    "vis (p_new (mark_part ts n p)) = vis (p_new p)"
  using assms by (simp_all add: mark_part_def Let_def p_vis_def)

lemma mark_part_step:
  assumes "p_rest p = x # R" "0 < n" "p_used p + n \<le> length (snd x)" "starts_char (drop (p_used p + n) (snd x))"
    and "\<And>j. p_index p \<le> j \<Longrightarrow> j < p_index p + n \<Longrightarrow> dl j"
  shows "pass_step ts dl p (mark_part ts n p)"
  using pass_step.mark [of p x R n dl _ ts, OF assms(1-4) _ refl] assms(1,5) by (simp add: mark_part_def Let_def)

lemma sim_update:
  "simulates dm root ps st p \<Longrightarrow>
    simulates dm root ps (st\<lparr>edits_patch := e, new_slices := sl\<rparr>) (p\<lparr>p_patch := e, p_slices := sl\<rparr>)"
  by (simp add: simulates_def ropes_of_def p_vis_def p_del_def split: list.splits)

definition marked_fragment :: "lamport \<Rightarrow> nat \<Rightarrow> pass \<Rightarrow> fragment \<Rightarrow> fragment" where
  "marked_fragment ts n p f = (fragment_part f (p_used p) n)\<lparr>frag_id := between (max_id (p_new p)) (frag_id f),
     frag_deletions := frag_deletions f @ [ts], frag_visible := False\<rparr>"

lemma sim_mark:
  assumes sim: "simulates dm root ps st p" and base: "edit_base root ps" and sh: "pass_shape ts ps p" and x: "p_rest p = x # R"
    and n: "0 < n" "p_used p + n \<le> length (snd x)" "starts_char (drop (p_used p + n) (snd x))"
    and e: "e = (if frag_visible (fst x)
           then patch_push (mk_edit (p_vis p) (p_vis p + n) (length (vis (p_new p))) (length (vis (p_new p)))) (p_patch p)
           else p_patch p)"
  shows "\<exists>st'. emit_fragment (marked_fragment ts n p (fst x)) (frag_visible (fst x))
      (st\<lparr>edits_patch := e, new_slices := new_slices st @ [slice_from_fragment ts (marked_fragment ts n p (fst x))]\<rparr>) = Some st'
    \<and> simulates dm root ps st' (mark_part ts n p) \<and> 0 < frag_len (marked_fragment ts n p (fst x))"
proof -
  have ok: "piece_ok x" using piece_ok_rest [OF sh base x] .
  let ?f = "marked_fragment ts n p (fst x)"
  let ?y = "deleted_by ts (with_id (between (max_id (p_new p)) (frag_id (fst x))) (part x (p_used p) n))"
  let ?sl = "p_slices p @ [slice_from_fragment ts (fst ?y)]"
  let ?p = "p\<lparr>p_patch := e, p_slices := ?sl\<rparr>"
  have y: "fst ?y = ?f" by (simp add: marked_fragment_def deleted_by_def with_id_def part_fragment fragment_part_def)
  have len: "unat (frag_len (fst ?y)) = n" using part_fields(1) [OF ok n(2)] by (simp add: deleted_by_def with_id_def)
  have fok: "fragment_ok (fst ?y)" using fragment_ok_part [OF ok] by (simp add: deleted_by_def with_id_def fragment_ok_def)
  have "p_rest ?p = x # R" "p_used ?p + n \<le> length (snd x)" "starts_char (drop (p_used ?p) (snd x))"
    "starts_char (drop (p_used ?p + n) (snd x))" "snd ?y = take n (drop (p_used ?p) (snd x))"
    using x n sh by (simp_all add: pass_shape_def)
  from sim_emit [OF sim_update [OF sim] base this len fok] obtain st' where
    st': "emit_fragment ?f (frag_visible (fst x)) (st\<lparr>edits_patch := e, new_slices := ?sl\<rparr>) = Some st'"
      "simulates dm root ps st' ((emit_piece ?y ?p)\<lparr>p_used := p_used p + n\<rparr>)"
    unfolding y by auto
  have "(emit_piece ?y ?p)\<lparr>p_used := p_used p + n\<rparr> = mark_part ts n p"
    using x e by (simp add: mark_part_def emit_piece_def Let_def)
  moreover have "0 < frag_len ?f" using len n(1) unfolding y by (auto simp: word_gt_0)
  moreover have "new_slices st = p_slices p" using sim by (simp add: simulates_def)
  ultimately show ?thesis using st' unfolding y by auto
qed

lemma local_mark:
  assumes at: "local_at root ps ts (deletes ps es) st p" and base: "edit_base root ps" "fresh ts ps"
    and x: "p_rest p = x # R" "frag_visible (fst x)"
    and n: "0 < n" "p_used p + n \<le> length (snd x)" "starts_char (drop (p_used p + n) (snd x))"
    and all: "\<And>v. p_vis p \<le> v \<Longrightarrow> v < p_vis p + n \<Longrightarrow> in_ranges es v"
  defines "f \<equiv> marked_fragment ts n p (fst x)"
  shows "\<exists>st'. emit_fragment f True ((push_edit (p_vis p, p_vis p + n) (new_visible_len st, new_visible_len st) st)
              \<lparr>new_slices := new_slices st @ [slice_from_fragment ts f]\<rparr>) = Some st'
    \<and> local_at root ps ts (deletes ps es) (st'\<lparr>fragment_start := p_vis p + n\<rparr>) (mark_part ts n p)
    \<and> moves ts (deletes ps es) p (mark_part ts n p) \<and> 0 < frag_len f"
proof -
  note g = local_at_facts [OF at base]
  from sim_mark [OF g(6) base(1) g(2) x(1) n refl] x(2) obtain st' where
    st': "emit_fragment f True (st\<lparr>edits_patch := patch_push (mk_edit (p_vis p) (p_vis p + n) (length (vis (p_new p))) (length (vis (p_new p)))) (p_patch p),
          new_slices := new_slices st @ [slice_from_fragment ts f]\<rparr>) = Some st'"
      "simulates fts_dim root ps st' (mark_part ts n p)" "0 < frag_len f" by (auto simp: f_def)
  have "deletes ps es j" if "p_index p \<le> j" "j < p_index p + n" for j
  proof -
    have "p_used p + (j - p_index p) < length (snd x)" using that n(2) by simp
    from visible_piece_cells [OF g(2) x(1) this] x(2) that all [of "p_vis p + (j - p_index p)"] show ?thesis
      by (simp add: deletes_def)
  qed
  then have step: "pass_step ts (deletes ps es) p (mark_part ts n p)" by (intro mark_part_step [OF x(1) n]) auto
  then have "local_at root ps ts (deletes ps es) (st'\<lparr>fragment_start := p_vis p + n\<rparr>) (mark_part ts n p)"
    using at st'(2) x mark_part_simps [OF x(1), of ts n] by (auto simp: local_at_def simulates_def)
  then show ?thesis
    using st'(1,3) g(6) sim_visible_len [OF g(6,5)] moves_step [OF step mark_part_simps(4) [OF x(1)]]
    by (auto simp: push_edit_def simulates_def)
qed

lemma part_whole: "piece_ok x \<Longrightarrow> part x 0 (length (snd x)) = x"
  by (cases x) (simp add: piece_ok_def part_def fragment_part_def)

lemma local_advance:
  assumes at: "local_at root ps ts dl st p" and base: "edit_base root ps" "fresh ts ps"
    and x: "p_rest p = x # R" "p_used p = length (snd x)" "frag_visible (fst x)"
  shows "\<exists>st'. advance fts_dim st = Some st' \<and> local_at root ps ts dl st' (move_on p) \<and> moves ts dl p (move_on p)"
proof -
  note g = local_at_facts [OF at base]
  from sim_advance [OF g(6) base(1) x(1,2)] obtain st' where
    st': "advance fts_dim st = Some st'" "simulates fts_dim root ps st' (move_on p)" "fragment_start st' = fragment_start st"
    using x by (auto simp: move_on_def)
  have "snd x \<noteq> []" using g(4) x(1) by (simp add: piece_ok_def)
  then have "pass_step ts dl p (move_on p)" using pass_step.advance [OF x(1,2), of ts dl] x by (simp add: move_on_def)
  moreover have "p_vis (move_on p) = p_vis p" using x by (simp add: move_on_def p_vis_def split: list.splits)
  moreover have "p_offset (move_on p) = p_offset p" by (simp add: move_on_def split: list.splits)
  ultimately show ?thesis using at st' moves_step by (auto simp: local_at_def move_on_def split: list.splits)
qed

text \<open>What a turn of the deletion loop reads.\<close>

lemma local_delete_reads:
  assumes at: "local_at root ps ts dl st p" and base: "edit_base root ps" "fresh ts ps" and x: "p_rest p = x # R"
  shows "item_unwrap (old_fragments st) = Some (fst x)"
    and "end_at fts_dim visible_at st = Some (length (vis (p_done p)) + vlen x)"
    and "start_at visible_at st = Some (length (vis (p_done p)))"
    and "fs_max_id (fb_summary (new_fragments st)) = max_id (p_new p)"
    and "fragment_start st = p_vis p"
proof -
  note g = local_at_facts [OF at base] and pos = local_positions [OF at base]
  show "item_unwrap (old_fragments st) = Some (fst x)" using sim_item(2) [OF g(6) x] .
  show "end_at fts_dim visible_at st = Some (length (vis (p_done p)) + vlen x)" using pos(3) x by simp
  show "start_at visible_at st = Some (length (vis (p_done p)))" using sim_start(2) [OF g(6), of visible_at] pos(1) by simp
  show "fs_max_id (fb_summary (new_fragments st)) = max_id (p_new p)" by (rule sim_max_id [OF g(6)])
  show "fragment_start st = p_vis p" by (rule g(7))
qed

text \<open>One turn of the deletion loop either reaches the end of the range or moves to the next fragment.\<close>

lemma local_delete_visible:
  assumes at: "local_at root ps ts (deletes ps es) st p" and base: "edit_base root ps" "fresh ts ps"
    and e: "p_vis p < e" "e \<le> length (vis ps)" "is_char_boundary (vis ps) e"
    and all: "\<And>v. p_vis p \<le> v \<Longrightarrow> v < e \<Longrightarrow> in_ranges es v"
    and x: "p_rest p = x # R" and vx: "frag_visible (fst x)"
  shows "\<exists>st' q. local_delete_step ts e st = Some st' \<and> local_at root ps ts (deletes ps es) st' q
    \<and> moves ts (deletes ps es) p q \<and> p_vis q \<le> e
    \<and> (p_vis q = e \<or> length (p_rest q) < length (p_rest p))"
proof -
  note g = local_at_facts [OF at base] and pos = local_positions [OF at base]
  let ?b = "length (vis (p_done p))"
  have ok: "piece_ok x" and used: "p_used p \<le> length (snd x)" using g(2,4) x by (simp_all add: pass_shape_def)
  note reads = local_delete_reads [OF at base x]
  let ?fe = "?b + length (snd x)"
  let ?n = "min e ?fe - p_vis p"
  have vl: "vlen x = length (snd x)" using vx by (simp add: vlen_def)
  have le: "p_vis p \<le> min e ?fe" using e(1) used pos(4) by simp
  let ?f = "marked_fragment ts ?n p (fst x)"
  show ?thesis
  proof (cases "?n = 0")
    case True
    then have full: "p_used p = length (snd x)" "?fe \<le> e" using e(1) used pos(4) by auto
    from local_advance [OF at base x full(1) vx] obtain st' where
      st': "advance fts_dim st = Some st'" "local_at root ps ts (deletes ps es) st' (move_on p)"
        "moves ts (deletes ps es) p (move_on p)" by blast
    have "\<not> 0 < frag_len ?f" using True by (simp add: marked_fragment_def fragment_part_def)
    then have "local_delete_step ts e st = Some st'"
      using reads vl vx le pos(4) st'(1) full(2) True
      by (simp add: local_delete_step_def Let_def fragment_part_def marked_fragment_def)
    moreover have "p_vis (move_on p) = p_vis p" using x full vx by (simp add: move_on_def p_vis_def split: list.splits)
    ultimately show ?thesis
      using st'(2,3) e(1) x by (intro exI [of _ st'] exI [of _ "move_on p"]) (simp add: move_on_def)
  next
    case False
    then have n: "0 < ?n" "p_used p + ?n \<le> length (snd x)" "p_vis p + ?n = min e ?fe" using le used pos(4) by auto
    have sc: "starts_char (drop (p_used p + ?n) (snd x))"
    proof (cases "e \<le> ?fe")
      case True
      then have "p_used p + ?n = e - ?b" using le pos(4) by simp
      then show ?thesis using boundary_in_piece [OF g(2) x vx e(3) _ True] e(1) pos(4) by simp
    next
      case False
      then have "p_used p + ?n = length (snd x)" using le used pos(4) by simp
      then show ?thesis by (simp add: starts_char_def)
    qed
    from local_mark [OF at base x vx n(1,2) sc] all n(3) obtain st' where
      st': "emit_fragment ?f True ((push_edit (p_vis p, min e ?fe) (new_visible_len st, new_visible_len st) st)
            \<lparr>new_slices := new_slices st @ [slice_from_fragment ts ?f]\<rparr>) = Some st'"
        "local_at root ps ts (deletes ps es) (st'\<lparr>fragment_start := min e ?fe\<rparr>) (mark_part ts ?n p)" "0 < frag_len ?f"
        "moves ts (deletes ps es) p (mark_part ts ?n p)" by auto
    let ?st = "st'\<lparr>fragment_start := min e ?fe\<rparr>" and ?q = "mark_part ts ?n p"
    note q = mark_part_simps [OF x, of ts ?n]
    have qv: "p_vis ?q = min e ?fe" using q(5) vx n(3) by simp
    have body: "local_delete_step ts e st = (if ?fe \<le> e then advance fts_dim ?st else Some ?st)"
      using reads vl vx le pos(4) st'(1,3)
      by (simp add: local_delete_step_def Let_def fragment_part_def marked_fragment_def)
    show ?thesis
    proof (cases "?fe \<le> e")
      case True
      then have full: "p_used ?q = length (snd x)" using q(3) le used pos(4) by simp
      from local_advance [OF st'(2) base q(2) full vx] obtain st2 where
        st2: "advance fts_dim ?st = Some st2" "local_at root ps ts (deletes ps es) st2 (move_on ?q)"
          "moves ts (deletes ps es) ?q (move_on ?q)" by blast
      have "p_vis (move_on ?q) = p_vis ?q" using q full vx by (simp add: move_on_def p_vis_def split: list.splits)
      then show ?thesis
        using True body st2(1,2) q(2) qv x moves_trans [OF st'(4) st2(3)]
        by (intro exI [of _ st2] exI [of _ "move_on ?q"]) (simp add: move_on_def)
    next
      case False
      then show ?thesis
        using body st'(2,4) qv by (intro exI [of _ ?st] exI [of _ ?q]) simp
    qed
  qed
qed

lemma local_delete_invisible:
  assumes at: "local_at root ps ts (deletes ps es) st p" and base: "edit_base root ps" "fresh ts ps"
    and e: "p_vis p < e" "e \<le> length (vis ps)" "is_char_boundary (vis ps) e"
    and all: "\<And>v. p_vis p \<le> v \<Longrightarrow> v < e \<Longrightarrow> in_ranges es v"
    and x: "p_rest p = x # R" and vx: "\<not> frag_visible (fst x)"
  shows "\<exists>st' q. local_delete_step ts e st = Some st' \<and> local_at root ps ts (deletes ps es) st' q
    \<and> moves ts (deletes ps es) p q \<and> p_vis q \<le> e
    \<and> (p_vis q = e \<or> length (p_rest q) < length (p_rest p))"
proof -
  note g = local_at_facts [OF at base] and pos = local_positions [OF at base]
  let ?b = "length (vis (p_done p))"
  have ok: "piece_ok x" and used: "p_used p \<le> length (snd x)" using g(2,4) x by (simp_all add: pass_shape_def)
  note reads = local_delete_reads [OF at base x]
  have vl: "vlen x = 0" using vx by (simp add: vlen_def)
  have z: "p_used p = 0" using at x vx by (auto simp: local_at_def)
  have len: "unat (frag_len (fst x)) = length (snd x)" "0 < frag_len (fst x)" "snd x \<noteq> []"
    using ok by (auto simp: piece_ok_def word_gt_0)
  from sim_emit [OF g(6) base(1) x, of "length (snd x)" x] z len ok starts_char_drop_all [of "snd x"] obtain st' where
    st': "emit_fragment (fst x) False st = Some st'" "simulates fts_dim root ps st' ((emit_piece x p)\<lparr>p_used := length (snd x)\<rparr>)"
      "fragment_start st' = fragment_start st"
    using vx by (auto simp: piece_ok_def)
  have "simulates fts_dim root ps (st'\<lparr>fragment_start := p_vis p\<rparr>) ((emit_piece x p)\<lparr>p_used := length (snd x)\<rparr>)"
    using st'(2) by (simp add: simulates_def)
  from sim_advance [OF this base(1), of x R] x obtain st2 where
    st2: "advance fts_dim (st'\<lparr>fragment_start := p_vis p\<rparr>) = Some st2" "fragment_start st2 = p_vis p"
      "simulates fts_dim root ps st2 (move_on (emit_piece x p))" by (auto simp: move_on_def)
  let ?q = "move_on (emit_piece x p)"
  have b: "p_vis p = ?b" using pos(4) z by simp
  then have "local_delete_step ts e st = Some st2"
    using reads vl vx len st'(1) st2(1) e(1) by (simp add: local_delete_step_def Let_def min_absorb2)
  moreover have step: "pass_step ts (deletes ps es) p ?q"
  proof -
    have "\<not> deletes ps es j" if "p_index p \<le> j" "j < length (cells (p_done p)) + length (snd x)" for j
    proof -
      have "p_used p + (j - p_index p) < length (snd x)" using that z by (simp add: p_index_def)
      from visible_piece_cells(2) [OF g(2) x this] vx that show ?thesis by (simp add: deletes_def)
    qed
    then have "pass_step ts (deletes ps es) p
        ((emit_piece (part x (p_used p) (length (snd x) - p_used p)) p)\<lparr>p_done := p_done p @ [x], p_rest := R, p_used := 0\<rparr>)"
      using x z len by (intro pass_step.finish) auto
    then show ?thesis using z part_whole [OF ok] x by (simp add: move_on_def)
  qed
  moreover have "p_vis ?q = p_vis p" using x b vx by (simp add: move_on_def p_vis_def split: list.splits)
  moreover have "moves ts (deletes ps es) p ?q" using x by (intro moves_step [OF step]) (simp add: move_on_def)
  ultimately show ?thesis
    using at st2 x vx e(1)
    by (intro exI [of _ st2] exI [of _ ?q]) (auto simp: local_at_def move_on_def)
qed

lemma local_delete_step_ok:
  assumes at: "local_at root ps ts (deletes ps es) st p" and base: "edit_base root ps" "fresh ts ps"
    and e: "p_vis p < e" "e \<le> length (vis ps)" "is_char_boundary (vis ps) e"
    and all: "\<And>v. p_vis p \<le> v \<Longrightarrow> v < e \<Longrightarrow> in_ranges es v"
  shows "\<exists>st' q. local_delete_step ts e st = Some st' \<and> local_at root ps ts (deletes ps es) st' q
    \<and> moves ts (deletes ps es) p q \<and> p_vis q \<le> e
    \<and> (p_vis q = e \<or> length (p_rest q) < length (p_rest p))"
proof (cases "p_rest p")
  case Nil
  then have "vis ps = vis (p_done p)" using local_at_facts(2) [OF at base] by (auto simp: pass_shape_def)
  then show ?thesis using e(1,2) local_positions(4) [OF at base] Nil local_at_facts(2) [OF at base] by (simp add: pass_shape_def)
next
  case (Cons x R)
  show ?thesis
    using local_delete_visible [OF at base e all Cons] local_delete_invisible [OF at base e all Cons] by blast
qed

lemma local_delete_ok:
  assumes "local_at root ps ts (deletes ps es) st p" "edit_base root ps" "fresh ts ps"
    and "p_vis p \<le> e" "e \<le> length (vis ps)" "is_char_boundary (vis ps) e"
    and "\<And>v. p_vis p \<le> v \<Longrightarrow> v < e \<Longrightarrow> in_ranges es v"
  shows "\<exists>st' q. local_delete ts e st = Some st' \<and> local_at root ps ts (deletes ps es) st' q
    \<and> moves ts (deletes ps es) p q \<and> p_vis q = e"
  using assms
proof (induction "length (p_rest p)" arbitrary: st p rule: less_induct)
  case less
  note base = less.prems(2,3) and e = less.prems(5,6)
  have fs: "fragment_start st = p_vis p" using less.prems(1) by (simp add: local_at_def)
  show ?case
  proof (cases "p_vis p < e")
    case False
    then show ?thesis
      using less.prems fs by (intro exI [of _ st] exI [of _ p]) (simp add: local_delete.simps [of ts e st])
  next
    case True
    from local_delete_step_ok [OF less.prems(1) base True e less.prems(7)] obtain st1 q1 where
      s1: "local_delete_step ts e st = Some st1" "local_at root ps ts (deletes ps es) st1 q1" "moves ts (deletes ps es) p q1" "p_vis q1 \<le> e"
        "p_vis q1 = e \<or> length (p_rest q1) < length (p_rest p)" by blast
    have le: "p_vis p \<le> p_vis q1"
      using moves_vis(1) [OF local_at_facts(2) [OF less.prems(1) base] edit_base_root(4) [OF base(1)] s1(3)] .
    have unfold: "local_delete ts e st = local_delete ts e st1"
      using True fs s1(1) by (subst local_delete.simps) simp
    show ?thesis
    proof (cases "p_vis q1 = e")
      case True
      then have "local_delete ts e st1 = Some st1"
        using s1(2) by (subst local_delete.simps) (simp add: local_at_def)
      then show ?thesis using True s1 unfold by (intro exI [of _ st1] exI [of _ q1]) simp
    next
      case False
      then have "length (p_rest q1) < length (p_rest p)" using s1(5) by simp
      from less.hyps [OF this s1(2) base s1(4) e] less.prems(7) le unfold moves_trans [OF s1(3)] show ?thesis by fastforce
    qed
  qed
qed

section \<open>One edit\<close>

abbreviation bytes :: "piece list \<Rightarrow> char list" where
  "bytes ps \<equiv> map c_byte (cells ps)"

lemma index_boundary:
  assumes "pass_shape ts ps p" "list_all piece_ok ps"
  shows "is_char_boundary (bytes ps) (p_index p)"
proof -
  have piece: "map c_byte (piece_cells x) = snd x" for x by (rule nth_equalityI) (simp_all add: nth_piece_cells mk_cell_def)
  have split: "bytes ps = bytes (p_done p) @ bytes (p_rest p)" using assms(1) by (auto simp: pass_shape_def)
  show ?thesis
  proof (cases "p_rest p")
    case Nil
    then show ?thesis using split assms(1) by (simp add: is_char_boundary_def p_index_def pass_shape_def)
  next
    case (Cons x R)
    have used: "p_used p \<le> length (snd x)" "starts_char (drop (p_used p) (snd x))" using assms(1) Cons by (simp_all add: pass_shape_def)
    have R: "starts_char (bytes R)"
    proof (cases R)
      case (Cons y Q)
      have "piece_ok y" using assms \<open>p_rest p = x # R\<close> Cons by (auto simp: pass_shape_def)
      then show ?thesis using Cons piece [of y] by (auto simp: piece_ok_def starts_char_def)
    qed (simp add: starts_char_def)
    have all: "bytes ps = bytes (p_done p) @ snd x @ bytes R" using split Cons piece by simp
    have "starts_char (drop (p_used p) (snd x @ bytes R))"
      using used R by (cases "p_used p = length (snd x)") (auto simp: starts_char_def hd_append)
    moreover have "drop (p_index p) (bytes ps) = drop (p_used p) (snd x @ bytes R)" unfolding all by (simp add: p_index_def)
    moreover have "p_index p \<le> length (bytes ps)" using used(1) Cons split by (simp add: p_index_def)
    ultimately have "starts_char (drop (p_index p) (bytes ps))" "p_index p \<le> length (bytes ps)" by simp_all
    then show ?thesis
      using hd_drop_conv_nth [of "p_index p" "bytes ps"] by (auto simp: is_char_boundary_def starts_char_def)
  qed
qed

lemma local_edit_step_ok:
  assumes at: "local_at root ps ts (deletes ps es) st p" and base: "edit_base root ps" "fresh ts ps"
    and s: "p_vis p \<le> s" "s \<le> e" "e \<le> length (vis ps)" "is_char_boundary (vis ps) s" "is_char_boundary (vis ps) e"
    and none: "\<And>v. p_vis p \<le> v \<Longrightarrow> v < s \<Longrightarrow> \<not> in_ranges es v"
    and all: "\<And>v. s \<le> v \<Longrightarrow> v < e \<Longrightarrow> in_ranges es v"
    and t: "starts_char t" "p_offset p + length t < 2 ^ 32"
  shows "\<exists>st' q a. local_edit_step ts (s, e) t st = Some (st', (a, p_index q)) \<and> local_at root ps ts (deletes ps es) st' q
    \<and> p_vis q = e \<and> p_offset q = p_offset p + length t
    \<and> vis (p_new q) = vis (p_new p) @ take (s - p_vis p) (drop (p_vis p) (vis ps)) @ t
    \<and> voff (cells ps) a = s \<and> p_index p \<le> a \<and> a \<le> p_index q \<and> is_char_boundary (bytes ps) a
    \<and> cells (p_new q) = cells (p_new p) @ marks ts (deletes ps es) (p_index p) (take (a - p_index p) (drop (p_index p) (cells ps)))
      @ map (\<lambda>(i, b). new_cell ts i b) (enumerate (p_offset p) t)
      @ marks ts (deletes ps es) a (take (p_index q - a) (drop a (cells ps)))"
proof -
  let ?dl = "deletes ps es"
  have ps: "list_all piece_ok ps" by (rule edit_base_root(4) [OF base(1)])
  obtain fe where fe: "end_at fts_dim visible_at st = Some fe" using local_positions(3) [OF at base] by blast
  have s': "s \<le> length (vis ps)" using s by simp
  from local_catch_up [OF at base s(1) s' none fe] obtain st1 q1 where
    q1: "(if fe < s then do { st \<leftarrow> consume_rest fts_dim visible_at st;
              append_slice fts_dim visible_at (visible_target s) Right st } else Some st) = Some st1"
      "local_at root ps ts ?dl st1 q1" "moves ts ?dl p q1" "p_vis q1 \<le> s"
      "p_vis q1 < s \<longrightarrow> (\<exists>x R. p_rest q1 = x # R \<and> frag_visible (fst x) \<and> s \<le> length (vis (p_done q1)) + length (snd x))"
    by blast
  note sh0 = local_at_facts(2) [OF at base]
  have none1: "\<not> in_ranges es v" if "p_vis q1 \<le> v" "v < s" for v using that none moves_vis(1) [OF sh0 ps q1(3)] by auto
  from local_prefix [OF q1(2) base q1(4) s(4) none1 q1(5)] obtain st2 q2 where
    q2: "push_prefix visible_at s st1 = Some st2" "local_at root ps ts ?dl st2 q2" "moves ts ?dl q1 q2"
      "p_vis q2 = s" "p_done q2 = p_done q1" by blast
  have mv: "moves ts ?dl p q2" by (rule moves_trans [OF q1(3) q2(3)])
  then have off2: "p_offset q2 = p_offset p" by (simp add: moves_def)
  then have "p_offset q2 + length t < 2 ^ 32" using t(2) by simp
  from local_insert_ok [OF q2(2) base t(1) this] obtain st3 q3 where
    q3: "local_insert ts t st2 = Some st3" "local_at root ps ts ?dl st3 q3" "p_vis q3 = p_vis q2" "p_index q3 = p_index q2"
      "p_offset q3 = p_offset q2 + length t" "vis (p_new q3) = vis (p_new q2) @ t"
      "cells (p_new q3) = cells (p_new q2) @ map (\<lambda>(i, b). new_cell ts i b) (enumerate (p_offset q2) t)" by blast
  have "p_vis q3 \<le> e" and all3: "\<And>v. p_vis q3 \<le> v \<Longrightarrow> v < e \<Longrightarrow> in_ranges es v" using q3(3) q2(4) s(2) all by simp_all
  from local_delete_ok [OF q3(2) base this(1) s(3,5) this(2)] obtain st4 q4 where
    q4: "local_delete ts e st3 = Some st4" "local_at root ps ts ?dl st4 q4" "moves ts ?dl q3 q4" "p_vis q4 = e" by blast
  let ?a = "s + fts_deleted (start (old_fragments st1))" and ?b = "e + fts_deleted (start (old_fragments st4))"
  have a: "?a = p_index q2" using local_positions(2) [OF q1(2) base] local_positions(6) [OF q2(2) base] q2(4,5) by simp
  have b: "?b = p_index q4" using local_positions(2,6) [OF q4(2) base] q4(4) by simp
  have "local_edit_step ts (s, e) t st = Some (st4, (?a, ?b))"
    using fe q1(1) q2(1) q3(1) q4(1)
    by (cases "fe < s") (auto simp: local_edit_step_def Let_def bind_eq_Some_conv)
  note run = this [unfolded a b]
  note sh2 = local_at_facts(2) [OF q2(2) base] and sh3 = local_at_facts(2) [OF q3(2) base] and sh4 = local_at_facts(2) [OF q4(2) base]
  note c2 = moves_cells [OF sh0 ps mv] and c4 = moves_cells [OF sh3 ps q4(3)]
  have "\<not> ?dl j" if "p_index p \<le> j" "j < p_index q2" for j
    by (rule no_deletes_between [OF sh0 sh2 that]) (use none q2(4) in auto)
  then have "vis (p_new q2) = vis (p_new p) @ take (s - p_vis p) (drop (p_vis p) (vis ps))"
    using moves_vis(2) [OF sh0 ps mv] q2(4) by simp
  moreover have "vis (p_new q4) = vis (p_new q3)"
  proof (rule moves_vis(3) [OF sh3 ps q4(3)])
    fix j assume j: "p_index q3 \<le> j" "j < p_index q4" "c_visible (cells ps ! j)"
    have len: "j < length (cells ps)" using j(2) c4(2) by simp
    have "s \<le> voff (cells ps) j" using voff_mono [OF j(1), of "cells ps"] voff_index [OF sh3] q3(3) q2(4) by simp
    moreover have "voff (cells ps) j < e" using voff_less [OF j(2) c4(2) j(3)] voff_index [OF sh4] q4(4) by simp
    ultimately show "?dl j" using all len j(3) by (simp add: deletes_def)
  qed
  ultimately have v: "vis (p_new q4) = vis (p_new p) @ take (s - p_vis p) (drop (p_vis p) (vis ps)) @ t" using q3(6) by simp
  have off: "p_offset q4 = p_offset p + length t" using q4(3) q3(5) off2 by (simp add: moves_def)
  show ?thesis
    using run q4(2,4) v off voff_index [OF sh2] q2(4) c2 c4 q3(4,7) off2 index_boundary [OF sh2 ps]
    by (intro exI [of _ st4] exI [of _ q4] exI [of _ "p_index q2"]) simp
qed

section \<open>All edits\<close>

fun edits_ok :: "char list \<Rightarrow> nat \<Rightarrow> ((nat \<times> nat) \<times> char list) list \<Rightarrow> bool" where
  "edits_ok v a [] = True"
| "edits_ok v a (((s, e), t) # es) =
     (a \<le> s \<and> s \<le> e \<and> e \<le> length v \<and> is_char_boundary v s \<and> is_char_boundary v e \<and> starts_char t \<and> edits_ok v e es)"

text \<open>The specification of a batch of edits: the ranges of the old text replaced by the new texts.\<close>

fun splice :: "char list \<Rightarrow> nat \<Rightarrow> ((nat \<times> nat) \<times> char list) list \<Rightarrow> char list" where
  "splice v a [] = drop a v"
| "splice v a (((s, e), t) # es) = take (s - a) (drop a v) @ t @ splice v e es"

lemma in_ranges_simps [simp]:
  "\<not> in_ranges [] x" "in_ranges (((s, e), t) # es) x \<longleftrightarrow> s \<le> x \<and> x < e \<or> in_ranges es x"
  by (auto simp: in_ranges_def)

lemma in_ranges_ge: "edits_ok v a es \<Longrightarrow> in_ranges es x \<Longrightarrow> a \<le> x"
  by (induction v a es rule: edits_ok.induct) auto

lemma splice_from:
  assumes "edits_ok v a es" "b \<le> a"
  shows "splice v b es = take (a - b) (drop b v) @ splice v a es"
proof (cases es)
  case Nil
  have "drop b v = take (a - b) (drop b v) @ drop a v"
    using assms(2) append_take_drop_id [of "a - b" "drop b v"] by simp
  then show ?thesis using Nil by simp
next
  case (Cons c rs)
  obtain s e t where c: "c = ((s, e), t)" by (metis prod.exhaust)
  have "a \<le> s" using assms(1) Cons c by simp
  then have "take (s - b) (drop b v) = take (a - b) (drop b v) @ take (s - a) (drop a v)"
    using assms(2) take_add [of "a - b" "s - a" "drop b v"] by simp
  then show ?thesis using Cons c by simp
qed

definition normalized :: "((nat \<times> nat) \<times> char list) list \<Rightarrow> ((nat \<times> nat) \<times> char list) list" where
  "normalized es = map (\<lambda>(r, t). (r, separators_to_newlines t)) es"

lemma normalized_simps [simp]: "normalized [] = []" "normalized ((r, t) # es) = (r, separators_to_newlines t) # normalized es"
  by (simp_all add: normalized_def)

lemma starts_char_separators: "starts_char t \<Longrightarrow> starts_char (separators_to_newlines t)"
  by (cases t rule: scan_cases) (auto simp: starts_char_def is_continuation_def)

lemma edits_ok_normalized: "edits_ok v a es \<Longrightarrow> edits_ok v a (normalized es)"
  by (induction v a es rule: edits_ok.induct) (auto intro: starts_char_separators)

lemma in_ranges_normalized [simp]: "in_ranges (normalized es) x = in_ranges es x"
  by (induction es) auto

text \<open>The ranges of the operation denote the same boundaries as the edits.\<close>

definition ranges_denote :: "piece list \<Rightarrow> ((nat \<times> nat) \<times> char list) list \<Rightarrow> (full_offset \<times> full_offset) list \<Rightarrow> bool" where
  "ranges_denote ps = list_all2 (\<lambda>((s, e), t) (a, b). voff (cells ps) a = s \<and> voff (cells ps) b = e
      \<and> a \<le> length (cells ps) \<and> b \<le> length (cells ps))"

lemma local_edit_loop_ok:
  assumes "local_at root ps ts (deletes ps es) st p" "edit_base root ps" "fresh ts ps"
    and "replaces_line_separators ra" "edits_ok (vis ps) (p_vis p) rs"
    and "\<And>v. p_vis p \<le> v \<Longrightarrow> in_ranges es v = in_ranges rs v"
    and "p_offset p + length (concat (map snd rs)) < 2 ^ 32"
  shows "\<exists>st' q op' fr. local_edit_loop ra ts rs op st = Some (st', op') \<and> local_at root ps ts (deletes ps es) st' q
    \<and> vis (p_new q) @ drop (p_vis q) (vis ps) = vis (p_new p) @ splice (vis ps) (p_vis p) (normalized rs)
    \<and> (\<forall>v. p_vis q \<le> v \<longrightarrow> \<not> in_ranges es v)
    \<and> edit_timestamp op' = edit_timestamp op \<and> edit_version op' = edit_version op
    \<and> edit_new_text op' = edit_new_text op @ map snd (normalized rs)
    \<and> edit_ranges op' = edit_ranges op @ fr \<and> ranges_denote ps rs fr
    \<and> edits_ok (bytes ps) (p_index p) (zip fr (map snd (normalized rs)))
    \<and> cells (p_new q) @ marks ts (deletes ps es) (p_index q) (drop (p_index q) (cells ps))
      = cells (p_new p) @ weave ts (deletes ps es) (cells ps) (p_index p) (p_offset p) (zip (map fst fr) (map snd (normalized rs)))"
  using assms
proof (induction rs arbitrary: st p op)
  case Nil
  then show ?case by (intro exI [of _ st] exI [of _ p] exI [of _ op] exI [of _ "[]"]) (auto simp: ranges_denote_def)
next
  case (Cons c rs)
  note base = Cons.prems(2,3)
  let ?dl = "deletes ps es"
  obtain s e t where c: "c = ((s, e), t)" by (metis prod.exhaust)
  let ?t = "separators_to_newlines t"
  have ok: "p_vis p \<le> s" "s \<le> e" "e \<le> length (vis ps)" "is_char_boundary (vis ps) s" "is_char_boundary (vis ps) e"
    "starts_char ?t" "edits_ok (vis ps) e rs"
    using Cons.prems(5) c starts_char_separators by simp_all
  have none: "\<not> in_ranges es v" if "p_vis p \<le> v" "v < s" for v
    using Cons.prems(6) [OF that(1)] that(2) in_ranges_ge [OF ok(7)] ok(2) c by fastforce
  have all: "in_ranges es v" if "s \<le> v" "v < e" for v
    using Cons.prems(6) [of v] that ok(1) c by simp
  have len: "p_offset p + length ?t < 2 ^ 32" "p_offset p + length ?t + length (concat (map snd rs)) < 2 ^ 32"
    using Cons.prems(7) length_separators [of t] c by simp_all
  from local_edit_step_ok [OF Cons.prems(1) base ok(1-5) none all ok(6) len(1)] obtain st1 q1 a where
    q1: "local_edit_step ts (s, e) ?t st = Some (st1, (a, p_index q1))" "local_at root ps ts ?dl st1 q1"
      "p_vis q1 = e" "p_offset q1 = p_offset p + length ?t"
      "vis (p_new q1) = vis (p_new p) @ take (s - p_vis p) (drop (p_vis p) (vis ps)) @ ?t"
      "voff (cells ps) a = s" "p_index p \<le> a" "a \<le> p_index q1" "is_char_boundary (bytes ps) a"
      "cells (p_new q1) = cells (p_new p) @ marks ts ?dl (p_index p) (take (a - p_index p) (drop (p_index p) (cells ps)))
        @ map (\<lambda>(i, b). new_cell ts i b) (enumerate (p_offset p) ?t) @ marks ts ?dl a (take (p_index q1 - a) (drop a (cells ps)))"
    by blast
  let ?op = "op\<lparr>edit_ranges := edit_ranges op @ [(a, p_index q1)], edit_new_text := edit_new_text op @ [?t]\<rparr>"
  have "in_ranges es v = in_ranges rs v" if "p_vis q1 \<le> v" for v
    using Cons.prems(6) [of v] that ok(1,2) q1(3) c by simp
  with Cons.IH [OF q1(2) base Cons.prems(4), of ?op] ok(7) q1(3,4) len(2) obtain st' q op' fr where
    q: "local_edit_loop ra ts rs ?op st1 = Some (st', op')" "local_at root ps ts ?dl st' q"
      "vis (p_new q) @ drop (p_vis q) (vis ps) = vis (p_new q1) @ splice (vis ps) e (normalized rs)"
      "\<forall>v. p_vis q \<le> v \<longrightarrow> \<not> in_ranges es v"
      "edit_timestamp op' = edit_timestamp op" "edit_version op' = edit_version op"
      "edit_new_text op' = edit_new_text ?op @ map snd (normalized rs)"
      "edit_ranges op' = edit_ranges ?op @ fr" "ranges_denote ps rs fr"
      "edits_ok (bytes ps) (p_index q1) (zip fr (map snd (normalized rs)))"
      "cells (p_new q) @ marks ts ?dl (p_index q) (drop (p_index q) (cells ps))
        = cells (p_new q1) @ weave ts ?dl (cells ps) (p_index q1) (p_offset q1) (zip (map fst fr) (map snd (normalized rs)))"
    by auto
  note sh1 = local_at_facts(2) [OF q1(2) base] and ps = edit_base_root(4) [OF base(1)]
  note i1 = p_index_le [OF sh1]
  have denote: "ranges_denote ps (c # rs) ((a, p_index q1) # fr)"
    using q(9) q1(3,6,8) i1 voff_index [OF sh1] c by (simp add: ranges_denote_def)
  have ranges: "edits_ok (bytes ps) (p_index p) (zip ((a, p_index q1) # fr) (map snd (normalized (c # rs))))"
    using q(10) q1(7-9) i1 index_boundary [OF sh1 ps] ok(6) c by simp
  have next_place: "p_index q1 \<le> k" if "zip (map fst fr) (map snd (normalized rs)) = (k, u) # ks" for k u ks
    using that q(10) by (cases fr; cases "normalized rs") auto
  have woven: "cells (p_new q) @ marks ts ?dl (p_index q) (drop (p_index q) (cells ps)) = cells (p_new p)
      @ weave ts ?dl (cells ps) (p_index p) (p_offset p) (zip (map fst ((a, p_index q1) # fr)) (map snd (normalized (c # rs))))"
    using q(11) q1(4,10) weave_advance [OF q1(8) i1, of "zip (map fst fr) (map snd (normalized rs))" ts ?dl "p_offset q1"] next_place c by simp
  show ?case
    using q(1-8) denote ranges woven q1(1,5) c normalize_eq [OF Cons.prems(4)]
    by (intro exI [of _ st'] exI [of _ q] exI [of _ op'] exI [of _ "(a, p_index q1) # fr"]) simp
qed

section \<open>The whole edit\<close>

lemma edits_ok_weaken: "edits_ok v b es \<Longrightarrow> es = [] \<or> a \<le> fst (fst (hd es)) \<Longrightarrow> edits_ok v a es"
  by (cases es) auto

lemma local_start:
  assumes s: "snapshot_ok s ps" "heights_ok s" and ts: "fresh ts ps" and es: "edits_ok (vis ps) 0 es" "es \<noteq> []"
  shows "\<exists>st p. edit_state_new fts_dim visible_at (visible_target (fst (fst (hd es)))) Right s = Some st
    \<and> local_at (fragments s) ps ts (deletes ps es) st p \<and> p_vis p \<le> fst (fst (hd es)) \<and> p_offset p = 0
    \<and> vis (p_new p) = take (p_vis p) (vis ps)
    \<and> cells (p_new p) = marks ts (deletes ps es) 0 (take (p_index p) (cells ps))"
proof -
  let ?s = "fst (fst (hd es))"
  define a r where "a = take_upto ?s 0 ps" and "r = drop_upto ?s 0 ps"
  let ?p = "moved_past (pass_start ps) a r"
  have base: "edit_base (fragments s) ps" by (rule snapshot_base [OF s])
  have ps: "list_all piece_ok ps" using edit_base_root(4) [OF base] .
  have split: "ps = a @ r" by (simp add: a_def r_def take_drop_upto)
  have start: "pass_shape ts ps (pass_start ps)"
    using s(1) by (intro pass_shape_start) (simp_all add: snapshot_ok_def pieces_ok_def)
  have zero [simp]: "p_used (pass_start qs) = 0" "p_rest (pass_start qs) = qs" "p_done (pass_start qs) = []"
    "p_new (pass_start qs) = []" "p_offset (pass_start qs) = 0" for qs by (simp_all add: pass_start_def)
  have sh: "pass_shape ts ps ?p" by (rule shape_moved_past [OF start ps zero(1)]) (unfold zero, rule split)
  have pv: "p_vis ?p = length (vis a)" using moved_past_simps(1) [of "pass_start ps" a r] by simp
  have le: "p_vis ?p \<le> ?s" using take_upto_le [of 0 ?s ps] pv by (simp add: a_def)
  have "splits_off fts_dim (visible_target ?s) Right (dim_zero fts_dim) a r"
    using splits_off_visible [OF ps, of "dim_zero fts_dim" ?s] by (simp add: a_def r_def)
  moreover have "visible_at (item_pos fts_dim ?p) = Some (p_vis ?p)"
    using item_pos_fts [of ?p] ps split pv by (simp add: visible_at_def)
  moreover have "visible_text s = vis ps" "deleted_text s = del ps" using s(1) by (simp_all add: snapshot_ok_def)
  ultimately obtain st where st: "edit_state_new fts_dim visible_at (visible_target ?s) Right s = Some st"
      "simulates fts_dim (fragments s) ps st ?p" "fragment_start st = p_vis ?p"
    using sim_start_state [OF base _ _ split, of fts_dim "visible_target ?s" Right visible_at] by blast
  have ge: "?s \<le> v" if "in_ranges es v" for v
    using in_ranges_ge [OF edits_ok_weaken [OF es(1), of ?s]] that by simp
  have "\<not> deletes ps es j" if "p_index (pass_start ps) \<le> j" "j < p_index (pass_start ps) + length (cells a)" for j
    by (rule no_deletes_between [OF start sh that(1)])
      (use that moved_past_simps(2) [of "pass_start ps" a r] le ge in fastforce)+
  then have step: "pass_step ts (deletes ps es) (pass_start ps) ?p" using split by (intro pass_step.skip) auto
  then have mv: "moves ts (deletes ps es) (pass_start ps) ?p" by (rule moves_step) simp
  have "cells (p_new ?p) = marks ts (deletes ps es) 0 (take (p_index ?p) (cells ps))"
    using moves_cells(3) [OF start ps mv] by (simp add: p_index_def)
  moreover from step have "local_at (fragments s) ps ts (deletes ps es) st ?p" using st by (simp add: local_at_def r_into_rtranclp)
  moreover have "vis (p_new ?p) = take (p_vis ?p) (vis ps)" using split pv by simp
  moreover have "p_offset ?p = 0" by simp
  ultimately show ?thesis using st(1) le by blast
qed

lemma local_finish:
  assumes s: "snapshot_ok s ps" "heights_ok s" and at: "local_at (fragments s) ps ts (deletes ps es) st p"
    and ts: "fresh ts ps" "ts \<noteq> lamport_MIN" and none: "\<And>v. p_vis p \<le> v \<Longrightarrow> \<not> in_ranges es v"
  shows "\<exists>t i v d m. edit_state_finish fts_dim visible_at st s =
      Some (s\<lparr>fragments := t, insertions := i, visible_text := v, deleted_text := d, insertion_slices := m\<rparr>)
    \<and> snapshot_ok (s\<lparr>fragments := t, insertions := i, visible_text := v, deleted_text := d, insertion_slices := m\<rparr>) (p_new (finish_pass p))
    \<and> slice_set m = slice_set (insertion_slices s) \<union> set (p_slices p)
    \<and> pass_inv ts (deletes ps es) ps (finish_pass p)"
proof -
  have base: "edit_base (fragments s) ps" by (rule snapshot_base [OF s])
  note f = local_at_facts [OF at base ts(1)] and pos = local_positions [OF at base ts(1)]
  have steps: "pass_steps ts (deletes ps es) (pass_start ps) p" using at by (simp add: local_at_def)
  have "\<not> deletes ps es j" if "p_index p \<le> j" for j
    using voff_mono [OF that, of "cells ps"] voff_index [OF f(2)] none by (auto simp: deletes_def)
  moreover have "fragment_start st = length (vis (p_done p)) + p_used p" using f(7) pos(4) by simp
  moreover have "visible_at (item_end fragment_ops fts_dim (item_pos fts_dim p) (fst x)) = Some (length (vis (p_done p)) + length (snd x))"
    if "p_rest p = x # R" "0 < p_used p" for x R
    using pos(5) [OF that(1)] at that by (simp add: local_at_def vlen_def)
  ultimately show ?thesis
    by (intro edit_state_finish_ok [where rd = visible_at, OF s f(6) steps ts _ suffix_total_fts [OF base] pos(1)]) auto
qed

lemma finish_pass_moves:
  assumes "pass_shape ts ps p" "list_all piece_ok ps" "\<And>j. p_index p \<le> j \<Longrightarrow> \<not> dl j"
  shows "moves ts dl p (finish_pass p)"
  using finish_pass_steps [OF assms] by (simp add: moves_def)

lemma finish_pass_vis:
  assumes "pass_shape ts ps p" "list_all piece_ok ps"
  shows "vis (p_new (finish_pass p)) = vis (p_new p) @ drop (p_vis p) (vis ps)"
proof -
  have mv: "moves ts (\<lambda>_. False) p (finish_pass p)" by (rule finish_pass_moves [OF assms]) simp
  then have r: "pass_shape ts ps (finish_pass p)" using pass_shape_steps [OF _ assms] by (auto simp: moves_def)
  have "p_vis (finish_pass p) = length (vis ps)" using r by (simp add: p_vis_def pass_shape_def flip: vis_simps)
  then show ?thesis using moves_vis(2) [OF assms mv] by simp
qed

text \<open>What the edit does to the cells: the old ones keep their order and identity and are marked as told,
  the new ones are numbered from zero.\<close>

definition cells_edited :: "lamport \<Rightarrow> (nat \<Rightarrow> bool) \<Rightarrow> piece list \<Rightarrow> piece list \<Rightarrow> bool" where
  "cells_edited ts dl ps ps' \<longleftrightarrow> filter (old_cell ts) (cells ps') = marks ts dl 0 (cells ps)
     \<and> (\<exists>t. filter (\<lambda>c. \<not> old_cell ts c) (cells ps') = map (\<lambda>(i, b). new_cell ts i b) (enumerate 0 t))"

lemma cells_edited_pass:
  assumes "pass_inv ts dl ps q" "p_rest q = []"
  shows "cells_edited ts dl ps (p_new q)"
proof -
  have "consumed q = cells ps" using assms by (simp add: pass_inv_def pass_shape_def consumed_def)
  then show ?thesis using assms(1) by (auto simp: pass_inv_def pass_cells_def cells_edited_def)
qed

lemma cells_edited_refl:
  assumes "fresh ts ps"
  shows "cells_edited ts (\<lambda>_. False) ps ps"
proof -
  have "marks ts (\<lambda>_. False) 0 (cells ps) = cells ps" by (rule marks_none) simp
  moreover have "filter (old_cell ts) (cells ps) = cells ps \<and> filter (\<lambda>c. \<not> old_cell ts c) (cells ps) = []"
    using assms by (intro cells_old) (simp add: fresh_def)
  ultimately show ?thesis by (auto simp: cells_edited_def intro!: exI [of _ "[]"])
qed

lemma pass_patch_end:
  assumes "pass_inv ts dl ps q" "p_rest q = []"
  shows "patch_wf (p_patch q) \<and> separated (p_patch q) \<and> transforms (p_patch q) (vis ps) (vis (p_new q))"
proof -
  have "p_vis q = length (vis ps)" using assms by (simp add: pass_inv_def pass_shape_def p_vis_def)
  then show ?thesis using assms(1) by (intro patch_upto_wf) (simp add: pass_inv_def pass_patch_def)
qed

text \<open>What an edit leaves alone.\<close>

definition same_frame :: "buffer_snapshot \<Rightarrow> buffer_snapshot \<Rightarrow> bool" where
  "same_frame s s' \<longleftrightarrow> undo_map s' = undo_map s \<and> version s' = version s \<and> remote_id s' = remote_id s
     \<and> replica_id s' = replica_id s \<and> line_ending s' = line_ending s"

lemma apply_edit_internal_ok:
  assumes s: "snapshot_ok s ps" "heights_ok s" and ts: "fresh ts ps" "ts \<noteq> lamport_MIN"
    and ra: "replaces_line_separators ra" and es: "edits_ok (visible_text s) 0 es" "length (concat (map snd es)) < 2 ^ 32"
  shows "\<exists>op patch s' ps'. apply_edit_internal ra es ts s = Some (op, patch, s')
    \<and> snapshot_ok s' ps' \<and> same_frame s s'
    \<and> visible_text s' = splice (visible_text s) 0 (normalized es)
    \<and> cells_edited ts (deletes ps es) ps ps'
    \<and> patch_wf patch \<and> separated patch \<and> transforms patch (visible_text s) (visible_text s')
    \<and> edit_timestamp op = ts \<and> edit_version op = version s \<and> edit_new_text op = map snd (normalized es)
    \<and> ranges_denote ps es (edit_ranges op)
    \<and> edits_ok (bytes ps) 0 (zip (edit_ranges op) (edit_new_text op))
    \<and> cells ps' = weave ts (deletes ps es) (cells ps) 0 0 (zip (map fst (edit_ranges op)) (edit_new_text op))"
proof (cases "es = []")
  case True
  then have "deletes ps es = (\<lambda>_. False)" by (simp add: deletes_def fun_eq_iff)
  moreover have "marks ts (\<lambda>_. False) 0 (cells ps) = cells ps" by (rule marks_none) simp
  ultimately show ?thesis
    using True s(1) cells_edited_refl [OF ts(1)] patch_upto_wf [OF patch_upto_copy [OF patch_upto_Nil]]
    by (intro exI [of _ "\<lparr>edit_timestamp = ts, edit_version = version s, edit_ranges = [], edit_new_text = []\<rparr>"] exI [of _ "[]"] exI [of _ s] exI [of _ ps])
      (simp add: apply_edit_internal_def patch_empty_def same_frame_def ranges_denote_def)
next
  case False
  have v: "visible_text s = vis ps" using s(1) by (simp add: snapshot_ok_def)
  have base: "edit_base (fragments s) ps" by (rule snapshot_base [OF s])
  let ?op = "\<lparr>edit_timestamp = ts, edit_version = version s, edit_ranges = [], edit_new_text = []\<rparr>"
  from local_start [OF s ts(1) _ False] es(1) v obtain st p where
    p: "edit_state_new fts_dim visible_at (visible_target (fst (fst (hd es)))) Right s = Some st"
      "local_at (fragments s) ps ts (deletes ps es) st p" "p_vis p \<le> fst (fst (hd es))" "p_offset p = 0"
      "vis (p_new p) = take (p_vis p) (vis ps)" "cells (p_new p) = marks ts (deletes ps es) 0 (take (p_index p) (cells ps))" by auto
  have es': "edits_ok (vis ps) (p_vis p) es" using edits_ok_weaken es(1) p(3) v by simp
  from local_edit_loop_ok [OF p(2) base ts(1) ra es' refl, of ?op] p(4) es(2) obtain st' q op fr where
    q: "local_edit_loop ra ts es ?op st = Some (st', op)" "local_at (fragments s) ps ts (deletes ps es) st' q"
      "vis (p_new q) @ drop (p_vis q) (vis ps) = vis (p_new p) @ splice (vis ps) (p_vis p) (normalized es)"
      "\<And>v. p_vis q \<le> v \<Longrightarrow> \<not> in_ranges es v" and
    op: "edit_timestamp op = ts" "edit_version op = version s" "edit_new_text op = map snd (normalized es)" "ranges_denote ps es (edit_ranges op)"
      "edits_ok (bytes ps) (p_index p) (zip (edit_ranges op) (map snd (normalized es)))" and
    w: "cells (p_new q) @ marks ts (deletes ps es) (p_index q) (drop (p_index q) (cells ps)) = cells (p_new p)
      @ weave ts (deletes ps es) (cells ps) (p_index p) 0 (zip (map fst (edit_ranges op)) (map snd (normalized es)))"
    by auto
  from local_finish [OF s q(2) ts q(4)] obtain t i v' d m where
    r: "edit_state_finish fts_dim visible_at st' s =
        Some (s\<lparr>fragments := t, insertions := i, visible_text := v', deleted_text := d, insertion_slices := m\<rparr>)"
      "snapshot_ok (s\<lparr>fragments := t, insertions := i, visible_text := v', deleted_text := d, insertion_slices := m\<rparr>) (p_new (finish_pass q))"
      "pass_inv ts (deletes ps es) ps (finish_pass q)" by blast
  let ?s = "s\<lparr>fragments := t, insertions := i, visible_text := v', deleted_text := d, insertion_slices := m\<rparr>"
  have new: "visible_text ?s = vis (p_new (finish_pass q))" using r(2) unfolding snapshot_ok_def by blast
  have "vis (p_new (finish_pass q)) = vis (p_new p) @ splice (vis ps) (p_vis p) (normalized es)"
    using finish_pass_vis [OF local_at_facts(2) [OF q(2) base ts(1)] edit_base_root(4) [OF base]] q(3) by simp
  also have "\<dots> = splice (vis ps) 0 (normalized es)"
    using splice_from [OF edits_ok_normalized [OF es'], of 0] p(5) by simp
  finally have spliced: "visible_text ?s = splice (visible_text s) 0 (normalized es)" using new v by simp
  have sh: "pass_shape ts ps p" "pass_shape ts ps q" using local_at_facts(2) [OF _ base ts(1)] p(2) q(2) by blast+
  have ps: "list_all piece_ok ps" by (rule edit_base_root(4) [OF base])
  let ?ks = "zip (map fst (edit_ranges op)) (map snd (normalized es))"
  have "\<not> deletes ps es j" if "p_index q \<le> j" for j
    using voff_mono [OF that, of "cells ps"] voff_index [OF sh(2)] q(4) by (auto simp: deletes_def)
  from moves_cells(3) [OF sh(2) ps finish_pass_moves [OF sh(2) ps this]] r(3)
  have "cells (p_new (finish_pass q)) = cells (p_new q) @ marks ts (deletes ps es) (p_index q) (drop (p_index q) (cells ps))"
    by (simp add: pass_inv_def pass_shape_def p_index_def)
  moreover have "p_index p \<le> k" if "?ks = (k, u) # ks" for k u ks
    using that op(5) by (cases "edit_ranges op"; cases "normalized es") auto
  ultimately have woven: "cells (p_new (finish_pass q)) = weave ts (deletes ps es) (cells ps) 0 0 ?ks"
    using w p(6) weave_advance [of 0 "p_index p" "cells ps" ?ks ts "deletes ps es" 0] p_index_le [OF sh(1)] by simp
  have ranges: "edits_ok (bytes ps) 0 (zip (edit_ranges op) (map snd (normalized es)))" using edits_ok_weaken [OF op(5)] by simp
  have patch: "edits_patch st' = p_patch (finish_pass q)" using q(2) by (simp add: local_at_def simulates_def)
  show ?thesis
    using p(1) q(1) r(1,2) op(1-4) spliced pass_patch_end [OF r(3)] cells_edited_pass [OF r(3)] new v patch False woven ranges
    by (intro exI [of _ op] exI [of _ "edits_patch st'"] exI [of _ ?s] exI [of _ "p_new (finish_pass q)"])
      (simp add: apply_edit_internal_def same_frame_def)
qed

end
