(* ===== verification/UndoEdit.thy ===== *)
theory UndoEdit
  imports LocalEdit
begin

text \<open>
  \<^verbatim>\<open>Buffer::apply_undo\<close> and \<^verbatim>\<open>Buffer::fragment_ids_for_edits\<close> of \<^verbatim>\<open>crates/text/src/text.rs\<close>: find the fragments
  that a set of edits inserted or deleted, and compute their visibility again from the undo map.
\<close>

section \<open>Slices of an edit\<close>

text \<open>\<^verbatim>\<open>TreeSet::iter_from\<close> with \<^verbatim>\<open>take_while\<close> on the edit.  The fuel bounds the iterations.\<close>

fun slices_from ::
  "nat \<Rightarrow> lamport \<Rightarrow> ((insertion_slice, unit) map_entry, insertion_slice map_key, insertion_slice map_key) cursor
    \<Rightarrow> insertion_slice list option" where
  "slices_from 0 edit_id c = None"
| "slices_from (Suc fuel) edit_id c = do {
     (r, c) \<leftarrow> iterator_next map_key_dim c;
     (case r of
        None \<Rightarrow> Some []
      | Some e \<Rightarrow>
          if slice_edit_id (entry_key e) = edit_id
          then map_option ((#) (entry_key e)) (slices_from fuel edit_id c)
          else Some [])
   }"

definition first_slice :: "lamport \<Rightarrow> insertion_slice" where
  "first_slice edit_id = \<lparr>slice_edit_id = edit_id, slice_insertion_id = lamport_MIN, slice_range = (0, 0)\<rparr>"

definition slices_for_edit :: "(insertion_slice, unit) tree_map \<Rightarrow> lamport \<Rightarrow> insertion_slice list option" where
  "slices_for_edit m edit_id = do {
     (found, c) \<leftarrow> seek map_ops map_key_dim (ord_target (Some (first_slice edit_id))) Left (cursor_new map_key_dim m);
     slices_from (Suc (length (items m))) edit_id c
   }"

fun slices_for_edits :: "(insertion_slice, unit) tree_map \<Rightarrow> lamport list \<Rightarrow> insertion_slice list option" where
  "slices_for_edits m [] = Some []"
| "slices_for_edits m (e # es) = do { xs \<leftarrow> slices_for_edit m e; ys \<leftarrow> slices_for_edits m es; Some (xs @ ys) }"

text \<open>The key of \<^verbatim>\<open>sort_unstable_by_key\<close>; on 32 bits \<^verbatim>\<open>Reverse(end)\<close> has the order of \<open>- 1 - end\<close>.  Slices with
  equal keys differ in their edits only, which are not read any more, so that the order of equals
  does not matter.\<close>

definition slice_order :: "insertion_slice \<Rightarrow> lamport \<times> 32 word \<times> 32 word" where
  "slice_order s = (slice_insertion_id s, fst (slice_range s), - 1 - snd (slice_range s))"

section \<open>Fragments of the slices\<close>

type_synonym insertions_cursor = "(insertion_fragment, insertion_fragment_key, insertion_fragment_key) cursor"

partial_function (option) fragment_ids_while ::
  "lamport \<Rightarrow> 32 word \<Rightarrow> insertions_cursor \<Rightarrow> locator list \<Rightarrow> (locator list \<times> insertions_cursor) option" where
  "fragment_ids_while insertion_id range_end c ids = do {
     r \<leftarrow> item c;
     (case r of
        None \<Rightarrow> Some (ids, c)
      | Some it \<Rightarrow>
          if ins_timestamp it \<noteq> insertion_id \<or> ins_split_offset it \<ge> range_end then Some (ids, c)
          else do {
            c \<leftarrow> cursor_next insertion_dim c;
            fragment_ids_while insertion_id range_end c (ids @ [ins_fragment_id it]) })
   }"

declare fragment_ids_while.simps [code]

fun fragment_ids_loop :: "insertion_slice list \<Rightarrow> insertions_cursor \<Rightarrow> locator list \<Rightarrow> locator list option" where
  "fragment_ids_loop [] c ids = Some ids"
| "fragment_ids_loop (s # ss) c ids = do {
     let insertion_id = slice_insertion_id s;
     c \<leftarrow> (if insertion_id \<noteq> fst (start c) \<or> fst (slice_range s) > snd (start c)
          then map_option snd (seek_forward insertion_ops insertion_dim (ord_target (insertion_id, fst (slice_range s))) Left c)
          else Some c);
     (ids, c) \<leftarrow> fragment_ids_while insertion_id (snd (slice_range s)) c ids;
     fragment_ids_loop ss c ids
   }"

definition fragment_ids_for_edits :: "buffer_snapshot \<Rightarrow> lamport list \<Rightarrow> locator list option" where
  "fragment_ids_for_edits s eids = do {
     slices \<leftarrow> slices_for_edits (insertion_slices s) eids;
     ids \<leftarrow> fragment_ids_loop (sort_key slice_order slices) (cursor_new insertion_dim (insertions s)) [];
     Some (sort ids)
   }"

section \<open>Applying an undo\<close>

text \<open>The local variables of \<^verbatim>\<open>apply_undo\<close>.  The cursor carries the largest identifier and the visible
  length in front of it.\<close>

record undo_state =
  us_old :: "(fragment, fragment_summary, locator option \<times> nat) cursor"
  us_new :: fragment_tree
  us_ropes :: rope_builder
  us_patch :: patch

abbreviation undo_dims :: "(locator option \<times> nat, fragment_summary) dimension" where
  "undo_dims \<equiv> dim_pair max_id_dim visible_dim"

definition id_target :: "locator \<Rightarrow> (locator option \<times> nat) target" where
  "id_target fid = (\<lambda>p. cmp (Some fid) (fst p))"

definition append_preceding :: "fragment_tree \<Rightarrow> undo_state \<Rightarrow> undo_state option" where
  "append_preceding t st = do {
     ropes \<leftarrow> rb_append (fs_text (summary t)) (us_ropes st);
     new \<leftarrow> append_tree fragment_ops (us_new st) t;
     Some (st\<lparr>us_new := new, us_ropes := ropes\<rparr>)
   }"

definition push_undo_edit :: "nat \<times> nat \<Rightarrow> nat \<times> nat \<Rightarrow> undo_state \<Rightarrow> undo_state" where
  "push_undo_edit old new st = st\<lparr>us_patch := patch_push \<lparr>old_range = old, new_range = new\<rparr> (us_patch st)\<rparr>"

text \<open>The body of the loop once the fragment has been found.\<close>

definition undo_fragment :: "undo_operation \<Rightarrow> undo_map \<Rightarrow> fragment \<Rightarrow> undo_state \<Rightarrow> undo_state option" where
  "undo_fragment undo m old st = do {
     v \<leftarrow> is_visible old m;
     let f = old\<lparr>frag_visible := v, frag_max_undos := global_observe (frag_max_undos old) (undo_timestamp undo)\<rparr>;
     let old_start = snd (start (us_old st));
     let new_start = fts_visible (fs_text (summary (us_new st)));
     let n = unat (frag_len f);
     let st = (if frag_visible old \<and> \<not> frag_visible f
               then push_undo_edit (old_start, old_start + n) (new_start, new_start) st
               else if \<not> frag_visible old \<and> frag_visible f
               then push_undo_edit (old_start, old_start) (new_start, new_start + n) st
               else st);
     ropes \<leftarrow> rb_push_fragment f (frag_visible old) (us_ropes st);
     new \<leftarrow> push fragment_ops (us_new st) f;
     c \<leftarrow> cursor_next undo_dims (us_old st);
     Some (st\<lparr>us_old := c, us_new := new, us_ropes := ropes\<rparr>)
   }"

definition undo_step :: "undo_operation \<Rightarrow> undo_map \<Rightarrow> locator \<Rightarrow> undo_state \<Rightarrow> undo_state option" where
  "undo_step undo m fid st = do {
     (t, c) \<leftarrow> slice fragment_ops undo_dims (id_target fid) Left (us_old st);
     st \<leftarrow> append_preceding t (st\<lparr>us_old := c\<rparr>);
     r \<leftarrow> item (us_old st);
     (case r of
        Some f \<Rightarrow> undo_fragment undo m f st
      | None \<Rightarrow> Some st)
   }"

fun undo_loop :: "undo_operation \<Rightarrow> undo_map \<Rightarrow> locator list \<Rightarrow> undo_state \<Rightarrow> undo_state option" where
  "undo_loop undo m [] st = Some st"
| "undo_loop undo m (fid # fids) st = do { st \<leftarrow> undo_step undo m fid st; undo_loop undo m fids st }"

definition apply_undo :: "undo_operation \<Rightarrow> buffer_snapshot \<Rightarrow> (patch \<times> buffer_snapshot) option" where
  "apply_undo undo s = do {
     m \<leftarrow> undo_map_insert undo (undo_map s);
     let s = s\<lparr>undo_map := m\<rparr>;
     let st = \<lparr>us_old = cursor_new undo_dims (fragments s), us_new = tree_new fragment_ops,
               us_ropes = rope_builder_new (visible_text s) (deleted_text s), us_patch = patch_empty\<rparr>;
     fids \<leftarrow> fragment_ids_for_edits s (map fst (undo_counts undo));
     st \<leftarrow> undo_loop undo m fids st;
     (t, c) \<leftarrow> suffix fragment_ops undo_dims (us_old st);
     st \<leftarrow> append_preceding t st;
     (v, d) \<leftarrow> rb_finish (us_ropes st);
     Some (us_patch st, s\<lparr>fragments := us_new st, visible_text := v, deleted_text := d\<rparr>)
   }"

end
