(* ===== verification/UndoFragments.thy ===== *)
theory UndoFragments
  imports UndoEdit Snapshot
begin

text \<open>
  Visibility as the undo map prescribes it, and the search of \<^verbatim>\<open>fragment_ids_for_edits\<close>: it returns, in order and
  once each, the identifiers of all fragments that a slice of one of the edits records.
\<close>

section \<open>Visibility\<close>

definition undone :: "undo_map \<Rightarrow> lamport \<Rightarrow> bool" where
  "undone m d \<longleftrightarrow> max_count (edit_counts (\<lambda>_. True) d m) mod 2 = 1"

text \<open>A fragment is visible when its insertion is not undone and all its deletions are.\<close>

definition visible_in :: "undo_map \<Rightarrow> fragment \<Rightarrow> bool" where
  "visible_in m f \<longleftrightarrow> \<not> undone m (frag_timestamp f) \<and> (\<forall>d \<in> set (frag_deletions f). undone m d)"

definition undo_map_ok :: "undo_map \<Rightarrow> bool" where
  "undo_map_ok m \<longleftrightarrow> undo_wf m \<and> height m < STACK_CAPACITY"

lemma all_checked_Some: "(\<And>x. x \<in> set xs \<Longrightarrow> P x = Some (Q x)) \<Longrightarrow> all_checked P xs = Some (\<forall>x \<in> set xs. Q x)"
  by (induction xs) auto

lemma is_visible_eq:
  assumes "undo_map_ok m"
  shows "is_visible f m = Some (visible_in m f)"
proof -
  have u: "is_undone (undo_fuel m) d m = Some (undone m d)" for d
    using undo_count_where_ok [of m "undo_fuel m"] assms
    by (simp add: is_undone_def undo_count_def undone_def undo_map_ok_def undo_fuel_def)
  then show ?thesis
    using all_checked_Some [of "frag_deletions f" "\<lambda>d. is_undone (undo_fuel m) d m" "undone m"]
    by (simp add: is_visible_def visible_in_def)
qed

lemma max_count_cong:
  assumes "set ms = set ns"
  shows "max_count ms = max_count ns"
proof (rule antisym)
  show "max_count ms \<le> max_count ns" using max_count_in [of ms] max_count_ge [of "max_count ms" ns] assms by auto
  show "max_count ns \<le> max_count ms" using max_count_in [of ns] max_count_ge [of "max_count ns" ms] assms by auto
qed

lemma set_edit_counts:
  assumes "undo_wf m"
  shows "set (edit_counts (\<lambda>_. True) d m) = {n. \<exists>u. undo_abs m d u = Some n}"
proof -
  have "undo_abs m d u = Some n \<longleftrightarrow> (\<exists>e \<in> set (items m). undo_key e = (d, u) \<and> undo_entry_count e = n)" for u n
    using lookup_key_Some [of undo_key "items m" "(d, u)"] assms by (auto simp: undo_abs_def undo_wf_def)
  then show ?thesis by (auto simp: edit_counts_def image_iff) (metis prod.collapse)
qed

lemma undone_cong: "undo_wf m \<Longrightarrow> undo_wf m' \<Longrightarrow> undo_abs m' d = undo_abs m d \<Longrightarrow> undone m' d = undone m d"
  unfolding undone_def using max_count_cong set_edit_counts by metis

text \<open>An undo operation changes the visibility only of fragments its edits inserted or deleted.\<close>

definition affects :: "lamport set \<Rightarrow> fragment \<Rightarrow> bool" where
  "affects ds f \<longleftrightarrow> frag_timestamp f \<in> ds \<or> (\<exists>d \<in> set (frag_deletions f). d \<in> ds)"

lemma visible_in_unaffected:
  assumes "undo_wf m" "undo_wf m'"
    and "undo_abs m' = (\<lambda>edit_id undo_id. if undo_id = undo_timestamp undo
        then (case map_of (undo_counts undo) edit_id of Some n \<Rightarrow> Some n | None \<Rightarrow> undo_abs m edit_id undo_id)
        else undo_abs m edit_id undo_id)"
    and "\<not> affects (fst ` set (undo_counts undo)) f"
  shows "visible_in m' f = visible_in m f"
proof -
  have "undone m' d = undone m d" if "d \<notin> fst ` set (undo_counts undo)" for d
  proof (rule undone_cong [OF assms(1,2)])
    have "map_of (undo_counts undo) d = None" using that by (simp add: map_of_eq_None_iff)
    then show "undo_abs m' d = undo_abs m d" by (simp add: assms(3) fun_eq_iff)
  qed
  then show ?thesis using assms(4) by (simp add: visible_in_def affects_def)
qed

section \<open>The slices of the edits\<close>

lemma map_iterator_next_ok:
  fixes m :: "('k::linorder, 'v) tree_map"
  assumes "cursor_ok m c rest" "did_seek c" "map_wf m" "height m < STACK_CAPACITY"
  shows "\<exists>c'. iterator_next map_key_dim c = Some (list_first rest, c') \<and> did_seek c' \<and> cursor_ok m c' (tl rest)"
proof (cases rest)
  case Nil
  with assms cursor_item_ok [OF assms(1,2)] show ?thesis by (auto simp: iterator_next_def list_first_def)
next
  case (Cons x xs)
  with tm.cursor_next_ok [OF assms(1) _ assms(4), of map_key_dim] assms(2,3) cursor_item_ok [OF assms(1,2)] show ?thesis
    by (auto simp: iterator_next_def list_first_def map_wf_def list_all_iff)
qed

lemma slices_from_ok:
  "cursor_ok m c rest \<Longrightarrow> did_seek c \<Longrightarrow> map_wf m \<Longrightarrow> height m < STACK_CAPACITY \<Longrightarrow> length rest < fuel
    \<Longrightarrow> slices_from fuel eid c = Some (takeWhile (\<lambda>s. slice_edit_id s = eid) (map entry_key rest))"
proof (induction fuel arbitrary: c rest)
  case (Suc fuel)
  from map_iterator_next_ok [OF Suc.prems(1-4)] obtain c' where
    c': "iterator_next map_key_dim c = Some (list_first rest, c')" "did_seek c'" "cursor_ok m c' (tl rest)" by blast
  show ?case
  proof (cases rest)
    case Nil
    with c' show ?thesis by (simp add: list_first_def)
  next
    case (Cons e es)
    with c' Suc.IH [OF _ c'(2) Suc.prems(3,4), of es] Suc.prems(5) show ?thesis by (simp add: list_first_def)
  qed
qed simp

text \<open>The slices of an edit stand together, from the least slice an edit can have.\<close>

lemma first_slice_le: "slice_edit_id s = eid \<Longrightarrow> first_slice eid \<le> (s :: insertion_slice)"
proof -
  assume "slice_edit_id s = eid"
  moreover have "lamport_MIN \<le> slice_insertion_id s" by simp
  ultimately show ?thesis
    by (cases "slice_range s")
      (auto simp: less_eq_insertion_slice_ext_def slice_key_def first_slice_def less_eq_prod_def order.order_iff_strict word_gt_0)
qed

lemma slice_edit_mono: "(a :: insertion_slice) \<le> b \<Longrightarrow> slice_edit_id a \<le> slice_edit_id b"
  by (auto simp: less_eq_insertion_slice_ext_def slice_key_def less_eq_prod_def)

lemma run_of_equal_edits:
  assumes "sorted_wrt (<) (ks :: insertion_slice list)" "\<forall>s \<in> set ks. eid \<le> slice_edit_id s"
  shows "set (takeWhile (\<lambda>s. slice_edit_id s = eid) ks) = {s \<in> set ks. slice_edit_id s = eid}"
  using assms
proof (induction ks)
  case (Cons k ks)
  show ?case
  proof (cases "slice_edit_id k = eid")
    case False
    then have "eid < slice_edit_id k" using Cons.prems(2) by auto
    moreover have "slice_edit_id k \<le> slice_edit_id s" if "s \<in> set ks" for s using Cons.prems(1) that slice_edit_mono [of k s] by auto
    ultimately show ?thesis using False by fastforce
  qed (use Cons in auto)
qed simp

lemma run_of_slices:
  assumes "sorted_wrt (<) (ks :: insertion_slice list)"
  shows "set (takeWhile (\<lambda>s. slice_edit_id s = eid) (dropWhile (\<lambda>s. s < first_slice eid) ks)) = {s \<in> set ks. slice_edit_id s = eid}"
  using assms
proof (induction ks)
  case (Cons k ks)
  show ?case
  proof (cases "k < first_slice eid")
    case True
    then have "slice_edit_id k \<noteq> eid" using first_slice_le [of k eid] by auto
    then show ?thesis using True Cons by auto
  next
    case False
    then have "slice_edit_id (first_slice eid) \<le> slice_edit_id k" by (intro slice_edit_mono) simp
    then have ge: "eid \<le> slice_edit_id k" by (simp add: first_slice_def)
    have "\<forall>s \<in> set (k # ks). eid \<le> slice_edit_id s"
    proof
      fix s assume "s \<in> set (k # ks)"
      then have "k \<le> s" using Cons.prems by auto
      then show "eid \<le> slice_edit_id s" using slice_edit_mono ge order_trans by blast
    qed
    from run_of_equal_edits [OF Cons.prems this] False show ?thesis by simp
  qed
qed simp

lemma slice_set_items:
  assumes "map_wf m"
  shows "slice_set m = set (map entry_key (items m))"
proof -
  have "x \<in> slice_set m \<longleftrightarrow> (\<exists>e \<in> set (items m). entry_key e = x)" for x
    using lookup_key_Some [of map_key_of "items m" "Some x"] assms
    by (auto simp: slice_set_def map_abs_def map_wf_def dom_def map_key_of_def)
  then show ?thesis by auto
qed

lemma slices_for_edit_ok:
  assumes "map_wf m" "height m < STACK_CAPACITY"
  shows "\<exists>ss. slices_for_edit m eid = Some ss \<and> set ss = {s \<in> slice_set m. slice_edit_id s = eid}"
proof -
  let ?k = "Some (first_slice eid)"
  have sorted: "key_sorted map_key_of (items m)" using assms(1) by (simp add: map_wf_def)
  have below: "tm.below (dim_zero map_key_dim) (items m)"
    using sorted by (intro tm.below_zero) (simp_all add: list_all_iff)
  have tgt: "ord_target ?k (dim_zero map_key_dim) \<noteq> Less" by (simp add: ord_target_def)
  note past = tm.take_past_below [OF tm.seek_past_left below, of ?k]
  have good: "tree_wf map_ops m \<and> list_all (\<lambda>_. True) (items m)"
    using assms(1) by (simp add: map_wf_def list_all_iff)
  let ?r = "dropWhile (\<lambda>e. map_key_of e < ?k) (items m)"
  from tm.seek_ok [OF cursor_new_ok [of m map_key_dim] good assms(2) tgt tm.seekable_below [OF below] refl refl] past
  obtain found c where c: "seek map_ops map_key_dim (ord_target ?k) Left (cursor_new map_key_dim m) = Some (found, c)"
    "cursor_ok m c ?r" "did_seek c"
    by (auto simp: list_all_iff)
  have "length ?r < Suc (length (items m))" using length_dropWhile_le [of "\<lambda>e. map_key_of e < ?k" "items m"] by simp
  from slices_from_ok [OF c(2,3) assms this, of eid] have
    "slices_for_edit m eid = Some (takeWhile (\<lambda>s. slice_edit_id s = eid) (map entry_key ?r))"
    using c(1) by (simp add: slices_for_edit_def)
  moreover have "map entry_key ?r = dropWhile (\<lambda>s. s < first_slice eid) (map entry_key (items m))"
    by (simp add: dropWhile_map comp_def map_key_of_def)
  moreover have "sorted_wrt (<) (map entry_key (items m))"
    using sorted by (simp add: key_sorted_def sorted_wrt_map map_key_of_def)
  ultimately show ?thesis using run_of_slices slice_set_items [OF assms(1)] by auto
qed

lemma slices_for_edits_ok:
  assumes "map_wf m" "height m < STACK_CAPACITY"
  shows "\<exists>ss. slices_for_edits m eids = Some ss \<and> set ss = {s \<in> slice_set m. slice_edit_id s \<in> set eids}"
proof (induction eids)
  case (Cons e es)
  from slices_for_edit_ok [OF assms, of e] Cons show ?case by auto
qed simp

section \<open>The fragments of the slices\<close>

text \<open>An index item lies in a slice when the first byte of its fragment does.\<close>

definition in_slice :: "insertion_slice \<Rightarrow> insertion_fragment_key \<Rightarrow> bool" where
  "in_slice s k \<longleftrightarrow> slice_insertion_id s = fst k \<and> fst (slice_range s) \<le> snd k \<and> snd k < snd (slice_range s)"

lemma in_slice_between:
  "in_slice s k \<longleftrightarrow> (slice_insertion_id s, fst (slice_range s)) \<le> k \<and> k < (slice_insertion_id s, snd (slice_range s))"
  by (cases k) (auto simp: in_slice_def less_eq_prod_def less_prod_def)

text \<open>What the cursor has in front of it and behind it.\<close>

definition ids_at :: "insertion_tree \<Rightarrow> insertions_cursor \<Rightarrow> insertion_fragment list \<Rightarrow> insertion_fragment list \<Rightarrow> bool" where
  "ids_at ins c a r \<longleftrightarrow> items ins = a @ r \<and> cursor_ok ins c r \<and> insertions.below (cursor_position c) r
     \<and> cursor_position c = (if a = [] then (lamport_MIN, 0) else insertion_key (last a))"

lemma fragment_ids_while_ok:
  assumes ins: "tree_wf insertion_ops ins" "height ins < STACK_CAPACITY"
  shows "ids_at ins c a r \<Longrightarrow> did_seek c \<Longrightarrow> (\<forall>it \<in> set r. (t, lo) \<le> insertion_key it) \<Longrightarrow>
    \<exists>c'. fragment_ids_while t hi c ids = Some (ids @ map ins_fragment_id (takeWhile (\<lambda>it. insertion_key it < (t, hi)) r), c')
      \<and> ids_at ins c' (a @ takeWhile (\<lambda>it. insertion_key it < (t, hi)) r) (dropWhile (\<lambda>it. insertion_key it < (t, hi)) r) \<and> did_seek c'"
proof (induction r arbitrary: a c ids)
  case Nil
  then show ?case
    using cursor_item_ok [of ins c "[]"] by (subst fragment_ids_while.simps) (auto simp: ids_at_def list_first_def)
next
  case (Cons it r)
  have i: "item c = Some (Some it)" using cursor_item_ok [of ins c "it # r"] Cons.prems by (simp add: ids_at_def list_first_def)
  have "(t, lo) \<le> insertion_key it" using Cons.prems(3) by simp
  then have stop: "(ins_timestamp it \<noteq> t \<or> hi \<le> ins_split_offset it) \<longleftrightarrow> \<not> insertion_key it < (t, hi)"
    by (auto simp: insertion_key_def less_eq_prod_def less_prod_def)
  show ?case
  proof (cases "insertion_key it < (t, hi)")
    case True
    from Cons.prems ins have "\<exists>c'. cursor_next insertion_dim c = Some c' \<and> did_seek c' \<and> cursor_ok ins c' r
        \<and> cursor_position c' = insertion_key it \<and> insertions.below (insertion_key it) r"
      by (intro insertions.next_key) (auto simp: ids_at_def list_all_iff)
    then obtain c' where c': "cursor_next insertion_dim c = Some c'" "did_seek c'" "cursor_ok ins c' r"
        "cursor_position c' = insertion_key it" "insertions.below (insertion_key it) r" by blast
    then have "ids_at ins c' (a @ [it]) r" using Cons.prems(1) by (simp add: ids_at_def)
    from Cons.IH [OF this c'(2), of "ids @ [ins_fragment_id it]"] Cons.prems(3) True i c'(1) stop show ?thesis
      by (subst fragment_ids_while.simps) simp
  next
    case False
    then show ?thesis using Cons.prems i stop by (subst fragment_ids_while.simps) auto
  qed
qed

lemma ids_at_sorted:
  assumes "ids_at ins c a r"
  shows "key_sorted insertion_key r"
  using assms by (simp add: ids_at_def insertions.below_def)

lemma sorted_dropWhile_ge: "key_sorted key xs \<Longrightarrow> x \<in> set (dropWhile (\<lambda>y. key y < k) xs) \<Longrightarrow> k \<le> key x"
  by (induction xs) (auto split: if_splits)

lemma fragment_ids_seek_ok:
  assumes ins: "tree_wf insertion_ops ins" "height ins < STACK_CAPACITY" and at: "ids_at ins c a r" and k: "cursor_position c \<le> k"
  shows "\<exists>c'. map_option snd (seek_forward insertion_ops insertion_dim (ord_target k) Left c) = Some c'
    \<and> ids_at ins c' (a @ takeWhile (\<lambda>it. insertion_key it < k) r) (dropWhile (\<lambda>it. insertion_key it < k) r) \<and> did_seek c'"
proof -
  let ?t = "takeWhile (\<lambda>it. insertion_key it < k) r" and ?d = "dropWhile (\<lambda>it. insertion_key it < k) r"
  have c: "cursor_ok ins c r" and below: "insertions.below (cursor_position c) r" and split: "items ins = a @ r"
    using at unfolding ids_at_def by blast+
  have good: "tree_wf insertion_ops ins \<and> list_all (\<lambda>_. True) (items ins)" using ins(1) by (simp add: list_all_iff)
  have tgt: "ord_target k (cursor_position c) \<noteq> Less" using k by (auto simp: ord_target_def)
  note past = insertions.take_past_below [OF insertions.seek_past_left below, of k]
  have bt: "insertions.below (cursor_position c) ?t"
    using below by (auto simp: insertions.below_def list_all_iff key_sorted_take_drop dest: set_takeWhileD)
  from insertions.seek_forward_ok [OF c good ins(2) tgt insertions.seekable_below [OF below] refl refl] past
  obtain b c' where c': "seek_forward insertion_ops insertion_dim (ord_target k) Left c = Some (b, c')" "cursor_ok ins c' ?d" "did_seek c'"
    "cursor_position c' = pos_after insertion_ops insertion_dim (cursor_position c) ?t" by auto
  have pos: "cursor_position c' = (if ?t = [] then cursor_position c else insertion_key (last ?t))"
    using insertions.pos_after_below [OF bt] c'(4) by simp
  moreover have "insertions.below (cursor_position c') ?d"
  proof -
    have "insertion_key (last ?t) < k" if "?t \<noteq> []" using last_in_set [OF that] set_takeWhileD by fastforce
    moreover have "k \<le> insertion_key x" if "x \<in> set ?d" for x by (rule sorted_dropWhile_ge [OF ids_at_sorted [OF at] that])
    moreover have "key_sorted insertion_key ?d" using ids_at_sorted [OF at] by (simp add: key_sorted_take_drop)
    ultimately show ?thesis using pos k by (auto simp: insertions.below_def list_all_iff intro: order_trans less_imp_le)
  qed
  moreover have "items ins = (a @ ?t) @ ?d" using split by simp
  ultimately show ?thesis using at c' by (auto simp: ids_at_def)
qed

abbreviation slice_first :: "insertion_slice \<Rightarrow> insertion_fragment_key" where
  "slice_first s \<equiv> (slice_insertion_id s, fst (slice_range s))"

text \<open>The fragments of the slices \<open>P\<close> processed so far have been collected, and nothing behind the last slice's
  start was passed over.\<close>

definition ids_inv :: "insertion_tree \<Rightarrow> insertion_slice set \<Rightarrow> insertion_fragment_key \<Rightarrow> insertions_cursor
    \<Rightarrow> insertion_fragment list \<Rightarrow> insertion_fragment list \<Rightarrow> locator list \<Rightarrow> bool" where
  "ids_inv ins P S c a r ids \<longleftrightarrow> ids_at ins c a r
     \<and> (\<forall>it \<in> set r. \<forall>s \<in> P. \<not> in_slice s (insertion_key it))
     \<and> ids = map ins_fragment_id (filter (\<lambda>it. \<exists>s \<in> P. in_slice s (insertion_key it)) a)
     \<and> (\<forall>it \<in> set a. S \<le> insertion_key it \<longrightarrow> (\<exists>s \<in> P. in_slice s (insertion_key it)))
     \<and> fst (cursor_position c) \<le> fst S
     \<and> (did_seek c \<or> fst (cursor_position c) = lamport_MIN)"

lemma fragment_ids_jump:
  assumes ins: "tree_wf insertion_ops ins" "height ins < STACK_CAPACITY" and inv: "ids_inv ins P S c a r ids"
    and s: "S \<le> slice_first s" "slice_insertion_id s \<noteq> lamport_MIN"
  shows "\<exists>c' sk r'. (if slice_insertion_id s \<noteq> fst (start c) \<or> fst (slice_range s) > snd (start c)
          then map_option snd (seek_forward insertion_ops insertion_dim (ord_target (slice_first s)) Left c)
          else Some c) = Some c' \<and> r = sk @ r' \<and> ids_at ins c' (a @ sk) r' \<and> did_seek c'
    \<and> (\<forall>it \<in> set sk. insertion_key it < slice_first s) \<and> (\<forall>it \<in> set r'. slice_first s \<le> insertion_key it)
    \<and> fst (cursor_position c') \<le> slice_insertion_id s"
proof -
  have at: "ids_at ins c a r" and pos: "fst (cursor_position c) \<le> fst S" using inv by (simp_all add: ids_inv_def)
  have le: "fst S \<le> slice_insertion_id s" using s(1) by (auto simp: less_eq_prod_def)
  show ?thesis
  proof (cases "slice_insertion_id s \<noteq> fst (start c) \<or> fst (slice_range s) > snd (start c)")
    case True
    then have "cursor_position c \<le> slice_first s"
      using pos le by (cases "cursor_position c") (auto simp: start_def less_eq_prod_def)
    from fragment_ids_seek_ok [OF ins at this] obtain c' where
      c': "map_option snd (seek_forward insertion_ops insertion_dim (ord_target (slice_first s)) Left c) = Some c'"
        "ids_at ins c' (a @ takeWhile (\<lambda>it. insertion_key it < slice_first s) r) (dropWhile (\<lambda>it. insertion_key it < slice_first s) r)"
        "did_seek c'" by blast
    let ?t = "takeWhile (\<lambda>it. insertion_key it < slice_first s) r"
    have sk: "\<forall>it \<in> set ?t. insertion_key it < slice_first s" by (auto dest: set_takeWhileD)
    have "fst (cursor_position c') \<le> slice_insertion_id s"
    proof (cases "?t = []")
      case True
      then show ?thesis using c'(2) at pos le by (auto simp: ids_at_def split: if_splits)
    next
      case False
      then have "insertion_key (last ?t) < slice_first s" using sk by simp
      then show ?thesis using c'(2) False by (auto simp: ids_at_def less_prod_def)
    qed
    then show ?thesis
      using True c' sk sorted_dropWhile_ge [OF ids_at_sorted [OF at], of _ "slice_first s"]
      by (intro exI [of _ c'] exI [of _ ?t] exI [of _ "dropWhile (\<lambda>it. insertion_key it < slice_first s) r"]) auto
  next
    case False
    then have ge: "slice_first s \<le> cursor_position c" and eq: "fst (cursor_position c) = slice_insertion_id s"
      by (cases "cursor_position c"; auto simp: start_def less_eq_prod_def not_less)+
    have "did_seek c" using inv eq s(2) by (auto simp: ids_inv_def)
    moreover have "slice_first s \<le> insertion_key it" if "it \<in> set r" for it
      using at that ge by (auto simp: ids_at_def insertions.below_def intro: order_trans)
    ultimately show ?thesis using False at eq by (intro exI [of _ c] exI [of _ "[]"] exI [of _ r]) auto
  qed
qed

lemma fragment_ids_step:
  assumes ins: "tree_wf insertion_ops ins" "height ins < STACK_CAPACITY" and inv: "ids_inv ins P S c a r ids"
    and s: "S \<le> slice_first s" "slice_insertion_id s \<noteq> lamport_MIN"
  shows "\<exists>c1 c2 a' r' ids'. (if slice_insertion_id s \<noteq> fst (start c) \<or> fst (slice_range s) > snd (start c)
          then map_option snd (seek_forward insertion_ops insertion_dim (ord_target (slice_first s)) Left c)
          else Some c) = Some c1
    \<and> fragment_ids_while (slice_insertion_id s) (snd (slice_range s)) c1 ids = Some (ids', c2)
    \<and> ids_inv ins (insert s P) (slice_first s) c2 a' r' ids'"
proof -
  let ?hi = "(slice_insertion_id s, snd (slice_range s))"
  from fragment_ids_jump [OF assms] obtain c1 sk r1 where
    c1: "(if slice_insertion_id s \<noteq> fst (start c) \<or> fst (slice_range s) > snd (start c)
          then map_option snd (seek_forward insertion_ops insertion_dim (ord_target (slice_first s)) Left c)
          else Some c) = Some c1" and
    r: "r = sk @ r1" and at1: "ids_at ins c1 (a @ sk) r1" "did_seek c1" and sk: "\<forall>it \<in> set sk. insertion_key it < slice_first s"
    and r1: "\<forall>it \<in> set r1. slice_first s \<le> insertion_key it" and p1: "fst (cursor_position c1) \<le> slice_insertion_id s"
    by blast
  define pu r2 where "pu = takeWhile (\<lambda>it. insertion_key it < ?hi) r1" and "r2 = dropWhile (\<lambda>it. insertion_key it < ?hi) r1"
  from fragment_ids_while_ok [OF ins at1 r1, of "snd (slice_range s)" ids] obtain c2 where
    c2: "fragment_ids_while (slice_insertion_id s) (snd (slice_range s)) c1 ids = Some (ids @ map ins_fragment_id pu, c2)"
      "ids_at ins c2 (a @ sk @ pu) r2" "did_seek c2" by (auto simp: pu_def r2_def)
  have split: "r1 = pu @ r2" by (simp add: pu_def r2_def)
  have pu: "in_slice s (insertion_key it)" if "it \<in> set pu" for it
  proof -
    have "it \<in> set r1" "insertion_key it < ?hi" using that unfolding pu_def by (auto dest: set_takeWhileD)
    then show ?thesis using r1 unfolding in_slice_between by blast
  qed
  have r2: "\<not> in_slice s (insertion_key it)" if "it \<in> set r2" for it
    using sorted_dropWhile_ge [OF ids_at_sorted [OF at1(1)], of it ?hi] that by (auto simp: r2_def in_slice_between)
  have sk': "\<not> in_slice s (insertion_key it)" if "it \<in> set sk" for it
    using sk that by (auto simp: in_slice_between dest: leD)
  have P: "\<not> in_slice x (insertion_key it)" if "it \<in> set r" "x \<in> P" for it x using inv that by (simp add: ids_inv_def)
  have a: "\<exists>x \<in> P. in_slice x (insertion_key it)" if "it \<in> set a" "slice_first s \<le> insertion_key it" for it
    using inv that s(1) by (auto simp: ids_inv_def)
  have "ids @ map ins_fragment_id pu = map ins_fragment_id (filter (\<lambda>it. \<exists>x \<in> insert s P. in_slice x (insertion_key it)) (a @ sk @ pu))"
  proof -
    have "filter (\<lambda>it. \<exists>x \<in> insert s P. in_slice x (insertion_key it)) a = filter (\<lambda>it. \<exists>x \<in> P. in_slice x (insertion_key it)) a"
      using a by (intro filter_cong) (auto simp: in_slice_between)
    moreover have "filter (\<lambda>it. \<exists>x \<in> insert s P. in_slice x (insertion_key it)) sk = []"
      using sk' P r by (auto simp: filter_empty_conv)
    moreover have "filter (\<lambda>it. \<exists>x \<in> insert s P. in_slice x (insertion_key it)) pu = pu" using pu by (auto intro: filter_True)
    moreover have "ids = map ins_fragment_id (filter (\<lambda>it. \<exists>s \<in> P. in_slice s (insertion_key it)) a)" using inv by (simp add: ids_inv_def)
    ultimately show ?thesis by simp
  qed
  moreover have "\<forall>it \<in> set (a @ sk @ pu). slice_first s \<le> insertion_key it \<longrightarrow> (\<exists>x \<in> insert s P. in_slice x (insertion_key it))"
    using a sk pu by (auto dest: leD)
  moreover have "\<forall>it \<in> set r2. \<forall>x \<in> insert s P. \<not> in_slice x (insertion_key it)" using r2 P r split by auto
  moreover have "fst (cursor_position c2) \<le> fst (slice_first s)"
  proof (cases "pu = []")
    case True
    then have "cursor_position c2 = cursor_position c1" using c2(2) at1(1) by (simp add: ids_at_def)
    then show ?thesis using p1 by simp
  next
    case False
    then show ?thesis using c2(2) pu [of "last pu"] by (simp add: ids_at_def in_slice_def)
  qed
  ultimately have "ids_inv ins (insert s P) (slice_first s) c2 (a @ sk @ pu) r2 (ids @ map ins_fragment_id pu)"
    using c2(2,3) unfolding ids_inv_def by blast
  with c1 c2(1) show ?thesis by blast
qed

lemma fragment_ids_loop_ok:
  assumes ins: "tree_wf insertion_ops ins" "height ins < STACK_CAPACITY"
  shows "ids_inv ins P S c a r ids \<Longrightarrow> sorted_wrt (\<le>) (S # map slice_first ss)
    \<Longrightarrow> \<forall>s \<in> set ss. slice_insertion_id s \<noteq> lamport_MIN
    \<Longrightarrow> fragment_ids_loop ss c ids
      = Some (map ins_fragment_id (filter (\<lambda>it. \<exists>s \<in> P \<union> set ss. in_slice s (insertion_key it)) (items ins)))"
proof (induction ss arbitrary: P S c a r ids)
  case Nil
  then have "filter (\<lambda>it. \<exists>s \<in> P. in_slice s (insertion_key it)) r = []" by (auto simp: ids_inv_def filter_empty_conv)
  then show ?case using Nil by (auto simp: ids_inv_def ids_at_def)
next
  case (Cons s ss)
  have s: "S \<le> slice_first s" "slice_insertion_id s \<noteq> lamport_MIN" using Cons.prems(2,3) by simp_all
  from fragment_ids_step [OF ins Cons.prems(1) s] obtain c1 c2 a' r' ids' where
    1: "(if slice_insertion_id s \<noteq> fst (start c) \<or> fst (slice_range s) > snd (start c)
          then map_option snd (seek_forward insertion_ops insertion_dim (ord_target (slice_first s)) Left c)
          else Some c) = Some c1"
      "fragment_ids_while (slice_insertion_id s) (snd (slice_range s)) c1 ids = Some (ids', c2)"
      "ids_inv ins (insert s P) (slice_first s) c2 a' r' ids'" by blast
  from Cons.IH [OF 1(3)] Cons.prems(2,3) 1(1,2) show ?case by (simp add: Let_def)
qed

text \<open>A fragment is recorded for a set of edits when a slice of one of them has its first byte.\<close>

definition recorded :: "insertion_slice set \<Rightarrow> lamport set \<Rightarrow> fragment \<Rightarrow> bool" where
  "recorded sl ds f \<longleftrightarrow> (\<exists>s \<in> sl. slice_edit_id s \<in> ds \<and> in_slice s (frag_key f))"

lemma slice_order_first: "slice_order a \<le> slice_order b \<Longrightarrow> slice_first a \<le> slice_first b"
  by (auto simp: slice_order_def less_eq_prod_def)

lemma sorted_slices: "sorted_wrt (\<le>) (map slice_first (sort_key slice_order ss))"
proof -
  have "sorted_wrt (\<lambda>a b. slice_order a \<le> slice_order b) (sort_key slice_order ss)"
    using sorted_sort_key [of slice_order ss] by (simp add: sorted_map)
  then show ?thesis unfolding sorted_wrt_map by (rule sorted_wrt_mono_rel [rotated]) (rule slice_order_first)
qed

lemma index_items:
  assumes "index_ok ins ps"
  shows "set (items ins) = insertion_fragment_new ` fst ` set ps"
proof -
  have look: "lookup_key insertion_key (items ins) k = Some y \<longleftrightarrow> y \<in> set (items ins) \<and> insertion_key y = k" for k y
    using assms by (intro lookup_key_Some) (simp add: index_ok_def)
  have ps: "lookup_key insertion_key (items ins) (frag_key (fst x)) = Some (insertion_fragment_new (fst x))" if "x \<in> set ps" for x
    using assms that by (simp add: index_ok_def)
  have "y \<in> insertion_fragment_new ` fst ` set ps" if "y \<in> set (items ins)" for y
  proof -
    have y: "lookup_key insertion_key (items ins) (insertion_key y) = Some y" using look that by blast
    then have "insertion_key y \<in> frag_key ` fst ` set ps" using assms unfolding index_ok_def by (metis option.distinct(1))
    then obtain x where x: "x \<in> set ps" "insertion_key y = frag_key (fst x)" by auto
    then have "y = insertion_fragment_new (fst x)" using ps [OF x(1)] y by simp
    then show ?thesis using x(1) by blast
  qed
  moreover have "insertion_fragment_new (fst x) \<in> set (items ins)" if "x \<in> set ps" for x using look ps [OF that] by blast
  ultimately show ?thesis by auto
qed

lemma insertion_key_new [simp]: "insertion_key (insertion_fragment_new f) = frag_key f" "ins_fragment_id (insertion_fragment_new f) = frag_id f"
  by (simp_all add: insertion_key_def insertion_fragment_new_def frag_key_def)

lemma ids_ok_inj: "ids_ok ps \<Longrightarrow> inj_on (frag_id \<circ> fst) (set ps)"
  by (metis distinct_map ids_ok_def strict_sorted_iff)

lemma image_restrict: "f ` {y \<in> g ` A. P y} = (\<lambda>x. f (g x)) ` {x \<in> A. P (g x)}"
  by blast

lemma fragment_ids_for_edits_ok:
  assumes s: "snapshot_ok s ps" "heights_ok s"
  shows "\<exists>fids. fragment_ids_for_edits s eids = Some fids \<and> sorted_wrt (<) fids
    \<and> set fids = (frag_id \<circ> fst) ` {x \<in> set ps. recorded (slice_set (insertion_slices s)) (set eids) (fst x)}"
proof -
  let ?sl = "slice_set (insertion_slices s)" and ?ins = "insertions s"
  have m: "map_wf (insertion_slices s)" "height (insertion_slices s) < STACK_CAPACITY" "\<forall>x \<in> ?sl. slice_insertion_id x \<noteq> lamport_MIN"
    and ins: "index_ok ?ins ps" "tree_wf insertion_ops ?ins" "height ?ins < STACK_CAPACITY" "key_sorted insertion_key (items ?ins)"
    and ids: "ids_ok ps"
    using s by (simp_all add: snapshot_ok_def heights_ok_def slices_ok_def index_ok_def pieces_ok_def)
  obtain ss where ss: "slices_for_edits (insertion_slices s) eids = Some ss" "set ss = {x \<in> ?sl. slice_edit_id x \<in> set eids}"
    using slices_for_edits_ok [OF m(1,2)] by blast
  have "insertions.below (lamport_MIN, 0) (items ?ins)"
    using insertions.below_zero [OF _ ins(4)] by (simp add: list_all_iff)
  then have "ids_inv ?ins {} (lamport_MIN, 0) (cursor_new insertion_dim ?ins) [] (items ?ins) []"
    using cursor_new_ok [of ?ins insertion_dim] by (simp add: ids_inv_def ids_at_def cursor_new_def)
  moreover have "sorted_wrt (\<le>) ((lamport_MIN, 0) # map slice_first (sort_key slice_order ss))"
    using sorted_slices [of ss] by (auto simp: less_eq_prod_def order.order_iff_strict [symmetric])
  ultimately have loop: "fragment_ids_loop (sort_key slice_order ss) (cursor_new insertion_dim ?ins) []
      = Some (map ins_fragment_id (filter (\<lambda>it. \<exists>x \<in> set ss. in_slice x (insertion_key it)) (items ?ins)))"
    using fragment_ids_loop_ok [OF ins(2,3), of "{}"] m(3) ss(2) by (simp del: sorted_wrt.simps)
  let ?f = "map ins_fragment_id (filter (\<lambda>it. \<exists>x \<in> set ss. in_slice x (insertion_key it)) (items ?ins))"
  have "inj_on ins_fragment_id (set (items ?ins))"
    unfolding index_items [OF ins(1)] using ids_ok_inj [OF ids] by (auto simp: inj_on_def)
  moreover have "distinct (items ?ins)" using ins(4) by (metis distinct_map key_sorted_def strict_sorted_iff)
  ultimately have "distinct ?f" by (auto simp: distinct_map inj_on_def)
  then have "sorted_wrt (<) (sort ?f)" by (simp add: strict_sorted_iff)
  moreover have "set ?f = (frag_id \<circ> fst) ` {x \<in> set ps. recorded ?sl (set eids) (fst x)}"
  proof -
    have "set ?f = ins_fragment_id ` {it \<in> insertion_fragment_new ` fst ` set ps. \<exists>x \<in> set ss. in_slice x (insertion_key it)}"
      using index_items [OF ins(1)] by auto
    also have "\<dots> = (frag_id \<circ> fst) ` {x \<in> set ps. \<exists>y \<in> set ss. in_slice y (frag_key (fst x))}"
      unfolding image_image by (rule trans [OF image_restrict]) simp
    also have "(\<lambda>x. \<exists>y \<in> set ss. in_slice y (frag_key (fst x))) = (\<lambda>x. recorded ?sl (set eids) (fst x))"
      using ss(2) by (auto simp: recorded_def fun_eq_iff)
    finally show ?thesis .
  qed
  ultimately show ?thesis using ss(1) loop by (simp add: fragment_ids_for_edits_def)
qed

end
