(* ===== verification/RemotePass.thy ===== *)
theory RemotePass
  imports RemotePositions LocalEdit_Correct UndoFragments
begin

text \<open>
  The specification of a remote edit on cells: which cells it deletes and where its text goes, as a function of
  the cells, the version and the timestamp alone.
\<close>

section \<open>Offsets of observed cells\<close>

definition cell_known :: "global \<Rightarrow> cell \<Rightarrow> bool" where
  "cell_known v c \<longleftrightarrow> observed v (c_timestamp c)"

definition roff :: "global \<Rightarrow> cell list \<Rightarrow> nat \<Rightarrow> nat" where
  "roff v cs j = length (filter (cell_known v) (take j cs))"

lemma roff_mono: "i \<le> j \<Longrightarrow> roff v cs i \<le> roff v cs j"
proof -
  assume "i \<le> j"
  then obtain k where "j = i + k" using le_Suc_ex by blast
  then show ?thesis by (simp add: roff_def take_add)
qed

lemma roff_Suc: "j < length cs \<Longrightarrow> roff v cs (Suc j) = roff v cs j + (if cell_known v (cs ! j) then 1 else 0)"
  by (simp add: roff_def take_Suc_conv_app_nth)

lemma roff_less: "j < i \<Longrightarrow> i \<le> length cs \<Longrightarrow> cell_known v (cs ! j) \<Longrightarrow> roff v cs j < roff v cs i"
  using roff_mono [of "Suc j" i v cs] roff_Suc [of j cs v] by simp

definition p_obs :: "global \<Rightarrow> pass \<Rightarrow> nat" where
  "p_obs v p = length (obs v (p_done p)) + (case p_rest p of [] \<Rightarrow> 0 | x # _ \<Rightarrow> if known v x then p_used p else 0)"

lemma filter_known_piece: "filter (cell_known v) (piece_cells x) = (if known v x then piece_cells x else [])"
proof -
  have "cell_known v c = known v x" if "c \<in> set (piece_cells x)" for c
    using that by (auto simp: piece_cells_def mk_cell_def cell_known_def known_def)
  then show ?thesis by (auto simp: filter_empty_conv intro!: filter_True)
qed

lemma obs_cells: "obs v ps = map c_byte (filter (cell_known v) (cells ps))"
proof (induction ps)
  case (Cons x ps)
  have "map c_byte (piece_cells x) = snd x" by (rule nth_equalityI) (simp_all add: nth_piece_cells mk_cell_def)
  then show ?case using Cons by (simp add: filter_known_piece)
qed simp

lemma filter_known_take:
  "length (filter (cell_known v) (take k (piece_cells x))) = (if known v x then min k (length (snd x)) else 0)"
proof -
  have "cell_known v c = known v x" if "c \<in> set (piece_cells x)" for c
    using that by (auto simp: piece_cells_def mk_cell_def cell_known_def known_def)
  then have "filter (cell_known v) (take k (piece_cells x)) = (if known v x then take k (piece_cells x) else [])"
    by (auto simp: filter_empty_conv dest: in_set_takeD intro!: filter_True)
  then show ?thesis by (simp add: min.commute)
qed

lemma roff_index:
  assumes "pass_shape ts ps p"
  shows "roff v (cells ps) (p_index p) = p_obs v p"
proof -
  have "length (filter (cell_known v) (cells qs)) = length (obs v qs)" for qs by (simp add: obs_cells)
  then show ?thesis
    using assms unfolding roff_def take_consumed [OF assms]
    by (cases "p_rest p") (simp_all add: consumed_def p_obs_def filter_known_take pass_shape_def)
qed

lemma known_piece_cells:
  assumes "pass_shape ts ps p" "p_rest p = x # R" "p_used p + i < length (snd x)"
  shows "p_index p + i < length (cells ps)" "cells ps ! (p_index p + i) = piece_cells x ! (p_used p + i)"
    "known v x \<Longrightarrow> roff v (cells ps) (p_index p + i) = p_obs v p + i"
proof -
  have cells: "cells ps = cells (p_done p) @ piece_cells x @ cells R"
    using assms(1,2) by (auto simp: pass_shape_def simp flip: cells_simps)
  show "p_index p + i < length (cells ps)" using assms(3) by (simp add: cells p_index_def)
  show "cells ps ! (p_index p + i) = piece_cells x ! (p_used p + i)"
    using assms(3) by (simp add: cells p_index_def nth_append add.assoc)
  show "roff v (cells ps) (p_index p + i) = p_obs v p + i" if "known v x"
  proof -
    have "take (p_index p + i) (cells ps) = cells (p_done p) @ take (p_used p + i) (piece_cells x)"
      using assms(3) by (simp add: cells p_index_def)
    then show ?thesis
      using that assms(2,3) by (simp add: roff_def filter_known_take p_obs_def obs_cells)
  qed
qed

section \<open>Deleted cells\<close>

text \<open>Whether a cell was visible at the version of the edit.\<close>

definition undone_at :: "undo_map \<Rightarrow> global \<Rightarrow> lamport \<Rightarrow> bool" where
  "undone_at m v d \<longleftrightarrow> max_count (edit_counts (observed v) d m) mod 2 = 1"

definition cell_was_shown :: "undo_map \<Rightarrow> global \<Rightarrow> cell \<Rightarrow> bool" where
  "cell_was_shown m v c \<longleftrightarrow> observed v (c_timestamp c) \<and> \<not> undone_at m v (c_timestamp c)
     \<and> (\<forall>d \<in> set (c_deletions c). observed v d \<longrightarrow> undone_at m v d)"

lemma was_visible_eq:
  assumes "undo_map_ok m" "i < length (snd x)"
  shows "was_visible (fst x) v m = Some (cell_was_shown m v (piece_cells x ! i))"
proof -
  have u: "was_undone (undo_fuel m) d v m = Some (undone_at m v d)" for d
    using undo_count_where_ok [of m "undo_fuel m"] assms(1)
    by (simp add: was_undone_def undone_at_def undo_map_ok_def undo_fuel_def)
  have "all_checked (\<lambda>d. if \<not> observed v d then Some True else was_undone (undo_fuel m) d v m) ds
      = Some (\<forall>d \<in> set ds. observed v d \<longrightarrow> undone_at m v d)" for ds
    by (rule all_checked_Some) (simp add: u)
  then show ?thesis using u assms(2) by (simp add: was_visible_def cell_was_shown_def nth_piece_cells mk_cell_def)
qed

definition remote_deletes :: "global \<Rightarrow> undo_map \<Rightarrow> ((nat \<times> nat) \<times> 'a) list \<Rightarrow> cell list \<Rightarrow> nat \<Rightarrow> bool" where
  "remote_deletes v m es cs j \<longleftrightarrow> j < length cs \<and> in_ranges es (roff v cs j) \<and> cell_was_shown m v (cs ! j)"

lemma remote_deletes_known: "remote_deletes v m es cs j \<Longrightarrow> cell_known v (cs ! j)"
  by (simp add: remote_deletes_def cell_was_shown_def cell_known_def)

lemma no_remote_deletes_between:
  assumes "pass_shape ts ps p" "pass_shape ts ps q" "p_index p \<le> j" "j < p_index q"
    and "\<And>i. p_obs v p \<le> i \<Longrightarrow> i < p_obs v q \<Longrightarrow> \<not> in_ranges es i"
  shows "\<not> remote_deletes v m es (cells ps) j"
proof
  assume d: "remote_deletes v m es (cells ps) j"
  then have "p_obs v p \<le> roff v (cells ps) j" "roff v (cells ps) j < p_obs v q"
    using roff_mono [OF assms(3), of v "cells ps"] roff_less [OF assms(4) p_index_le [OF assms(2)] remote_deletes_known]
      roff_index assms(1,2) by metis+
  with assms(5) d show False by (auto simp: remote_deletes_def)
qed

section \<open>Where the text goes\<close>

text \<open>The number of cells up to the \<open>n\<close>th observed one, and the place of an insertion after it: behind the
  concurrent insertions with a higher timestamp.\<close>

fun known_prefix :: "global \<Rightarrow> nat \<Rightarrow> cell list \<Rightarrow> nat" where
  "known_prefix v 0 cs = 0"
| "known_prefix v (Suc n) [] = 0"
| "known_prefix v (Suc n) (c # cs) = Suc (known_prefix v (if cell_known v c then n else Suc n) cs)"

definition insert_pos :: "global \<Rightarrow> lamport \<Rightarrow> cell list \<Rightarrow> nat \<Rightarrow> nat" where
  "insert_pos v ts cs n =
     (let j = known_prefix v n cs in j + length (takeWhile (\<lambda>c. ts < c_timestamp c) (drop j cs)))"

lemma known_prefix_unique:
  "roff v cs j = n \<Longrightarrow> j \<le> length cs \<Longrightarrow> j = 0 \<or> cell_known v (cs ! (j - 1)) \<Longrightarrow> known_prefix v n cs = j"
proof (induction v n cs arbitrary: j rule: known_prefix.induct)
  case (1 v cs)
  show ?case
  proof (rule ccontr)
    assume "known_prefix v 0 cs \<noteq> j"
    then have "0 < j" by simp
    moreover from this 1 have "cell_known v (cs ! (j - 1))" by simp
    ultimately show False using roff_less [of "j - 1" j cs v] 1 by simp
  qed
next
  case (2 v n)
  then show ?case by (simp add: roff_def)
next
  case (3 v n c cs)
  then obtain k where k: "j = Suc k" by (cases j) (auto simp: roff_def)
  have "roff v cs k = (if cell_known v c then n else Suc n)" using 3(2) by (auto simp: k roff_def split: if_splits)
  moreover have "k \<le> length cs" using 3(3) k by simp
  moreover have "k = 0 \<or> cell_known v (cs ! (k - 1))"
    using 3(4) by (cases k) (auto simp: k)
  ultimately show ?case using 3(1) [of k] k by simp
qed

text \<open>A position is anchored when only concurrent insertions with a higher timestamp stand between it and
  the observed cell before it.\<close>

definition anchored :: "global \<Rightarrow> lamport \<Rightarrow> cell list \<Rightarrow> nat \<Rightarrow> bool" where
  "anchored v ts cs k \<longleftrightarrow> k \<le> length cs \<and> (\<exists>j \<le> k. roff v cs j = roff v cs k \<and> (j = 0 \<or> cell_known v (cs ! (j - 1)))
     \<and> (\<forall>i. j \<le> i \<longrightarrow> i < k \<longrightarrow> ts < c_timestamp (cs ! i)))"

lemma insert_pos_anchored:
  assumes "anchored v ts cs k" "k < length cs \<Longrightarrow> \<not> ts < c_timestamp (cs ! k)"
  shows "insert_pos v ts cs (roff v cs k) = k"
proof -
  from assms(1) obtain j where j: "j \<le> k" "k \<le> length cs" "roff v cs j = roff v cs k" "j = 0 \<or> cell_known v (cs ! (j - 1))"
      "\<forall>i. j \<le> i \<longrightarrow> i < k \<longrightarrow> ts < c_timestamp (cs ! i)" by (auto simp: anchored_def)
  have "known_prefix v (roff v cs k) cs = j" using known_prefix_unique [OF j(3) _ j(4)] j(1,2) by simp
  moreover have "takeWhile (\<lambda>c. ts < c_timestamp c) (drop j cs) = take (k - j) (drop j cs)"
  proof (rule takeWhile_eq_take_P_nth)
    show "ts < c_timestamp (drop j cs ! i)" if "i < k - j" "i < length (drop j cs)" for i using j(1,2,5) that by simp
    show "\<not> ts < c_timestamp (drop j cs ! (k - j))" if "k - j < length (drop j cs)" using assms(2) j(1) that by simp
  qed
  ultimately show ?thesis using j(1,2) by (simp add: insert_pos_def)
qed

lemma anchored_known: "0 < k \<Longrightarrow> k \<le> length cs \<Longrightarrow> cell_known v (cs ! (k - 1)) \<Longrightarrow> anchored v ts cs k"
  by (auto simp: anchored_def)

lemma roff_unknown:
  assumes "k + n \<le> length cs" "\<And>i. k \<le> i \<Longrightarrow> i < k + n \<Longrightarrow> \<not> cell_known v (cs ! i)"
  shows "roff v cs (k + n) = roff v cs k"
proof -
  have "filter (cell_known v) (take n (drop k cs)) = []"
    using assms by (auto simp: filter_empty_conv in_set_conv_nth)
  then show ?thesis by (simp add: roff_def take_add)
qed

lemma anchored_extend:
  assumes "anchored v ts cs k" "k + n \<le> length cs"
    and "\<And>i. k \<le> i \<Longrightarrow> i < k + n \<Longrightarrow> \<not> cell_known v (cs ! i) \<and> ts < c_timestamp (cs ! i)"
  shows "anchored v ts cs (k + n)"
proof -
  have "roff v cs (k + n) = roff v cs k" using assms(2,3) by (intro roff_unknown) auto
  then show ?thesis using assms unfolding anchored_def by (metis le_add1 le_trans not_less)
qed

section \<open>The cells after the edit\<close>

text \<open>The texts with the places where they go.\<close>

definition remote_weave ::
  "global \<Rightarrow> lamport \<Rightarrow> (nat \<Rightarrow> bool) \<Rightarrow> cell list \<Rightarrow> nat \<Rightarrow> nat \<Rightarrow> ((nat \<times> nat) \<times> char list) list \<Rightarrow> cell list" where
  "remote_weave v ts dl cs i off es = weave ts dl cs i off (map (\<lambda>((a, b), t). (insert_pos v ts cs a, t)) es)"

lemma remote_weave_simps [simp]:
  "remote_weave v ts dl cs i off [] = marks ts dl i (drop i cs)"
  "remote_weave v ts dl cs i off (((a, b), t) # es) =
     (let k = insert_pos v ts cs a in
      marks ts dl i (take (k - i) (drop i cs)) @ map (\<lambda>(n, c). new_cell ts n c) (enumerate off t)
        @ remote_weave v ts dl cs k (off + length t) es)"
  by (simp_all add: remote_weave_def Let_def)

definition remote_cells ::
  "global \<Rightarrow> undo_map \<Rightarrow> lamport \<Rightarrow> ((nat \<times> nat) \<times> char list) list \<Rightarrow> cell list \<Rightarrow> cell list" where
  "remote_cells v m ts es cs = remote_weave v ts (remote_deletes v m es cs) cs 0 0 es"

end
