(* ===== verification/RemoteEdit_Correct.thy ===== *)
theory RemoteEdit_Correct
  imports RemotePass
begin

text \<open>
  What \<^verbatim>\<open>apply_remote_edit\<close> does: it succeeds on ordered ranges at character boundaries of the text its version
  has observed, and the cells of the new snapshot are the specified function of the old ones.
\<close>

section \<open>The state of a remote pass\<close>

definition remote_base :: "fragment_tree \<Rightarrow> piece list \<Rightarrow> global \<Rightarrow> lamport \<Rightarrow> bool" where
  "remote_base root ps v ts \<longleftrightarrow> edit_base root ps \<and> fresh ts ps \<and> counted ps
     \<and> (\<forall>x \<in> set ps. known v x \<longrightarrow> \<not> ts < frag_timestamp (fst x))"

definition remote_at ::
  "fragment_tree \<Rightarrow> piece list \<Rightarrow> global \<Rightarrow> lamport \<Rightarrow> (nat \<Rightarrow> bool) \<Rightarrow> remote_state \<Rightarrow> pass \<Rightarrow> bool" where
  "remote_at root ps v ts dl st p \<longleftrightarrow> simulates (remote_dim v) root ps st p \<and> pass_steps ts dl (pass_start ps) p
     \<and> fragment_start st = p_obs v p \<and> (0 < p_used p \<longrightarrow> known v (hd (p_rest p)) \<and> p_used p < length (snd (hd (p_rest p))))"

lemma remote_at_facts:
  assumes "remote_at root ps v ts dl st p" "remote_base root ps v ts"
  shows "pass_inv ts dl ps p" "pass_shape ts ps p" "list_all piece_ok (p_done p)" "list_all piece_ok (p_rest p)"
    "list_all piece_ok (p_new p)" "simulates (remote_dim v) root ps st p" "fragment_start st = p_obs v p"
    "counted (p_done p)" "counted (p_rest p)" "edit_base root ps" "list_all piece_ok ps"
proof -
  show base: "edit_base root ps" using assms(2) by (simp add: remote_base_def)
  then show ok: "list_all piece_ok ps" by (rule edit_base_root(4))
  show inv: "pass_inv ts dl ps p"
    using assms pass_inv_steps by (auto simp: remote_at_def remote_base_def edit_base_def)
  then show sh: "pass_shape ts ps p" by (simp add: pass_inv_def)
  then have split: "ps = p_done p @ p_rest p" by (simp add: pass_shape_def)
  show "list_all piece_ok (p_done p)" "list_all piece_ok (p_rest p)" "list_all piece_ok (p_new p)"
    using ok sh by (auto simp: pass_shape_def)
  have "counted ps" using assms(2) by (simp add: remote_base_def)
  then show "counted (p_done p)" "counted (p_rest p)" unfolding split by simp_all
qed (use assms in \<open>simp_all add: remote_at_def\<close>)

lemma remote_positions:
  assumes "remote_at root ps v ts dl st p" "remote_base root ps v ts"
  shows "item_pos (remote_dim v) p = (Offset (length (obs v (p_done p))), length (vis (p_done p)))"
    and "full_offset_at (item_pos (remote_dim v) p) = Some (length (obs v (p_done p)))"
    and "start_at full_offset_at st = Some (length (obs v (p_done p)))"
    and "snd (start (old_fragments st)) = length (vis (p_done p))"
    and "end_at (remote_dim v) full_offset_at st = Some (length (obs v (p_done p)) + (case p_rest p of [] \<Rightarrow> 0 | x # _ \<Rightarrow> olen v x))"
    and "p_rest p = x # R \<Longrightarrow> full_offset_at (item_end fragment_ops (remote_dim v) (item_pos (remote_dim v) p) (fst x))
      = Some (length (obs v (p_done p)) + olen v x)"
    and "p_obs v p = length (obs v (p_done p)) + p_used p"
proof -
  note f = remote_at_facts [OF assms]
  have zero: "dim_zero (remote_dim v) = (Offset 0, 0)" by (simp add: remote_dim_def)
  show pos: "item_pos (remote_dim v) p = (Offset (length (obs v (p_done p))), length (vis (p_done p)))"
    using pos_after_remote [OF f(3,8), of v 0 0] by (simp add: item_pos_def zero)
  show at: "full_offset_at (item_pos (remote_dim v) p) = Some (length (obs v (p_done p)))"
    by (simp add: pos full_offset_at_def versioned_full_offset_def)
  show "start_at full_offset_at st = Some (length (obs v (p_done p)))" using sim_start(2) [OF f(6), of full_offset_at] at by simp
  show "snd (start (old_fragments st)) = length (vis (p_done p))" using sim_start(1) [OF f(6)] pos by simp
  show e: "full_offset_at (item_end fragment_ops (remote_dim v) (item_pos (remote_dim v) p) (fst x)) = Some (length (obs v (p_done p)) + olen v x)"
    if "p_rest p = x # R" for x R
    using that f(4,9) item_end_remote [of x v] by (simp add: pos full_offset_at_def versioned_full_offset_def)
  show "end_at (remote_dim v) full_offset_at st = Some (length (obs v (p_done p)) + (case p_rest p of [] \<Rightarrow> 0 | x # _ \<Rightarrow> olen v x))"
    using sim_end [OF f(6,10), of full_offset_at] e at by (simp split: list.splits)
  show "p_obs v p = length (obs v (p_done p)) + p_used p"
    using assms(1) f(2) by (auto simp: p_obs_def remote_at_def pass_shape_def split: list.splits)
qed

lemma remote_at_moves:
  assumes "remote_at root ps v ts dl st p" "moves ts dl p q" "simulates (remote_dim v) root ps st' q"
    "fragment_start st' = p_obs v q" "0 < p_used q \<Longrightarrow> known v (hd (p_rest q)) \<and> p_used q < length (snd (hd (p_rest q)))"
  shows "remote_at root ps v ts dl st' q"
  using assms by (auto simp: remote_at_def moves_def)

text \<open>What the pass knows about the start of a range when it comes to it.\<close>

definition arrives :: "piece list \<Rightarrow> global \<Rightarrow> lamport \<Rightarrow> nat \<Rightarrow> pass \<Rightarrow> bool" where
  "arrives ps v ts s p \<longleftrightarrow> p_obs v p \<le> s \<and> (p_obs v p = s \<longrightarrow> anchored v ts (cells ps) (p_index p))
     \<and> (p_obs v p < s \<longrightarrow> (\<exists>x R. p_rest p = x # R \<and> known v x \<and> s \<le> length (obs v (p_done p)) + length (snd x)))"

lemma remote_skip:
  assumes at: "remote_at root ps v ts dl st p" and base: "remote_base root ps v ts" and dl: "dl = remote_deletes v m es (cells ps)"
    and used: "p_used p = 0" and s: "p_obs v p < s" "s \<le> length (obs v ps)"
    and none: "\<And>i. p_obs v p \<le> i \<Longrightarrow> i < s \<Longrightarrow> \<not> in_ranges es i"
  shows "\<exists>st' q. append_slice (remote_dim v) full_offset_at (remote_target s) Left st = Some st'
    \<and> remote_at root ps v ts dl st' q \<and> moves ts dl p q \<and> arrives ps v ts s q"
proof -
  note f = remote_at_facts [OF at base] and pos = remote_positions [OF at base]
  let ?b = "length (obs v (p_done p))"
  define a r where "a = take_before v s ?b (p_rest p)" and "r = drop_before v s ?b (p_rest p)"
  let ?q = "moved_past p a r"
  have split: "p_rest p = a @ r" by (simp add: a_def r_def take_drop_before)
  have b: "?b = p_obs v p" using pos(7) used by simp
  have po: "p_obs v ?q = ?b + length (obs v a)" using used by (simp add: p_obs_def split: list.splits)
  have "?b + length (obs v a) < s" unfolding a_def by (rule take_before_less) (use b s(1) in simp)
  then have less: "p_obs v ?q < s" using po by simp
  have sh: "pass_shape ts ps ?q" by (rule shape_moved_past [OF f(2,11) used split])
  have ok: "list_all piece_ok (p_done p @ a)" "counted (p_done p @ a)" using f(3,4,8,9) split by simp_all
  have zero: "dim_zero (remote_dim v) = (Offset 0, 0)" by (simp add: remote_dim_def)
  have "full_offset_at (item_pos (remote_dim v) ?q) = Some (p_obs v ?q)"
    using pos_after_remote [OF ok, of v 0 0] po by (simp add: item_pos_def zero full_offset_at_def versioned_full_offset_def)
  moreover have "splits_off (remote_dim v) (remote_target s) Left (item_pos (remote_dim v) p) a r"
    unfolding pos(1) a_def r_def by (rule splits_off_remote [OF f(4,9)]) (use b s(1) in simp)
  ultimately obtain st' where st': "append_slice (remote_dim v) full_offset_at (remote_target s) Left st = Some st'"
      "simulates (remote_dim v) root ps st' ?q" "fragment_start st' = p_obs v ?q"
    using sim_slice [OF f(6,10) used split] by blast
  have "\<not> dl j" if "p_index p \<le> j" "j < p_index p + length (cells a)" for j
    unfolding dl by (rule no_remote_deletes_between [OF f(2) sh that(1)]) (use that moved_past_simps(2) [OF used] none less in auto)
  then have "pass_step ts dl p ?q" by (intro pass_step.skip used split) auto
  then have mv: "moves ts dl p ?q" by (rule moves_step) simp
  moreover have "remote_at root ps v ts dl st' ?q" by (rule remote_at_moves [OF at mv st'(2,3)]) (use used in simp)
  moreover have "\<exists>x R. r = x # R \<and> known v x \<and> s \<le> ?b + length (obs v a) + length (snd x)"
  proof (cases r)
    case Nil
    have "obs v ps = obs v (p_done p) @ obs v a" using f(2) split Nil by (auto simp: pass_shape_def)
    then show ?thesis using less s(2) po by simp
  next
    case (Cons x R)
    with drop_before_first [of v s ?b "p_rest p" x R] less po show ?thesis
      by (auto simp: a_def r_def olen_def split: if_splits)
  qed
  ultimately show ?thesis
    using st'(1) less by (intro exI [of _ st'] exI [of _ ?q]) (auto simp: arrives_def)
qed

lemma remote_catch_up:
  assumes at: "remote_at root ps v ts dl st p" and base: "remote_base root ps v ts" and dl: "dl = remote_deletes v m es (cells ps)"
    and s: "p_obs v p \<le> s" "s \<le> length (obs v ps)" and anch: "p_obs v p = s \<Longrightarrow> anchored v ts (cells ps) (p_index p)"
    and none: "\<And>i. p_obs v p \<le> i \<Longrightarrow> i < s \<Longrightarrow> \<not> in_ranges es i"
    and e: "end_at (remote_dim v) full_offset_at st = Some fragment_end"
  shows "\<exists>st' q. (if fragment_end < s then do {
              st \<leftarrow> consume_rest (remote_dim v) full_offset_at st;
              append_slice (remote_dim v) full_offset_at (remote_target s) Left st }
            else Some st) = Some st'
    \<and> remote_at root ps v ts dl st' q \<and> moves ts dl p q \<and> arrives ps v ts s q"
proof -
  note f = remote_at_facts [OF at base] and pos = remote_positions [OF at base]
  let ?b = "length (obs v (p_done p))"
  have fe: "fragment_end = ?b + (case p_rest p of [] \<Rightarrow> 0 | x # _ \<Rightarrow> olen v x)" using pos(5) e by simp
  show ?thesis
  proof (cases "fragment_end < s")
    case False
    have "\<exists>x R. p_rest p = x # R \<and> known v x \<and> s \<le> ?b + length (snd x)" if "p_obs v p < s"
    proof (cases "p_rest p")
      case Nil
      then show ?thesis using that False fe pos(7) by simp
    next
      case (Cons x R)
      then show ?thesis using that False fe pos(7) by (auto simp: olen_def split: if_splits)
    qed
    then show ?thesis using False at s(1) anch by (intro exI [of _ st] exI [of _ p]) (auto simp: arrives_def)
  next
    case True
    have ox: "olen v x = length (snd x)" if "p_rest p = x # R" "0 < p_used p" for x R
      using that at by (simp add: remote_at_def olen_def)
    obtain st1 where st1: "consume_rest (remote_dim v) full_offset_at st = Some st1" "simulates (remote_dim v) root ps st1 (finish_piece p)"
    proof -
      have "fragment_start st = ?b + p_used p" using f(7) pos(7) by simp
      moreover have "full_offset_at (item_end fragment_ops (remote_dim v) (item_pos (remote_dim v) p) (fst x)) = Some (?b + length (snd x))"
        if "p_rest p = x # R" "0 < p_used p" for x R using pos(6) [OF that(1)] ox [OF that] by simp
      ultimately show ?thesis
        using sim_consume_rest [where rd = full_offset_at, OF f(6,10,2) pos(2)] that by auto
    qed
    let ?p = "finish_piece p"
    have sh: "pass_shape ts ps ?p" by (rule shape_finish_piece [OF f(2,11)])
    have used: "p_used ?p = 0" by (rule finish_piece_used [OF f(2)])
    have fp: "p_obs v ?p = (if p_used p = 0 then p_obs v p else fragment_end)"
      "0 < p_used p \<Longrightarrow> p_rest p = x # R \<Longrightarrow> p_index ?p = length (cells (p_done p)) + length (snd x)" for x R
      using f(2) fe ox by (auto simp: finish_piece_def move_on_def p_obs_def p_index_def pass_shape_def olen_def split: list.splits)
    have "p_obs v p \<le> fragment_end"
      using fe pos(7) f(2) ox by (cases "p_used p = 0"; cases "p_rest p") (auto simp: pass_shape_def)
    then have le: "p_obs v p \<le> p_obs v ?p" "p_obs v ?p < s" using fp(1) True by (auto split: if_splits)
    have "pass_steps ts dl p ?p"
    proof (rule finish_piece_steps [OF f(2)])
      fix x R j assume x: "p_rest p = x # R" "0 < p_used p" "p_index p \<le> j" "j < length (cells (p_done p)) + length (snd x)"
      show "\<not> dl j" unfolding dl
        by (rule no_remote_deletes_between [OF f(2) sh x(3)]) (use x fp(2) none le in auto)
    qed
    moreover have "p_offset ?p = p_offset p" by (auto simp: finish_piece_def move_on_def split: list.splits)
    ultimately have mv: "moves ts dl p ?p" by (simp add: moves_def)
    have "simulates (remote_dim v) root ps (st1\<lparr>fragment_start := p_obs v ?p\<rparr>) ?p" using st1(2) by (simp add: simulates_def)
    then have st1': "remote_at root ps v ts dl (st1\<lparr>fragment_start := p_obs v ?p\<rparr>) ?p"
      by (rule remote_at_moves [OF at mv]) (use used in simp_all)
    have slice_fs: "append_slice (remote_dim v) full_offset_at (remote_target s) Left (st1\<lparr>fragment_start := n\<rparr>) =
        append_slice (remote_dim v) full_offset_at (remote_target s) Left st1" for n
      by (simp add: append_slice_def)
    have "\<not> in_ranges es i" if "p_obs v ?p \<le> i" "i < s" for i using that none le(1) by auto
    from remote_skip [OF st1' base dl used le(2) s(2) this] obtain st' q where
      "append_slice (remote_dim v) full_offset_at (remote_target s) Left st1 = Some st'"
      "remote_at root ps v ts dl st' q" "moves ts dl ?p q" "arrives ps v ts s q"
      unfolding slice_fs by blast
    then show ?thesis using True st1(1) moves_trans [OF mv] by (intro exI [of _ st'] exI [of _ q]) auto
  qed
qed

section \<open>Concurrent insertions\<close>

lemma finish_fragment_ok:
  assumes at: "remote_at root ps v ts dl st p" and base: "remote_base root ps v ts" and dl: "dl = remote_deletes v m es (cells ps)"
    and arr: "arrives ps v ts s p" and none: "\<And>i. p_obs v p \<le> i \<Longrightarrow> i < s \<Longrightarrow> \<not> in_ranges es i"
  shows "\<exists>st' q. finish_fragment v s st = Some st' \<and> remote_at root ps v ts dl st' q \<and> moves ts dl p q \<and> arrives ps v ts s q
    \<and> (p_obs v q < s \<longrightarrow> s < length (obs v (p_done q)) + length (snd (hd (p_rest q))))"
proof (cases "p_obs v p < s \<and> s = length (obs v (p_done p)) + length (snd (hd (p_rest p)))")
  case False
  note f = remote_at_facts [OF at base] and pos = remote_positions [OF at base]
  have "\<not> (length (obs v (p_done p)) + (case p_rest p of [] \<Rightarrow> 0 | x # _ \<Rightarrow> olen v x) = s \<and> p_obs v p < s)"
    using False arr by (auto simp: arrives_def olen_def)
  then have "finish_fragment v s st = Some st" using pos(5) f(7) by (auto simp: finish_fragment_def)
  moreover have "p_obs v p < s \<Longrightarrow> s < length (obs v (p_done p)) + length (snd (hd (p_rest p)))"
    using False arr by (auto simp: arrives_def)
  ultimately show ?thesis using at arr by (intro exI [of _ st] exI [of _ p]) simp
next
  case True
  note f = remote_at_facts [OF at base] and pos = remote_positions [OF at base]
  from arr True obtain x R where x: "p_rest p = x # R" "known v x" by (auto simp: arrives_def)
  let ?b = "length (obs v (p_done p))" and ?n = "length (snd x) - p_used p"
  let ?y = "part x (p_used p) ?n"
  have s: "s = ?b + length (snd x)" and less: "p_used p < length (snd x)" using True x(1) pos(7) by auto
  have ok: "piece_ok x" using f(4) x(1) by simp
  have "unat (frag_len (fst ?y)) = ?n" using part_fields(1) [OF ok, of "p_used p" ?n] less by simp
  with sim_emit [OF f(6,10) x(1), of ?n ?y] less f(2) x(1) fragment_ok_part [OF ok] starts_char_drop_all obtain st1 where
    st1: "emit_fragment (fst ?y) (frag_visible (fst x)) st = Some st1"
      "simulates (remote_dim v) root ps st1 ((emit_piece ?y p)\<lparr>p_used := length (snd x)\<rparr>)" by (auto simp: pass_shape_def)
  let ?q = "(emit_piece ?y p)\<lparr>p_done := p_done p @ [x], p_rest := R, p_used := 0\<rparr>"
  from sim_advance [OF st1(2) f(10), of x R] x(1) obtain st2 where
    st2: "advance (remote_dim v) st1 = Some st2" "simulates (remote_dim v) root ps st2 ?q" by auto
  have po: "p_obs v ?q = s" using x(2) s by (simp add: p_obs_def split: list.splits)
  have idx: "p_index ?q = p_index p + ?n" "length (cells (p_done p)) + length (snd x) = p_index ?q" using less by (simp_all add: p_index_def)
  have step: "pass_step ts (\<lambda>_. False) p ?q" by (rule pass_step.finish [OF x(1) less]) simp
  have sh: "pass_shape ts ps ?q" by (rule pass_shape_step [OF step f(2,11)])
  have "\<not> dl j" if "p_index p \<le> j" "j < length (cells (p_done p)) + length (snd x)" for j
    unfolding dl by (rule no_remote_deletes_between [OF f(2) sh that(1)]) (use that idx none po in auto)
  then have "pass_step ts dl p ?q" by (intro pass_step.finish [OF x(1) less]) auto
  then have mv: "moves ts dl p ?q" by (rule moves_step) simp
  have sim: "simulates (remote_dim v) root ps (st2\<lparr>fragment_start := s\<rparr>) ?q" using st2(2) by (simp add: simulates_def)
  have at': "remote_at root ps v ts dl (st2\<lparr>fragment_start := s\<rparr>) ?q" by (rule remote_at_moves [OF at mv sim]) (simp_all add: po)
  have "start_at full_offset_at st2 = Some s" using remote_positions(3) [OF at' base] s x(2) by (simp add: start_at_def)
  moreover have "olen v x = length (snd x)" "?b + length (snd x) - p_obs v p = ?n" using x(2) pos(7) by (simp_all add: olen_def)
  moreover have "frag_visible (fst ?y) = frag_visible (fst x)" by simp
  ultimately have "finish_fragment v s st = Some (st2\<lparr>fragment_start := s\<rparr>)"
    using pos(3,5,7) x(1) f(7) True s st1(1) st2(1) sim_item(2) [OF f(6) x(1)]
    by (simp add: finish_fragment_def Let_def part_fragment)
  moreover have "anchored v ts (cells ps) (p_index ?q)"
  proof (rule anchored_known)
    show "0 < p_index ?q" using idx(1) less by simp
    show "p_index ?q \<le> length (cells ps)" by (rule p_index_le [OF sh])
    have "cells ps ! (p_index p + (?n - 1)) = piece_cells x ! (p_used p + (?n - 1))"
      by (rule known_piece_cells(2) [OF f(2) x(1)]) (use less in simp)
    then show "cell_known v (cells ps ! (p_index ?q - 1))"
      using idx(1) less x(2) by (simp add: nth_piece_cells mk_cell_def cell_known_def known_def)
  qed
  ultimately show ?thesis
    using at' mv po by (intro exI [of _ "st2\<lparr>fragment_start := s\<rparr>"] exI [of _ ?q]) (simp add: arrives_def)
qed

lemma sim_push_whole:
  assumes "simulates (remote_dim v) root ps st p" "edit_base root ps" "p_rest p = x # R" "p_used p = 0"
  shows "\<exists>st1 st'. push_whole (fst x) st = Some st1 \<and> advance (remote_dim v) st1 = Some st'
    \<and> simulates (remote_dim v) root ps st' (moved_past p [x] R) \<and> fragment_start st' = fragment_start st"
proof -
  have ok: "list_all piece_ok ps" using edit_base_root(4) [OF assms(2)] .
  have d: "p_done p @ p_rest p = ps" using assms(1) by (simp add: simulates_def)
  then have x: "piece_ok x" using ok assms(3) by auto
  have len: "unat (frag_len (fst x)) = length (snd x)" "starts_char (snd x)" "fragment_ok (fst x)" using x by (simp_all add: piece_ok_def)
  let ?p = "p\<lparr>p_new := p_new p @ [x], p_used := length (snd x)\<rparr>"
  have "rb_push (length (snd x)) (frag_visible (fst x)) (frag_visible (fst x)) (ropes_of ps p) = Some (ropes_of ps ?p)"
    using rb_push_part [OF d ok assms(3), of "length (snd x)" "frag_visible (fst x)"] assms(3,4) len(2) starts_char_drop_all [of "snd x"]
    by (simp add: ropes_of_def p_vis_def p_del_def)
  moreover have "fb_holds (fb_push (fst x) (new_fragments st)) (map fst (p_new ?p))"
    using fb_holds_push [OF _ len(3)] assms(1) by (simp add: simulates_def)
  ultimately obtain st1 where st1: "push_whole (fst x) st = Some st1" "simulates (remote_dim v) root ps st1 ?p" "fragment_start st1 = fragment_start st"
    using assms(1) len(1) by (auto simp: push_whole_def rb_push_fragment_def simulates_def)
  have "p_rest ?p = x # R" "p_used ?p = length (snd x)" using assms(3) by simp_all
  moreover have "?p\<lparr>p_done := p_done ?p @ [x], p_rest := R, p_used := 0\<rparr> = moved_past p [x] R" using assms(4) by (cases p) simp
  ultimately show ?thesis using sim_advance [OF st1(2) assms(2), of x R] st1 by auto
qed

text \<open>The loop stops behind the concurrent insertions with a higher timestamp.\<close>

definition settled :: "piece list \<Rightarrow> global \<Rightarrow> lamport \<Rightarrow> nat \<Rightarrow> pass \<Rightarrow> bool" where
  "settled ps v ts s p \<longleftrightarrow> arrives ps v ts s p
     \<and> (p_obs v p = s \<longrightarrow> p_index p < length (cells ps) \<longrightarrow> \<not> ts < c_timestamp (cells ps ! p_index p))
     \<and> (p_obs v p < s \<longrightarrow> s < length (obs v (p_done p)) + length (snd (hd (p_rest p))))"

lemma remote_at_unfinished:
  assumes "remote_at root ps v ts dl st p" "remote_base root ps v ts" "p_rest p = x # R"
  shows "p_used p < length (snd x)"
proof -
  have "snd x \<noteq> []" using remote_at_facts(4) [OF assms(1,2)] assms(3) by (simp add: piece_ok_def)
  then show ?thesis using assms(1,3) by (cases "p_used p = 0") (auto simp: remote_at_def)
qed

lemma next_cell:
  assumes "pass_shape ts ps p" "p_rest p = x # R" "p_used p < length (snd x)"
  shows "c_timestamp (cells ps ! p_index p) = frag_timestamp (fst x)"
  using known_piece_cells(2) [OF assms(1,2), of 0] assms(3) by (simp add: nth_piece_cells mk_cell_def)

lemma skip_concurrent_ok:
  assumes at: "remote_at root ps v ts dl st p" and base: "remote_base root ps v ts" and dl: "dl = remote_deletes v m es (cells ps)"
    and arr: "arrives ps v ts s p" and mid: "p_obs v p < s \<longrightarrow> s < length (obs v (p_done p)) + length (snd (hd (p_rest p)))"
  shows "\<exists>st' q. skip_concurrent v ts s st = Some st' \<and> remote_at root ps v ts dl st' q \<and> moves ts dl p q \<and> settled ps v ts s q"
  using at arr mid
proof (induction "length (p_rest p)" arbitrary: st p rule: less_induct)
  case less
  note at = less.prems(1) and arr = less.prems(2)
  note f = remote_at_facts [OF at base] and pos = remote_positions [OF at base]
  have i: "item (old_fragments st) = Some (map_option fst (list_first (p_rest p)))" by (rule sim_item(1) [OF f(6)])
  have causal: "\<not> ts < frag_timestamp (fst x)" if "x \<in> set (p_rest p)" "known v x" for x
    using that base f(2) by (auto simp: remote_base_def pass_shape_def)
  show ?case
  proof (cases "\<exists>x R. p_rest p = x # R \<and> p_obs v p = s \<and> ts < frag_timestamp (fst x)")
    case False
    have "skip_concurrent v ts s st = Some st"
    proof (cases "p_rest p")
      case Nil
      then show ?thesis using i by (subst skip_concurrent.simps) (simp add: list_first_def)
    next
      case (Cons x R)
      then show ?thesis using i False f(7) by (subst skip_concurrent.simps) (auto simp: list_first_def)
    qed
    moreover have "\<not> ts < c_timestamp (cells ps ! p_index p)" if "p_obs v p = s" "p_index p < length (cells ps)"
    proof (cases "p_rest p")
      case Nil
      then show ?thesis using that(2) f(2) by (auto simp: pass_shape_def p_index_def)
    next
      case (Cons x R)
      then show ?thesis using next_cell [OF f(2) Cons remote_at_unfinished [OF at base Cons]] Cons False that(1) by auto
    qed
    ultimately show ?thesis
      using at arr less.prems(3) by (intro exI [of _ st] exI [of _ p]) (simp add: settled_def)
  next
    case True
    then obtain x R where x: "p_rest p = x # R" and s: "p_obs v p = s" and ts: "ts < frag_timestamp (fst x)" by blast
    have unk: "\<not> known v x" using causal [of x] x ts by auto
    have used: "p_used p = 0" using at x unk by (auto simp: remote_at_def)
    let ?q = "moved_past p [x] R"
    from sim_push_whole [OF f(6,10) x used] obtain st1 st2 where
      st: "push_whole (fst x) st = Some st1" "advance (remote_dim v) st1 = Some st2" "simulates (remote_dim v) root ps st2 ?q"
        "fragment_start st2 = fragment_start st" by blast
    have rec: "skip_concurrent v ts s st = skip_concurrent v ts s st2"
      using i x f(7) s ts st(1,2) by (subst skip_concurrent.simps) (simp add: list_first_def)
    have xc: "\<not> cell_known v (cells ps ! j) \<and> ts < c_timestamp (cells ps ! j)"
      if "p_index p \<le> j" "j < p_index p + length (snd x)" for j
    proof -
      have "p_used p + (j - p_index p) < length (snd x)" using that used by simp
      from known_piece_cells(2) [OF f(2) x this] this that unk ts show ?thesis
        by (simp add: nth_piece_cells mk_cell_def cell_known_def known_def)
    qed
    have "\<not> dl j" if "p_index p \<le> j" "j < p_index p + length (cells [x])" for j
      using xc [of j] remote_deletes_known that unfolding dl by fastforce
    then have "pass_step ts dl p ?q" using x by (intro pass_step.skip used) auto
    then have mv: "moves ts dl p ?q" by (rule moves_step) simp
    have po: "p_obs v ?q = s" using s x unk used by (simp add: p_obs_def split: list.splits)
    have at': "remote_at root ps v ts dl st2 ?q"
      by (rule remote_at_moves [OF at mv st(3)]) (use st(4) f(7) po s used in simp_all)
    have idx: "p_index ?q = p_index p + length (snd x)" using used by (simp add: p_index_def)
    have "anchored v ts (cells ps) (p_index ?q)" unfolding idx
    proof (rule anchored_extend)
      show "anchored v ts (cells ps) (p_index p)" using arr s by (simp add: arrives_def)
      show "p_index p + length (snd x) \<le> length (cells ps)"
        using p_index_le [OF remote_at_facts(2) [OF at' base]] idx by simp
    qed (rule xc)
    then have arr': "arrives ps v ts s ?q" using po by (simp add: arrives_def)
    have len: "length (p_rest ?q) < length (p_rest p)" using x by simp
    have "p_obs v ?q < s \<longrightarrow> s < length (obs v (p_done ?q)) + length (snd (hd (p_rest ?q)))" using po by simp
    from less.hyps [OF len at' arr' this] obtain st' q where
      "skip_concurrent v ts s st2 = Some st'" "remote_at root ps v ts dl st' q" "moves ts dl ?q q" "settled ps v ts s q" by blast
    then show ?thesis using rec moves_trans [OF mv] by metis
  qed
qed

section \<open>Prefix and insertion\<close>

lemma boundary_in_known:
  assumes "pass_shape ts ps p" "p_rest p = x # R" "known v x" "is_char_boundary (obs v ps) s"
    and "length (obs v (p_done p)) < s" "s \<le> length (obs v (p_done p)) + length (snd x)"
  shows "starts_char (drop (s - length (obs v (p_done p))) (snd x))"
proof (cases "s = length (obs v (p_done p)) + length (snd x)")
  case False
  let ?k = "s - length (obs v (p_done p))"
  have k: "?k < length (snd x)" using assms(5,6) False by simp
  have v: "obs v ps = obs v (p_done p) @ snd x @ obs v R" using assms(1-3) by (auto simp: pass_shape_def)
  have "obs v ps ! s = snd x ! ?k" "s < length (obs v ps)" using k assms(5) by (simp_all add: v nth_append)
  then have "\<not> is_continuation (snd x ! ?k)" using assms(4,5) by (auto simp: is_char_boundary_def)
  then show ?thesis using k by (simp add: starts_char_def hd_drop_conv_nth)
qed (simp add: starts_char_def)

text \<open>The start of a range is reached exactly, at the place where its text goes.\<close>

lemma remote_prefix:
  assumes at: "remote_at root ps v ts dl st p" and base: "remote_base root ps v ts" and dl: "dl = remote_deletes v m es (cells ps)"
    and set: "settled ps v ts s p" and s: "is_char_boundary (obs v ps) s"
    and none: "\<And>i. p_obs v p \<le> i \<Longrightarrow> i < s \<Longrightarrow> \<not> in_ranges es i"
  shows "\<exists>st' q. push_prefix full_offset_at s st = Some st' \<and> remote_at root ps v ts dl st' q \<and> moves ts dl p q \<and> p_obs v q = s
    \<and> p_index q = insert_pos v ts (cells ps) s \<and> anchored v ts (cells ps) (p_index q)"
proof (cases "p_obs v p < s")
  case False
  note f = remote_at_facts [OF at base]
  have eq: "p_obs v p = s" and anch: "anchored v ts (cells ps) (p_index p)"
    and nxt: "p_index p < length (cells ps) \<Longrightarrow> \<not> ts < c_timestamp (cells ps ! p_index p)"
    using False set by (auto simp: settled_def arrives_def)
  have "p_index p = insert_pos v ts (cells ps) s"
    using insert_pos_anchored [OF anch nxt] roff_index [OF f(2), of v] eq by simp
  then show ?thesis using at eq anch f(7) by (intro exI [of _ st] exI [of _ p]) (simp add: push_prefix_def)
next
  case True
  note f = remote_at_facts [OF at base] and pos = remote_positions [OF at base]
  from set True obtain x R where x: "p_rest p = x # R" "known v x" "s < length (obs v (p_done p)) + length (snd x)"
    by (auto simp: settled_def arrives_def)
  let ?n = "s - p_obs v p" and ?b = "length (obs v (p_done p))"
  let ?q = "keep_part ?n p"
  have n: "0 < ?n" "p_used p + ?n \<le> length (snd x)" "p_used p + ?n = s - ?b" "p_used p + ?n < length (snd x)" using True x(3) pos(7) by auto
  have sc: "starts_char (drop (s - ?b) (snd x))"
    using boundary_in_known [OF f(2) x(1,2) s _ less_imp_le [OF x(3)]] True pos(7) by simp
  have "fragment_start st = ?b + p_used p" "fragment_start st < s" using f(7) pos(7) True by simp_all
  from sim_push_prefix [where rd = full_offset_at, OF f(6,10,2) pos(2) x(1) this less_imp_le [OF x(3)] sc] f(7) obtain st' where
    st': "push_prefix full_offset_at s st = Some st'" "simulates (remote_dim v) root ps st' ?q" "fragment_start st' = s" by auto
  note q = keep_part_simps [OF x(1), of ?n]
  have po: "p_obs v ?q = s" using q(1-3) x(2) True pos(7) by (simp add: p_obs_def)
  have sh: "pass_shape ts ps ?q"
    by (rule pass_shape_step [OF keep_part_step [where dl = "\<lambda>_. False", OF x(1) n(1,2)] f(2,11)]) (use sc n(3) in simp_all)
  have "\<not> dl j" if "p_index p \<le> j" "j < p_index p + ?n" for j
    unfolding dl by (rule no_remote_deletes_between [OF f(2) sh that(1)]) (use that none po q(5) in auto)
  then have "pass_step ts dl p ?q" by (intro keep_part_step [OF x(1) n(1,2)]) (use sc n(3) in simp_all)
  then have mv: "moves ts dl p ?q" by (rule moves_step) (rule q(4))
  have at': "remote_at root ps v ts dl st' ?q" by (rule remote_at_moves [OF at mv st'(2)]) (use st'(3) po q(2,3) x(2) n(4) in simp_all)
  have idx: "p_index ?q - 1 = p_index p + (?n - 1)" using q(5) n(1) by simp
  have "cells ps ! (p_index p + (?n - 1)) = piece_cells x ! (p_used p + (?n - 1))"
    by (rule known_piece_cells(2) [OF f(2) x(1)]) (use n in simp)
  then have "cell_known v (cells ps ! (p_index ?q - 1))"
    unfolding idx using n x(2) by (simp add: nth_piece_cells mk_cell_def cell_known_def known_def)
  then have anch: "anchored v ts (cells ps) (p_index ?q)"
    by (intro anchored_known p_index_le [OF sh]) (use q(5) n(1) in simp_all)
  have "c_timestamp (cells ps ! p_index ?q) = frag_timestamp (fst x)"
    by (rule next_cell [OF sh q(2)]) (use q(3) n(4) in simp)
  moreover have "\<not> ts < frag_timestamp (fst x)" using base x f(2) by (auto simp: remote_base_def pass_shape_def)
  ultimately have "p_index ?q = insert_pos v ts (cells ps) s"
    using insert_pos_anchored [OF anch] roff_index [OF sh, of v] po by simp
  then show ?thesis using st'(1) at' mv po anch by blast
qed

lemma remote_insert_ok:
  assumes at: "remote_at root ps v ts dl st p" and base: "remote_base root ps v ts"
    and t: "starts_char t" "p_offset p + length t < 2 ^ 32"
  shows "\<exists>st' q. remote_insert ts t st = Some st' \<and> remote_at root ps v ts dl st' q
    \<and> p_obs v q = p_obs v p \<and> p_index q = p_index p \<and> p_offset q = p_offset p + length t
    \<and> cells (p_new q) = cells (p_new p) @ map (\<lambda>(i, b). new_cell ts i b) (enumerate (p_offset p) t)"
proof (cases "t = []")
  case True
  then show ?thesis using at by (intro exI [of _ st] exI [of _ p]) (simp add: remote_insert_def)
next
  case False
  note f = remote_at_facts [OF at base] and pos = remote_positions [OF at base]
  from sim_insert [OF f(6,5) False t(2) refl, of ts] obtain st' where
    st': "push_fragments_for_insertion t ts (next_id (p_rest p)) ts st = Some st'"
      "simulates (remote_dim v) root ps (push_edit (p_vis p, p_vis p) (new_visible_len st, new_visible_len st + length t) st') (insert_text ts t p)"
      "fragment_start st' = fragment_start st" by blast
  let ?st = "push_edit (p_vis p, p_vis p) (new_visible_len st, new_visible_len st + length t) st'" and ?q = "insert_text ts t p"
  have step: "pass_step ts dl p ?q" by (rule insert_text_step [OF False t])
  have po: "p_obs v ?q = p_obs v p" by (simp add: p_obs_def insert_text_simps split: list.splits)
  have "fragment_start ?st = p_obs v ?q" using st'(3) f(7) po by (simp add: push_edit_def)
  then have at': "remote_at root ps v ts dl ?st ?q"
    using at st'(2) step by (auto simp: remote_at_def insert_text_simps)
  have old: "(case map_option fst (list_first (p_rest p)) of
             Some f \<Rightarrow>
               if frag_visible f then do {
                 p \<leftarrow> start_at full_offset_at st;
                 k \<leftarrow> usize_sub (fragment_start st) p;
                 Some (snd (start (old_fragments st)) + k) }
               else Some (snd (start (old_fragments st)))
           | None \<Rightarrow> Some (snd (start (old_fragments st)))) = Some (p_vis p)"
    using pos(3,4,7) f(7) by (auto simp: p_vis_def list_first_def split: list.splits)
  have "remote_insert ts t st = Some ?st"
    using False st'(1) sim_item(1) [OF f(6)] old by (simp add: remote_insert_def next_fragment_id_eq Let_def)
  moreover have "cells (p_new ?q) = cells (p_new p) @ map (\<lambda>(i, b). new_cell ts i b) (enumerate (p_offset p) t)"
    by (rule insert_text_cells [OF t(2)])
  ultimately show ?thesis using at' po by (intro exI [of _ ?st] exI [of _ ?q]) (simp add: insert_text_simps)
qed

section \<open>Deletion\<close>

text \<open>What the deletion loop leaves behind: the observed offset has grown, and the position is anchored
  once it has.\<close>

definition progress :: "piece list \<Rightarrow> global \<Rightarrow> lamport \<Rightarrow> (nat \<Rightarrow> bool) \<Rightarrow> nat \<Rightarrow> pass \<Rightarrow> pass \<Rightarrow> bool" where
  "progress ps v ts dl e p q \<longleftrightarrow> moves ts dl p q \<and> p_obs v p \<le> p_obs v q \<and> p_obs v q \<le> e
     \<and> (p_obs v p < p_obs v q \<longrightarrow> anchored v ts (cells ps) (p_index q))
     \<and> (p_obs v q = e \<or> length (p_rest q) < length (p_rest p))"

lemma remote_delete_unknown:
  assumes at: "remote_at root ps v ts dl st p" and base: "remote_base root ps v ts" and dl: "dl = remote_deletes v m es (cells ps)"
    and e: "p_obs v p < e" and x: "p_rest p = x # R" and unk: "\<not> known v x"
  shows "\<exists>st' q. remote_delete_step v m ts e st = Some st' \<and> remote_at root ps v ts dl st' q \<and> progress ps v ts dl e p q"
proof -
  note f = remote_at_facts [OF at base] and pos = remote_positions [OF at base]
  have ok: "piece_ok x" using f(4) x by simp
  have z: "p_used p = 0" using at x unk by (auto simp: remote_at_def)
  have len: "unat (frag_len (fst x)) = length (snd x)" "0 < frag_len (fst x)" "snd x \<noteq> []"
    using ok by (auto simp: piece_ok_def word_gt_0)
  from sim_emit [OF f(6,10) x, of "length (snd x)" x] z len ok starts_char_drop_all [of "snd x"] obtain st1 where
    st1: "emit_fragment (fst x) (frag_visible (fst x)) st = Some st1"
      "simulates (remote_dim v) root ps st1 ((emit_piece x p)\<lparr>p_used := length (snd x)\<rparr>)" by (auto simp: piece_ok_def)
  have "simulates (remote_dim v) root ps (st1\<lparr>fragment_start := p_obs v p\<rparr>) ((emit_piece x p)\<lparr>p_used := length (snd x)\<rparr>)"
    using st1(2) by (simp add: simulates_def)
  from sim_advance [OF this f(10), of x R] x obtain st2 where
    st2: "advance (remote_dim v) (st1\<lparr>fragment_start := p_obs v p\<rparr>) = Some st2" "fragment_start st2 = p_obs v p"
      "simulates (remote_dim v) root ps st2 (move_on (emit_piece x p))" by (auto simp: move_on_def)
  let ?q = "move_on (emit_piece x p)"
  have b: "p_obs v p = length (obs v (p_done p))" using pos(7) z by simp
  have o: "olen v x = 0" using unk by (simp add: olen_def)
  have i: "remote_intersection v m ts (fst x) k st = Some (fst x, False)" for k
    using unk by (simp add: remote_intersection_def known_def)
  have "remote_delete_step v m ts e st = Some st2"
    using pos(5) x o i len(2) st1(1) st2(1) e b sim_item(2) [OF f(6) x]
    by (simp add: remote_delete_step_def Let_def min_absorb2)
  moreover have "pass_step ts dl p ?q"
  proof -
    have "\<not> dl j" if "p_index p \<le> j" "j < length (cells (p_done p)) + length (snd x)" for j
    proof -
      have k: "p_used p + (j - p_index p) < length (snd x)" using that z by (simp add: p_index_def)
      from known_piece_cells(2) [OF f(2) x this] k that unk show ?thesis
        unfolding dl using remote_deletes_known [of v m es "cells ps" j]
        by (auto simp: nth_piece_cells mk_cell_def cell_known_def known_def)
    qed
    then have "pass_step ts dl p
        ((emit_piece (part x (p_used p) (length (snd x) - p_used p)) p)\<lparr>p_done := p_done p @ [x], p_rest := R, p_used := 0\<rparr>)"
      using x z len by (intro pass_step.finish) auto
    then show ?thesis using z part_whole [OF ok] x by (simp add: move_on_def)
  qed
  then have mv: "moves ts dl p ?q" by (rule moves_step) (use x in \<open>simp add: move_on_def\<close>)
  have po: "p_obs v ?q = p_obs v p" using x b unk by (simp add: move_on_def p_obs_def split: list.splits)
  have "remote_at root ps v ts dl st2 ?q"
    by (rule remote_at_moves [OF at mv st2(3)]) (use st2(2) po x in \<open>simp_all add: move_on_def\<close>)
  moreover have "progress ps v ts dl e p ?q" using mv po e x by (simp add: progress_def move_on_def)
  ultimately show ?thesis by blast
qed

text \<open>The part of a known fragment in the range is marked if it was visible, and kept otherwise.\<close>

definition cut_part :: "bool \<Rightarrow> lamport \<Rightarrow> nat \<Rightarrow> pass \<Rightarrow> pass" where
  "cut_part w ts n p = (if w then mark_part ts n p else keep_part n p)"

lemma cut_part_simps:
  assumes "p_rest p = x # R"
  shows "p_done (cut_part w ts n p) = p_done p" "p_rest (cut_part w ts n p) = x # R" "p_used (cut_part w ts n p) = p_used p + n"
    "p_offset (cut_part w ts n p) = p_offset p"
  using assms mark_part_simps [OF assms] keep_part_simps [OF assms] by (simp_all add: cut_part_def)

lemma remote_cut:
  assumes at: "remote_at root ps v ts dl st p" and base: "remote_base root ps v ts" and m: "undo_map_ok m"
    and x: "p_rest p = x # R" "known v x"
    and n: "0 < n" "p_used p + n \<le> length (snd x)" "starts_char (drop (p_used p + n) (snd x))"
    and w: "w = cell_was_shown m v (cells ps ! p_index p)"
  shows "\<exists>f st0 st'. remote_intersection v m ts (fst x) (p_obs v p + n) st = Some (f, w) \<and> 0 < frag_len f
    \<and> st0 = (if w then st\<lparr>new_slices := new_slices st @ [slice_from_fragment ts f]\<rparr> else st)
    \<and> do { st \<leftarrow> (if frag_visible (fst x) \<and> \<not> frag_visible f then do {
               p \<leftarrow> start_at full_offset_at st0;
               k \<leftarrow> usize_sub (fragment_start st0) p;
               let old_start = snd (start (old_fragments st0)) + k;
               Some (push_edit (old_start, old_start + unat (frag_len f)) (new_visible_len st0, new_visible_len st0) st0) }
             else Some st0);
         emit_fragment f (frag_visible (fst x)) st } = Some st'
    \<and> simulates (remote_dim v) root ps st' (cut_part w ts n p)"
proof -
  note f = remote_at_facts [OF at base] and pos = remote_positions [OF at base]
  have ok: "piece_ok x" using f(4) x(1) by simp
  have less: "p_used p < length (snd x)" using n(1,2) by simp
  have "cells ps ! p_index p = piece_cells x ! p_used p" using known_piece_cells(2) [OF f(2) x(1), of 0] less by simp
  then have was: "was_visible (fst x) v m = Some w" using was_visible_eq [OF m less, of v] w by simp
  have len: "unat (of_nat n :: 32 word) = n" using ok n(2) by (simp add: piece_ok_def unat_of_nat_32)
  let ?k = "(fragment_part (fst x) (p_used p) n)\<lparr>frag_id := between (max_id (p_new p)) (frag_id (fst x))\<rparr>"
  let ?f = "if w then marked_fragment ts n p (fst x) else ?k"
  have i: "remote_intersection v m ts (fst x) (p_obs v p + n) st = Some (?f, w)"
    using x(2) pos(3,7) f(7) was sim_max_id [OF f(6)]
    by (simp add: remote_intersection_def known_def Let_def marked_fragment_def fragment_part_def)
  show ?thesis
  proof (cases w)
    case True
    let ?st = "st\<lparr>new_slices := new_slices st @ [slice_from_fragment ts (marked_fragment ts n p (fst x))]\<rparr>"
    let ?e = "if frag_visible (fst x)
           then patch_push (mk_edit (p_vis p) (p_vis p + n) (length (vis (p_new p))) (length (vis (p_new p)))) (p_patch p)
           else p_patch p"
    have swap: "st\<lparr>edits_patch := a, new_slices := b\<rparr> = st\<lparr>new_slices := b, edits_patch := a\<rparr>" for a b by (cases st) simp
    from sim_mark [OF f(6,10,2) x(1) n refl, unfolded swap] obtain st' where
      st': "emit_fragment (marked_fragment ts n p (fst x)) (frag_visible (fst x)) (?st\<lparr>edits_patch := ?e\<rparr>) = Some st'"
        "simulates (remote_dim v) root ps st' (mark_part ts n p)" "0 < frag_len (marked_fragment ts n p (fst x))" by blast
    have eq: "start_at full_offset_at ?st = Some (length (obs v (p_done p)))" "fragment_start ?st = p_obs v p"
        "snd (start (old_fragments ?st)) = length (vis (p_done p))" "new_visible_len ?st = length (vis (p_new p))"
        "edits_patch ?st = p_patch p"
      using pos(3,4) f(6,7) sim_visible_len [OF f(6,5)] by (simp_all add: start_at_def new_visible_len_def simulates_def)
    have vis: "frag_visible (fst x) \<Longrightarrow> p_vis p = length (vis (p_done p)) + p_used p" using x(1) by (simp add: p_vis_def)
    have fl: "unat (frag_len (marked_fragment ts n p (fst x))) = n" "\<not> frag_visible (marked_fragment ts n p (fst x))"
      using len by (simp_all add: marked_fragment_def fragment_part_def)
    have same: "?st\<lparr>edits_patch := p_patch p\<rparr> = ?st" using eq(5) by (cases st) simp
    have "(if frag_visible (fst x) \<and> \<not> frag_visible (marked_fragment ts n p (fst x)) then do {
               p' \<leftarrow> start_at full_offset_at ?st;
               k \<leftarrow> usize_sub (fragment_start ?st) p';
               let old_start = snd (start (old_fragments ?st)) + k;
               Some (push_edit (old_start, old_start + unat (frag_len (marked_fragment ts n p (fst x))))
                 (new_visible_len ?st, new_visible_len ?st) ?st) }
             else Some ?st) = Some (?st\<lparr>edits_patch := ?e\<rparr>)"
      unfolding eq fl(1) using fl(2) vis pos(7) same eq(5) by (cases "frag_visible (fst x)") (simp_all add: push_edit_def Let_def)
    then show ?thesis
      using True i st'
      by - (rule exI [of _ "marked_fragment ts n p (fst x)"], rule exI [of _ ?st], rule exI [of _ st'],
        simp add: cut_part_def)
  next
    case False
    let ?y = "with_id (between (max_id (p_new p)) (frag_id (fst x))) (part x (p_used p) n)"
    have y: "fst ?y = ?k" by (simp add: with_id_def part_fragment)
    have "unat (frag_len (fst ?y)) = n" using part_fields(1) [OF ok n(2)] by (simp add: with_id_def)
    moreover have "fragment_ok (fst ?y)" using fragment_ok_part [OF ok] by (simp add: with_id_def fragment_ok_def)
    ultimately obtain st' where st': "emit_fragment (fst ?y) (frag_visible (fst x)) st = Some st'"
        "simulates (remote_dim v) root ps st' ((emit_piece ?y p)\<lparr>p_used := p_used p + n\<rparr>)"
      using sim_emit [OF f(6,10) x(1), of n ?y] n f(2) x(1) by (auto simp: pass_shape_def)
    have "0 < frag_len ?k" "frag_visible ?k = frag_visible (fst x)" using len n(1) by (auto simp: fragment_part_def word_gt_0)
    then show ?thesis
      using False i st' x(1) unfolding y
      by - (rule exI [of _ ?k], rule exI [of _ st], rule exI [of _ st'], simp add: cut_part_def keep_part_def)
  qed
qed

lemma cut_step:
  assumes at: "remote_at root ps v ts dl st p" and base: "remote_base root ps v ts" and dl: "dl = remote_deletes v m es (cells ps)"
    and x: "p_rest p = x # R" "known v x"
    and n: "0 < n" "p_used p + n \<le> length (snd x)" "starts_char (drop (p_used p + n) (snd x))"
    and all: "\<And>i. p_obs v p \<le> i \<Longrightarrow> i < p_obs v p + n \<Longrightarrow> in_ranges es i"
    and w: "w = cell_was_shown m v (cells ps ! p_index p)"
  shows "pass_step ts dl p (cut_part w ts n p)"
proof -
  note f = remote_at_facts [OF at base]
  have d: "dl j = w" if "p_index p \<le> j" "j < p_index p + n" for j
  proof -
    let ?i = "j - p_index p"
    have i: "p_used p + ?i < length (snd x)" "p_used p + 0 < length (snd x)" "p_index p + ?i = j" using that n(1,2) by auto
    note c = known_piece_cells [OF f(2) x(1) i(1)]
    have "cell_was_shown m v (piece_cells x ! (p_used p + ?i)) = cell_was_shown m v (piece_cells x ! (p_used p + 0))"
      using i(1,2) by (simp add: nth_piece_cells mk_cell_def cell_was_shown_def)
    then show ?thesis
      using c(1,2) c(3) [OF x(2)] known_piece_cells(2) [OF f(2) x(1) i(2)] i(3) all [of "p_obs v p + ?i"] that
      by (simp add: dl w remote_deletes_def)
  qed
  show ?thesis
    using mark_part_step [OF x(1) n, of dl ts] keep_part_step [OF x(1) n, of dl ts] d by (auto simp: cut_part_def)
qed

lemma remote_delete_known:
  assumes at: "remote_at root ps v ts dl st p" and base: "remote_base root ps v ts" and dl: "dl = remote_deletes v m es (cells ps)"
    and m: "undo_map_ok m" and e: "p_obs v p < e" "is_char_boundary (obs v ps) e"
    and all: "\<And>i. p_obs v p \<le> i \<Longrightarrow> i < e \<Longrightarrow> in_ranges es i"
    and x: "p_rest p = x # R" and kn: "known v x"
  shows "\<exists>st' q. remote_delete_step v m ts e st = Some st' \<and> remote_at root ps v ts dl st' q \<and> progress ps v ts dl e p q"
proof -
  note f = remote_at_facts [OF at base] and pos = remote_positions [OF at base]
  let ?b = "length (obs v (p_done p))"
  let ?fe = "?b + length (snd x)"
  define n where "n = min e ?fe - p_obs v p"
  define w where "w = cell_was_shown m v (cells ps ! p_index p)"
  have less: "p_used p < length (snd x)" by (rule remote_at_unfinished [OF at base x])
  have n: "0 < n" "p_used p + n \<le> length (snd x)" "p_obs v p + n = min e ?fe" using e(1) less pos(7) by (auto simp: n_def)
  have sc: "starts_char (drop (p_used p + n) (snd x))"
  proof (cases "e \<le> ?fe")
    case True
    then have "p_used p + n = e - ?b" using n(3) pos(7) by simp
    then show ?thesis using boundary_in_known [OF f(2) x kn e(2) _ True] e(1) pos(7) by simp
  next
    case False
    then have "p_used p + n = length (snd x)" using n(3) pos(7) by simp
    then show ?thesis by (simp add: starts_char_def)
  qed
  let ?q = "cut_part w ts n p"
  note q = cut_part_simps [OF x, of w ts n]
  from remote_cut [OF at base m x kn n(1,2) sc w_def] obtain g st0 st1 where
    i: "remote_intersection v m ts (fst x) (min e ?fe) st = Some (g, w)" "0 < frag_len g"
      "st0 = (if w then st\<lparr>new_slices := new_slices st @ [slice_from_fragment ts g]\<rparr> else st)"
    and st1: "do { st \<leftarrow> (if frag_visible (fst x) \<and> \<not> frag_visible g then do {
               p \<leftarrow> start_at full_offset_at st0;
               k \<leftarrow> usize_sub (fragment_start st0) p;
               let old_start = snd (start (old_fragments st0)) + k;
               Some (push_edit (old_start, old_start + unat (frag_len g)) (new_visible_len st0, new_visible_len st0) st0) }
             else Some st0);
         emit_fragment g (frag_visible (fst x)) st } = Some st1"
      "simulates (remote_dim v) root ps st1 ?q" unfolding n(3) by blast
  let ?st = "st1\<lparr>fragment_start := min e ?fe\<rparr>"
  have sim: "simulates (remote_dim v) root ps ?st ?q" using st1(2) by (simp add: simulates_def)
  have olen: "olen v x = length (snd x)" using kn by (simp add: olen_def)
  have body: "remote_delete_step v m ts e st = (if ?fe \<le> e then advance (remote_dim v) ?st else Some ?st)"
    using sim_item(2) [OF f(6) x] pos(5) x olen i st1(1)
    by (auto simp: remote_delete_step_def Let_def bind_eq_Some_conv split: if_splits)
  have "\<And>j. p_obs v p \<le> j \<Longrightarrow> j < p_obs v p + n \<Longrightarrow> in_ranges es j" using all n(3) by simp
  from cut_step [OF at base dl x kn n(1,2) sc this w_def]
  have step: "pass_step ts dl p ?q" .
  have mv: "moves ts dl p ?q" by (rule moves_step [OF step q(4)])
  have sh: "pass_shape ts ps ?q" by (rule pass_shape_step [OF step f(2,11)])
  have idx: "p_index ?q = p_index p + n" using q by (simp add: p_index_def)
  have po: "p_obs v ?q = min e ?fe" using q kn n(3) pos(7) by (simp add: p_obs_def)
  have "cells ps ! (p_index p + (n - 1)) = piece_cells x ! (p_used p + (n - 1))"
    by (rule known_piece_cells(2) [OF f(2) x]) (use n in simp)
  then have "cell_known v (cells ps ! (p_index ?q - 1))"
    using idx n kn by (simp add: nth_piece_cells mk_cell_def cell_known_def known_def)
  then have anch: "anchored v ts (cells ps) (p_index ?q)"
    by (intro anchored_known p_index_le [OF sh]) (use idx n(1) in simp_all)
  show ?thesis
  proof (cases "?fe \<le> e")
    case False
    then have "p_used p + n < length (snd x)" using n(3) pos(7) by simp
    then have "remote_at root ps v ts dl ?st ?q" using remote_at_moves [OF at mv sim] po q kn by simp
    moreover have "progress ps v ts dl e p ?q" using mv po anch n False by (simp add: progress_def)
    ultimately show ?thesis using body False by (intro exI [of _ ?st] exI [of _ ?q]) simp
  next
    case True
    then have full: "p_used ?q = length (snd x)" using q(3) n(3) pos(7) by simp
    from sim_advance [OF sim f(10) q(2) full] obtain st2 where
      st2: "advance (remote_dim v) ?st = Some st2" "simulates (remote_dim v) root ps st2 (move_on ?q)" "fragment_start st2 = min e ?fe"
      using q(2) by (auto simp: move_on_def)
    have q': "p_index (move_on ?q) = p_index ?q" "p_obs v (move_on ?q) = p_obs v ?q" "p_used (move_on ?q) = 0"
      "p_rest (move_on ?q) = R" "p_offset (move_on ?q) = p_offset ?q"
      using q full kn by (auto simp: move_on_def p_index_def p_obs_def split: list.splits)
    have "moves ts dl ?q (move_on ?q)"
      using pass_step.advance [of ?q x R ts dl] q full q'(5) n(1) by (intro moves_step) (simp_all add: move_on_def)
    then have mv2: "moves ts dl p (move_on ?q)" by (rule moves_trans [OF mv])
    then have "remote_at root ps v ts dl st2 (move_on ?q)" using remote_at_moves [OF at mv2 st2(2)] st2(3) q' po by simp
    moreover have "p_obs v p \<le> min e ?fe" using n(3) by linarith
    then have "progress ps v ts dl e p (move_on ?q)" using mv2 po anch q' x by (simp add: progress_def)
    ultimately show ?thesis using body True st2(1) by (intro exI [of _ st2] exI [of _ "move_on ?q"]) simp
  qed
qed

lemma remote_delete_step_ok:
  assumes at: "remote_at root ps v ts dl st p" and base: "remote_base root ps v ts" and dl: "dl = remote_deletes v m es (cells ps)"
    and m: "undo_map_ok m" and e: "p_obs v p < e" "is_char_boundary (obs v ps) e" "e \<le> length (obs v ps)"
    and all: "\<And>i. p_obs v p \<le> i \<Longrightarrow> i < e \<Longrightarrow> in_ranges es i"
  shows "\<exists>st' q. remote_delete_step v m ts e st = Some st' \<and> remote_at root ps v ts dl st' q \<and> progress ps v ts dl e p q"
proof (cases "p_rest p")
  case Nil
  note f = remote_at_facts [OF at base]
  have "obs v ps = obs v (p_done p)" "p_used p = 0" using f(2) Nil by (auto simp: pass_shape_def)
  then show ?thesis using e(1,3) remote_positions(7) [OF at base] by simp
next
  case (Cons x R)
  show ?thesis
    using remote_delete_known [OF at base dl m e(1,2) all Cons] remote_delete_unknown [OF at base dl e(1) Cons] by blast
qed

lemma remote_delete_ok:
  assumes "remote_at root ps v ts dl st p" "remote_base root ps v ts" "dl = remote_deletes v m es (cells ps)" "undo_map_ok m"
    and "p_obs v p \<le> e" "is_char_boundary (obs v ps) e" "e \<le> length (obs v ps)"
    and "\<And>i. p_obs v p \<le> i \<Longrightarrow> i < e \<Longrightarrow> in_ranges es i" and "anchored v ts (cells ps) (p_index p)"
  shows "\<exists>st' q. remote_delete v m ts e st = Some st' \<and> remote_at root ps v ts dl st' q \<and> moves ts dl p q \<and> p_obs v q = e
    \<and> anchored v ts (cells ps) (p_index q)"
proof -
  have "\<exists>st' q. remote_delete v m ts e st = Some st' \<and> remote_at root ps v ts dl st' q \<and> moves ts dl p q \<and> p_obs v q = e
    \<and> (p_obs v p < e \<longrightarrow> anchored v ts (cells ps) (p_index q)) \<and> (p_obs v p = e \<longrightarrow> q = p)"
    using assms(1-8)
  proof (induction "length (p_rest p)" arbitrary: st p rule: less_induct)
    case less
    note base = less.prems(2) and dl = less.prems(3) and m = less.prems(4) and e = less.prems(6,7)
    have fs: "fragment_start st = p_obs v p" using less.prems(1) by (simp add: remote_at_def)
    show ?case
    proof (cases "p_obs v p < e")
      case False
      then show ?thesis
        using less.prems(1,5) fs by (intro exI [of _ st] exI [of _ p]) (simp add: remote_delete.simps [of v m ts e st])
    next
      case True
      from remote_delete_step_ok [OF less.prems(1) base dl m True e less.prems(8)] obtain st1 q1 where
        s1: "remote_delete_step v m ts e st = Some st1" "remote_at root ps v ts dl st1 q1" "progress ps v ts dl e p q1" by blast
      then have p1: "moves ts dl p q1" "p_obs v p \<le> p_obs v q1" "p_obs v q1 \<le> e"
        "p_obs v p < p_obs v q1 \<longrightarrow> anchored v ts (cells ps) (p_index q1)"
        "p_obs v q1 = e \<or> length (p_rest q1) < length (p_rest p)" by (auto simp: progress_def)
      have unfold: "remote_delete v m ts e st = remote_delete v m ts e st1"
        using True fs s1(1) by (subst remote_delete.simps) simp
      show ?thesis
      proof (cases "p_obs v q1 = e")
        case reached: True
        then have "remote_delete v m ts e st1 = Some st1"
          using s1(2) by (subst remote_delete.simps) (simp add: remote_at_def)
        then show ?thesis using True reached s1 p1 unfold by (intro exI [of _ st1] exI [of _ q1]) simp
      next
        case False
        then have "length (p_rest q1) < length (p_rest p)" using p1(5) by simp
        from less.hyps [OF this s1(2) base dl m p1(3) e] less.prems(8) p1(2) obtain st' q where
          "remote_delete v m ts e st1 = Some st'" "remote_at root ps v ts dl st' q" "moves ts dl q1 q" "p_obs v q = e"
          "p_obs v q1 < e \<longrightarrow> anchored v ts (cells ps) (p_index q)" by force
        then show ?thesis
          using True False p1(3) unfold moves_trans [OF p1(1)] by (intro exI [of _ st'] exI [of _ q]) auto
      qed
    qed
  qed
  then show ?thesis using assms(5,9) by (metis le_neq_implies_less)
qed

section \<open>One range\<close>

lemma known_prefix_roff: "n \<le> length (filter (cell_known v) cs) \<Longrightarrow> roff v cs (known_prefix v n cs) = n \<and> known_prefix v n cs \<le> length cs"
  by (induction v n cs rule: known_prefix.induct) (auto simp: roff_def split: if_splits)

lemma insert_pos_ge:
  assumes "anchored v ts cs k" "roff v cs k \<le> n" "n \<le> length (filter (cell_known v) cs)"
  shows "k \<le> insert_pos v ts cs n"
proof (cases "roff v cs k = n")
  case False
  then have "roff v cs k < roff v cs (known_prefix v n cs)" using known_prefix_roff [OF assms(3)] assms(2) by simp
  then have "k \<le> known_prefix v n cs" using roff_mono [of "known_prefix v n cs" k v cs] by linarith
  then show ?thesis by (simp add: insert_pos_def Let_def)
next
  case True
  from assms(1) obtain j where j: "j \<le> k" "k \<le> length cs" "roff v cs j = roff v cs k" "j = 0 \<or> cell_known v (cs ! (j - 1))"
      "\<forall>i. j \<le> i \<longrightarrow> i < k \<longrightarrow> ts < c_timestamp (cs ! i)" by (auto simp: anchored_def)
  have kp: "known_prefix v n cs = j" using known_prefix_unique [OF j(3) _ j(4)] j(1,2) True by simp
  have "drop j cs = take (k - j) (drop j cs) @ drop k cs" using j(1) append_take_drop_id [of "k - j" "drop j cs"] by simp
  moreover have "\<forall>c \<in> set (take (k - j) (drop j cs)). ts < c_timestamp c" using j(1,2,5) by (auto simp: in_set_conv_nth)
  ultimately have "k - j \<le> length (takeWhile (\<lambda>c. ts < c_timestamp c) (drop j cs))"
    using j(2) takeWhile_append2 [of "take (k - j) (drop j cs)" "\<lambda>c. ts < c_timestamp c" "drop k cs"] by simp
  then show ?thesis using kp j(1) by (simp add: insert_pos_def Let_def)
qed

lemma remote_weave_advance:
  assumes "i \<le> j" "j \<le> length cs" "\<And>a b t es'. es = ((a, b), t) # es' \<Longrightarrow> j \<le> insert_pos v ts cs a"
  shows "remote_weave v ts dl cs i off es = marks ts dl i (take (j - i) (drop i cs)) @ remote_weave v ts dl cs j off es"
  unfolding remote_weave_def
proof (rule weave_advance [OF assms(1,2)])
  fix k t ks
  assume "map (\<lambda>((a, b), t). (insert_pos v ts cs a, t)) es = (k, t) # ks"
  then show "j \<le> k" using assms(3) by (cases es) auto
qed

lemma remote_moves_cells:
  assumes "remote_at root ps v ts dl st p" "remote_base root ps v ts" "moves ts dl p q"
  shows "p_index p \<le> p_index q" "p_index q \<le> length (cells ps)"
    "cells (p_new q) = cells (p_new p) @ marks ts dl (p_index p) (take (p_index q - p_index p) (drop (p_index p) (cells ps)))"
  using moves_cells [OF remote_at_facts(2,11) [OF assms(1,2)] assms(3)] .

text \<open>The pass is ready for a range: it has not passed its start, and knows where its text goes.\<close>

definition ready :: "piece list \<Rightarrow> global \<Rightarrow> lamport \<Rightarrow> ((nat \<times> nat) \<times> char list) list \<Rightarrow> pass \<Rightarrow> bool" where
  "ready ps v ts es p \<longleftrightarrow> edits_ok (obs v ps) (p_obs v p) es
     \<and> (\<forall>a b t es'. es = ((a, b), t) # es' \<longrightarrow> p_obs v p = a \<longrightarrow> anchored v ts (cells ps) (p_index p))"

lemma remote_seek_ok:
  assumes at: "remote_at root ps v ts dl st p" and base: "remote_base root ps v ts" and dl: "dl = remote_deletes v m es (cells ps)"
    and s: "p_obs v p \<le> s" "s \<le> length (obs v ps)" "is_char_boundary (obs v ps) s"
    and anch: "p_obs v p = s \<Longrightarrow> anchored v ts (cells ps) (p_index p)"
    and none: "\<And>i. p_obs v p \<le> i \<Longrightarrow> i < s \<Longrightarrow> \<not> in_ranges es i"
  shows "\<exists>st' q. do {
         fragment_end \<leftarrow> end_at (remote_dim v) full_offset_at st;
         st \<leftarrow> (if fragment_end < s then do {
              st \<leftarrow> consume_rest (remote_dim v) full_offset_at st;
              append_slice (remote_dim v) full_offset_at (remote_target s) Left st }
            else Some st);
         st \<leftarrow> finish_fragment v s st;
         st \<leftarrow> skip_concurrent v ts s st;
         assert_not_past s st;
         push_prefix full_offset_at s st } = Some st'
    \<and> remote_at root ps v ts dl st' q \<and> moves ts dl p q \<and> p_obs v q = s
    \<and> p_index q = insert_pos v ts (cells ps) s \<and> anchored v ts (cells ps) (p_index q)"
proof -
  obtain fe where fe: "end_at (remote_dim v) full_offset_at st = Some fe" using remote_positions(5) [OF at base] by blast
  have none': "\<not> in_ranges es i" if "moves ts dl p q" "p_obs v q \<le> i" "i < s" for q i
  proof (rule none)
    have "pass_shape ts ps q"
      using that(1) pass_shape_steps remote_at_facts(2,11) [OF at base] by (auto simp: moves_def)
    then show "p_obs v p \<le> i"
      using that(2) roff_mono [OF remote_moves_cells(1) [OF at base that(1)], of v "cells ps"]
        roff_index [of ts ps q v] roff_index [OF remote_at_facts(2) [OF at base], of v] by simp
  qed (rule that(3))
  from remote_catch_up [OF at base dl s(1,2) anch none fe] obtain st1 q1 where
    q1: "(if fe < s then do { st \<leftarrow> consume_rest (remote_dim v) full_offset_at st;
              append_slice (remote_dim v) full_offset_at (remote_target s) Left st } else Some st) = Some st1"
      "remote_at root ps v ts dl st1 q1" "moves ts dl p q1" "arrives ps v ts s q1" by blast
  from finish_fragment_ok [OF q1(2) base dl q1(4) none' [OF q1(3)]] obtain st2 q2 where
    q2: "finish_fragment v s st1 = Some st2" "remote_at root ps v ts dl st2 q2" "moves ts dl q1 q2" "arrives ps v ts s q2"
      "p_obs v q2 < s \<longrightarrow> s < length (obs v (p_done q2)) + length (snd (hd (p_rest q2)))" by blast
  from skip_concurrent_ok [OF q2(2) base dl q2(4,5)] obtain st3 q3 where
    q3: "skip_concurrent v ts s st2 = Some st3" "remote_at root ps v ts dl st3 q3" "moves ts dl q2 q3" "settled ps v ts s q3" by blast
  have mv: "moves ts dl p q3" using moves_trans q1(3) q2(3) q3(3) by blast
  from remote_prefix [OF q3(2) base dl q3(4) s(3) none' [OF mv]] obtain st4 q4 where
    q4: "push_prefix full_offset_at s st3 = Some st4" "remote_at root ps v ts dl st4 q4" "moves ts dl q3 q4" "p_obs v q4 = s"
      "p_index q4 = insert_pos v ts (cells ps) s" "anchored v ts (cells ps) (p_index q4)" by blast
  have "assert_not_past s st3 = Some ()"
    using remote_at_facts(7) [OF q3(2) base] q3(4) by (simp add: assert_not_past_def settled_def arrives_def)
  then show ?thesis
    using q4 moves_trans [OF mv q4(3)] unfolding fe bind.simps q1(1) q2(1) q3(1)
    by (intro exI [of _ st4] exI [of _ q4]) simp
qed

lemma remote_edit_step_ok:
  assumes at: "remote_at root ps v ts dl st p" and base: "remote_base root ps v ts" and dl: "dl = remote_deletes v m es (cells ps)"
    and m: "undo_map_ok m" and rdy: "ready ps v ts (((a, b), t) # rs) p"
    and same: "\<And>i. p_obs v p \<le> i \<Longrightarrow> in_ranges es i = in_ranges (((a, b), t) # rs) i"
    and len: "p_offset p + length t < 2 ^ 32"
  shows "\<exists>st' q. remote_edit_step v m ts (a, b) t st = Some st' \<and> remote_at root ps v ts dl st' q
    \<and> p_obs v q = b \<and> p_offset q = p_offset p + length t \<and> anchored v ts (cells ps) (p_index q)
    \<and> cells (p_new q) @ remote_weave v ts dl (cells ps) (p_index q) (p_offset q) rs
      = cells (p_new p) @ remote_weave v ts dl (cells ps) (p_index p) (p_offset p) (((a, b), t) # rs)"
proof -
  have s: "p_obs v p \<le> a" "a \<le> b" "b \<le> length (obs v ps)" "is_char_boundary (obs v ps) a" "is_char_boundary (obs v ps) b"
    "starts_char t" "edits_ok (obs v ps) b rs" and anch: "p_obs v p = a \<Longrightarrow> anchored v ts (cells ps) (p_index p)"
    using rdy by (auto simp: ready_def)
  have none: "\<not> in_ranges es i" if "p_obs v p \<le> i" "i < a" for i
    using same [OF that(1)] that(2) in_ranges_ge [OF s(7), of i] s(2) by auto
  have all: "in_ranges es i" if "a \<le> i" "i < b" for i using same [of i] that s(1) by simp
  have "a \<le> length (obs v ps)" using s(2,3) by simp
  from remote_seek_ok [OF at base dl s(1) this s(4) anch none] obtain st1 q1 where
    q1: "do {
         fragment_end \<leftarrow> end_at (remote_dim v) full_offset_at st;
         st \<leftarrow> (if fragment_end < a then do {
              st \<leftarrow> consume_rest (remote_dim v) full_offset_at st;
              append_slice (remote_dim v) full_offset_at (remote_target a) Left st }
            else Some st);
         st \<leftarrow> finish_fragment v a st;
         st \<leftarrow> skip_concurrent v ts a st;
         assert_not_past a st;
         push_prefix full_offset_at a st } = Some st1"
      "remote_at root ps v ts dl st1 q1" "moves ts dl p q1" "p_obs v q1 = a"
      "p_index q1 = insert_pos v ts (cells ps) a" "anchored v ts (cells ps) (p_index q1)" by blast
  have off1: "p_offset q1 = p_offset p" using q1(3) by (simp add: moves_def)
  then have "p_offset q1 + length t < 2 ^ 32" using len by simp
  from remote_insert_ok [OF q1(2) base s(6) this] obtain st2 q2 where
    q2: "remote_insert ts t st1 = Some st2" "remote_at root ps v ts dl st2 q2" "p_obs v q2 = p_obs v q1" "p_index q2 = p_index q1"
      "p_offset q2 = p_offset q1 + length t"
      "cells (p_new q2) = cells (p_new q1) @ map (\<lambda>(i, b). new_cell ts i b) (enumerate (p_offset q1) t)" by blast
  have "p_obs v q2 \<le> b" "\<And>i. p_obs v q2 \<le> i \<Longrightarrow> i < b \<Longrightarrow> in_ranges es i" "anchored v ts (cells ps) (p_index q2)"
    using q2(3,4) q1(4,6) s(2) all by simp_all
  from remote_delete_ok [OF q2(2) base dl m this(1) s(5,3) this(2,3)] obtain st3 q3 where
    q3: "remote_delete v m ts b st2 = Some st3" "remote_at root ps v ts dl st3 q3" "moves ts dl q2 q3" "p_obs v q3 = b"
      "anchored v ts (cells ps) (p_index q3)" by blast
  have run: "remote_edit_step v m ts (a, b) t st = Some st3"
    unfolding remote_edit_step_def fst_conv snd_conv
    using q1(1) q2(1) q3(1) by (auto simp: bind_eq_Some_conv split del: if_split)
  have off3: "p_offset q3 = p_offset p + length t" using q3(3) q2(5) off1 by (simp add: moves_def)
  note c1 = remote_moves_cells [OF at base q1(3)] and c3 = remote_moves_cells [OF q2(2) base q3(3)]
  have "p_index q3 \<le> insert_pos v ts (cells ps) a'" if "rs = ((a', b'), t') # rs'" for a' b' t' rs'
  proof (rule insert_pos_ge [OF q3(5)])
    have "roff v (cells ps) (p_index q3) = b" using roff_index [OF remote_at_facts(2) [OF q3(2) base], of v] q3(4) by simp
    then show "roff v (cells ps) (p_index q3) \<le> a'" using s(7) that by simp
    have "length (filter (cell_known v) (cells ps)) = length (obs v ps)" by (simp add: obs_cells)
    then show "a' \<le> length (filter (cell_known v) (cells ps))" using s(7) that by simp
  qed
  note adv = remote_weave_advance [OF c3(1,2), of rs v ts dl "p_offset q3", OF this]
  have "cells (p_new q3) @ remote_weave v ts dl (cells ps) (p_index q3) (p_offset q3) rs
      = cells (p_new p) @ remote_weave v ts dl (cells ps) (p_index p) (p_offset p) (((a, b), t) # rs)"
    using c1(3) q2(4,6) c3(3) adv off1 off3 q1(5) by (simp add: Let_def)
  then show ?thesis using run q3(2,4,5) off3 by blast
qed

lemma remote_edit_loop_ok:
  assumes "remote_at root ps v ts dl st p" "remote_base root ps v ts" "dl = remote_deletes v m es (cells ps)" "undo_map_ok m"
    and "ready ps v ts rs p" "\<And>i. p_obs v p \<le> i \<Longrightarrow> in_ranges es i = in_ranges rs i"
    and "p_offset p + length (concat (map snd rs)) < 2 ^ 32"
  shows "\<exists>st' q. remote_edit_loop v m ts rs st = Some st' \<and> remote_at root ps v ts dl st' q
    \<and> (\<forall>i. p_obs v q \<le> i \<longrightarrow> \<not> in_ranges es i)
    \<and> cells (p_new q) @ marks ts dl (p_index q) (drop (p_index q) (cells ps))
      = cells (p_new p) @ remote_weave v ts dl (cells ps) (p_index p) (p_offset p) rs"
  using assms
proof (induction rs arbitrary: st p)
  case Nil
  then show ?case by (intro exI [of _ st] exI [of _ p]) simp
next
  case (Cons c rs)
  note base = Cons.prems(2-4)
  obtain a b t where c: "c = ((a, b), t)" by (metis prod.exhaust)
  have len: "p_offset p + length t < 2 ^ 32" "p_offset p + length t + length (concat (map snd rs)) < 2 ^ 32"
    using Cons.prems(7) c by simp_all
  from remote_edit_step_ok [OF Cons.prems(1) base, of a b t rs] Cons.prems(5,6) len(1) c obtain st1 q1 where
    q1: "remote_edit_step v m ts (a, b) t st = Some st1" "remote_at root ps v ts dl st1 q1" "p_obs v q1 = b"
      "p_offset q1 = p_offset p + length t" "anchored v ts (cells ps) (p_index q1)"
      "cells (p_new q1) @ remote_weave v ts dl (cells ps) (p_index q1) (p_offset q1) rs
        = cells (p_new p) @ remote_weave v ts dl (cells ps) (p_index p) (p_offset p) (((a, b), t) # rs)" by blast
  have s: "p_obs v p \<le> a" "a \<le> b" "edits_ok (obs v ps) b rs" using Cons.prems(5) c by (auto simp: ready_def)
  have rdy: "ready ps v ts rs q1" using s(3) q1(3,5) by (simp add: ready_def)
  have "in_ranges es i = in_ranges rs i" if "p_obs v q1 \<le> i" for i
    using Cons.prems(6) [of i] that s(1,2) q1(3) c by simp
  from Cons.IH [OF q1(2) base rdy this] q1(4) len(2) obtain st' q where
    q: "remote_edit_loop v m ts rs st1 = Some st'" "remote_at root ps v ts dl st' q" "\<forall>i. p_obs v q \<le> i \<longrightarrow> \<not> in_ranges es i"
      "cells (p_new q) @ marks ts dl (p_index q) (drop (p_index q) (cells ps))
        = cells (p_new q1) @ remote_weave v ts dl (cells ps) (p_index q1) (p_offset q1) rs" by auto
  have "remote_edit_loop v m ts (c # rs) st = Some st'" using c q1(1) q(1) by simp
  then show ?case using q(2-4) q1(6) unfolding c by metis
qed

section \<open>The whole edit\<close>

lemma remote_start:
  assumes s: "snapshot_ok s ps" "heights_ok s" and base: "remote_base (fragments s) ps v ts" and es: "edits_ok (obs v ps) 0 es" "es \<noteq> []"
    and dl: "dl = remote_deletes v m es (cells ps)"
  shows "\<exists>st p. edit_state_new (remote_dim v) full_offset_at (remote_target (fst (fst (hd es)))) Left s = Some st
    \<and> remote_at (fragments s) ps v ts dl st p \<and> moves ts dl (pass_start ps) p \<and> ready ps v ts es p
    \<and> p_index p \<le> insert_pos v ts (cells ps) (fst (fst (hd es)))"
proof -
  let ?s = "fst (fst (hd es))"
  define a r where "a = take_before v ?s 0 ps" and "r = drop_before v ?s 0 ps"
  let ?p = "moved_past (pass_start ps) a r"
  have eb: "edit_base (fragments s) ps" and cnt: "counted ps" using base by (simp_all add: remote_base_def)
  have ps: "list_all piece_ok ps" using edit_base_root(4) [OF eb] .
  have split: "ps = a @ r" by (simp add: a_def r_def take_drop_before)
  have start: "pass_shape ts ps (pass_start ps)"
    using s(1) by (intro pass_shape_start) (simp_all add: snapshot_ok_def pieces_ok_def)
  have zero [simp]: "p_used (pass_start qs) = 0" "p_rest (pass_start qs) = qs" "p_done (pass_start qs) = []"
    "p_new (pass_start qs) = []" "p_offset (pass_start qs) = 0" for qs by (simp_all add: pass_start_def)
  have sh: "pass_shape ts ps ?p" by (rule shape_moved_past [OF start ps zero(1)]) (unfold zero, rule split)
  have po: "p_obs v ?p = length (obs v a)" "p_index ?p = length (cells a)" by (simp_all add: p_obs_def p_index_def split: list.splits)
  have dz: "dim_zero (remote_dim v) = (Offset 0, 0)" by (simp add: remote_dim_def)
  have "full_offset_at (item_pos (remote_dim v) ?p) = Some (p_obs v ?p)"
    using pos_after_remote [of a v 0 0] ps cnt split po by (simp add: item_pos_def dz full_offset_at_def versioned_full_offset_def)
  moreover have "splits_off (remote_dim v) (remote_target ?s) Left (dim_zero (remote_dim v)) a r"
    unfolding dz a_def r_def by (rule splits_off_remote [OF ps cnt]) simp
  moreover have "visible_text s = vis ps" "deleted_text s = del ps" using s(1) by (simp_all add: snapshot_ok_def)
  ultimately obtain st where st: "edit_state_new (remote_dim v) full_offset_at (remote_target ?s) Left s = Some st"
      "simulates (remote_dim v) (fragments s) ps st ?p" "fragment_start st = p_obs v ?p"
    using sim_start_state [OF eb _ _ split, of "remote_dim v" "remote_target ?s" Left full_offset_at] by blast
  have zeros: "?s = 0 \<Longrightarrow> a = []" and less: "0 < ?s \<Longrightarrow> p_obs v ?p < ?s"
    using take_before_zero [of ?s 0 v ps] take_before_less [of 0 ?s v ps] po by (simp_all add: a_def)
  then have le: "p_obs v ?p \<le> ?s" and eq: "p_obs v ?p = ?s \<Longrightarrow> a = []" using po by (cases "?s = 0"; force)+
  have ge: "?s \<le> i" if "in_ranges es i" for i
    using in_ranges_ge [OF edits_ok_weaken [OF es(1), of ?s]] that by simp
  have "\<not> dl j" if "p_index (pass_start ps) \<le> j" "j < p_index (pass_start ps) + length (cells a)" for j
    unfolding dl by (rule no_remote_deletes_between [OF start sh that(1)])
      (use that moved_past_simps(2) [of "pass_start ps" a r] le ge in fastforce)+
  then have "pass_step ts dl (pass_start ps) ?p" using split by (intro pass_step.skip) auto
  then have mv: "moves ts dl (pass_start ps) ?p" by (rule moves_step) simp
  then have at: "remote_at (fragments s) ps v ts dl st ?p" using st by (simp add: remote_at_def moves_def)
  have anch: "anchored v ts (cells ps) 0" by (simp add: anchored_def)
  have "edits_ok (obs v ps) (p_obs v ?p) es" using edits_ok_weaken [OF es(1)] le by blast
  then have rdy: "ready ps v ts es ?p" using eq anch po(2) by (auto simp: ready_def)
  have "?s \<le> length (filter (cell_known v) (cells ps))"
    using es by (cases es) (auto simp: obs_cells)
  then have kp: "roff v (cells ps) (known_prefix v ?s (cells ps)) = ?s" using known_prefix_roff by blast
  have "p_index ?p \<le> known_prefix v ?s (cells ps)"
  proof (cases "?s = 0")
    case False
    then have "roff v (cells ps) (p_index ?p) < roff v (cells ps) (known_prefix v ?s (cells ps))"
      using less kp roff_index [OF sh, of v] by simp
    then show ?thesis using roff_mono [of "known_prefix v ?s (cells ps)" "p_index ?p" v "cells ps"] by linarith
  qed (use zeros po in simp)
  then have "p_index ?p \<le> insert_pos v ts (cells ps) ?s" by (simp add: insert_pos_def Let_def)
  then show ?thesis using st(1) at mv rdy by blast
qed

lemma remote_finish:
  assumes s: "snapshot_ok s ps" "heights_ok s" and at: "remote_at (fragments s) ps v ts dl st p" and base: "remote_base (fragments s) ps v ts"
    and ts: "ts \<noteq> lamport_MIN" and none: "\<And>j. p_index p \<le> j \<Longrightarrow> \<not> dl j"
  shows "\<exists>t i w d m. edit_state_finish (remote_dim v) full_offset_at st s =
      Some (s\<lparr>fragments := t, insertions := i, visible_text := w, deleted_text := d, insertion_slices := m\<rparr>)
    \<and> snapshot_ok (s\<lparr>fragments := t, insertions := i, visible_text := w, deleted_text := d, insertion_slices := m\<rparr>) (p_new (finish_pass p))
    \<and> slice_set m = slice_set (insertion_slices s) \<union> set (p_slices p)
    \<and> pass_inv ts dl ps (finish_pass p)"
proof -
  note f = remote_at_facts [OF at base] and pos = remote_positions [OF at base]
  have steps: "pass_steps ts dl (pass_start ps) p" using at by (simp add: remote_at_def)
  have fr: "fresh ts ps" using base by (simp add: remote_base_def)
  have "fragment_start st = length (obs v (p_done p)) + p_used p" using f(7) pos(7) by simp
  moreover have "full_offset_at (item_end fragment_ops (remote_dim v) (item_pos (remote_dim v) p) (fst x)) = Some (length (obs v (p_done p)) + length (snd x))"
    if "p_rest p = x # R" "0 < p_used p" for x R
    using pos(6) [OF that(1)] at that by (simp add: remote_at_def olen_def)
  ultimately show ?thesis
    by (intro edit_state_finish_ok [where rd = full_offset_at, OF s f(6) steps fr ts none suffix_total_any [OF f(10)] pos(2)]) auto
qed

text \<open>The edit of another replica: it is applied whole, and the cells of the new snapshot are those the
  specification gives.\<close>

lemma apply_remote_edit_ok:
  assumes s: "snapshot_ok s ps" "heights_ok s" and m: "undo_map_ok (undo_map s)"
    and ts: "fresh ts ps" "ts \<noteq> lamport_MIN" and cnt: "counted ps"
    and causal: "\<And>x. x \<in> set ps \<Longrightarrow> known v x \<Longrightarrow> \<not> ts < frag_timestamp (fst x)"
    and es: "es \<noteq> []" "edits_ok (obs v ps) 0 es" "length (concat (map snd es)) < 2 ^ 32"
  shows "\<exists>patch s' ps'. apply_remote_edit v (map fst es) (map snd es) ts s = Some (Some patch, s')
    \<and> snapshot_ok s' ps' \<and> same_frame s s'
    \<and> cells ps' = remote_cells v (undo_map s) ts es (cells ps)
    \<and> patch_wf patch \<and> separated patch \<and> transforms patch (visible_text s) (visible_text s')"
proof -
  let ?dl = "remote_deletes v (undo_map s) es (cells ps)"
  have base: "remote_base (fragments s) ps v ts" using snapshot_base [OF s] ts(1) cnt causal by (simp add: remote_base_def)
  from remote_start [OF s base es(2,1) refl, of "undo_map s"] obtain st p where
    p: "edit_state_new (remote_dim v) full_offset_at (remote_target (fst (fst (hd es)))) Left s = Some st"
      "remote_at (fragments s) ps v ts ?dl st p" "moves ts ?dl (pass_start ps) p" "ready ps v ts es p"
      "p_index p \<le> insert_pos v ts (cells ps) (fst (fst (hd es)))" by blast
  have zero: "p_offset p = 0" using p(3) by (simp add: moves_def pass_start_def)
  from remote_edit_loop_ok [OF p(2) base refl m p(4) refl] zero es(3) obtain st' q where
    q: "remote_edit_loop v (undo_map s) ts es st = Some st'" "remote_at (fragments s) ps v ts ?dl st' q"
      "\<And>i. p_obs v q \<le> i \<Longrightarrow> \<not> in_ranges es i"
      "cells (p_new q) @ marks ts ?dl (p_index q) (drop (p_index q) (cells ps))
        = cells (p_new p) @ remote_weave v ts ?dl (cells ps) (p_index p) (p_offset p) es" by auto
  note f = remote_at_facts [OF q(2) base]
  have none: "\<not> ?dl j" if "p_index q \<le> j" for j
    using roff_mono [OF that, of v "cells ps"] roff_index [OF f(2), of v] q(3) by (auto simp: remote_deletes_def)
  from remote_finish [OF s q(2) base ts(2) none] obtain t i w d sl where
    r: "edit_state_finish (remote_dim v) full_offset_at st' s =
        Some (s\<lparr>fragments := t, insertions := i, visible_text := w, deleted_text := d, insertion_slices := sl\<rparr>)"
      "snapshot_ok (s\<lparr>fragments := t, insertions := i, visible_text := w, deleted_text := d, insertion_slices := sl\<rparr>) (p_new (finish_pass q))"
      "pass_inv ts ?dl ps (finish_pass q)" by blast
  let ?s = "s\<lparr>fragments := t, insertions := i, visible_text := w, deleted_text := d, insertion_slices := sl\<rparr>"
  have new: "visible_text ?s = vis (p_new (finish_pass q))" "visible_text s = vis ps"
    using r(2) s(1) unfolding snapshot_ok_def by blast+
  have "consumed (finish_pass q) = cells ps" "p_index (finish_pass q) = length (cells ps)"
    using r(3) by (simp_all add: pass_inv_def pass_shape_def consumed_def p_index_def)
  with remote_moves_cells(3) [OF q(2) base finish_pass_moves [OF f(2,11) none]]
  have "cells (p_new (finish_pass q)) = cells (p_new q) @ marks ts ?dl (p_index q) (drop (p_index q) (cells ps))" by simp
  also have "\<dots> = cells (p_new p) @ remote_weave v ts ?dl (cells ps) (p_index p) 0 es" using q(4) zero by simp
  also have "\<dots> = remote_cells v (undo_map s) ts es (cells ps)"
  proof -
    have at0: "pass_shape ts ps (pass_start ps)" using s(1) by (intro pass_shape_start) (simp_all add: snapshot_ok_def pieces_ok_def)
    from p(3) pass_steps_consume(2) [OF _ at0 f(11)] obtain u where
      u: "consumed p = consumed (pass_start ps) @ u" "cells (p_new p) = cells (p_new (pass_start ps)) @ marks ts ?dl (p_index (pass_start ps)) u"
      by (auto simp: moves_def)
    have "pass_shape ts ps p" using remote_at_facts(2) [OF p(2) base] .
    then have "u = take (p_index p) (cells ps)" "p_index p \<le> length (cells ps)"
      using u(1) take_consumed [of ts ps p] p_index_le by (auto simp: consumed_def pass_start_def split: list.splits)
    moreover have "p_index (pass_start ps) = 0" "p_new (pass_start ps) = []" by (simp_all add: pass_start_def p_index_def)
    moreover have "p_index p \<le> insert_pos v ts (cells ps) a" if "es = ((a, b), x) # es'" for a b x es' using that p(5) by simp
    ultimately show ?thesis
      using remote_weave_advance [of 0 "p_index p" "cells ps" es v ts ?dl 0] u(2) by (simp add: remote_cells_def)
  qed
  finally have cells: "cells (p_new (finish_pass q)) = remote_cells v (undo_map s) ts es (cells ps)" .
  have "edits_patch st' = p_patch (finish_pass q)" using q(2) by (simp add: remote_at_def simulates_def)
  then show ?thesis
    using p(1) q(1) r(1,2) cells pass_patch_end [OF r(3)] new es(1)
    by (intro exI [of _ "edits_patch st'"] exI [of _ ?s] exI [of _ "p_new (finish_pass q)"])
      (simp add: apply_remote_edit_def same_frame_def zip_map_fst_snd hd_map)
qed

end
