(* ===== verification/UndoEdit_Correct.thy ===== *)
theory UndoEdit_Correct
  imports UndoFragments
begin

text \<open>
  What \<^verbatim>\<open>apply_undo\<close> does: it finds every fragment that one of the edits inserted or deleted, and afterwards the
  visibility of every fragment of the buffer is the one the undo map prescribes.
\<close>

section \<open>The pass over the fragments\<close>

definition reshow :: "undo_operation \<Rightarrow> undo_map \<Rightarrow> piece \<Rightarrow> piece" where
  "reshow undo m x = ((fst x)\<lparr>frag_visible := visible_in m (fst x),
     frag_max_undos := global_observe (frag_max_undos (fst x)) (undo_timestamp undo)\<rparr>, snd x)"

definition reshow_in :: "undo_operation \<Rightarrow> undo_map \<Rightarrow> locator set \<Rightarrow> piece \<Rightarrow> piece" where
  "reshow_in undo m I x = (if frag_id (fst x) \<in> I then reshow undo m x else x)"

lemma reshow_fields [simp]: "snd (reshow undo m x) = snd x" "frag_id (fst (reshow undo m x)) = frag_id (fst x)"
  "frag_timestamp (fst (reshow undo m x)) = frag_timestamp (fst x)" "frag_deletions (fst (reshow undo m x)) = frag_deletions (fst x)"
  "frag_insertion_offset (fst (reshow undo m x)) = frag_insertion_offset (fst x)" "frag_len (fst (reshow undo m x)) = frag_len (fst x)"
  "frag_visible (fst (reshow undo m x)) = visible_in m (fst x)" "frag_key (fst (reshow undo m x)) = frag_key (fst x)"
  by (simp_all add: reshow_def frag_key_def)

lemma piece_ok_reshow [simp]: "piece_ok x \<Longrightarrow> piece_ok (reshow undo m x)"
  by (simp add: piece_ok_def fragment_ok_def reshow_def global_wf_observe)

definition undo_pass :: "piece list \<Rightarrow> piece list \<Rightarrow> piece list \<Rightarrow> pass" where
  "undo_pass a r n = (pass_start r)\<lparr>p_done := a, p_new := n\<rparr>"

lemma undo_pass_simps [simp]: "p_done (undo_pass a r n) = a" "p_rest (undo_pass a r n) = r" "p_new (undo_pass a r n) = n" "p_used (undo_pass a r n) = 0"
  by (simp_all add: undo_pass_def pass_start_def)

lemma ropes_undo_pass: "ropes_of ps (undo_pass a r n) = mk_rb (vis ps) (length (vis a)) (del ps) (length (del a)) (vis n) (del n)"
  by (simp add: ropes_of_def p_vis_def p_del_def split: list.splits)

text \<open>What the loop has built when the fragments of \<open>a\<close> are done and those of \<open>r\<close> are left.\<close>

definition undo_built :: "piece list \<Rightarrow> (piece \<Rightarrow> piece) \<Rightarrow> undo_state \<Rightarrow> piece list \<Rightarrow> piece list \<Rightarrow> bool" where
  "undo_built ps upd st a r \<longleftrightarrow> ps = a @ r
     \<and> fragment_tree.good (us_new st) \<and> items (us_new st) = map fst (map upd a)
     \<and> us_ropes st = ropes_of ps (undo_pass a r (map upd a))
     \<and> patch_upto (us_patch st) (vis a) (vis (map upd a))"

lemma undo_built_old [simp]: "undo_built ps upd (st\<lparr>us_old := c\<rparr>) a r = undo_built ps upd st a r"
  by (simp add: undo_built_def)

definition undo_at :: "fragment_tree \<Rightarrow> piece list \<Rightarrow> (piece \<Rightarrow> piece) \<Rightarrow> undo_state \<Rightarrow> piece list \<Rightarrow> piece list \<Rightarrow> bool" where
  "undo_at root ps upd st a r \<longleftrightarrow> undo_built ps upd st a r \<and> cursor_ok root (us_old st) (map fst r)
     \<and> cursor_position (us_old st) = pos_after fragment_ops undo_dims (None, 0) (map fst a)"

lemma pos_after_undo:
  "list_all piece_ok ps \<Longrightarrow> pos_after fragment_ops undo_dims q (map fst ps)
    = (if ps = [] then fst q else Some (frag_id (fst (last ps))), snd q + length (vis ps))"
proof (induction ps arbitrary: q)
  case (Cons x ps)
  then show ?case by (simp add: item_end_def fragment_item_summary_def Let_def piece_ok_def)
qed simp

lemma splits_off_id:
  assumes ok: "list_all piece_ok (a @ b)" and below: "\<forall>x \<in> set a. frag_id (fst x) < fid" and above: "\<forall>x \<in> set b. fid \<le> frag_id (fst x)"
    and q: "\<forall>i. fst q = Some i \<longrightarrow> i < fid" and ids: "ids_ok (a @ b)"
  shows "splits_off undo_dims (id_target fid) Left q a b"
proof -
  have past: "seek_past (id_target fid) Left p \<longleftrightarrow> (\<forall>i. fst p = Some i \<longrightarrow> i < fid)" for p
    by (cases "fst p") (auto simp: seek_past_def id_target_def)
  have fits: "seek_past (id_target fid) Left (item_end fragment_ops undo_dims p (fst x)) \<longleftrightarrow> frag_id (fst x) < fid" for p x
    by (simp add: past item_end_def fragment_item_summary_def Let_def)
  have "take_past fragment_ops undo_dims (seek_past (id_target fid) Left) p (map fst (a @ b)) = map fst a" for p
    using below
  proof (induction a arbitrary: p)
    case Nil
    show ?case using above by (cases b) (auto simp: fits)
  qed (simp add: fits)
  moreover have "id_target fid q \<noteq> Less" using q by (cases "fst q") (auto simp: id_target_def)
  moreover have "seekable fragment_ops undo_dims (seek_past (id_target fid) Left) q (map fst (a @ b))"
  proof (rule max_id_visible_seek.seekable_if_monotone)
    show "list_all fragment_ok (map fst (a @ b))" using ok by (rule fragment_ok_pieces)
    fix u x w
    assume split: "map fst (a @ b) = u @ x # w" and past': "seek_past (id_target fid) Left (pos_after fragment_ops undo_dims q (u @ [x]))"
      and u: "u \<noteq> []"
    have "sorted_wrt (<) (map frag_id (u @ x # w))" using ids unfolding split [symmetric] by (simp add: ids_ok_def)
    then have "frag_id (last u) < frag_id x" using u by (simp add: sorted_wrt_append)
    moreover have "fst (pos_after fragment_ops undo_dims q (u @ [x])) = Some (frag_id x)"
      by (simp add: item_end_def fragment_item_summary_def Let_def)
    moreover have "fst (pos_after fragment_ops undo_dims q u) = Some (frag_id (last u))"
      using u by (cases u rule: rev_cases) (simp_all add: item_end_def fragment_item_summary_def Let_def)
    ultimately show "seek_past (id_target fid) Left (pos_after fragment_ops undo_dims q u)" using past' by (auto simp: past)
  qed
  ultimately show ?thesis by (simp add: splits_off_def)
qed

text \<open>Fragments that keep their visibility are appended as they are.\<close>

lemma append_preceding_built:
  assumes at: "undo_built ps upd st a (b @ r)" and ok: "list_all piece_ok ps" and keep: "\<And>x. x \<in> set b \<Longrightarrow> upd x = x"
    and t: "fragment_tree.good t" "items t = map fst b"
  shows "\<exists>st'. append_preceding t st = Some st' \<and> undo_built ps upd st' (a @ b) r \<and> us_old st' = us_old st"
proof -
  have ps: "ps = a @ b @ r" using at by (simp add: undo_built_def)
  then have b: "list_all piece_ok b" using ok by simp
  have upd: "map upd b = b" using keep by (simp add: map_idI)
  have len: "fs_text (summary t) = \<lparr>fts_visible = length (vis b), fts_deleted = length (del b)\<rparr>"
    using fragment_tree.summary_items [OF t(1)] total_text [OF b] t(2) by simp
  have "rb_append (fs_text (summary t)) (ropes_of ps (undo_pass a (b @ r) (map upd a)))
      = Some (ropes_of ps (undo_pass (a @ b) r (map upd (a @ b))))"
    using rb_append_pieces [of "undo_pass a (b @ r) (map upd a)" b r ps] ok ps upd len by (simp add: ropes_undo_pass) (simp add: undo_pass_def pass_start_def ropes_of_def p_vis_def p_del_def split: list.splits)
  moreover from fragment_tree.append_ok [of "us_new st" t] at t obtain u where
    "append_tree fragment_ops (us_new st) t = Some u" "fragment_tree.good u" "items u = items (us_new st) @ items t" by (auto simp: undo_built_def)
  moreover have "patch_upto (us_patch st) (vis (a @ b)) (vis (map upd (a @ b)))"
    using patch_upto_copy [of "us_patch st" "vis a" "vis (map upd a)" "vis b"] at upd by (simp add: undo_built_def)
  ultimately show ?thesis using at t ps upd by (simp add: append_preceding_def undo_built_def)
qed

text \<open>A fragment that is found gets its visibility from the undo map.\<close>

definition undo_patch :: "piece \<Rightarrow> piece \<Rightarrow> nat \<Rightarrow> nat \<Rightarrow> patch \<Rightarrow> patch" where
  "undo_patch x y i j p =
    (if frag_visible (fst x) \<and> \<not> frag_visible (fst y) then patch_push (mk_edit i (i + length (snd x)) j j) p
     else if \<not> frag_visible (fst x) \<and> frag_visible (fst y) then patch_push (mk_edit i i j (j + length (snd x))) p
     else p)"

lemma undo_patch_step:
  assumes "patch_upto p (vis a) (vis n)" "snd y = snd x"
  shows "patch_upto (undo_patch x y (length (vis a)) (length (vis n)) p) (vis (a @ [x])) (vis (n @ [y]))"
  using patch_upto_push [OF assms(1), of "length (snd x)" "snd x" 0 "[]"] patch_upto_push [OF assms(1), of 0 "[]" "length (snd x)" "snd x"]
    patch_upto_copy [OF assms(1), of "snd x"] assms
  by (auto simp: undo_patch_def)

lemma undo_fragment_eq:
  assumes "undo_map_ok m" "piece_ok x"
  shows "undo_fragment undo m (fst x) st = do {
     ropes \<leftarrow> rb_push (length (snd x)) (frag_visible (fst x)) (frag_visible (fst (reshow undo m x))) (us_ropes st);
     new \<leftarrow> push fragment_ops (us_new st) (fst (reshow undo m x));
     c \<leftarrow> cursor_next undo_dims (us_old st);
     Some (st\<lparr>us_old := c, us_new := new, us_ropes := ropes,
       us_patch := undo_patch x (reshow undo m x) (snd (start (us_old st))) (fts_visible (fs_text (summary (us_new st)))) (us_patch st)\<rparr>)
   }"
  using assms by (cases st) (simp add: undo_fragment_def is_visible_eq reshow_def Let_def push_undo_edit_def rb_push_fragment_def undo_patch_def piece_ok_def)

lemma undo_fragment_ok:
  assumes at: "undo_at root ps upd st a (x # r)" "did_seek (us_old st)" and base: "edit_base root ps" and m: "undo_map_ok m"
    and upd: "upd x = reshow undo m x" and upd_ok: "\<And>x. piece_ok x \<Longrightarrow> piece_ok (upd x)"
  shows "\<exists>st'. undo_fragment undo m (fst x) st = Some st' \<and> undo_at root ps upd st' (a @ [x]) r"
proof -
  note root = edit_base_root [OF base]
  have ps: "ps = a @ x # r" and new: "fragment_tree.good (us_new st)" "items (us_new st) = map fst (map upd a)"
    and c: "cursor_ok root (us_old st) (map fst (x # r))" "cursor_position (us_old st) = pos_after fragment_ops undo_dims (None, 0) (map fst a)"
    and ropes: "us_ropes st = ropes_of ps (undo_pass a (x # r) (map upd a))" and patch: "patch_upto (us_patch st) (vis a) (vis (map upd a))"
    using at(1) unfolding undo_at_def undo_built_def by blast+
  have x: "piece_ok x" and a: "list_all piece_ok a" using root(4) ps by simp_all
  let ?y = "reshow undo m x"
  have old: "snd (start (us_old st)) = length (vis a)" using pos_after_undo [OF a, of "(None, 0)"] c(2) by (simp add: start_def)
  have "list_all piece_ok (map upd a)" using a upd_ok by (simp add: list_all_iff)
  then have newlen: "fts_visible (fs_text (summary (us_new st))) = length (vis (map upd a))"
    using fragment_tree.summary_items [OF new(1)] new(2) total_text [of "map upd a"] by simp
  have "rb_push (length (snd x)) (frag_visible (fst x)) (frag_visible (fst ?y)) (us_ropes st)
      = Some (ropes_of ps (undo_pass (a @ [x]) r (map upd (a @ [x]))))"
    using rb_push_part [of "undo_pass a (x # r) (map upd a)" ps x r "length (snd x)" "frag_visible (fst ?y)"] root(4) ps x ropes upd
    by (auto simp: ropes_undo_pass p_vis_def p_del_def piece_ok_def starts_char_def)
  moreover obtain t where "push fragment_ops (us_new st) (fst ?y) = Some t" "fragment_tree.good t" "items t = map fst (map upd (a @ [x]))"
    using fragment_tree.push_ok [OF new(1), of "fst ?y"] piece_ok_reshow [OF x, of undo m] new(2) upd by (auto simp: piece_ok_def)
  moreover obtain c' where "cursor_next undo_dims (us_old st) = Some c'" "cursor_ok root c' (map fst r)"
      "cursor_position c' = pos_after fragment_ops undo_dims (None, 0) (map fst (a @ [x]))"
    using fragment_tree.cursor_next_ok [OF c(1) root(1,2), of undo_dims] at(2) c(2) by auto
  ultimately show ?thesis
    using undo_patch_step [OF patch, of ?y x] reshow_fields(1) [of undo m x] ps upd newlen old
    by (simp split del: if_split del: reshow_fields add: undo_fragment_eq [OF m x] undo_at_def undo_built_def)
qed

lemma undo_step_ok:
  assumes at: "undo_at root ps upd st a (b @ x # r)" and base: "edit_base root ps" and m: "undo_map_ok m"
    and keep: "\<And>z. z \<in> set b \<Longrightarrow> upd z = z" and upd: "upd x = reshow undo m x" "\<And>x. piece_ok x \<Longrightarrow> piece_ok (upd x)"
  shows "\<exists>st'. undo_step undo m (frag_id (fst x)) st = Some st' \<and> undo_at root ps upd st' (a @ b @ [x]) r"
proof -
  have built: "undo_built ps upd st a (b @ x # r)" and c: "cursor_ok root (us_old st) (map fst (b @ x # r))"
    and pos: "cursor_position (us_old st) = pos_after fragment_ops undo_dims (None, 0) (map fst a)"
    using at unfolding undo_at_def by blast+
  then have ps: "ps = a @ b @ x # r" by (simp add: undo_built_def)
  have ok: "list_all piece_ok ps" "ids_ok ps" using base by (simp_all add: edit_base_def pieces_ok_def)
  then have a: "list_all piece_ok a" "list_all piece_ok b" using ps by simp_all
  have "splits_off undo_dims (id_target (frag_id (fst x))) Left (cursor_position (us_old st)) b (x # r)"
  proof (rule splits_off_id)
    show "\<forall>i. fst (cursor_position (us_old st)) = Some i \<longrightarrow> i < frag_id (fst x)"
      unfolding pos pos_after_undo [OF a(1)] using ok(2) ps by auto
  qed (use ok ps in \<open>auto simp: less_imp_le\<close>)
  from slice_pieces [OF c base this a(2)] obtain t c' where
    t: "slice fragment_ops undo_dims (id_target (frag_id (fst x))) Left (us_old st) = Some (t, c')" "fragment_tree.good t" "items t = map fst b"
      "cursor_ok root c' (map fst (x # r))" "did_seek c'"
      "cursor_position c' = pos_after fragment_ops undo_dims (cursor_position (us_old st)) (map fst b)" by blast
  have "undo_built ps upd (st\<lparr>us_old := c'\<rparr>) a (b @ x # r)" using built by simp
  from append_preceding_built [OF this ok(1) keep t(2,3)] obtain st1 where
    1: "append_preceding t (st\<lparr>us_old := c'\<rparr>) = Some st1" "undo_built ps upd st1 (a @ b) (x # r)" "us_old st1 = c'" by auto
  have at1: "undo_at root ps upd st1 (a @ b) (x # r)" using 1(2,3) t(4,6) pos by (simp add: undo_at_def)
  have i: "item (us_old st1) = Some (Some (fst x))" using cursor_item_ok [OF t(4,5)] 1(3) by (simp add: list_first_def)
  from undo_fragment_ok [OF at1 _ base m upd] t(5) 1(3) obtain st' where
    "undo_fragment undo m (fst x) st1 = Some st'" "undo_at root ps upd st' ((a @ b) @ [x]) r" by blast
  then show ?thesis using t(1) 1(1) i by (simp add: undo_step_def)
qed

lemma undo_loop_ok:
  assumes base: "edit_base root ps" and m: "undo_map_ok m"
  shows "undo_at root ps (reshow_in undo m I) st a r \<Longrightarrow> sorted_wrt (<) fids
    \<Longrightarrow> set fids = {i \<in> I. \<exists>x \<in> set r. frag_id (fst x) = i}
    \<Longrightarrow> \<exists>st' b r'. undo_loop undo m fids st = Some st' \<and> undo_at root ps (reshow_in undo m I) st' (a @ b) r' \<and> r = b @ r'
      \<and> (\<forall>x \<in> set r'. frag_id (fst x) \<notin> I)"
proof (induction fids arbitrary: st a r)
  case Nil
  then show ?case by (intro exI [of _ st] exI [of _ "[]"] exI [of _ r]) auto
next
  case (Cons i fids)
  have ids: "ids_ok r" using base Cons.prems(1) by (simp add: edit_base_def pieces_ok_def undo_at_def undo_built_def)
  have "i \<in> {i \<in> I. \<exists>x \<in> set r. frag_id (fst x) = i}" using Cons.prems(3) by (metis list.set_intros(1))
  then obtain x where x: "x \<in> set r" "frag_id (fst x) = i" "i \<in> I" by blast
  then obtain b r1 where r: "r = b @ x # r1" by (meson split_list)
  have lt: "frag_id (fst z) < i" if "z \<in> set b" for z using ids that r x(2) by auto
  have gt: "i < frag_id (fst z)" if "z \<in> set r1" for z using ids that r x(2) by auto
  have keep: "reshow_in undo m I z = z" if "z \<in> set b" for z
  proof -
    have "frag_id (fst z) \<notin> set (i # fids)" using lt [OF that] Cons.prems(2) by auto
    then have "frag_id (fst z) \<notin> I" using Cons.prems(3) that r by auto
    then show ?thesis by (simp add: reshow_in_def)
  qed
  have upd: "reshow_in undo m I x = reshow undo m x" using x by (simp add: reshow_in_def)
  have ok: "piece_ok z \<Longrightarrow> piece_ok (reshow_in undo m I z)" for z by (simp add: reshow_in_def)
  from undo_step_ok [OF Cons.prems(1) [unfolded r] base m keep upd ok] x(2) obtain st1 where
    st1: "undo_step undo m i st = Some st1" "undo_at root ps (reshow_in undo m I) st1 (a @ b @ [x]) r1" by blast
  have "set fids = {i \<in> I. \<exists>x \<in> set r1. frag_id (fst x) = i}"
  proof -
    have fids: "i < j" if "j \<in> set fids" for j using Cons.prems(2) that by simp
    have all: "j \<in> set (i # fids) \<longleftrightarrow> j \<in> I \<and> (\<exists>z \<in> set r. frag_id (fst z) = j)" for j using Cons.prems(3) by blast
    have "j \<in> set fids \<longleftrightarrow> j \<in> I \<and> (\<exists>z \<in> set r1. frag_id (fst z) = j)" for j
    proof
      assume j: "j \<in> set fids"
      then obtain z where z: "j \<in> I" "z \<in> set r" "frag_id (fst z) = j" using all [of j] by auto
      then have "z \<notin> set b" "z \<noteq> x" using lt [of z] fids [OF j] x(2) by auto
      then show "j \<in> I \<and> (\<exists>z \<in> set r1. frag_id (fst z) = j)" using z r by auto
    next
      assume j: "j \<in> I \<and> (\<exists>z \<in> set r1. frag_id (fst z) = j)"
      then have "j \<in> set (i # fids)" "i < j" using all [of j] gt r by auto
      then show "j \<in> set fids" by auto
    qed
    then show ?thesis by blast
  qed
  from Cons.IH [OF st1(2) _ this] Cons.prems(2) obtain st' b' r' where
    "undo_loop undo m fids st1 = Some st'" "undo_at root ps (reshow_in undo m I) st' ((a @ b @ [x]) @ b') r'" "r1 = b' @ r'"
      "\<forall>x \<in> set r'. frag_id (fst x) \<notin> I" by auto
  then show ?case using st1(1) r by (intro exI [of _ st'] exI [of _ "b @ x # b'"] exI [of _ r']) auto
qed

section \<open>What stays the same\<close>

text \<open>Everything of a cell but its visibility and the undo operations it has seen.\<close>

definition cell_origin :: "cell \<Rightarrow> lamport \<times> nat \<times> lamport list \<times> char" where
  "cell_origin c = (c_timestamp c, c_offset c, c_deletions c, c_byte c)"

definition cell_shown :: "undo_map \<Rightarrow> cell \<Rightarrow> bool" where
  "cell_shown m c \<longleftrightarrow> \<not> undone m (c_timestamp c) \<and> (\<forall>d \<in> set (c_deletions c). undone m d)"

text \<open>The fragments of a snapshot show what its undo map prescribes.\<close>

definition prescribed :: "undo_map \<Rightarrow> piece list \<Rightarrow> bool" where
  "prescribed m ps \<longleftrightarrow> (\<forall>c \<in> set (cells ps). c_visible c = cell_shown m c)"

lemma cell_origin_eq:
  "cell_origin c = cell_origin c' \<longleftrightarrow> c_timestamp c = c_timestamp c' \<and> c_offset c = c_offset c' \<and> c_deletions c = c_deletions c' \<and> c_byte c = c_byte c'"
  by (simp add: cell_origin_def)

lemma cell_shown_origin: "cell_origin c = cell_origin c' \<Longrightarrow> cell_shown m c = cell_shown m c'"
  by (simp add: cell_origin_def cell_shown_def)

lemma piece_nonempty: "list_all piece_ok ps \<Longrightarrow> x \<in> set ps \<Longrightarrow> 0 < length (snd x)"
  unfolding list_all_iff piece_ok_def length_greater_0_conv by blast

lemma cell_shown_mk [simp]: "cell_shown m (mk_cell f i b) = visible_in m f" "c_visible (mk_cell f i b) = frag_visible f"
  by (simp_all add: mk_cell_def cell_shown_def visible_in_def)

lemma prescribed_pieces:
  assumes "list_all piece_ok ps"
  shows "prescribed m ps \<longleftrightarrow> (\<forall>x \<in> set ps. frag_visible (fst x) = visible_in m (fst x))"
proof
  assume p: "prescribed m ps"
  show "\<forall>x \<in> set ps. frag_visible (fst x) = visible_in m (fst x)"
  proof
    fix x assume x: "x \<in> set ps"
    then have "mk_cell (fst x) 0 (snd x ! 0) \<in> set (cells ps)" using piece_nonempty [OF assms x] set_cells by blast
    then have "c_visible (mk_cell (fst x) 0 (snd x ! 0)) = cell_shown m (mk_cell (fst x) 0 (snd x ! 0))" using p by (simp only: prescribed_def)
    then show "frag_visible (fst x) = visible_in m (fst x)" by simp
  qed
next
  assume "\<forall>x \<in> set ps. frag_visible (fst x) = visible_in m (fst x)"
  then show "prescribed m ps" using cell_shown_mk unfolding prescribed_def Ball_def set_cells by metis
qed

lemma reshow_in_fields [simp]: "snd (reshow_in undo m I x) = snd x" "frag_id (fst (reshow_in undo m I x)) = frag_id (fst x)"
  "frag_timestamp (fst (reshow_in undo m I x)) = frag_timestamp (fst x)" "frag_deletions (fst (reshow_in undo m I x)) = frag_deletions (fst x)"
  "frag_insertion_offset (fst (reshow_in undo m I x)) = frag_insertion_offset (fst x)"
  "visible_in m' (fst (reshow_in undo m I x)) = visible_in m' (fst x)" "frag_key (fst (reshow_in undo m I x)) = frag_key (fst x)"
  "insertion_fragment_new (fst (reshow_in undo m I x)) = insertion_fragment_new (fst x)"
  by (simp_all add: reshow_in_def visible_in_def insertion_fragment_new_def)

lemma piece_ok_reshow_in [simp]: "piece_ok x \<Longrightarrow> piece_ok (reshow_in undo m I x)"
  by (simp add: reshow_in_def)

lemma reshown_cells: "map cell_origin (cells (map (reshow_in undo m I) ps)) = map cell_origin (cells ps)"
proof -
  have "map cell_origin (piece_cells (reshow_in undo m I x)) = map cell_origin (piece_cells x)" for x
    by (rule nth_equalityI) (simp_all add: nth_piece_cells cell_origin_def mk_cell_def)
  then show ?thesis by (induction ps) (simp_all add: cells_def)
qed

lemma same_cells_keys:
  assumes "map cell_origin cs = map cell_origin cs'"
  shows "map cell_key cs = map cell_key cs'"
proof -
  have "cell_key c = (\<lambda>(t, i, _). (t, i)) (cell_origin c)" for c by (simp add: cell_key_def cell_origin_def)
  then show ?thesis using assms by (metis (mono_tags, lifting) map_map map_eq_conv comp_apply)
qed

lemma reshown_pieces_ok:
  assumes "pieces_ok ps"
  shows "pieces_ok (map (reshow_in undo m I) ps)"
proof -
  have "map (frag_id \<circ> fst) (map (reshow_in undo m I) ps) = map (frag_id \<circ> fst) ps" by simp
  moreover have "id_ok (reshow_in undo m I x) = id_ok x" for x by (simp add: id_ok_def)
  ultimately show ?thesis using assms same_cells_keys [OF reshown_cells, of undo m I ps]
    unfolding pieces_ok_def ids_ok_def by (simp add: list_all_iff del: map_map)
qed

lemma covers_origin: "cell_origin c = cell_origin c' \<Longrightarrow> covers sl d c = covers sl d c'"
  by (simp add: covers_def cell_origin_def)

lemma slices_ok_origin:
  assumes "slices_ok sl ps" "map cell_origin (cells ps') = map cell_origin (cells ps)"
  shows "slices_ok sl ps'"
proof -
  have "\<exists>b \<in> set (cells ps). cell_origin b = cell_origin c" if "c \<in> set (cells ps')" for c
    using assms(2) that by (metis image_iff image_set)
  then show ?thesis using assms(1) covers_origin unfolding slices_ok_def cell_origin_eq by metis
qed

lemma reshown_index_ok: "index_ok ins ps \<Longrightarrow> index_ok ins (map (reshow_in undo m I) ps)"
  by (simp add: index_ok_def image_image)

section \<open>The whole operation\<close>

text \<open>The slices of the snapshot record every fragment the undone edits inserted or deleted, the base
  text apart.\<close>

lemma affected_recorded:
  assumes "slices_ok sl ps" "list_all piece_ok ps" "x \<in> set ps" "affects ds (fst x)" "base_timestamp \<notin> ds"
  shows "recorded (slice_set sl) ds (fst x)"
proof -
  let ?c = "mk_cell (fst x) 0 (snd x ! 0)"
  have "0 < length (snd x)" using piece_nonempty [OF assms(2,3)] .
  then have c: "?c \<in> set (cells ps)" using assms(3) by (auto simp: set_cells)
  obtain d where d: "d \<in> ds" "d = frag_timestamp (fst x) \<or> d \<in> set (frag_deletions (fst x))" using assms(4) by (auto simp: affects_def)
  then have "covers (slice_set sl) d ?c" using assms(1,5) c by (auto simp: slices_ok_def mk_cell_def)
  then show ?thesis using d(1) by (auto simp: covers_def recorded_def in_slice_def frag_key_def mk_cell_def word_le_nat_alt word_less_nat_alt)
qed

lemma snapshot_ok_undo_map: "snapshot_ok (s\<lparr>undo_map := m\<rparr>) ps = snapshot_ok s ps"
  by (simp add: snapshot_ok_def)

lemma apply_undo_start:
  assumes "edit_base (fragments s) ps" "visible_text s = vis ps" "deleted_text s = del ps"
  shows "undo_at (fragments s) ps upd \<lparr>us_old = cursor_new undo_dims (fragments s), us_new = tree_new fragment_ops,
      us_ropes = rope_builder_new (visible_text s) (deleted_text s), us_patch = patch_empty\<rparr> [] ps"
proof -
  have "cursor_ok (fragments s) (cursor_new undo_dims (fragments s)) (map fst ps)"
    using cursor_new_ok [of "fragments s" undo_dims] edit_base_root(3) [OF assms(1)] by simp
  moreover have "fragment_tree.good (tree_new fragment_ops) \<and> items (tree_new fragment_ops) = []"
    by (simp add: tree_new_def sum_summaries_def)
  ultimately show ?thesis using assms
    by (simp add: undo_at_def undo_built_def cursor_new_def ropes_undo_pass rope_builder_new_def mk_rb_def patch_empty_def)
qed

lemma apply_undo_finish:
  assumes at: "undo_at root ps upd st a r" and base: "edit_base root ps" and keep: "\<And>x. x \<in> set r \<Longrightarrow> upd x = x"
  shows "\<exists>t c st'. Cursor.suffix fragment_ops undo_dims (us_old st) = Some (t, c) \<and> append_preceding t st = Some st'
    \<and> fragment_tree.good (us_new st') \<and> items (us_new st') = map fst (map upd ps)
    \<and> rb_finish (us_ropes st') = Some (vis (map upd ps), del (map upd ps))
    \<and> patch_upto (us_patch st') (vis ps) (vis (map upd ps))"
proof -
  note root = edit_base_root [OF base]
  have c: "cursor_ok root (us_old st) (map fst r)" and ps: "ps = a @ r" using at unfolding undo_at_def undo_built_def by blast+
  have "list_all fragment_ok (map fst r)" using root(4) ps by (intro fragment_ok_pieces) simp
  from max_id_visible_seek.suffix_ok [OF c root(1,2) this] obtain t c' where
    t: "Cursor.suffix fragment_ops undo_dims (us_old st) = Some (t, c')" "fragment_tree.good t" "items t = map fst r" by blast
  have built: "undo_built ps upd st a (r @ [])" using at by (simp add: undo_at_def)
  from append_preceding_built [OF built root(4) keep t(2,3)] ps obtain st' where
    st': "append_preceding t st = Some st'" "undo_built ps upd st' ps []" by auto
  moreover have "rb_finish (ropes_of ps (undo_pass ps [] (map upd ps))) = Some (vis (map upd ps), del (map upd ps))"
    by (simp add: rb_finish_def rope_cursor_suffix_def rope_cursor_slice_def ropes_undo_pass mk_rb_def is_char_boundary_def)
  ultimately show ?thesis using t(1) by (auto simp: undo_built_def)
qed

text \<open>Applying an undo operation never fails; afterwards every cell shows what the undo map prescribes, and
  nothing else of it has changed.\<close>

lemma apply_undo_ok:
  assumes s: "snapshot_ok s ps" "heights_ok s" "undo_wf (undo_map s)" "prescribed (undo_map s) ps"
    and undo: "distinct (map fst (undo_counts undo))" "undo_timestamp undo \<noteq> lamport_MIN" "base_timestamp \<notin> fst ` set (undo_counts undo)"
    and m: "undo_map_insert undo (undo_map s) = Some m" "height m < STACK_CAPACITY"
  shows "\<exists>p s' ps'. apply_undo undo s = Some (p, s') \<and> undo_map s' = m \<and> undo_wf m \<and> snapshot_ok s' ps' \<and> prescribed m ps'
    \<and> map cell_origin (cells ps') = map cell_origin (cells ps) \<and> patch_upto p (visible_text s) (visible_text s')"
proof -
  let ?s = "s\<lparr>undo_map := m\<rparr>" and ?ids = "map fst (undo_counts undo)"
  have wf: "undo_wf m" and abs: "undo_abs m = (\<lambda>edit_id undo_id. if undo_id = undo_timestamp undo
        then (case map_of (undo_counts undo) edit_id of Some n \<Rightarrow> Some n | None \<Rightarrow> undo_abs (undo_map s) edit_id undo_id)
        else undo_abs (undo_map s) edit_id undo_id)"
    using undo_map_insert_ok [OF s(3) _ undo(1,2)] m(1) s(2) by (auto simp: heights_ok_def)
  have ok: "snapshot_ok ?s ps" "heights_ok ?s" using s(1,2) m(2) by (simp_all add: snapshot_ok_undo_map heights_ok_def)
  have base: "edit_base (fragments ?s) ps" using snapshot_base [OF ok] .
  have parts: "pieces_ok ps" "slices_ok (insertion_slices s) ps" "index_ok (insertions s) ps" "visible_text ?s = vis ps" "deleted_text ?s = del ps"
      "\<forall>x \<in> set ps. frag_timestamp (fst x) \<noteq> lamport_MIN"
    using s(1) by (simp_all add: snapshot_ok_def)
  have pok: "list_all piece_ok ps" using parts(1) by (simp add: pieces_ok_def)
  define I where "I = (frag_id \<circ> fst) ` {x \<in> set ps. recorded (slice_set (insertion_slices s)) (set ?ids) (fst x)}"
  let ?upd = "reshow_in undo m I"
  from fragment_ids_for_edits_ok [OF ok, of ?ids] obtain fids where
    fids: "fragment_ids_for_edits ?s ?ids = Some fids" "sorted_wrt (<) fids" "set fids = I" by (auto simp: I_def)
  have I: "set fids = {i \<in> I. \<exists>x \<in> set ps. frag_id (fst x) = i}" unfolding fids(3) by (auto simp: I_def)
  have mok: "undo_map_ok m" using wf m(2) by (simp add: undo_map_ok_def)
  from undo_loop_ok [OF base mok apply_undo_start [OF base parts(4,5)] fids(2) I] obtain st b r where
    loop: "undo_loop undo m fids \<lparr>us_old = cursor_new undo_dims (fragments ?s), us_new = tree_new fragment_ops,
      us_ropes = rope_builder_new (visible_text ?s) (deleted_text ?s), us_patch = patch_empty\<rparr> = Some st"
      "undo_at (fragments ?s) ps ?upd st ([] @ b) r" "\<forall>x \<in> set r. frag_id (fst x) \<notin> I" by blast
  have keep: "?upd x = x" if "x \<in> set r" for x using loop(3) that by (simp add: reshow_in_def)
  from apply_undo_finish [OF loop(2) base keep] obtain t c st' where
    fin: "Cursor.suffix fragment_ops undo_dims (us_old st) = Some (t, c)" "append_preceding t st = Some st'"
      "fragment_tree.good (us_new st')" "items (us_new st') = map fst (map ?upd ps)"
      "rb_finish (us_ropes st') = Some (vis (map ?upd ps), del (map ?upd ps))"
      "patch_upto (us_patch st') (vis ps) (vis (map ?upd ps))" by blast
  let ?s' = "?s\<lparr>fragments := us_new st', visible_text := vis (map ?upd ps), deleted_text := del (map ?upd ps)\<rparr>"
  have "apply_undo undo s = Some (us_patch st', ?s')"
    using m(1) fids(1) loop(1) fin(1,2,5) by (simp add: apply_undo_def Let_def)
  moreover have "snapshot_ok ?s' (map ?upd ps)"
    using fin(3,4) reshown_pieces_ok [OF parts(1)] reshown_index_ok [OF parts(3)] slices_ok_origin [OF parts(2) reshown_cells] parts(6)
    by (simp add: snapshot_ok_def)
  moreover have "prescribed m (map ?upd ps)"
  proof -
    have "frag_visible (fst (?upd x)) = visible_in m (fst x)" if x: "x \<in> set ps" for x
    proof (cases "frag_id (fst x) \<in> I")
      case False
      then have "\<not> recorded (slice_set (insertion_slices s)) (set ?ids) (fst x)" using x by (auto simp: I_def)
      then have "\<not> affects (fst ` set (undo_counts undo)) (fst x)" using affected_recorded [OF parts(2) pok x] undo(3) by auto
      then have "visible_in m (fst x) = visible_in (undo_map s) (fst x)" by (rule visible_in_unaffected [OF s(3) wf abs])
      then show ?thesis using False s(4) x prescribed_pieces [OF pok] by (simp add: reshow_in_def)
    qed (simp add: reshow_in_def)
    moreover have "list_all piece_ok (map ?upd ps)" using pok by (simp add: list_all_iff)
    ultimately show ?thesis by (simp add: prescribed_pieces)
  qed
  ultimately show ?thesis
    using reshown_cells [of undo m I ps] fin(6) parts(4) wf
    by (intro exI [of _ "us_patch st'"] exI [of _ ?s'] exI [of _ "map ?upd ps"]) simp
qed

section \<open>The text that is shown\<close>

text \<open>The visible text is a function of the cells and the undo map alone.\<close>

definition shown_text :: "undo_map \<Rightarrow> cell list \<Rightarrow> rope" where
  "shown_text m cs = map c_byte (filter (cell_shown m) cs)"

lemma prescribed_text: "snapshot_ok s ps \<Longrightarrow> prescribed m ps \<Longrightarrow> visible_text s = shown_text m (cells ps)"
  by (simp add: snapshot_ok_def prescribed_def shown_text_def vis_cells cong: filter_cong)

lemma shown_text_cong:
  assumes "map cell_origin cs = map cell_origin cs'" "\<And>d. undone m d = undone m' d"
  shows "shown_text m cs = shown_text m' cs'"
proof -
  have "shown_text n cs = map (\<lambda>(_, _, _, b). b) (filter (\<lambda>(t, _, ds, _). \<not> undone n t \<and> (\<forall>d \<in> set ds. undone n d)) (map cell_origin cs))" for n cs
    by (simp add: shown_text_def filter_map comp_def cell_origin_def cell_shown_def [abs_def] Ball_def)
  then show ?thesis using assms by simp
qed

lemma undone_new [simp]: "\<not> undone (tree_new undo_ops) d"
  by (simp add: undone_def edit_counts_def tree_new_def max_count_def)

lemma undo_wf_new [simp]: "undo_wf (tree_new undo_ops)"
  by (simp add: undo_wf_def tree_new_def sum_summaries_def)

end
