(* ===== verification/Buffer.thy ===== *)
theory Buffer
  imports LocalEdit_Correct UndoEdit_Correct
begin

text \<open>
  \<^verbatim>\<open>Buffer\<close> of \<^verbatim>\<open>crates/text/src/text.rs\<close>: a snapshot with its history, clock, subscribers and the
  operations that wait for others.
\<close>

section \<open>New buffers\<close>

text \<open>The loop of \<^verbatim>\<open>new_normalized\<close> that cuts a long text into fragments.\<close>

function push_base_fragments ::
  "rope \<Rightarrow> lamport \<Rightarrow> nat \<Rightarrow> 32 word \<Rightarrow> locator \<Rightarrow> fragment_tree \<Rightarrow> insertion_tree
    \<Rightarrow> (fragment_tree \<times> insertion_tree) option" where
  "push_base_fragments text ts text_offset offset prev frags ins =
     (if text_offset < length text then
        (let chunk_end = next_chunk_end text text_offset in
         if chunk_end \<le> text_offset then None
         else
           (let chunk_len = chunk_end - text_offset;
                f = new_fragment (between prev locator_max) ts offset chunk_len
            in do {
              ins \<leftarrow> push insertion_ops ins (insertion_fragment_new f);
              frags \<leftarrow> push fragment_ops frags f;
              push_base_fragments text ts chunk_end (offset + of_nat chunk_len) (frag_id f) frags ins }))
      else Some (frags, ins))"
  by pat_completeness auto
termination
  by (relation "measure (\<lambda>(text, ts, text_offset, offset, prev, frags, ins). length text - text_offset)") auto

declare push_base_fragments.simps [simp del]

definition new_snapshot :: "replica_id \<Rightarrow> 64 word \<Rightarrow> line_ending \<Rightarrow> rope \<Rightarrow> (buffer_snapshot \<times> lamport) option" where
  "new_snapshot rid bid ending text = do {
     let clock = lamport_new rid;
     let ts = lamport_new LOCAL;
     let empty = (tree_new fragment_ops, tree_new insertion_ops);
     (clock, v, frags, ins) \<leftarrow>
       (if text \<noteq> [] then do {
          (frags, ins) \<leftarrow> push_base_fragments text ts 0 0 locator_min (fst empty) (snd empty);
          Some (lamport_observe clock ts, global_observe global_new ts, frags, ins) }
        else Some (clock, global_new, fst empty, snd empty));
     Some (\<lparr>visible_text = text, deleted_text = [], fragments = frags, insertions = ins,
            insertion_slices = tree_map_default, undo_map = tree_new undo_ops, version = v,
            remote_id = bid, replica_id = rid, line_ending = ending\<rparr>, clock)
   }"

section \<open>A new buffer is consistent\<close>

text \<open>The pieces of a new buffer: one for the whole text.\<close>

definition base_pieces :: "rope \<Rightarrow> piece list" where
  "base_pieces text =
     (if text = [] then [] else [(new_fragment (between locator_min locator_max) base_timestamp 0 (length text), text)])"

lemma push_tree_new [simp]: "push ops (tree_new ops) x = Some (Leaf (item_summary ops x) [x] [item_summary ops x])"
  by (simp add: push_def append_tree_def tree_new_def is_empty_def Let_def)

lemma push_base_single:
  fixes ts
  assumes "text \<noteq> []" "length text \<le> MAX_INSERTION_LEN"
  defines "f \<equiv> new_fragment (between locator_min locator_max) ts 0 (length text)"
  shows "push_base_fragments text ts 0 0 locator_min (tree_new fragment_ops) (tree_new insertion_ops) =
    Some (Leaf (fragment_item_summary f) [f] [fragment_item_summary f],
      Leaf (insertion_key (insertion_fragment_new f)) [insertion_fragment_new f] [insertion_key (insertion_fragment_new f)])"
proof -
  have "next_chunk_end text 0 = length text" using assms(2) by (simp add: next_chunk_end_def min_absorb1 Let_def)
  moreover have "push_base_fragments text ts (length text) n l a b = Some (a, b)" for n l a b
    by (subst push_base_fragments.simps) simp
  ultimately show ?thesis using assms(1) by (subst push_base_fragments.simps) (simp add: f_def Let_def fragment_ops_def)
qed

lemma locator_min_less_max: "locator_min < locator_max"
  by (simp add: locator_min_def locator_max_def word_gt_0)

lemma base_pieces_ok:
  assumes "starts_char text" "length text < 2 ^ 32"
  shows "pieces_ok (base_pieces text)"
proof (cases "text = []")
  case False
  let ?x = "(new_fragment (between locator_min locator_max) base_timestamp 0 (length text), text)"
  have "list_all piece_ok [?x]"
    using assms False
    by (simp add: piece_ok_def new_fragment_def fragment_ok_def global_wf_new unat_of_nat_32)
  moreover have "ids_ok [?x]"
    using locator_min_less_max between_greater between_less between_valid locator_valid_max
    by (simp add: id_ok_def new_fragment_def)
  moreover have "distinct (map cell_key (piece_cells ?x))"
  proof -
    have "map cell_key (piece_cells ?x) = map (\<lambda>i. (base_timestamp, i)) [0..<length text]"
      by (rule nth_equalityI) (simp_all add: nth_piece_cells mk_cell_def cell_key_def new_fragment_def)
    then show ?thesis by (simp add: distinct_map inj_on_def)
  qed
  ultimately show ?thesis using False by (simp add: base_pieces_def pieces_ok_def)
qed (simp add: base_pieces_def pieces_ok_def)

lemma new_snapshot_ok:
  assumes "starts_char text" "length text < 2 ^ 32"
  shows "\<exists>s clock. new_snapshot rid bid ending text = Some (s, clock) \<and> snapshot_ok s (base_pieces text) \<and> heights_ok s
    \<and> visible_text s = text \<and> line_ending s = ending"
proof (cases "text = []")
  case True
  then show ?thesis
    by (simp add: new_snapshot_def snapshot_ok_def heights_ok_def base_pieces_def pieces_ok_def index_ok_def slices_ok_def
        tree_new_def sum_summaries_def tree_map_default_def STACK_CAPACITY_def key_sorted_def lookup_key_def map_wf_def dom_def slice_set_def map_abs_def)
next
  case False
  let ?f = "new_fragment (between locator_min locator_max) base_timestamp 0 (length text)"
  have ok: "fragment_ok ?f" by (simp add: new_fragment_def fragment_ok_def global_wf_new)
  have len: "length text \<le> MAX_INSERTION_LEN" using assms(2) by (simp add: MAX_INSERTION_LEN_def)
  have ps: "base_pieces text = [(?f, text)]" using False by (simp add: base_pieces_def)
  have frags: "fragment_tree.good (Leaf (fragment_item_summary ?f) [?f] [fragment_item_summary ?f])"
    using ok fragment_tree.zero_left [OF fragment_tree.item_valid [OF ok]]
    by (simp add: sum_summaries_def TREE_BASE_def)
  have ne: "base_timestamp \<noteq> lamport_MIN" by (simp add: base_timestamp_def lamport_new_def lamport_MIN_def)
  let ?i = "insertion_fragment_new ?f"
  have "index_ok (Leaf (insertion_key ?i) [?i] [insertion_key ?i]) [(?f, text)]"
    by (auto simp: index_ok_def sum_summaries_def TREE_BASE_def key_sorted_def lookup_key_def
        insertion_key_def insertion_fragment_new_def frag_key_def split: if_splits)
  moreover have "slices_ok tree_map_default [(?f, text)]"
    by (auto simp: slices_ok_def dom_def slice_set_def map_abs_def lookup_key_def piece_cells_def mk_cell_def new_fragment_def map_wf_def tree_map_default_def tree_new_def sum_summaries_def key_sorted_def)
  moreover define s where "s = \<lparr>visible_text = text, deleted_text = [],
      fragments = Leaf (fragment_item_summary ?f) [?f] [fragment_item_summary ?f],
      insertions = Leaf (insertion_key ?i) [?i] [insertion_key ?i], insertion_slices = tree_map_default,
      undo_map = tree_new undo_ops, version = global_observe global_new base_timestamp,
      remote_id = bid, replica_id = rid, line_ending = ending\<rparr>"
  moreover have "frag_visible ?f" "frag_timestamp ?f = base_timestamp" by (simp_all add: new_fragment_def)
  ultimately have "snapshot_ok s (base_pieces text)"
    using base_pieces_ok [OF assms] frags ne ps unfolding snapshot_ok_def by simp
  moreover have "heights_ok s" by (simp add: s_def heights_ok_def STACK_CAPACITY_def tree_map_default_def tree_new_def)
  moreover have "\<exists>clock. new_snapshot rid bid ending text = Some (s, clock)"
    using False push_base_single [OF False len, of base_timestamp]
    by (simp add: new_snapshot_def s_def Let_def base_timestamp_def)
  moreover have "visible_text s = text" "line_ending s = ending" by (simp_all add: s_def)
  ultimately show ?thesis by blast
qed

lemma fresh_base: "ts \<noteq> base_timestamp \<Longrightarrow> fresh ts (base_pieces text)"
  by (simp add: fresh_def base_pieces_def new_fragment_def)

text \<open>In a new buffer nothing is undone, and all of its text is shown.\<close>

lemma new_snapshot_undo_map: "new_snapshot rid bid ending text = Some (s, clock) \<Longrightarrow> undo_map s = tree_new undo_ops"
  by (auto simp: new_snapshot_def Let_def split: if_splits bind_splits)

lemma base_prescribed: "list_all piece_ok (base_pieces text) \<Longrightarrow> prescribed (tree_new undo_ops) (base_pieces text)"
  by (simp add: prescribed_pieces) (simp add: base_pieces_def new_fragment_def visible_in_def)

lemma new_snapshot_shown:
  assumes "starts_char text" "length text < 2 ^ 32"
  shows "\<exists>s clock. new_snapshot rid bid ending text = Some (s, clock) \<and> snapshot_ok s (base_pieces text) \<and> heights_ok s
    \<and> visible_text s = text \<and> undo_map s = tree_new undo_ops \<and> prescribed (undo_map s) (base_pieces text)"
  using new_snapshot_ok [OF assms, of rid bid ending] new_snapshot_undo_map base_prescribed [of "text"] base_pieces_ok [OF assms]
  by (auto simp: pieces_ok_def)

text \<open>An edit under a timestamp that is not undone keeps what the undo map prescribes.\<close>

lemma prescribed_edited:
  assumes "cells_edited ts dl ps ps'" "prescribed m ps" "\<not> undone m ts"
  shows "prescribed m ps'"
  unfolding prescribed_def
proof
  fix c assume c: "c \<in> set (cells ps')"
  show "c_visible c = cell_shown m c"
  proof (cases "old_cell ts c")
    case True
    then have "c \<in> set (filter (old_cell ts) (cells ps'))" using c by simp
    then have "c \<in> set (marks ts dl 0 (cells ps))" using assms(1) by (simp only: cells_edited_def)
    then obtain b where "b \<in> set (cells ps)" "c = b \<or> c = mark ts b" using marks_origin by blast
    then show ?thesis using assms(2,3) by (auto simp: prescribed_def mark_def cell_shown_def)
  next
    case False
    then have "c \<in> set (filter (\<lambda>c. \<not> old_cell ts c) (cells ps'))" using c by simp
    moreover obtain t where "filter (\<lambda>c. \<not> old_cell ts c) (cells ps') = map (\<lambda>(i, b). new_cell ts i b) (enumerate 0 t)"
      using assms(1) by (auto simp: cells_edited_def)
    ultimately have "c \<in> set (map (\<lambda>(i, b). new_cell ts i b) (enumerate 0 t))" by simp
    then show ?thesis using assms(3) by (auto simp: new_cell_def cell_shown_def)
  qed
qed

end
