(* ===== verification/Replication.thy ===== *)
theory Replication
  imports RemoteEdit_Correct Buffer
begin

text \<open>
  Replicas: the operation of a local edit, applied at another replica with the same bytes, gives the same
  bytes there.
\<close>

section \<open>What a snapshot and its version know\<close>

text \<open>The version of a snapshot has observed everything the snapshot contains.\<close>

definition saw_all :: "buffer_snapshot \<Rightarrow> piece list \<Rightarrow> bool" where
  "saw_all s ps \<longleftrightarrow> (\<forall>c \<in> set (cells ps). observed (version s) (c_timestamp c) \<and> (\<forall>d \<in> set (c_deletions c). observed (version s) d))
     \<and> (\<forall>e \<in> set (items (undo_map s)). observed (version s) (snd (undo_key e)))"

text \<open>A timestamp of the local clock is later than everything the replica has seen.\<close>

definition newest :: "lamport \<Rightarrow> piece list \<Rightarrow> bool" where
  "newest ts ps \<longleftrightarrow> (\<forall>c \<in> set (cells ps). c_timestamp c < ts \<and> (\<forall>d \<in> set (c_deletions c). d < ts))"

text \<open>Statements about the timestamps of pieces are statements about cells.\<close>

lemma all_pieces_cells:
  assumes "list_all piece_ok ps"
  shows "(\<forall>x \<in> set ps. P (frag_timestamp (fst x)) (frag_deletions (fst x))) \<longleftrightarrow> (\<forall>c \<in> set (cells ps). P (c_timestamp c) (c_deletions c))"
proof -
  have "P (frag_timestamp (fst x)) (frag_deletions (fst x)) \<longleftrightarrow> (\<forall>c \<in> set (piece_cells x). P (c_timestamp c) (c_deletions c))"
    if x: "x \<in> set ps" for x
  proof -
    have ne: "snd x \<noteq> []" using x assms by (auto simp: list_all_iff piece_ok_def)
    have "P (c_timestamp c) (c_deletions c) = P (frag_timestamp (fst x)) (frag_deletions (fst x))" if "c \<in> set (piece_cells x)" for c
      using that by (auto simp: piece_cells_def mk_cell_def)
    moreover have "piece_cells x ! 0 \<in> set (piece_cells x)" using ne by (intro nth_mem) simp
    ultimately show ?thesis by blast
  qed
  then show ?thesis by (auto simp: cells_def)
qed

lemma newest_fresh:
  assumes "newest ts ps" "list_all piece_ok ps"
  shows "fresh ts ps" "x \<in> set ps \<Longrightarrow> \<not> ts < frag_timestamp (fst x)"
proof -
  have "\<forall>x \<in> set ps. frag_timestamp (fst x) < ts \<and> (\<forall>d \<in> set (frag_deletions (fst x)). d < ts)"
    using assms(1) unfolding newest_def all_pieces_cells [OF assms(2), where P = "\<lambda>t ds. t < ts \<and> (\<forall>d \<in> set ds. d < ts)"] .
  then show "fresh ts ps" "x \<in> set ps \<Longrightarrow> \<not> ts < frag_timestamp (fst x)" by (force simp: fresh_def)+
qed

lemma counted_cells:
  "list_all piece_ok ps \<Longrightarrow> counted ps \<longleftrightarrow> (\<forall>c \<in> set (cells ps). lamport_value (c_timestamp c) \<noteq> 0)"
  unfolding counted_def by (rule all_pieces_cells [where P = "\<lambda>t _. lamport_value t \<noteq> 0"])

lemma edits_ok_bound: "edits_ok v a es \<Longrightarrow> e \<in> set es \<Longrightarrow> fst (fst e) \<le> length v"
  by (induction v a es rule: edits_ok.induct) auto

section \<open>An operation at the replica that made it and at another one\<close>

lemma undone_at_all:
  assumes "\<forall>e \<in> set (items m). observed v (snd (undo_key e))"
  shows "undone_at m v d = undone m d"
proof -
  have "filter (\<lambda>e. fst (undo_key e) = d \<and> observed v (snd (undo_key e))) (items m) = filter (\<lambda>e. fst (undo_key e) = d \<and> True) (items m)"
    using assms by (intro filter_cong) auto
  then show ?thesis by (simp add: undone_at_def undone_def edit_counts_def)
qed

lemma was_shown_visible:
  assumes "saw_all s ps" "prescribed (undo_map s) ps" "c \<in> set (cells ps)"
  shows "cell_was_shown (undo_map s) (version s) c = c_visible c"
  using assms undone_at_all [of "undo_map s" "version s"]
  by (auto simp: saw_all_def prescribed_def cell_was_shown_def cell_shown_def)

lemma roff_all:
  assumes "\<forall>c \<in> set cs. cell_known v c" "j \<le> length cs"
  shows "roff v cs j = j"
proof -
  have "filter (cell_known v) (take j cs) = take j cs" using assms(1) by (intro filter_True) (auto dest: in_set_takeD)
  then show ?thesis using assms(2) by (simp add: roff_def)
qed

lemma insert_pos_all:
  assumes "\<forall>c \<in> set cs. cell_known v c \<and> c_timestamp c < ts" "a \<le> length cs"
  shows "insert_pos v ts cs a = a"
proof -
  have "roff v cs a = a" using assms by (intro roff_all) auto
  moreover have "anchored v ts cs a"
    using assms by (cases "a = 0") (auto simp: anchored_def intro!: exI [of _ a])
  moreover have "\<not> ts < c_timestamp (cs ! a)" if "a < length cs" using assms(1) that by (meson nth_mem order_less_asym)
  ultimately show ?thesis using insert_pos_anchored [of v ts cs a] by simp
qed

text \<open>The ranges of the operation select the visible cells of the local ranges.\<close>

lemma denoted_range:
  assumes "c_visible (cs ! j)" "j < length cs" "a \<le> length cs" "b \<le> length cs"
  shows "a \<le> j \<and> j < b \<longleftrightarrow> voff cs a \<le> voff cs j \<and> voff cs j < voff cs b"
proof -
  have "a \<le> j \<longleftrightarrow> voff cs a \<le> voff cs j"
    using voff_mono [of a j cs] voff_less [of j a cs] assms by (metis linorder_not_le)
  moreover have "j < b \<longleftrightarrow> voff cs j < voff cs b"
    using voff_mono [of b j cs] voff_less [of j b cs] assms by (metis linorder_not_le)
  ultimately show ?thesis by simp
qed

lemma in_ranges_denote:
  assumes "ranges_denote ps es fr" "c_visible (cells ps ! j)" "j < length (cells ps)" "length ts = length fr"
  shows "in_ranges (zip fr ts) j = in_ranges es (voff (cells ps) j)"
  using assms(1,4) unfolding ranges_denote_def
proof (induction arbitrary: ts rule: list_all2_induct)
  case (Cons e es r fr)
  obtain s d t a b where e: "e = ((s, d), t)" "r = (a, b)" by (metis prod.exhaust)
  then show ?case
    using Cons denoted_range [OF assms(2,3), of a b] by (cases ts) auto
qed simp

lemma replay_cells:
  assumes "saw_all s ps" "prescribed (undo_map s) ps" "newest ts ps" "ranges_denote ps es fr" "length us = length fr"
    and "edits_ok (bytes ps) 0 (zip fr us)"
  shows "remote_cells (version s) (undo_map s) ts (zip fr us) (cells ps)
    = weave ts (deletes ps es) (cells ps) 0 0 (zip (map fst fr) us)"
proof -
  let ?cs = "cells ps"
  have known: "\<forall>c \<in> set ?cs. cell_known (version s) c \<and> c_timestamp c < ts"
    using assms(1,3) by (simp add: saw_all_def newest_def cell_known_def)
  have "remote_deletes (version s) (undo_map s) (zip fr us) ?cs j = deletes ps es j" for j
  proof (cases "j < length ?cs")
    case True
    then have "roff (version s) ?cs j = j" using known by (intro roff_all) auto
    moreover have "cell_was_shown (undo_map s) (version s) (?cs ! j) = c_visible (?cs ! j)"
      using was_shown_visible [OF assms(1,2)] True by simp
    ultimately show ?thesis
      using True in_ranges_denote [OF assms(4) _ True assms(5)] by (auto simp: remote_deletes_def deletes_def)
  qed (simp add: remote_deletes_def deletes_def)
  then have dl: "remote_deletes (version s) (undo_map s) (zip fr us) ?cs = deletes ps es" by blast
  have le: "fst (fst e) \<le> length ?cs" if "e \<in> set (zip fr us)" for e
    using edits_ok_bound [OF assms(6) that] by simp
  have "map (\<lambda>((a, b), t). (insert_pos (version s) ts ?cs a, t)) (zip fr us) = map (\<lambda>((a, b), t). (a, t)) (zip fr us)"
    using insert_pos_all [OF known] le by (intro map_cong) (auto split: prod.splits)
  also have "\<dots> = zip (map fst fr) us" by (simp add: zip_map1 case_prod_unfold)
  finally show ?thesis by (simp add: remote_cells_def remote_weave_def dl)
qed

lemma replay_ok:
  assumes s: "snapshot_ok s ps" "heights_ok s" and m: "undo_map_ok (undo_map s)" "prescribed (undo_map s) ps"
    and saw: "saw_all s ps" and ts: "newest ts ps" "ts \<noteq> lamport_MIN" and cnt: "\<forall>c \<in> set (cells ps). lamport_value (c_timestamp c) \<noteq> 0"
    and ra: "replaces_line_separators ra" and es: "es \<noteq> []" "edits_ok (visible_text s) 0 es" "length (concat (map snd es)) < 2 ^ 32"
    and r: "snapshot_ok r qs" "heights_ok r" "undo_map r = undo_map s" "cells qs = cells ps"
  shows "\<exists>op p s' ps' p' r' qs'. apply_edit_internal ra es ts s = Some (op, p, s') \<and> snapshot_ok s' ps'
    \<and> apply_remote_edit (edit_version op) (edit_ranges op) (edit_new_text op) (edit_timestamp op) r = Some (Some p', r')
    \<and> snapshot_ok r' qs' \<and> cells qs' = cells ps' \<and> visible_text r' = visible_text s'
    \<and> patch_wf p' \<and> same_frame r r' \<and> cells_edited ts (deletes ps es) ps ps'"
proof -
  have ps: "list_all piece_ok ps" and qs: "list_all piece_ok qs"
    using edit_base_root(4) snapshot_base s r(1,2) by blast+
  from apply_edit_internal_ok [OF s newest_fresh(1) [OF ts(1) ps] ts(2) ra es(2,3)] obtain op p s' ps' where
    l: "apply_edit_internal ra es ts s = Some (op, p, s')" "snapshot_ok s' ps'" "edit_timestamp op = ts" "edit_version op = version s"
      "edit_new_text op = map snd (normalized es)" "ranges_denote ps es (edit_ranges op)"
      "edits_ok (bytes ps) 0 (zip (edit_ranges op) (edit_new_text op))"
      "cells ps' = weave ts (deletes ps es) (cells ps) 0 0 (zip (map fst (edit_ranges op)) (edit_new_text op))"
      "cells_edited ts (deletes ps es) ps ps'" by blast
  let ?es = "zip (edit_ranges op) (edit_new_text op)"
  have len: "length (edit_new_text op) = length (edit_ranges op)"
    using l(5,6) by (simp add: ranges_denote_def normalized_def list_all2_lengthD)
  have "newest ts qs" using ts(1) r(4) by (simp add: newest_def)
  note fr = newest_fresh [OF this qs]
  have cnt': "counted qs" using cnt r(4) counted_cells [OF qs] by simp
  have known: "\<forall>c \<in> set (cells qs). cell_known (version s) c" using saw r(4) by (simp add: saw_all_def cell_known_def)
  have "obs (version s) qs = bytes ps" using known r(4) by (simp add: obs_cells filter_True)
  moreover have "length (concat (map snd (normalized es))) \<le> length (concat (map snd es))"
    using length_separators by (induction es) (auto simp: add_mono)
  moreover have zip: "map fst ?es = edit_ranges op" "map snd ?es = edit_new_text op" using len by simp_all
  moreover have "?es \<noteq> []" using len es(1) l(5) by (auto simp: normalized_def zip_eq_Nil_iff)
  moreover have "undo_map_ok (undo_map r)" using m(1) r(3) by simp
  ultimately obtain p' r' qs' where
    q: "apply_remote_edit (version s) (edit_ranges op) (edit_new_text op) ts r = Some (Some p', r')" "snapshot_ok r' qs'"
      "cells qs' = remote_cells (version s) (undo_map s) ts ?es (cells ps)" "patch_wf p'" "same_frame r r'"
    using apply_remote_edit_ok [OF r(1,2) _ fr(1) ts(2) cnt' fr(2), of "version s" ?es] l(5,7) es(3) r(3,4) unfolding zip by auto
  have "cells qs' = cells ps'" using q(3) l(8) replay_cells [OF saw m(2) ts(1) l(6) len l(7)] by simp
  moreover from this have "visible_text r' = visible_text s'" using q(2) l(2) by (simp add: snapshot_ok_def vis_cells)
  moreover have "apply_remote_edit (edit_version op) (edit_ranges op) (edit_new_text op) (edit_timestamp op) r = Some (Some p', r')"
    using q(1) l(3,4) by simp
  ultimately show ?thesis using l(1,2,9) q(2,4,5) by blast
qed

end
