(* ===== verification/Convergence.thy ===== *)
theory Convergence
  imports Replication
begin

text \<open>
  Two concurrent edits commute: whichever arrives first, the bytes end up in the same order, with the same
  deletions and the same visibility.
\<close>

section \<open>Cells with text in the gaps\<close>

text \<open>\<open>g j\<close> stands before the cell with index \<open>j\<close>.\<close>

fun fill :: "(nat \<Rightarrow> cell list) \<Rightarrow> nat \<Rightarrow> cell list \<Rightarrow> cell list" where
  "fill g i [] = g i"
| "fill g i (c # cs) = g i @ c # fill g (Suc i) cs"

lemma fill_empty_append: "(\<And>j. i \<le> j \<Longrightarrow> j < i + length xs \<Longrightarrow> g j = []) \<Longrightarrow> fill g i (xs @ ys) = xs @ fill g (i + length xs) ys"
  by (induction xs arbitrary: i) simp_all

lemma fill_cong: "(\<And>j. i \<le> j \<Longrightarrow> j \<le> i + length cs \<Longrightarrow> g j = h j) \<Longrightarrow> fill g i cs = fill h i cs"
  by (induction cs arbitrary: i) simp_all

lemma fill_first:
  assumes "g i = n @ h i" "\<And>j. i < j \<Longrightarrow> j \<le> i + length cs \<Longrightarrow> g j = h j"
  shows "fill g i cs = n @ fill h i cs"
  using assms by (cases cs) (auto intro: fill_cong)

text \<open>The texts of an edit, by the gap they go to.\<close>

fun blocks :: "lamport \<Rightarrow> nat \<Rightarrow> (nat \<times> char list) list \<Rightarrow> nat \<Rightarrow> cell list" where
  "blocks ts off [] j = []"
| "blocks ts off ((k, t) # ks) j =
     (if j = k then map (\<lambda>(n, c). new_cell ts n c) (enumerate off t) else []) @ blocks ts (off + length t) ks j"

lemma blocks_outside: "j \<notin> fst ` set ks \<Longrightarrow> blocks ts off ks j = []"
  by (induction ts off ks j rule: blocks.induct) auto

lemma blocks_map:
  "inj_on f (insert j (fst ` set ks)) \<Longrightarrow> blocks ts off (map (\<lambda>(k, t). (f k, t)) ks) (f j) = blocks ts off ks j"
proof (induction ks arbitrary: off)
  case (Cons k ks)
  have "inj_on f (insert j (fst ` set ks))" using Cons.prems by (rule inj_on_subset) auto
  moreover have "f j = f (fst k) \<longleftrightarrow> j = fst k" using Cons.prems by (auto simp: inj_on_def)
  ultimately show ?case using Cons.IH by (cases k) simp
qed simp

lemma blocks_timestamp: "c \<in> set (blocks ts off ks j) \<Longrightarrow> c_timestamp c = ts"
  by (induction ts off ks j rule: blocks.induct) (auto simp: new_cell_def split: if_splits)

lemma length_marks [simp]: "length (marks ts dl j cs) = length cs"
  by (induction cs arbitrary: j) simp_all

definition places_ok :: "nat \<Rightarrow> nat \<Rightarrow> (nat \<times> char list) list \<Rightarrow> bool" where
  "places_ok i n ks \<longleftrightarrow> sorted (i # map fst ks) \<and> (\<forall>k \<in> set ks. fst k \<le> n)"

lemma weave_fill:
  "places_ok i (length cs) ks \<Longrightarrow> i \<le> length cs \<Longrightarrow>
    weave ts dl cs i off ks = fill (blocks ts off ks) i (marks ts dl i (drop i cs))"
proof (induction ts dl cs i off ks rule: weave.induct)
  case (1 ts dl cs i off)
  have "fill (\<lambda>j. []) i ds = ds" for ds :: "cell list" by (induction ds arbitrary: i) simp_all
  then show ?case by (simp add: fill_cong [of i _ "blocks ts off []" "\<lambda>j. []"])
next
  case (2 ts dl cs i off k t ks)
  let ?n = "map (\<lambda>(n, c). new_cell ts n c) (enumerate off t)" and ?h = "blocks ts (off + length t) ks"
  let ?g = "blocks ts off ((k, t) # ks)"
  have k: "i \<le> k" "k \<le> length cs" "places_ok k (length cs) ks" "\<forall>x \<in> set ks. k \<le> fst x"
    using 2(2) by (auto simp: places_ok_def)
  have "drop i cs = take (k - i) (drop i cs) @ drop k cs" using k(1) append_take_drop_id [of "k - i" "drop i cs"] by simp
  then have "marks ts dl i (drop i cs) = marks ts dl i (take (k - i) (drop i cs)) @ marks ts dl k (drop k cs)"
    using marks_append [of ts dl i "take (k - i) (drop i cs)" "drop k cs"] k(1,2) by simp
  moreover have "length (marks ts dl i (take (k - i) (drop i cs))) = k - i"
    using k(1,2) by simp
  moreover have "?g j = []" if "j < k" for j
    using that k(4) by (intro blocks_outside) auto
  ultimately have "fill ?g i (marks ts dl i (drop i cs))
      = marks ts dl i (take (k - i) (drop i cs)) @ fill ?g k (marks ts dl k (drop k cs))"
    using fill_empty_append [of i "marks ts dl i (take (k - i) (drop i cs))" ?g] k(1) by simp
  also have "fill ?g k (marks ts dl k (drop k cs)) = ?n @ fill ?h k (marks ts dl k (drop k cs))"
    by (rule fill_first) simp_all
  finally show ?case using 2(1) [OF k(3,2)] by simp
qed

section \<open>Positions among filled gaps\<close>

definition prior :: "(nat \<Rightarrow> cell list) \<Rightarrow> cell list \<Rightarrow> nat \<Rightarrow> cell list" where
  "prior g cs j = concat (map (\<lambda>i. g i @ [cs ! i]) [0..<j])"

lemma prior_simps [simp]: "prior g cs 0 = []" "prior g cs (Suc j) = prior g cs j @ g j @ [cs ! j]"
  by (simp_all add: prior_def)

lemma fill_prior: "j \<le> length cs \<Longrightarrow> fill g 0 cs = prior g cs j @ fill g j (drop j cs)"
proof (induction j)
  case (Suc j)
  then have "drop j cs = cs ! j # drop (Suc j) cs" by (simp add: Cons_nth_drop_Suc)
  then show ?case using Suc by simp
qed simp

lemma length_prior_mono: "i < j \<Longrightarrow> length (prior g cs i) + length (g i) < length (prior g cs j)"
proof (induction j)
  case (Suc j)
  then show ?case by (cases "i = j") auto
qed simp

lemma prior_split: "j \<le> p \<Longrightarrow> prior g cs p = prior g cs j @ concat (map (\<lambda>i. g i @ [cs ! i]) [j..<p])"
  using upt_add_eq_append [of 0 j "p - j"] by (simp add: prior_def)

lemma filter_prior:
  assumes "\<And>j c. c \<in> set (g j) \<Longrightarrow> \<not> P c" "j \<le> length cs"
  shows "filter P (prior g cs j) = filter P (take j cs)"
  using assms(2)
proof (induction j)
  case (Suc j)
  moreover have "filter P (g j) = []" using assms(1) by (auto simp: filter_empty_conv)
  ultimately show ?case by (simp add: take_Suc_conv_app_nth)
qed simp

lemma roff_prior:
  assumes "\<And>j c. c \<in> set (g j) \<Longrightarrow> \<not> cell_known v c" "j \<le> length cs"
  shows "roff v (fill g 0 cs) (length (prior g cs j)) = roff v cs j"
  using filter_prior [of g "cell_known v", OF assms] fill_prior [OF assms(2), of g] by (simp add: roff_def)

lemma known_prefix_last: "n \<le> length (filter (cell_known v) cs) \<Longrightarrow> known_prefix v n cs = 0 \<or> cell_known v (cs ! (known_prefix v n cs - 1))"
proof (induction v n cs rule: known_prefix.induct)
  case (3 v n c cs)
  let ?k = "known_prefix v (if cell_known v c then n else Suc n) cs"
  have "(if cell_known v c then n else Suc n) \<le> length (filter (cell_known v) cs)" using 3(2) by (simp split: if_splits)
  then have "?k = 0 \<or> cell_known v (cs ! (?k - 1))" by (rule 3(1))
  moreover have "?k = 0 \<Longrightarrow> cell_known v c"
    using 3(2) known_prefix_roff [of "Suc n" v cs] by (cases "cell_known v c") (auto simp: roff_def)
  ultimately show ?case by (cases ?k) auto
qed simp_all

lemma known_prefix_fill:
  assumes "\<And>j c. c \<in> set (g j) \<Longrightarrow> \<not> cell_known v c" "n \<le> length (filter (cell_known v) cs)"
  shows "known_prefix v n (fill g 0 cs) = length (prior g cs (known_prefix v n cs))"
proof (rule known_prefix_unique)
  let ?j = "known_prefix v n cs"
  have j: "roff v cs ?j = n" "?j \<le> length cs" using known_prefix_roff [OF assms(2)] by simp_all
  show "roff v (fill g 0 cs) (length (prior g cs ?j)) = n" using roff_prior [OF assms(1) j(2)] j(1) by simp
  show "length (prior g cs ?j) \<le> length (fill g 0 cs)" using fill_prior [OF j(2), of g] by simp
  show "length (prior g cs ?j) = 0 \<or> cell_known v (fill g 0 cs ! (length (prior g cs ?j) - 1))"
  proof (cases ?j)
    case (Suc k)
    then have "cell_known v (cs ! k)" using known_prefix_last [OF assms(2)] by simp
    moreover have "fill g 0 cs ! (length (prior g cs ?j) - 1) = cs ! k"
      using fill_prior [OF j(2), of g] Suc by (simp add: nth_append)
    ultimately show ?thesis by simp
  qed simp
qed

definition after_gap :: "(nat \<Rightarrow> cell list) \<Rightarrow> nat \<Rightarrow> cell list \<Rightarrow> cell list" where
  "after_gap g i cs = (case cs of [] \<Rightarrow> [] | c # cs \<Rightarrow> c # fill g (Suc i) cs)"

lemma fill_gap: "fill g i cs = g i @ after_gap g i cs"
  by (cases cs) (simp_all add: after_gap_def)

lemma scan_gaps:
  fixes P
  assumes p: "j \<le> p" "p \<le> length cs" "\<And>i. j \<le> i \<Longrightarrow> i < p \<Longrightarrow> P (cs ! i)" "p < length cs \<Longrightarrow> \<not> P (cs ! p)"
    and g: "\<And>i c. c \<in> set (g i) \<Longrightarrow> P c = b" "\<And>i. \<not> b \<Longrightarrow> j \<le> i \<Longrightarrow> i < p \<Longrightarrow> g i = []"
  shows "length (prior g cs j) + length (takeWhile P (drop (length (prior g cs j)) (fill g 0 cs)))
    = length (prior g cs p) + (if b then length (g p) else 0)"
proof -
  let ?s = "concat (map (\<lambda>i. g i @ [cs ! i]) [j..<p])"
  have "fill g 0 cs = prior g cs j @ ?s @ g p @ after_gap g p (drop p cs)"
    using fill_prior [OF p(2), of g] prior_split [OF p(1), of g cs] by (simp add: fill_gap)
  then have d: "drop (length (prior g cs j)) (fill g 0 cs) = ?s @ g p @ after_gap g p (drop p cs)" by simp
  have s: "\<forall>c \<in> set ?s. P c"
    using p(3) g by (cases b) auto
  have stop: "takeWhile P (after_gap g p (drop p cs)) = []"
    using p(2,4) by (auto simp: after_gap_def split: list.splits) (metis drop_eq_Nil hd_drop_conv_nth linorder_not_le list.discI list.sel(1))
  have t: "takeWhile P (g p @ after_gap g p (drop p cs)) = (if b then g p else [])"
  proof (cases b)
    case False
    then show ?thesis using g(1) [of _ p] stop by (cases "g p") auto
  qed (use g(1) stop in simp)
  have "takeWhile P (?s @ g p @ after_gap g p (drop p cs)) = ?s @ takeWhile P (g p @ after_gap g p (drop p cs))"
    using s by (intro takeWhile_append2) blast
  then show ?thesis using d t prior_split [OF p(1), of g cs] by simp
qed

definition gap_pos :: "(nat \<Rightarrow> cell list) \<Rightarrow> cell list \<Rightarrow> bool \<Rightarrow> nat \<Rightarrow> nat" where
  "gap_pos g cs b p = length (prior g cs p) + (if b then length (g p) else 0)"

lemma insert_pos_fill:
  assumes g: "\<And>j c. c \<in> set (g j) \<Longrightarrow> c_timestamp c = ts1" "\<not> observed v ts1" "ts1 \<noteq> ts"
    and stop: "\<And>j. j < length cs \<Longrightarrow> g j \<noteq> [] \<Longrightarrow> \<not> ts1 < c_timestamp (cs ! j)"
    and n: "n \<le> length (filter (cell_known v) cs)"
  shows "insert_pos v ts (fill g 0 cs) n = gap_pos g cs (ts < ts1) (insert_pos v ts cs n)"
proof -
  let ?P = "\<lambda>c. ts < c_timestamp c" and ?j = "known_prefix v n cs" and ?p = "insert_pos v ts cs n"
  have unk: "\<not> cell_known v c" if "c \<in> set (g j)" for j c using that g by (simp add: cell_known_def)
  have j: "?j \<le> length cs" using known_prefix_roff [OF n] by simp
  have p: "?p = ?j + length (takeWhile ?P (drop ?j cs))" by (simp add: insert_pos_def Let_def)
  have le: "?p \<le> length cs" using p j length_takeWhile_le [of ?P "drop ?j cs"] by simp
  have before: "?P (cs ! i)" if "?j \<le> i" "i < ?p" for i
    using nth_mem [of "i - ?j" "takeWhile ?P (drop ?j cs)"] set_takeWhileD that p j takeWhile_nth [of "i - ?j" ?P "drop ?j cs"] by fastforce
  have at: "\<not> ?P (cs ! ?p)" if "?p < length cs"
    using nth_length_takeWhile [of ?P "drop ?j cs"] that p j by simp
  have "length (prior g cs ?j) + length (takeWhile ?P (drop (length (prior g cs ?j)) (fill g 0 cs)))
    = length (prior g cs ?p) + (if ts < ts1 then length (g ?p) else 0)"
  proof (rule scan_gaps [where P = ?P, OF _ le before at])
    show "?j \<le> ?p" using p by simp
    show "?P c = (ts < ts1)" if "c \<in> set (g i)" for i c using g(1) [OF that] by simp
    show "g i = []" if "\<not> ts < ts1" "?j \<le> i" "i < ?p" for i
    proof (rule ccontr)
      assume "g i \<noteq> []"
      then have "\<not> ts1 < c_timestamp (cs ! i)" using stop [of i] that(3) le by simp
      moreover have "ts < c_timestamp (cs ! i)" using before that by simp
      ultimately show False using that(1) by simp
    qed
  qed
  moreover have "known_prefix v n (fill g 0 cs) = length (prior g cs ?j)" by (rule known_prefix_fill [OF unk n])
  ultimately show ?thesis by (simp add: insert_pos_def [of v ts "fill g 0 cs"] gap_pos_def Let_def)
qed

section \<open>Filling twice\<close>

lemma gap_pos_mono: "i < j \<Longrightarrow> gap_pos g cs b i < gap_pos g cs b j"
  using length_prior_mono [of i j g cs] by (auto simp: gap_pos_def)

lemma gap_pos_inj: "inj (gap_pos g cs b)"
  by (rule injI) (metis gap_pos_mono linorder_neqE_nat nat_neq_iff)

lemma fill_one_gap:
  assumes "\<And>y. x \<le> y \<Longrightarrow> y \<le> x + length xs \<Longrightarrow> h y = (if y = x + (if b then length xs else 0) then t else [])"
  shows "fill h x (xs @ c # ys) = (if b then xs @ t else t @ xs) @ c # fill h (Suc (x + length xs)) ys"
    and "fill h x xs = (if b then xs @ t else t @ xs)"
proof -
  have "fill h x (xs @ zs) = (if b then xs @ t else t @ xs) @ after_gap h (x + length xs) zs" for zs
  proof (cases b)
    case True
    then have "fill h x (xs @ zs) = xs @ fill h (x + length xs) zs" using assms by (intro fill_empty_append) simp
    then show ?thesis using True assms [of "x + length xs"] by (simp add: fill_gap)
  next
    case False
    then have t: "h x = t" using assms [of x] by simp
    show ?thesis
    proof (cases xs)
      case Nil
      then show ?thesis using False t by (simp add: fill_gap)
    next
      case (Cons z zs')
      have "fill h (Suc x) (zs' @ zs) = zs' @ fill h (x + length xs) zs"
        using fill_empty_append [of "Suc x" zs' h zs] assms False Cons by simp
      moreover have "h (x + length xs) = []" using assms [of "x + length xs"] False Cons by simp
      ultimately show ?thesis using False t Cons by (simp add: fill_gap [of h "Suc (x + length zs')" zs])
    qed
  qed
  from this [of "c # ys"] this [of "[]"]
  show "fill h x (xs @ c # ys) = (if b then xs @ t else t @ xs) @ c # fill h (Suc (x + length xs)) ys"
    "fill h x xs = (if b then xs @ t else t @ xs)" by (simp_all add: after_gap_def)
qed

lemma gap_pos_only:
  assumes "length (prior g cs i) \<le> y" "y \<le> length (prior g cs i) + length (g i)" "y = gap_pos g cs b j"
  shows "j = i"
proof (cases i j rule: linorder_cases)
  case less
  then show ?thesis using length_prior_mono [OF less, of g cs] assms by (simp add: gap_pos_def)
next
  case greater
  then show ?thesis using length_prior_mono [OF greater, of g cs] assms by (simp add: gap_pos_def split: if_splits)
qed simp

lemma gap_values:
  assumes "h' (gap_pos g cs b i) = h i" "\<And>y. y \<notin> gap_pos g cs b ` {..length cs} \<Longrightarrow> h' y = []"
    and "length (prior g cs i) \<le> y" "y \<le> length (prior g cs i) + length (g i)"
  shows "h' y = (if y = length (prior g cs i) + (if b then length (g i) else 0) then h i else [])"
proof (cases "y = gap_pos g cs b i")
  case True
  then show ?thesis using assms(1) by (simp add: gap_pos_def)
next
  case False
  then have "h' y = []" using assms(2) gap_pos_only [OF assms(3,4)] by blast
  then show ?thesis using False by (simp add: gap_pos_def)
qed

lemma fill_fill:
  assumes "\<And>j. i \<le> j \<Longrightarrow> j \<le> length cs \<Longrightarrow> h' (gap_pos g cs b j) = h j" "\<And>y. y \<notin> gap_pos g cs b ` {..length cs} \<Longrightarrow> h' y = []"
    and "i \<le> length cs"
  shows "fill h' (length (prior g cs i)) (fill g i (drop i cs)) = fill (\<lambda>j. if b then g j @ h j else h j @ g j) i (drop i cs)"
  using assms(1,3)
proof (induction "length cs - i" arbitrary: i)
  case (0 i)
  then have i: "i = length cs" by simp
  have "h' (gap_pos g cs b i) = h i" using 0(2) [of i] i by simp
  from fill_one_gap(2) [OF gap_values [where h' = h' and h = h, OF this assms(2)]] i show ?case by simp
next
  case (Suc n i)
  then have i: "i < length cs" "drop i cs = cs ! i # drop (Suc i) cs" by (simp_all add: Cons_nth_drop_Suc)
  have "h' (gap_pos g cs b i) = h i" using Suc(3) [of i] i by simp
  from fill_one_gap(1) [OF gap_values [where h' = h' and h = h, OF this assms(2)], of "cs ! i" "fill g (Suc i) (drop (Suc i) cs)"] i(2)
  have "fill h' (length (prior g cs i)) (fill g i (drop i cs))
      = (if b then g i @ h i else h i @ g i) @ cs ! i # fill h' (length (prior g cs (Suc i))) (fill g (Suc i) (drop (Suc i) cs))"
    by simp
  also have "fill h' (length (prior g cs (Suc i))) (fill g (Suc i) (drop (Suc i) cs))
      = fill (\<lambda>j. if b then g j @ h j else h j @ g j) (Suc i) (drop (Suc i) cs)"
    using Suc(2,3) i(1) by (intro Suc(1)) simp_all
  finally show ?case using i(2) by simp
qed

lemma marks_fill:
  assumes "\<And>j. i \<le> j \<Longrightarrow> j < length cs \<Longrightarrow> dl' (length (prior g cs j) + length (g j)) = dl j"
    and "\<And>j y. length (prior g cs j) \<le> y \<Longrightarrow> y < length (prior g cs j) + length (g j) \<Longrightarrow> \<not> dl' y" "i \<le> length cs"
  shows "marks ts dl' (length (prior g cs i)) (fill g i (drop i cs)) = fill g i (marks ts dl i (drop i cs))"
  using assms(1,3)
proof (induction "length cs - i" arbitrary: i)
  case (0 i)
  then show ?case using assms(2) by (simp add: marks_none)
next
  case (Suc n i)
  then have i: "i < length cs" "drop i cs = cs ! i # drop (Suc i) cs" by (simp_all add: Cons_nth_drop_Suc)
  have "marks ts dl' (length (prior g cs (Suc i))) (fill g (Suc i) (drop (Suc i) cs)) = fill g (Suc i) (marks ts dl (Suc i) (drop (Suc i) cs))"
    using Suc by (intro Suc(1)) auto
  moreover have "marks ts dl' (length (prior g cs i)) (g i) = g i" using assms(2) by (intro marks_none) auto
  ultimately show ?case using Suc(3) [of i] i by (simp add: marks_append)
qed

section \<open>One edit as a filling\<close>

definition places :: "global \<Rightarrow> lamport \<Rightarrow> cell list \<Rightarrow> ((nat \<times> nat) \<times> char list) list \<Rightarrow> (nat \<times> char list) list" where
  "places v ts cs es = map (\<lambda>((a, b), t). (insert_pos v ts cs a, t)) es"

text \<open>The ranges are ascending and within the observed cells, and no observed cell is later than the edit.\<close>

fun ranges_ok :: "nat \<Rightarrow> nat \<Rightarrow> ((nat \<times> nat) \<times> 'a) list \<Rightarrow> bool" where
  "ranges_ok a n [] = True"
| "ranges_ok a n (((s, e), t) # es) \<longleftrightarrow> a \<le> s \<and> s \<le> e \<and> e \<le> n \<and> ranges_ok e n es"

definition edit_fits :: "global \<Rightarrow> lamport \<Rightarrow> ((nat \<times> nat) \<times> char list) list \<Rightarrow> cell list \<Rightarrow> bool" where
  "edit_fits v ts es cs \<longleftrightarrow> ranges_ok 0 (length (filter (cell_known v) cs)) es
     \<and> (\<forall>c \<in> set cs. cell_known v c \<longrightarrow> \<not> ts < c_timestamp c)"

lemma ranges_ok_bound: "ranges_ok a n es \<Longrightarrow> e \<in> set es \<Longrightarrow> fst (fst e) \<le> n"
  by (induction a n es rule: ranges_ok.induct) auto

lemma insert_pos_bounds:
  assumes "n \<le> length (filter (cell_known v) cs)"
  shows "insert_pos v ts cs n \<le> length cs" "insert_pos v ts cs n < length cs \<Longrightarrow> \<not> ts < c_timestamp (cs ! insert_pos v ts cs n)"
proof -
  let ?P = "\<lambda>c. ts < c_timestamp c" and ?j = "known_prefix v n cs"
  have j: "?j \<le> length cs" using known_prefix_roff [OF assms] by simp
  show "insert_pos v ts cs n \<le> length cs"
    using j length_takeWhile_le [of ?P "drop ?j cs"] by (simp add: insert_pos_def Let_def)
  show "\<not> ts < c_timestamp (cs ! insert_pos v ts cs n)" if "insert_pos v ts cs n < length cs"
    using nth_length_takeWhile [of ?P "drop ?j cs"] that j by (simp add: insert_pos_def Let_def)
qed

lemma insert_pos_mono:
  assumes "a \<le> b" "b \<le> length (filter (cell_known v) cs)" "\<forall>c \<in> set cs. cell_known v c \<longrightarrow> \<not> ts < c_timestamp c"
  shows "insert_pos v ts cs a \<le> insert_pos v ts cs b"
proof -
  let ?P = "\<lambda>c. ts < c_timestamp c" and ?j = "known_prefix v a cs"
  let ?n = "length (takeWhile ?P (drop ?j cs))"
  have a: "a \<le> length (filter (cell_known v) cs)" using assms(1,2) by simp
  have j: "roff v cs ?j = a" "?j \<le> length cs" using known_prefix_roff [OF a] by simp_all
  have p: "insert_pos v ts cs a = ?j + ?n" by (simp add: insert_pos_def Let_def)
  have le: "?j + ?n \<le> length cs" using insert_pos_bounds(1) [OF a, of ts] p by simp
  have skipped: "\<not> cell_known v (cs ! i) \<and> ts < c_timestamp (cs ! i)" if i: "?j \<le> i" "i < ?j + ?n" for i
  proof -
    have "cs ! i = takeWhile ?P (drop ?j cs) ! (i - ?j)" using takeWhile_nth [of "i - ?j" ?P "drop ?j cs"] j(2) i by simp
    moreover have "takeWhile ?P (drop ?j cs) ! (i - ?j) \<in> set (takeWhile ?P (drop ?j cs))" using i by (intro nth_mem) simp
    ultimately have "?P (cs ! i)" "cs ! i \<in> set cs" using set_takeWhileD in_set_dropD by metis+
    then show ?thesis using assms(3) by blast
  qed
  have "anchored v ts cs ?j" using j known_prefix_last [OF a] by (auto simp: anchored_def intro!: exI [of _ ?j])
  then have "anchored v ts cs (?j + ?n)" by (rule anchored_extend [OF _ le skipped])
  moreover have "roff v cs (?j + ?n) = a" using roff_unknown [OF le, of v] skipped j(1) by simp
  ultimately show ?thesis using insert_pos_ge [of v ts cs "?j + ?n" b] assms(1,2) p by simp
qed

lemma places_ok_edit:
  assumes "edit_fits v ts es cs"
  shows "places_ok 0 (length cs) (places v ts cs es)"
proof -
  let ?n = "length (filter (cell_known v) cs)"
  have causal: "\<forall>c \<in> set cs. cell_known v c \<longrightarrow> \<not> ts < c_timestamp c" using assms by (simp add: edit_fits_def)
  have "ranges_ok a ?n es \<Longrightarrow> a \<le> ?n \<Longrightarrow> places_ok (insert_pos v ts cs a) (length cs) (places v ts cs es)" for a
  proof (induction a ?n es rule: ranges_ok.induct)
    case (2 a s e t es)
    have "places_ok (insert_pos v ts cs e) (length cs) (places v ts cs es)" using 2 by simp
    moreover have "insert_pos v ts cs a \<le> insert_pos v ts cs s" "insert_pos v ts cs s \<le> insert_pos v ts cs e"
      using 2 causal by (auto intro!: insert_pos_mono)
    ultimately show ?case using insert_pos_bounds(1) [of s v cs ts] 2 by (auto simp: places_ok_def places_def)
  qed (simp add: places_ok_def places_def)
  then show ?thesis using assms by (auto simp: edit_fits_def places_ok_def)
qed

lemma remote_cells_fill:
  assumes "edit_fits v ts es cs"
  shows "remote_cells v m ts es cs = fill (blocks ts 0 (places v ts cs es)) 0 (marks ts (remote_deletes v m es cs) 0 cs)"
  using weave_fill [OF places_ok_edit [OF assms], of ts "remote_deletes v m es cs" 0]
  by (simp add: remote_cells_def remote_weave_def places_def)

section \<open>The second edit\<close>

text \<open>Places depend on the timestamps of the cells only.\<close>

lemma roff_timestamps: "roff v cs j = length (filter (observed v) (take j (map c_timestamp cs)))"
  by (simp add: roff_def take_map filter_map comp_def cell_known_def [abs_def])

lemma known_prefix_timestamps:
  "map c_timestamp cs = map c_timestamp ds \<Longrightarrow> known_prefix v n cs = known_prefix v n ds"
proof (induction v n cs arbitrary: ds rule: known_prefix.induct)
  case (3 v n c cs)
  then obtain d ds' where "ds = d # ds'" by (cases ds) auto
  with 3 show ?case by (simp add: cell_known_def)
qed auto

lemma insert_pos_timestamps:
  assumes "map c_timestamp cs = map c_timestamp ds"
  shows "insert_pos v ts cs n = insert_pos v ts ds n"
proof -
  have scan: "length (takeWhile (\<lambda>c. ts < c_timestamp c) (drop j xs)) = length (takeWhile (\<lambda>t. ts < t) (drop j (map c_timestamp xs)))" for j xs
    by (simp add: drop_map takeWhile_map comp_def)
  show ?thesis unfolding insert_pos_def Let_def scan known_prefix_timestamps [OF assms] assms ..
qed

lemma marks_timestamps [simp]: "map c_timestamp (marks ts dl j cs) = map c_timestamp cs"
  by (induction cs arbitrary: j) auto

lemma nth_marks: "i < length cs \<Longrightarrow> marks ts dl j cs ! i = (if dl (j + i) then mark ts (cs ! i) else cs ! i)"
  by (induction cs arbitrary: j i) (auto simp: nth_Cons split: nat.splits)

lemma set_fill: "set (fill g i cs) \<subseteq> set cs \<union> (\<Union>j. set (g j))"
  by (induction cs arbitrary: i) fastforce+

lemma filter_fill: "(\<And>j c. c \<in> set (g j) \<Longrightarrow> \<not> P c) \<Longrightarrow> filter P (fill g i cs) = filter P cs"
  by (induction cs arbitrary: i) (auto simp: filter_empty_conv)

lemma length_prior_cong: "length (prior g cs j) = length (prior g ds j)"
  by (induction j) simp_all

lemma nth_fill:
  assumes "j < length cs"
  shows "fill g 0 cs ! (length (prior g cs j) + length (g j)) = cs ! j" "length (prior g cs j) + length (g j) < length (fill g 0 cs)"
  using fill_prior [of "Suc j" cs g] assms by (simp_all add: nth_append)

lemma nth_fill_gap:
  assumes "j \<le> length cs" "length (prior g cs j) \<le> y" "y < length (prior g cs j) + length (g j)"
  shows "fill g 0 cs ! y \<in> set (g j)"
proof -
  have "fill g 0 cs = prior g cs j @ g j @ after_gap g j (drop j cs)" using fill_prior [OF assms(1), of g] by (simp add: fill_gap)
  then have "fill g 0 cs ! y = g j ! (y - length (prior g cs j))" using assms(2,3) by (simp add: nth_append)
  then show ?thesis using assms(2,3) by simp
qed

lemma edit_fits_fill:
  assumes "edit_fits v ts es cs" "map c_timestamp ds = map c_timestamp cs"
    and "\<And>j c. c \<in> set (g j) \<Longrightarrow> \<not> cell_known v c"
  shows "edit_fits v ts es (fill g 0 ds)"
proof -
  have num: "length (filter (cell_known v) xs) = length (filter (observed v) (map c_timestamp xs))" for xs
    by (simp add: filter_map comp_def cell_known_def [abs_def])
  have "length (filter (cell_known v) (fill g 0 ds)) = length (filter (cell_known v) ds)"
    using filter_fill [of g "cell_known v" 0 ds] assms(3) by simp
  also have "\<dots> = length (filter (cell_known v) cs)" unfolding num assms(2) ..
  finally have "length (filter (cell_known v) (fill g 0 ds)) = length (filter (cell_known v) cs)" .
  moreover have "\<not> ts < c_timestamp c" if "c \<in> set (fill g 0 ds)" "cell_known v c" for c
  proof -
    have "c \<in> set ds" using that set_fill [of g 0 ds] assms(3) by blast
    then have "c_timestamp c \<in> set (map c_timestamp cs)" using assms(2) by (metis image_eqI list.set_map)
    then show ?thesis using assms(1) that(2) by (auto simp: edit_fits_def cell_known_def)
  qed
  ultimately show ?thesis using assms(1) by (simp add: edit_fits_def)
qed

lemma remote_deletes_mark:
  assumes "\<not> observed v ts1"
  shows "remote_deletes v m es (marks ts1 dl 0 cs) = remote_deletes v m es cs"
proof
  fix j
  have "roff v (marks ts1 dl 0 cs) j = roff v cs j" by (simp add: roff_timestamps)
  moreover have "cell_was_shown m v (mark ts1 c) = cell_was_shown m v c" for c using assms by (simp add: cell_was_shown_def)
  ultimately show "remote_deletes v m es (marks ts1 dl 0 cs) j = remote_deletes v m es cs j"
    by (cases "j < length cs") (simp_all add: remote_deletes_def nth_marks)
qed

lemma remote_marks_fill:
  assumes g: "\<And>j c. c \<in> set (g j) \<Longrightarrow> c_timestamp c = ts1" "\<not> observed v ts1" "\<And>j. length cs < j \<Longrightarrow> g j = []"
  shows "marks ts (remote_deletes v m es (fill g 0 cs)) 0 (fill g 0 cs) = fill g 0 (marks ts (remote_deletes v m es cs) 0 cs)"
proof -
  let ?F = "fill g 0 cs"
  have unk: "\<not> cell_known v c" if "c \<in> set (g j)" for j c using that g by (simp add: cell_known_def)
  have "remote_deletes v m es ?F (length (prior g cs j) + length (g j)) = remote_deletes v m es cs j" if j: "j < length cs" for j
  proof -
    have "\<not> cell_known v (?F ! i)" if "length (prior g cs j) \<le> i" "i < length (prior g cs j) + length (g j)" for i
      using nth_fill_gap [OF _ that] unk j by simp
    then have "roff v ?F (length (prior g cs j) + length (g j)) = roff v cs j"
      using roff_unknown [of "length (prior g cs j)" "length (g j)" ?F v] roff_prior [of g v j cs, OF unk] nth_fill(2) [OF j, of g] j by simp
    then show ?thesis using nth_fill [OF j, of g] j by (simp add: remote_deletes_def)
  qed
  moreover have "\<not> remote_deletes v m es ?F y" if y: "length (prior g cs j) \<le> y" "y < length (prior g cs j) + length (g j)" for j y
  proof -
    have "j \<le> length cs" using y g(3) by (metis add.right_neutral leD linorder_not_le list.size(3))
    then show ?thesis using nth_fill_gap [OF _ y] unk remote_deletes_known by blast
  qed
  ultimately show ?thesis using marks_fill [of 0 cs "remote_deletes v m es ?F" g "remote_deletes v m es cs" ts] by simp
qed

lemma second_edit:
  assumes fits: "edit_fits v1 ts1 es1 cs" "edit_fits v2 ts2 es2 cs" and ts: "ts1 \<noteq> ts2" "\<not> observed v2 ts1"
  defines "g1 \<equiv> blocks ts1 0 (places v1 ts1 cs es1)" and "g2 \<equiv> blocks ts2 0 (places v2 ts2 cs es2)"
  shows "remote_cells v2 m ts2 es2 (remote_cells v1 m ts1 es1 cs) =
    fill (\<lambda>j. if ts2 < ts1 then g1 j @ g2 j else g2 j @ g1 j) 0
      (marks ts2 (remote_deletes v2 m es2 cs) 0 (marks ts1 (remote_deletes v1 m es1 cs) 0 cs))"
proof -
  let ?d1 = "marks ts1 (remote_deletes v1 m es1 cs) 0 cs"
  let ?F = "fill g1 0 ?d1" and ?d = "marks ts2 (remote_deletes v2 m es2 cs) 0 ?d1"
  let ?pos = "gap_pos g1 ?d (ts2 < ts1)" and ?ps = "places v2 ts2 cs es2"
  have first: "remote_cells v1 m ts1 es1 cs = ?F" unfolding g1_def by (rule remote_cells_fill [OF fits(1)])
  have g1: "c_timestamp c = ts1" if "c \<in> set (g1 j)" for j c using that blocks_timestamp by (simp add: g1_def)
  have unk: "\<not> cell_known v2 c" if "c \<in> set (g1 j)" for j c using g1 [OF that] ts(2) by (simp add: cell_known_def)
  have at: "\<exists>n. j = insert_pos v1 ts1 cs n \<and> n \<le> length (filter (cell_known v1) cs)" if "g1 j \<noteq> []" for j
  proof -
    have "j \<in> fst ` set (places v1 ts1 cs es1)" using that blocks_outside unfolding g1_def by blast
    then obtain e where "e \<in> set es1" "j = insert_pos v1 ts1 cs (fst (fst e))" by (auto simp: places_def)
    then show ?thesis using ranges_ok_bound [of 0 _ es1 e] fits(1) unfolding edit_fits_def by blast
  qed
  have stop: "\<not> ts1 < c_timestamp (?d1 ! j)" if "j < length ?d1" "g1 j \<noteq> []" for j
    using at [OF that(2)] insert_pos_bounds(2) [of _ v1 cs ts1] that(1) by (auto simp: nth_marks)
  have beyond: "g1 j = []" if "length ?d1 < j" for j
    using at [of j] insert_pos_bounds(1) [of _ v1 cs ts1] that by fastforce
  have num: "length (filter (cell_known v2) ?d1) = length (filter (cell_known v2) cs)"
    using roff_timestamps [of v2 ?d1 "length cs"] roff_timestamps [of v2 cs "length cs"] by (simp add: roff_def)
  have pos: "gap_pos g1 ?d1 b = gap_pos g1 ?d b" for b
    using length_prior_cong [of g1 ?d1 _ ?d] by (simp add: gap_pos_def fun_eq_iff)
  have place: "insert_pos v2 ts2 ?F n = ?pos (insert_pos v2 ts2 cs n)" if "n \<le> length (filter (cell_known v2) cs)" for n
    using insert_pos_fill [of g1 ts1 v2 ts2 ?d1 n] g1 ts stop that num insert_pos_timestamps [of ?d1 cs v2 ts2 n] pos by simp
  have ps: "places v2 ts2 ?F es2 = map (\<lambda>(k, t). (?pos k, t)) ?ps"
    using place ranges_ok_bound fits(2) by (fastforce simp: places_def edit_fits_def intro!: map_cong)
  have "remote_cells v2 m ts2 es2 ?F = fill (blocks ts2 0 (map (\<lambda>(k, t). (?pos k, t)) ?ps)) 0 (marks ts2 (remote_deletes v2 m es2 ?F) 0 ?F)"
    unfolding ps [symmetric] by (rule remote_cells_fill [OF edit_fits_fill [OF fits(2) _ unk]]) simp_all
  also have "marks ts2 (remote_deletes v2 m es2 ?F) 0 ?F = fill g1 0 ?d"
    using remote_marks_fill [of g1 ts1 v2 ?d1 ts2 m es2] g1 ts(2) beyond remote_deletes_mark [OF ts(2), of m es2] by simp
  also have "fill (blocks ts2 0 (map (\<lambda>(k, t). (?pos k, t)) ?ps)) 0 (fill g1 0 ?d)
      = fill (\<lambda>j. if ts2 < ts1 then g1 j @ g2 j else g2 j @ g1 j) 0 ?d"
  proof -
    have "blocks ts2 0 (map (\<lambda>(k, t). (?pos k, t)) ?ps) (?pos j) = g2 j" for j
      unfolding g2_def by (rule blocks_map) (rule inj_on_subset [OF gap_pos_inj subset_UNIV])
    moreover have "blocks ts2 0 (map (\<lambda>(k, t). (?pos k, t)) ?ps) y = []" if "y \<notin> ?pos ` {..length ?d}" for y
    proof (rule blocks_outside)
      have "\<forall>k \<in> set ?ps. fst k \<le> length ?d" using places_ok_edit [OF fits(2)] by (simp add: places_ok_def)
      then show "y \<notin> fst ` set (map (\<lambda>(k, t). (?pos k, t)) ?ps)" using that by force
    qed
    ultimately show ?thesis
      using fill_fill [of 0 ?d "blocks ts2 0 (map (\<lambda>(k, t). (?pos k, t)) ?ps)" g1 "ts2 < ts1" g2] by simp
  qed
  finally show ?thesis using first by simp
qed

section \<open>Concurrent edits commute\<close>

text \<open>What replicas agree on: the identity of a byte, its content, its visibility and its deletions, in
  whatever order they arrived.\<close>

definition cell_state :: "cell \<Rightarrow> (lamport \<times> nat) \<times> char \<times> bool \<times> lamport set" where
  "cell_state c = (cell_key c, c_byte c, c_visible c, set (c_deletions c))"

lemma marks_commute:
  "map cell_state (marks ts2 d2 i (marks ts1 d1 i cs)) = map cell_state (marks ts1 d1 i (marks ts2 d2 i cs))"
  by (induction cs arbitrary: i) (auto simp: cell_state_def)

lemma fill_states: "map cell_state cs = map cell_state ds \<Longrightarrow> map cell_state (fill g i cs) = map cell_state (fill g i ds)"
proof (induction cs arbitrary: ds i)
  case (Cons c cs)
  then obtain d ds' where d: "ds = d # ds'" "cell_state c = cell_state d" "map cell_state cs = map cell_state ds'" by (cases ds) auto
  show ?case using Cons.IH [OF d(3), of "Suc i"] d(1,2) by simp
qed simp

lemma concurrent_edits_commute:
  assumes "edit_fits v1 ts1 es1 cs" "edit_fits v2 ts2 es2 cs" "ts1 \<noteq> ts2" "\<not> observed v1 ts2" "\<not> observed v2 ts1"
  shows "map cell_state (remote_cells v2 m ts2 es2 (remote_cells v1 m ts1 es1 cs))
    = map cell_state (remote_cells v1 m ts1 es1 (remote_cells v2 m ts2 es2 cs))"
proof -
  let ?x = "blocks ts1 0 (places v1 ts1 cs es1)" and ?y = "blocks ts2 0 (places v2 ts2 cs es2)"
  have gaps: "(\<lambda>j. if ts2 < ts1 then ?x j @ ?y j else ?y j @ ?x j) = (\<lambda>j. if ts1 < ts2 then ?y j @ ?x j else ?x j @ ?y j)"
    using assms(3) by (auto simp: fun_eq_iff)
  show ?thesis
    unfolding second_edit [OF assms(1-3,5)] second_edit [OF assms(2,1) assms(3) [symmetric] assms(4)] gaps
    by (rule fill_states [OF marks_commute])
qed

lemma cell_states_text:
  assumes "map cell_state cs = map cell_state ds"
  shows "map c_byte (filter c_visible cs) = map c_byte (filter c_visible ds)"
  using assms
proof (induction cs arbitrary: ds)
  case (Cons c cs)
  then obtain d ds' where d: "ds = d # ds'" "cell_state c = cell_state d" "map cell_state cs = map cell_state ds'" by (cases ds) auto
  show ?case using Cons.IH [OF d(3)] d(1,2) by (simp add: cell_state_def)
qed simp

section \<open>Two replicas\<close>

text \<open>The conditions of a remote edit, in terms of the cells.\<close>

definition edit_ready :: "global \<Rightarrow> lamport \<Rightarrow> ((nat \<times> nat) \<times> char list) list \<Rightarrow> cell list \<Rightarrow> bool" where
  "edit_ready v ts es cs \<longleftrightarrow> es \<noteq> [] \<and> edits_ok (map c_byte (filter (cell_known v) cs)) 0 es \<and> length (concat (map snd es)) < 2 ^ 32
     \<and> ts \<noteq> lamport_MIN \<and> lamport_value ts \<noteq> 0 \<and> (\<forall>c \<in> set cs. c_timestamp c \<noteq> ts \<and> ts \<notin> set (c_deletions c)
        \<and> lamport_value (c_timestamp c) \<noteq> 0 \<and> (cell_known v c \<longrightarrow> \<not> ts < c_timestamp c))"

lemma edit_ready_code [code]:
  "edit_ready v ts es cs \<longleftrightarrow> es \<noteq> [] \<and> edits_ok (map c_byte (filter (cell_known v) cs)) 0 es
     \<and> int (length (concat (map snd es))) < 4294967296
     \<and> ts \<noteq> lamport_MIN \<and> lamport_value ts \<noteq> 0 \<and> (\<forall>c \<in> set cs. c_timestamp c \<noteq> ts \<and> ts \<notin> set (c_deletions c)
        \<and> lamport_value (c_timestamp c) \<noteq> 0 \<and> (cell_known v c \<longrightarrow> \<not> ts < c_timestamp c))"
proof -
  have "int (length (concat (map snd es))) < 4294967296 \<longleftrightarrow> length (concat (map snd es)) < 2 ^ 32" by simp
  then show ?thesis unfolding edit_ready_def by blast
qed

lemma ranges_ok_edits: "edits_ok t a es \<Longrightarrow> ranges_ok a (length t) es"
  by (induction t a es rule: edits_ok.induct) auto

lemma edit_ready_fits: "edit_ready v ts es cs \<Longrightarrow> edit_fits v ts es cs"
  using ranges_ok_edits [of "map c_byte (filter (cell_known v) cs)" 0 es] by (simp add: edit_ready_def edit_fits_def)

lemma apply_ready:
  assumes "snapshot_ok s ps" "heights_ok s" "undo_map_ok (undo_map s)" "edit_ready v ts es (cells ps)"
  shows "\<exists>p s' ps'. apply_remote_edit v (map fst es) (map snd es) ts s = Some (Some p, s') \<and> snapshot_ok s' ps'
    \<and> undo_map s' = undo_map s \<and> cells ps' = remote_cells v (undo_map s) ts es (cells ps)"
proof -
  have ok: "list_all piece_ok ps" using edit_base_root(4) snapshot_base assms(1,2) by blast
  have r: "es \<noteq> []" "edits_ok (obs v ps) 0 es" "length (concat (map snd es)) < 2 ^ 32" "ts \<noteq> lamport_MIN"
    "\<forall>c \<in> set (cells ps). c_timestamp c \<noteq> ts \<and> ts \<notin> set (c_deletions c)"
    "\<forall>c \<in> set (cells ps). lamport_value (c_timestamp c) \<noteq> 0"
    "\<forall>c \<in> set (cells ps). observed v (c_timestamp c) \<longrightarrow> \<not> ts < c_timestamp c"
    using assms(4) by (simp_all add: edit_ready_def obs_cells cell_known_def)
  have "fresh ts ps" unfolding fresh_def all_pieces_cells [OF ok, where P = "\<lambda>t ds. t \<noteq> ts \<and> ts \<notin> set ds"] by (rule r(5))
  moreover have "counted ps" using r(6) counted_cells [OF ok] by simp
  moreover have "\<forall>x \<in> set ps. known v x \<longrightarrow> \<not> ts < frag_timestamp (fst x)"
    unfolding known_def all_pieces_cells [OF ok, where P = "\<lambda>t ds. observed v t \<longrightarrow> \<not> ts < t"] by (rule r(7))
  ultimately show ?thesis using apply_remote_edit_ok [OF assms(1-3) _ r(4) _ _ r(1-3)] by (auto simp: same_frame_def)
qed

text \<open>An edit stays applicable when a concurrent one has been applied.\<close>

lemma edit_ready_after:
  assumes "edit_ready v1 ts1 es1 cs" "edit_ready v2 ts2 es2 cs" "ts1 \<noteq> ts2" "\<not> observed v2 ts1"
  shows "edit_ready v2 ts2 es2 (remote_cells v1 m ts1 es1 cs)"
proof -
  let ?g = "blocks ts1 0 (places v1 ts1 cs es1)" and ?d = "marks ts1 (remote_deletes v1 m es1 cs) 0 cs"
  have F: "remote_cells v1 m ts1 es1 cs = fill ?g 0 ?d" by (rule remote_cells_fill [OF edit_ready_fits [OF assms(1)]])
  have new: "c_timestamp c = ts1 \<and> c_deletions c = []" if "c \<in> set (blocks ts1 off ks j)" for c off ks j
    using that by (induction ts1 off ks j rule: blocks.induct) (auto simp: new_cell_def split: if_splits)
  have "filter (cell_known v2) (fill ?g 0 ?d) = filter (cell_known v2) ?d"
    using new assms(4) by (intro filter_fill) (auto simp: cell_known_def)
  moreover have "map c_byte (filter (cell_known v2) (marks ts1 dl i xs)) = map c_byte (filter (cell_known v2) xs)" for dl i xs
    by (induction xs arbitrary: i) (auto simp: cell_known_def)
  ultimately have "map c_byte (filter (cell_known v2) (fill ?g 0 ?d)) = map c_byte (filter (cell_known v2) cs)" by simp
  moreover have "c_timestamp c \<noteq> ts2 \<and> ts2 \<notin> set (c_deletions c) \<and> lamport_value (c_timestamp c) \<noteq> 0
      \<and> (cell_known v2 c \<longrightarrow> \<not> ts2 < c_timestamp c)" if c: "c \<in> set (fill ?g 0 ?d)" for c
  proof (cases "c \<in> set ?d")
    case True
    then obtain b where "b \<in> set cs" "c = b \<or> c = mark ts1 b" using marks_origin by blast
    then show ?thesis using assms(2,3) by (auto simp: edit_ready_def cell_known_def)
  next
    case False
    then obtain j where "c \<in> set (?g j)" using c set_fill [of ?g 0 ?d] by blast
    then show ?thesis using new assms(1,3,4) by (auto simp: edit_ready_def cell_known_def)
  qed
  ultimately show ?thesis using assms(2) unfolding F by (simp add: edit_ready_def)
qed

end
