(* ===== verification/Iteration.thy ===== *)
theory Iteration
  imports Cursor_Correct
begin

text \<open>
  \<^verbatim>\<open>Iter\<close> of \<^verbatim>\<open>crates/sum_tree/src/cursor.rs\<close>: the iterator without positions behind \<^verbatim>\<open>SumTree::iter\<close>.  It is
  shown to return the items of the tree in order, each of them once, and then to end.
\<close>

section \<open>Driving the iterator\<close>

text \<open>A \<^verbatim>\<open>for\<close> loop over the iterator, which collects what it yields.\<close>

partial_function (option) iter_collect ::
  "('t, 's) sum_tree \<Rightarrow> ('t, 's, unit) stack_entry list \<Rightarrow> 't list option" where
  "iter_collect t st = do {
     (r, st) \<leftarrow> iter_next t st;
     (case r of
        None \<Rightarrow> Some []
      | Some x \<Rightarrow> do { xs \<leftarrow> iter_collect t st; Some (x # xs) })
   }"

declare iter_collect.simps [code]

definition tree_iter :: "('t, 's) sum_tree \<Rightarrow> 't list option" where
  "tree_iter t = iter_collect t []"

section \<open>What it yields\<close>

definition iter_post ::
  "('t, 's) sum_tree \<Rightarrow> 't list \<Rightarrow> ('t option \<times> ('t, 's, unit) stack_entry list) option \<Rightarrow> bool" where
  "iter_post root rest res \<longleftrightarrow>
     (\<exists>st'. res = Some (list_first rest, st') \<and> path_ok root st' \<and> at_item st' \<and> stack_rest 1 st' = tl rest
        \<and> (rest \<noteq> [] \<longrightarrow> st' \<noteq> []))"

lemma iter_leaf:
  assumes e: "entry_tree e = Leaf s its iss" "path_ok root (e # es)"
    and i: "i = (if descend then entry_index e else entry_index e + 1)"
    and pop: "\<not> i < length its \<Longrightarrow> iter_post root (stack_rest 1 es) (iter_loop es False)"
  shows "iter_post root (stack_rest (if descend then 0 else 1) (e # es)) (iter_loop (e # es) descend)"
proof (cases "i < length its")
  case True
  let ?e = "e\<lparr>entry_index := i\<rparr>"
  have "stack_rest (if descend then 0 else 1) (e # es) = its ! i # drop (Suc i) its @ stack_rest 1 es"
    using e(1) i True by (auto simp: entry_rest_def Cons_nth_drop_Suc [symmetric])
  moreover have "iter_loop (e # es) descend = Some (Some (its ! i), ?e # es)"
    using e(1) i True by (simp add: iter_loop.simps(2) Let_def)
  moreover have "path_ok root (?e # es)" using e(2) path_ok_update [of ?e e root es] by simp
  ultimately show ?thesis
    using True e(1) by (simp add: iter_post_def at_item_def entry_rest_def list_first_def)
next
  case False
  moreover have "iter_loop (e # es) descend = iter_loop es False"
    using e(1) i False by (simp add: iter_loop.simps(2) Let_def)
  moreover have "stack_rest (if descend then 0 else 1) (e # es) = stack_rest 1 es"
    using e(1) i False by (auto simp: entry_rest_def)
  ultimately show ?thesis using pop by simp
qed

lemma iter_loop_ok:
  assumes root: "tree_wf ops root" "\<not> is_empty root" "height root < STACK_CAPACITY"
  shows "path_ok root st \<Longrightarrow> iter_post root (stack_rest (if descend then 0 else 1) st) (iter_loop st descend)"
proof (induction "stack_weight descend st" arbitrary: st descend rule: less_induct)
  case less
  show ?case
  proof (cases st)
    case Nil
    then show ?thesis by (simp add: iter_post_def list_first_def at_item_def)
  next
    case st: (Cons e es)
    note path = less.prems [unfolded st]
    have pop: "iter_post root (stack_rest 1 es) (iter_loop es False)"
      using less.hyps [of False es] path_ok_tl [OF path] stack_weight_pop [of es descend e] by (simp add: st)
    define i where "i = (if descend then entry_index e else entry_index e + 1)"
    show ?thesis
    proof (cases "entry_tree e")
      case (Leaf s its iss)
      from iter_leaf [OF this path i_def pop] show ?thesis by (simp add: st)
    next
      case node: (Internal h s css cts)
      have rest: "stack_rest (if descend then 0 else 1) st = concat (map items (drop i cts)) @ stack_rest 1 es"
        using node by (simp add: st entry_rest_def i_def)
      show ?thesis
      proof (cases "i < length cts")
        case False
        then show ?thesis using pop rest node by (simp add: st iter_loop.simps(2) Let_def i_def [symmetric])
      next
        case True
        define e' where "e' = e\<lparr>entry_index := i\<rparr>"
        let ?st = "mk_entry (cts ! i) 0 () # e' # es"
        have "height (entry_tree e) + length es = height root" "tree_wf ops (entry_tree e)"
          using path_ok_wf [OF path root(1,2)] by auto
        then have "stack_push (e' # es) (mk_entry (cts ! i) 0 ()) = Some ?st"
          using root(3) node tree_wf_height [of ops h s css cts] by (auto simp: stack_push_def)
        then have "iter_loop st descend = iter_loop ?st True"
          using node True by (simp add: st iter_loop.simps(2) Let_def i_def [symmetric] e'_def [symmetric])
        moreover have "path_ok root (e' # es)" using path path_ok_update [of e' e root es] by (simp add: e'_def)
        then have "path_ok root ?st" using node True by (simp add: e'_def mk_entry_def)
        moreover have "stack_weight True ?st < stack_weight descend st"
          unfolding st by (rule stack_weight_push [of e h s css cts e']) (use node True in \<open>auto simp: e'_def i_def\<close>)
        moreover have "stack_rest 0 ?st = concat (map items (drop i cts)) @ stack_rest 1 es"
          using node True by (cases "cts ! i") (simp_all add: e'_def mk_entry_def entry_rest_def Cons_nth_drop_Suc [symmetric])
        ultimately show ?thesis using less.hyps [of True ?st] rest by (simp del: stack_rest_simps path_ok.simps)
      qed
    qed
  qed
qed

lemma iter_next_ok:
  assumes root: "tree_wf ops root" "\<not> is_empty root" "height root < STACK_CAPACITY" and "path_ok root st"
  shows "iter_post root (if st = [] then items root else stack_rest 1 st) (iter_next root st)"
proof (cases "st = []")
  case True
  let ?e = "mk_entry root 0 ()"
  have "path_ok root [?e]" by (simp add: mk_entry_def)
  moreover have "stack_rest 0 [?e] = items root" by (cases root) (simp_all add: mk_entry_def entry_rest_def)
  ultimately show ?thesis
    using True iter_loop_ok [OF root, of "[?e]" True] by (simp add: iter_next_def stack_push_def STACK_CAPACITY_def)
next
  case False
  then show ?thesis using iter_loop_ok [OF root assms(4), of False] by (simp add: iter_next_def)
qed

lemma iter_collect_ok:
  assumes root: "tree_wf ops root" "\<not> is_empty root" "height root < STACK_CAPACITY"
  shows "path_ok root st \<Longrightarrow> rest = (if st = [] then items root else stack_rest 1 st)
    \<Longrightarrow> iter_collect root st = Some rest"
proof (induction rest arbitrary: st)
  case Nil
  then show ?case using iter_next_ok [OF root Nil.prems(1)] iter_collect.simps [of root st]
    by (auto simp: iter_post_def list_first_def)
next
  case (Cons x xs)
  then obtain st' where st': "iter_next root st = Some (Some x, st')" "path_ok root st'" "stack_rest 1 st' = xs" "st' \<noteq> []"
    using iter_next_ok [OF root Cons.prems(1)] unfolding Cons.prems(2) [symmetric] by (auto simp: iter_post_def list_first_def)
  from Cons.IH [OF st'(2)] st' show ?case by (subst iter_collect.simps) simp
qed

text \<open>The iterator returns the items of the tree, and the loop over it ends.\<close>

lemma tree_iter_ok:
  assumes "tree_wf ops t" "height t < STACK_CAPACITY"
  shows "tree_iter t = Some (items t)"
proof (cases "is_empty t")
  case True
  then obtain s iss where "t = Leaf s [] iss" by (cases t) auto
  then show ?thesis
    by (simp add: tree_iter_def iter_collect.simps iter_next_def stack_push_def STACK_CAPACITY_def mk_entry_def
        iter_loop.simps(2))
next
  case False
  then show ?thesis using iter_collect_ok [OF assms(1) False assms(2), of "[]"] by (simp add: tree_iter_def)
qed

end
