(* ===== verification/OperationQueue.thy ===== *)
theory OperationQueue
  imports Iteration KeyedTree Clock
begin

text \<open>
  \<^verbatim>\<open>crates/text/src/operation_queue.rs\<close>: the operations a replica has received before the operations they
  depend on.  The queue is a \<^verbatim>\<open>SumTree\<close> sorted by timestamp, with at most one operation for each of them.  \<open>ts\<close>
  is the method \<^verbatim>\<open>lamport_timestamp\<close> of the trait \<^verbatim>\<open>Operation\<close>.
\<close>

section \<open>Operations\<close>

record operation_summary =
  op_key :: lamport
  op_len :: nat

type_synonym 'o operation_queue = "('o, operation_summary) sum_tree"

text \<open>\<^verbatim>\<open>add_summary\<close> asserts that the key of the left summary is smaller.  The sum is stated without the
  assertion; \<open>queue_assertion\<close> below shows that it holds for the summaries of any two neighbouring
  runs of items of a queue, which are all that a tree adds.  In the same way \<open>queue_key_assertion\<close> shows the
  assertion of the dimension \<^verbatim>\<open>OperationKey\<close>, that a key never decreases.\<close>

definition operation_summary_zero :: operation_summary where
  "operation_summary_zero = \<lparr>op_key = lamport_MIN, op_len = 0\<rparr>"

definition operation_summary_add :: "operation_summary \<Rightarrow> operation_summary \<Rightarrow> operation_summary" where
  "operation_summary_add a b = a\<lparr>op_key := op_key b, op_len := op_len a + op_len b\<rparr>"

definition operation_item_summary :: "('o \<Rightarrow> lamport) \<Rightarrow> 'o \<Rightarrow> operation_summary" where
  "operation_item_summary ts op = \<lparr>op_key = ts op, op_len = 1\<rparr>"

definition queue_ops :: "('o \<Rightarrow> lamport) \<Rightarrow> ('o, operation_summary) summary_ops" where
  "queue_ops ts =
     \<lparr>summary_zero = operation_summary_zero, summary_add = operation_summary_add,
      item_summary = operation_item_summary ts\<rparr>"

definition operation_key_dim :: "(lamport, operation_summary) dimension" where
  "operation_key_dim = \<lparr>dim_zero = lamport_MIN, dim_add = (\<lambda>_ s. op_key s)\<rparr>"

definition queue_new :: "('o \<Rightarrow> lamport) \<Rightarrow> 'o operation_queue" where
  "queue_new ts = tree_new (queue_ops ts)"

definition queue_len :: "'o operation_queue \<Rightarrow> nat" where
  "queue_len q = op_len (summary q)"

definition queue_is_empty :: "'o operation_queue \<Rightarrow> bool" where
  "queue_is_empty q = (queue_len q = 0)"

text \<open>\<^verbatim>\<open>Vec::dedup_by_key\<close> removes all but the first of neighbours with equal keys.\<close>

fun dedup_by_key :: "('a \<Rightarrow> 'k) \<Rightarrow> 'a list \<Rightarrow> 'a list" where
  "dedup_by_key f [] = []"
| "dedup_by_key f [x] = [x]"
| "dedup_by_key f (x # y # xs) =
     (if f y = f x then dedup_by_key f (x # xs) else x # dedup_by_key f (y # xs))"

definition queue_insert :: "('o \<Rightarrow> lamport) \<Rightarrow> 'o list \<Rightarrow> 'o operation_queue \<Rightarrow> 'o operation_queue option" where
  "queue_insert ts ops q =
     map_option snd (keyed_edit (queue_ops ts) operation_key_dim ts
       (map InsertEdit (dedup_by_key ts (sort_key ts ops))) q)"

text \<open>The queue that is returned, and the one that stays.\<close>

definition queue_drain :: "('o \<Rightarrow> lamport) \<Rightarrow> 'o operation_queue \<Rightarrow> 'o operation_queue \<times> 'o operation_queue" where
  "queue_drain ts q = (q, queue_new ts)"

definition queue_iter :: "'o operation_queue \<Rightarrow> 'o list option" where
  "queue_iter q = tree_iter q"

section \<open>The interface\<close>

text \<open>What a buffer relies on: a queue holds at most one operation for each timestamp, an insertion keeps the
  first of the operations with one timestamp, and the iterator yields the operations by timestamp.\<close>

locale timestamp_queue =
  fixes ts :: "'o \<Rightarrow> lamport"
    and new :: "'q"
    and insert_ops :: "'o list \<Rightarrow> 'q \<Rightarrow> 'q option"
    and iter :: "'q \<Rightarrow> 'o list option"
    and lookup :: "'q \<Rightarrow> lamport \<Rightarrow> 'o option"
    and inv fits :: "'q \<Rightarrow> bool"
  assumes new_inv: "inv new" and new_fits: "fits new" and lookup_new: "lookup new k = None"
    and insert_inv: "inv q \<Longrightarrow> fits q \<Longrightarrow> \<forall>x \<in> set ops. lamport_MIN < ts x
      \<Longrightarrow> \<exists>q'. insert_ops ops q = Some q' \<and> inv q'
        \<and> (\<forall>k. lookup q' k = (case find (\<lambda>x. ts x = k) ops of Some x \<Rightarrow> Some x | None \<Rightarrow> lookup q k))"
    and iter_inv: "inv q \<Longrightarrow> fits q \<Longrightarrow> \<exists>xs. iter q = Some xs \<and> key_sorted ts xs
        \<and> (\<forall>x \<in> set xs. lamport_MIN < ts x) \<and> (\<forall>k x. lookup q k = Some x \<longleftrightarrow> x \<in> set xs \<and> ts x = k)"
begin

text \<open>Refilling a drained queue with operations of distinct timestamps keeps exactly them.\<close>

lemma refill:
  assumes "\<forall>x \<in> set ops. lamport_MIN < ts x" "distinct (map ts ops)"
  shows "\<exists>q. insert_ops ops new = Some q \<and> inv q \<and> (\<forall>k x. lookup q k = Some x \<longleftrightarrow> x \<in> set ops \<and> ts x = k)"
proof -
  from insert_inv [OF new_inv new_fits assms(1)] obtain q where
    q: "insert_ops ops new = Some q" "inv q" "\<forall>k. lookup q k = (case find (\<lambda>x. ts x = k) ops of Some x \<Rightarrow> Some x | None \<Rightarrow> None)"
    unfolding lookup_new by blast
  have "find (\<lambda>x. ts x = k) ops = Some x \<longleftrightarrow> x \<in> set ops \<and> ts x = k" for k x
    using assms(2) by (induction ops) (auto simp: image_iff)
  moreover have "(case find (\<lambda>x. ts x = k) ops of Some x \<Rightarrow> Some x | None \<Rightarrow> None) = find (\<lambda>x. ts x = k) ops" for k
    by (simp split: option.split)
  ultimately show ?thesis using q by simp
qed

end

section \<open>Laws\<close>

lemma queue_ops_simps [simp]:
  "summary_zero (queue_ops ts) = operation_summary_zero" "summary_add (queue_ops ts) = operation_summary_add"
  "item_summary (queue_ops ts) = operation_item_summary ts"
  by (simp_all add: queue_ops_def)

lemma operation_key_dim_simps [simp]:
  "dim_zero operation_key_dim = lamport_MIN" "dim_add operation_key_dim p s = op_key s"
  by (simp_all add: operation_key_dim_def)

interpretation oq: keyed_laws "queue_ops ts" "\<lambda>_. True" "\<lambda>_. True" operation_key_dim ts for ts :: "'o \<Rightarrow> lamport"
  by unfold_locales (auto simp: operation_summary_zero_def operation_summary_add_def operation_item_summary_def)

definition queue_wf :: "('o \<Rightarrow> lamport) \<Rightarrow> 'o operation_queue \<Rightarrow> bool" where
  "queue_wf ts q \<longleftrightarrow> tree_wf (queue_ops ts) q \<and> key_sorted ts (items q) \<and> (\<forall>x \<in> set (items q). lamport_MIN < ts x)"

lemma sum_operation_summaries:
  "sum_summaries (queue_ops ts) (map (operation_item_summary ts) xs) =
     \<lparr>op_key = (if xs = [] then lamport_MIN else ts (last xs)), op_len = length xs\<rparr>"
  by (induction xs rule: rev_induct)
    (simp_all add: sum_summaries_def operation_summary_zero_def operation_summary_add_def operation_item_summary_def)

lemma queue_summary:
  assumes "queue_wf ts q"
  shows "summary q = \<lparr>op_key = (if items q = [] then lamport_MIN else ts (last (items q))), op_len = length (items q)\<rparr>"
  using oq.summary_items [of ts q] assms by (simp add: queue_wf_def sum_operation_summaries list_all_iff)

text \<open>The assertion of \<^verbatim>\<open>add_summary\<close> for the summaries of two neighbouring runs, the first of which may be the
  empty one that a sum starts with.\<close>

lemma queue_assertion:
  assumes "queue_wf ts q" "items q = us @ xs @ ys @ zs" "ys \<noteq> []"
  shows "op_key (sum_summaries (queue_ops ts) (map (operation_item_summary ts) xs))
    < op_key (sum_summaries (queue_ops ts) (map (operation_item_summary ts) ys))"
  using assms by (auto simp: sum_operation_summaries queue_wf_def key_sorted_append)

text \<open>The assertion of \<^verbatim>\<open>OperationKey::add_summary\<close> for a position after a run of items and the summary of the next run.\<close>

lemma queue_key_assertion:
  assumes "queue_wf ts q" "items q = us @ ys @ zs" "ys \<noteq> []"
  shows "pos_after (queue_ops ts) operation_key_dim (dim_zero operation_key_dim) us
    \<le> op_key (sum_summaries (queue_ops ts) (map (operation_item_summary ts) ys))"
proof -
  have "\<forall>x \<in> set us. \<forall>y \<in> set ys. ts x < ts y" using assms(1,2) by (auto simp: queue_wf_def key_sorted_append)
  then show ?thesis using assms(3)
    by (cases us rule: rev_cases) (auto simp: sum_operation_summaries item_end_def operation_item_summary_def intro: less_imp_le)
qed

section \<open>Correctness\<close>

lemma dedup_by_key_set: "set (dedup_by_key f xs) \<subseteq> set xs" "f ` set (dedup_by_key f xs) = f ` set xs"
  by (induction f xs rule: dedup_by_key.induct) auto

lemma dedup_by_key_sorted: "sorted (map f xs) \<Longrightarrow> key_sorted f (dedup_by_key f (xs :: 'a list))"
proof (induction f xs rule: dedup_by_key.induct)
  case (3 f x y xs)
  show ?case
  proof (cases "f y = f x")
    case False
    then have "\<forall>z \<in> set (y # xs). f x < f z" using 3(3) by fastforce
    then have "\<forall>z \<in> set (dedup_by_key f (y # xs)). f x < f z" using dedup_by_key_set(1) [of f "y # xs"] by blast
    with False 3(2) [OF False] 3(3) show ?thesis by simp
  qed (use 3 in simp)
qed simp_all

lemma find_dedup: "find (\<lambda>x. f x = k) (dedup_by_key f xs) = find (\<lambda>x. f x = k) xs"
  by (induction f xs rule: dedup_by_key.induct) auto

lemma find_sort_key: "find (\<lambda>x. f x = k) (sort_key f xs) = find (\<lambda>x. f x = k) xs"
proof -
  have "filter (\<lambda>x. f x = k) (sort_key f xs) = filter (\<lambda>x. f x = k) xs" by (rule sort_key_stable)
  moreover have "find P ys = list_first (filter P ys)" for P and ys :: "'a list"
    by (induction ys) (auto simp: list_first_def)
  ultimately show ?thesis by simp
qed

lemma find_insert_edit:
  "list_last (filter (\<lambda>e. edit_key f e = k) (map InsertEdit xs)) = map_option InsertEdit (list_last (filter (\<lambda>x. f x = k) xs))"
  by (induction xs) (auto simp: list_last_def edit_key_def)

lemma queue_insert_ok:
  assumes "queue_wf ts q" "height q < STACK_CAPACITY" "\<forall>x \<in> set xs. lamport_MIN < ts x"
  shows "\<exists>q'. queue_insert ts xs q = Some q' \<and> queue_wf ts q'
    \<and> (\<forall>k. lookup_key ts (items q') k = (case find (\<lambda>x. ts x = k) xs of Some x \<Rightarrow> Some x | None \<Rightarrow> lookup_key ts (items q) k))"
proof -
  let ?xs = "dedup_by_key ts (sort_key ts xs)"
  have sorted: "key_sorted ts ?xs" by (rule dedup_by_key_sorted) simp
  then have dist: "distinct (map ts ?xs)" by (simp add: key_sorted_def strict_sorted_iff)
  have keys: "map (edit_key ts) (map InsertEdit ?xs) = map ts ?xs" by (simp add: edit_key_def)
  have pos: "\<forall>x \<in> set ?xs. lamport_MIN < ts x" using dedup_by_key_set(1) [of ts "sort_key ts xs"] assms(3) by auto
  have last: "list_last (filter (\<lambda>x. ts x = k) ?xs) = find (\<lambda>x. ts x = k) xs" for k
    unfolding last_filter_find [OF dist] find_dedup find_sort_key ..
  have dist_keys: "distinct (map (edit_key ts) (map InsertEdit ?xs))" unfolding keys by (rule dist)
  have pos_keys: "dim_zero operation_key_dim < edit_key ts e" if "e \<in> set (map InsertEdit ?xs)" for e
    using that pos by (auto simp: edit_key_def)
  have good: "tree_wf (queue_ops ts) q \<and> list_all (\<lambda>_. True) (items q)" "key_sorted ts (items q)"
    using assms(1) by (simp_all add: queue_wf_def list_all_iff)
  from oq.keyed_edit_lookup [OF good(1) assms(2) good(2) dist_keys TrueI pos_keys] obtain removed q' where
    q': "keyed_edit (queue_ops ts) operation_key_dim ts (map InsertEdit ?xs) q = Some (removed, q')"
      "tree_wf (queue_ops ts) q'" "key_sorted ts (items q')"
      "\<forall>k. lookup_key ts (items q') k = (case find (\<lambda>x. ts x = k) xs of Some x \<Rightarrow> Some x | None \<Rightarrow> lookup_key ts (items q) k)"
    unfolding find_insert_edit last case_map_option comp_def tree_edit.case by blast
  have "lamport_MIN < ts x" if x: "x \<in> set (items q')" for x
  proof -
    have "lookup_key ts (items q') (ts x) = Some x" using x q'(3) by (simp add: lookup_key_Some)
    then have "x \<in> set xs \<or> lookup_key ts (items q) (ts x) = Some x"
      unfolding q'(4) [rule_format] by (auto split: option.splits simp: find_Some_iff)
    then show ?thesis using assms(1,3) by (auto simp: queue_wf_def lookup_key_Some)
  qed
  with q' show ?thesis by (auto simp: queue_insert_def queue_wf_def)
qed

lemma queue_iter_ok: "queue_wf ts q \<Longrightarrow> height q < STACK_CAPACITY \<Longrightarrow> queue_iter q = Some (items q)"
  unfolding queue_iter_def queue_wf_def by (rule tree_iter_ok) auto

lemma queue_new_ok [simp]: "queue_wf ts (queue_new ts)" "items (queue_new ts) = []" "height (queue_new ts) = 0"
  by (simp_all add: queue_new_def queue_wf_def tree_new_def sum_summaries_def)

interpretation queue: timestamp_queue ts "queue_new ts" "queue_insert ts" queue_iter "\<lambda>q. lookup_key ts (items q)"
    "queue_wf ts" "\<lambda>q. height q < STACK_CAPACITY" for ts :: "'o \<Rightarrow> lamport"
proof unfold_locales
  show "\<exists>xs. queue_iter q = Some xs \<and> key_sorted ts xs \<and> (\<forall>x \<in> set xs. lamport_MIN < ts x)
      \<and> (\<forall>k x. lookup_key ts (items q) k = Some x \<longleftrightarrow> x \<in> set xs \<and> ts x = k)"
    if "queue_wf ts q" "height q < STACK_CAPACITY" for q
    using that queue_iter_ok [OF that] by (auto simp: queue_wf_def lookup_key_Some)
qed (simp_all add: queue_insert_ok, simp_all add: lookup_key_def STACK_CAPACITY_def)

end
