(* ===== verification/BufferState.thy ===== *)
theory BufferState
  imports Buffer RemoteEdit History Subscription OperationQueue "HOL-Library.AList"
begin

text \<open>
  \<^verbatim>\<open>Buffer\<close> of \<^verbatim>\<open>crates/text/src/text.rs\<close>: a snapshot with its history, its clock, its subscribers, the operations
  that wait for others and the tasks that wait for operations; local edits, delivery of operations,
  transactions, undo and redo.
\<close>

section \<open>State\<close>

text \<open>A \<^verbatim>\<open>oneshot::Sender\<close> is the number of its channel.  \<open>sent_txs\<close> records the channels a message was sent on; the
  receiving side, a future, is not part of the buffer.\<close>

record buffer =
  snapshot :: buffer_snapshot
  buffer_history :: history
  deferred_ops :: "operation operation_queue"
  deferred_replicas :: "replica_id set"
  lamport_clock :: lamport
  subscriptions :: topic
  edit_id_resolvers :: "lamport \<rightharpoonup> nat list"
  wait_for_version_txs :: "(global \<times> nat) list"
  sent_txs :: "nat list"

definition mk_buffer :: "buffer_snapshot \<Rightarrow> history \<Rightarrow> lamport \<Rightarrow> buffer" where
  "mk_buffer s h clock =
     \<lparr>snapshot = s, buffer_history = h, deferred_ops = queue_new timestamp, deferred_replicas = {},
      lamport_clock = clock, subscriptions = topic_default, edit_id_resolvers = Map.empty,
      wait_for_version_txs = [], sent_txs = []\<rparr>"

definition new_normalized :: "replica_id \<Rightarrow> 64 word \<Rightarrow> line_ending \<Rightarrow> rope \<Rightarrow> buffer option" where
  "new_normalized rid bid ending txt = do {
     (s, clock) \<leftarrow> new_snapshot rid bid ending txt;
     Some (mk_buffer s (history_new txt) clock)
   }"

definition buffer_new :: "(char list \<Rightarrow> cow) \<Rightarrow> replica_id \<Rightarrow> 64 word \<Rightarrow> char list \<Rightarrow> buffer option" where
  "buffer_new replace_all rid bid txt =
     new_normalized rid bid (detect txt) (LineEnding.normalize replace_all txt)"

definition branch :: "buffer \<Rightarrow> buffer" where
  "branch b = mk_buffer (snapshot b) (history_new (base_text (buffer_history b))) (lamport_new LOCAL_BRANCH)"

abbreviation buffer_version :: "buffer \<Rightarrow> global" where
  "buffer_version b \<equiv> version (snapshot b)"

abbreviation observe_version :: "lamport \<Rightarrow> buffer \<Rightarrow> buffer" where
  "observe_version ts b \<equiv> b\<lparr>snapshot := (snapshot b)\<lparr>version := global_observe (version (snapshot b)) ts\<rparr>\<rparr>"

section \<open>Transactions\<close>

definition start_transaction_at :: "instant \<Rightarrow> buffer \<Rightarrow> lamport option \<times> buffer" where
  "start_transaction_at now b =
     (case start_transaction (buffer_version b) now (lamport_clock b) (buffer_history b) of
        (r, clock, h) \<Rightarrow> (r, b\<lparr>buffer_history := h, lamport_clock := clock\<rparr>))"

definition end_transaction_at :: "instant \<Rightarrow> buffer \<Rightarrow> ((lamport \<times> global) option \<times> buffer) option" where
  "end_transaction_at now b = do {
     (r, h) \<leftarrow> end_transaction now (buffer_history b);
     (case r of
        Some entry \<Rightarrow> do {
          (tid, h) \<leftarrow> group h;
          tid \<leftarrow> tid;
          Some (Some (tid, transaction_start (entry_transaction entry)), b\<lparr>buffer_history := h\<rparr>) }
      | None \<Rightarrow> Some (None, b\<lparr>buffer_history := h\<rparr>))
   }"

definition finalize_buffer_transaction :: "buffer \<Rightarrow> transaction option \<times> buffer" where
  "finalize_buffer_transaction b =
     (case finalize_last_transaction (buffer_history b) of (r, h) \<Rightarrow> (r, b\<lparr>buffer_history := h\<rparr>))"

definition group_until_transaction :: "lamport \<Rightarrow> buffer \<Rightarrow> buffer option" where
  "group_until_transaction tid b = do { h \<leftarrow> group_until tid (buffer_history b); Some (b\<lparr>buffer_history := h\<rparr>) }"

definition forget_transaction :: "lamport \<Rightarrow> buffer \<Rightarrow> (transaction option \<times> buffer) option" where
  "forget_transaction tid b = do { (r, h) \<leftarrow> forget tid (buffer_history b); Some (r, b\<lparr>buffer_history := h\<rparr>) }"

definition merge_buffer_transactions :: "lamport \<Rightarrow> lamport \<Rightarrow> buffer \<Rightarrow> buffer option" where
  "merge_buffer_transactions t destination b = do {
     h \<leftarrow> merge_transactions t destination (buffer_history b);
     Some (b\<lparr>buffer_history := h\<rparr>)
   }"

definition push_buffer_transaction :: "transaction \<Rightarrow> instant \<Rightarrow> buffer \<Rightarrow> buffer option" where
  "push_buffer_transaction t now b = do {
     h \<leftarrow> push_transaction t now (buffer_history b);
     Some (b\<lparr>buffer_history := h\<rparr>)
   }"

definition push_empty_buffer_transaction :: "instant \<Rightarrow> buffer \<Rightarrow> (lamport \<times> buffer) option" where
  "push_empty_buffer_transaction now b = do {
     (tid, clock, h) \<leftarrow> push_empty_transaction (buffer_version b) now (lamport_clock b) (buffer_history b);
     Some (tid, b\<lparr>buffer_history := h, lamport_clock := clock\<rparr>)
   }"

section \<open>Local edits\<close>

text \<open>\<^verbatim>\<open>Rope::floor_char_boundary\<close>, and \<^verbatim>\<open>to_offset\<close> of an offset, which is checked to be a boundary: a debug
  build panics, a release build goes back to the boundary before.\<close>

definition floor_char_boundary :: "rope \<Rightarrow> nat \<Rightarrow> nat" where
  "floor_char_boundary text ix = (if ix \<ge> length text then length text else back_to_boundary text ix)"

definition usize_to_offset :: "bool \<Rightarrow> buffer_snapshot \<Rightarrow> nat \<Rightarrow> nat option" where
  "usize_to_offset debug s ix =
     (if is_char_boundary (visible_text s) ix then Some ix
      else if debug then None
      else Some (floor_char_boundary (visible_text s) ix))"

fun resolve_ranges ::
  "bool \<Rightarrow> buffer_snapshot \<Rightarrow> ((nat \<times> nat) \<times> char list) list \<Rightarrow> ((nat \<times> nat) \<times> char list) list option" where
  "resolve_ranges debug s [] = Some []"
| "resolve_ranges debug s (((a, e), t) # es) = do {
     a \<leftarrow> usize_to_offset debug s a;
     e \<leftarrow> usize_to_offset debug s e;
     es \<leftarrow> resolve_ranges debug s es;
     Some (((a, e), t) # es)
   }"

definition apply_local_edit ::
  "(char list \<Rightarrow> cow) \<Rightarrow> bool \<Rightarrow> ((nat \<times> nat) \<times> char list) list \<Rightarrow> lamport \<Rightarrow> buffer \<Rightarrow> (edit_operation \<times> buffer) option" where
  "apply_local_edit replace_all debug edits ts b = do {
     edits \<leftarrow> resolve_ranges debug (snapshot b) edits;
     (edit_op, edits_patch, s) \<leftarrow> apply_edit_internal replace_all edits ts (snapshot b);
     subs \<leftarrow> publish edits_patch (subscriptions b);
     Some (edit_op, b\<lparr>snapshot := s, subscriptions := subs\<rparr>)
   }"

text \<open>\<open>now\<close> and \<open>later\<close> are the two readings of the clock on the wall.\<close>

definition buffer_edit ::
  "(char list \<Rightarrow> cow) \<Rightarrow> bool \<Rightarrow> instant \<Rightarrow> instant \<Rightarrow> ((nat \<times> nat) \<times> char list) list \<Rightarrow> buffer \<Rightarrow> (operation \<times> buffer) option" where
  "buffer_edit replace_all debug now later edits b = do {
     let (r, b) = start_transaction_at now b;
     let (ts, clock) = tick (lamport_clock b);
     let b = b\<lparr>lamport_clock := clock\<rparr>;
     (edit_op, b) \<leftarrow> apply_local_edit replace_all debug edits ts b;
     let op = EditOp edit_op;
     h \<leftarrow> history_push op (buffer_history b);
     h \<leftarrow> push_undo (timestamp op) h;
     let b = observe_version (timestamp op) (b\<lparr>buffer_history := h\<rparr>);
     (r, b) \<leftarrow> end_transaction_at later b;
     Some (op, b)
   }"

definition set_line_ending :: "line_ending \<Rightarrow> buffer \<Rightarrow> buffer" where
  "set_line_ending ending b = b\<lparr>snapshot := (snapshot b)\<lparr>line_ending := ending\<rparr>\<rparr>"

section \<open>Waiting\<close>

text \<open>\<open>n\<close> is the number of the first new channel; the result is the list of channels to wait for.\<close>

fun wait_for_edits :: "nat \<Rightarrow> lamport list \<Rightarrow> buffer \<Rightarrow> nat list \<times> buffer" where
  "wait_for_edits n [] b = ([], b)"
| "wait_for_edits n (edit_id # ids) b =
     (if \<not> observed (buffer_version b) edit_id then
        (let txs = (case edit_id_resolvers b edit_id of Some txs \<Rightarrow> txs | None \<Rightarrow> []);
             b = b\<lparr>edit_id_resolvers := (edit_id_resolvers b)(edit_id \<mapsto> txs @ [n])\<rparr>;
             (futures, b) = wait_for_edits (Suc n) ids b
         in (n # futures, b))
      else wait_for_edits n ids b)"

definition wait_for_version :: "nat \<Rightarrow> global \<Rightarrow> buffer \<Rightarrow> nat option \<times> buffer" where
  "wait_for_version n v b =
     (if \<not> observed_all (buffer_version b) v
      then (Some n, b\<lparr>wait_for_version_txs := wait_for_version_txs b @ [(v, n)]\<rparr>)
      else (None, b))"

definition give_up_waiting :: "buffer \<Rightarrow> buffer" where
  "give_up_waiting b = b\<lparr>edit_id_resolvers := Map.empty, wait_for_version_txs := []\<rparr>"

definition resolve_edit :: "lamport \<Rightarrow> buffer \<Rightarrow> buffer" where
  "resolve_edit edit_id b =
     (case edit_id_resolvers b edit_id of
        Some txs \<Rightarrow> b\<lparr>edit_id_resolvers := (edit_id_resolvers b)(edit_id := None), sent_txs := sent_txs b @ txs\<rparr>
      | None \<Rightarrow> b)"

text \<open>The \<^verbatim>\<open>retain_mut\<close> loop at the end of \<^verbatim>\<open>apply_op\<close>.\<close>

definition notify_waiters :: "buffer \<Rightarrow> buffer" where
  "notify_waiters b =
     (let arrived = (\<lambda>(v, tx). observed_all (buffer_version b) v)
      in b\<lparr>wait_for_version_txs := filter (\<lambda>w. \<not> arrived w) (wait_for_version_txs b),
           sent_txs := sent_txs b @ map snd (filter arrived (wait_for_version_txs b))\<rparr>)"

section \<open>Delivering operations\<close>

definition buffer_apply_remote_edit :: "edit_operation \<Rightarrow> buffer \<Rightarrow> buffer option" where
  "buffer_apply_remote_edit e b = do {
     (p, s) \<leftarrow> apply_remote_edit (edit_version e) (edit_ranges e) (edit_new_text e) (edit_timestamp e) (snapshot b);
     subs \<leftarrow> (case p of Some edits \<Rightarrow> publish edits (subscriptions b) | None \<Rightarrow> Some (subscriptions b));
     Some (b\<lparr>snapshot := s, subscriptions := subs\<rparr>)
   }"

definition buffer_apply_undo :: "undo_operation \<Rightarrow> buffer \<Rightarrow> buffer option" where
  "buffer_apply_undo u b = do {
     (edits, s) \<leftarrow> apply_undo u (snapshot b);
     subs \<leftarrow> publish edits (subscriptions b);
     Some (b\<lparr>snapshot := s, subscriptions := subs\<rparr>)
   }"

definition observe_operation :: "lamport \<Rightarrow> buffer \<Rightarrow> buffer" where
  "observe_operation ts b = (observe_version ts b)\<lparr>lamport_clock := lamport_observe (lamport_clock b) ts\<rparr>"

definition apply_op :: "operation \<Rightarrow> buffer \<Rightarrow> buffer option" where
  "apply_op op b = do {
     b \<leftarrow> (case op of
        EditOp e \<Rightarrow>
          (if \<not> observed (buffer_version b) (edit_timestamp e) then do {
             b \<leftarrow> buffer_apply_remote_edit e b;
             Some (resolve_edit (edit_timestamp e) (observe_operation (edit_timestamp e) b)) }
           else Some b)
      | UndoOp u \<Rightarrow>
          (if \<not> observed (buffer_version b) (undo_timestamp u) then do {
             b \<leftarrow> buffer_apply_undo u b;
             Some (observe_operation (undo_timestamp u) b) }
           else Some b));
     Some (notify_waiters b)
   }"

definition operation_version :: "operation \<Rightarrow> global" where
  "operation_version op = (case op of EditOp e \<Rightarrow> edit_version e | UndoOp u \<Rightarrow> undo_version u)"

definition can_apply_op :: "operation \<Rightarrow> buffer \<Rightarrow> bool" where
  "can_apply_op op b =
     (if operation_replica_id op \<in> deferred_replicas b then False
      else observed_all (buffer_version b) (operation_version op))"

text \<open>The body that the loops of \<^verbatim>\<open>apply_ops\<close> and \<^verbatim>\<open>flush_deferred_ops\<close> share: apply the operation or defer it.\<close>

definition deliver :: "operation \<Rightarrow> buffer \<times> operation list \<Rightarrow> (buffer \<times> operation list) option" where
  "deliver op st = (case st of (b, deferred) \<Rightarrow>
     if can_apply_op op b then do { b \<leftarrow> apply_op op b; Some (b, deferred) }
     else Some (b\<lparr>deferred_replicas := insert (operation_replica_id op) (deferred_replicas b)\<rparr>, deferred @ [op]))"

fun flush_loop :: "operation list \<Rightarrow> buffer \<times> operation list \<Rightarrow> (buffer \<times> operation list) option" where
  "flush_loop [] st = Some st"
| "flush_loop (op # ops) st = do { st \<leftarrow> deliver op st; flush_loop ops st }"

definition flush_deferred_ops :: "buffer \<Rightarrow> buffer option" where
  "flush_deferred_ops b = do {
     let b = b\<lparr>deferred_replicas := {}\<rparr>;
     let (drained, q) = queue_drain timestamp (deferred_ops b);
     ops \<leftarrow> queue_iter drained;
     (b, deferred) \<leftarrow> flush_loop ops (b\<lparr>deferred_ops := q\<rparr>, []);
     q \<leftarrow> queue_insert timestamp deferred (deferred_ops b);
     Some (b\<lparr>deferred_ops := q\<rparr>)
   }"

fun apply_ops_loop :: "operation list \<Rightarrow> buffer \<times> operation list \<Rightarrow> (buffer \<times> operation list) option" where
  "apply_ops_loop [] st = Some st"
| "apply_ops_loop (op # ops) st = (case st of (b, deferred) \<Rightarrow> do {
     h \<leftarrow> history_push op (buffer_history b);
     st \<leftarrow> deliver op (b\<lparr>buffer_history := h\<rparr>, deferred);
     apply_ops_loop ops st })"

definition apply_ops :: "operation list \<Rightarrow> buffer \<Rightarrow> buffer option" where
  "apply_ops ops b = do {
     (b, deferred) \<leftarrow> apply_ops_loop ops (b, []);
     q \<leftarrow> queue_insert timestamp deferred (deferred_ops b);
     flush_deferred_ops (b\<lparr>deferred_ops := q\<rparr>)
   }"

definition has_deferred_ops :: "buffer \<Rightarrow> bool" where
  "has_deferred_ops b = (\<not> queue_is_empty (deferred_ops b))"

section \<open>Undo and redo\<close>

definition u32_saturating_add :: "32 word \<Rightarrow> 32 word \<Rightarrow> 32 word" where
  "u32_saturating_add a b = (if a + b < a then - 1 else a + b)"

text \<open>A \<^verbatim>\<open>HashMap\<close> of counts is an association list; the order of its entries is not observable in \<^verbatim>\<open>apply_undo\<close>, which
  sorts what it reads from it.\<close>

fun redo_counts :: "undo_map \<Rightarrow> lamport list \<Rightarrow> (lamport \<times> 32 word) list \<Rightarrow> (lamport \<times> 32 word) list option" where
  "redo_counts m [] counts = Some counts"
| "redo_counts m (edit_id # ids) counts = do {
     n \<leftarrow> undo_count (undo_fuel m) edit_id m;
     redo_counts m ids (AList.update edit_id (u32_saturating_add n 1) counts)
   }"

definition undo_operations :: "(lamport \<times> 32 word) list \<Rightarrow> buffer \<Rightarrow> (operation \<times> buffer) option" where
  "undo_operations counts b = do {
     let (ts, clock) = tick (lamport_clock b);
     let undo = \<lparr>undo_timestamp = ts, undo_version = buffer_version b, undo_counts = counts\<rparr>;
     let b = observe_version ts (b\<lparr>lamport_clock := clock\<rparr>);
     b \<leftarrow> buffer_apply_undo undo b;
     Some (UndoOp undo, b)
   }"

definition undo_or_redo :: "transaction \<Rightarrow> buffer \<Rightarrow> (operation \<times> buffer) option" where
  "undo_or_redo t b = do {
     counts \<leftarrow> redo_counts (undo_map (snapshot b)) (edit_ids t) [];
     (op, b) \<leftarrow> undo_operations counts b;
     h \<leftarrow> history_push op (buffer_history b);
     Some (op, b\<lparr>buffer_history := h\<rparr>)
   }"

definition buffer_undo :: "buffer \<Rightarrow> ((lamport \<times> operation) option \<times> buffer) option" where
  "buffer_undo b = do {
     (r, h) \<leftarrow> pop_undo (buffer_history b);
     (case r of
        Some entry \<Rightarrow> do {
          let t = entry_transaction entry;
          (op, b) \<leftarrow> undo_or_redo t (b\<lparr>buffer_history := h\<rparr>);
          Some (Some (transaction_id t, op), b) }
      | None \<Rightarrow> Some (None, b\<lparr>buffer_history := h\<rparr>))
   }"

definition buffer_redo :: "buffer \<Rightarrow> ((lamport \<times> operation) option \<times> buffer) option" where
  "buffer_redo b = do {
     (r, h) \<leftarrow> pop_redo (buffer_history b);
     (case r of
        Some entry \<Rightarrow> do {
          let t = entry_transaction entry;
          (op, b) \<leftarrow> undo_or_redo t (b\<lparr>buffer_history := h\<rparr>);
          Some (Some (transaction_id t, op), b) }
      | None \<Rightarrow> Some (None, b\<lparr>buffer_history := h\<rparr>))
   }"

definition undo_transaction :: "lamport \<Rightarrow> buffer \<Rightarrow> (operation option \<times> buffer) option" where
  "undo_transaction tid b = do {
     (r, h) \<leftarrow> remove_from_undo tid (buffer_history b);
     (case r of
        Some entry \<Rightarrow> do {
          (op, b) \<leftarrow> undo_or_redo (entry_transaction entry) (b\<lparr>buffer_history := h\<rparr>);
          Some (Some op, b) }
      | None \<Rightarrow> Some (None, b\<lparr>buffer_history := h\<rparr>))
   }"

fun undo_or_redo_all :: "transaction list \<Rightarrow> buffer \<Rightarrow> (operation list \<times> buffer) option" where
  "undo_or_redo_all [] b = Some ([], b)"
| "undo_or_redo_all (t # ts) b = do {
     (op, b) \<leftarrow> undo_or_redo t b;
     (ops, b) \<leftarrow> undo_or_redo_all ts b;
     Some (op # ops, b)
   }"

definition undo_to_transaction :: "lamport \<Rightarrow> buffer \<Rightarrow> (operation list \<times> buffer) option" where
  "undo_to_transaction tid b = do {
     (es, h) \<leftarrow> remove_from_undo_until tid (buffer_history b);
     undo_or_redo_all (map entry_transaction es) (b\<lparr>buffer_history := h\<rparr>)
   }"

definition redo_to_transaction :: "lamport \<Rightarrow> buffer \<Rightarrow> (operation list \<times> buffer) option" where
  "redo_to_transaction tid b = do {
     (es, h) \<leftarrow> remove_from_redo tid (buffer_history b);
     undo_or_redo_all (map entry_transaction es) (b\<lparr>buffer_history := h\<rparr>)
   }"

section \<open>Edited snapshots\<close>

text \<open>An edit is made on a copy of the snapshot; the buffer can be moved to the copy later, unless it has changed.\<close>

record edited_buffer_snapshot =
  base_version :: global
  edited_snapshot :: buffer_snapshot
  did_edit :: bool

definition snapshot_with_edits ::
  "(char list \<Rightarrow> cow) \<Rightarrow> bool \<Rightarrow> ((nat \<times> nat) \<times> char list) list \<Rightarrow> buffer \<Rightarrow> (edited_buffer_snapshot \<times> buffer) option" where
  "snapshot_with_edits replace_all debug edits b = do {
     let s = snapshot b;
     edits \<leftarrow> resolve_ranges debug s edits;
     (if edits = [] then Some (\<lparr>base_version = buffer_version b, edited_snapshot = s, did_edit = False\<rparr>, b)
      else do {
        let (ts, clock) = tick (lamport_clock b);
        (edit_op, edits_patch, s) \<leftarrow> apply_edit_internal replace_all edits ts s;
        let s = s\<lparr>version := global_observe (version s) ts\<rparr>;
        Some (\<lparr>base_version = buffer_version b, edited_snapshot = s, did_edit = True\<rparr>, b\<lparr>lamport_clock := clock\<rparr>) })
   }"

definition fast_forward :: "edited_buffer_snapshot \<Rightarrow> buffer \<Rightarrow> buffer option" where
  "fast_forward edited b =
     (if changed_since (buffer_version b) (base_version edited) then None
      else Some (b\<lparr>snapshot := edited_snapshot edited,
                   lamport_clock := foldl lamport_observe (lamport_clock b) (global_iter (version (edited_snapshot edited)))\<rparr>))"

definition set_group_interval :: "nat \<Rightarrow> buffer \<Rightarrow> buffer" where
  "set_group_interval interval b = b\<lparr>buffer_history := (buffer_history b)\<lparr>group_interval := interval\<rparr>\<rparr>"

end
