(* ===== verification/Buffer_Correct.thy ===== *)
theory Buffer_Correct
  imports BufferState Replication
begin

text \<open>
  The invariant of a buffer, and that editing keeps it.  It ties the snapshot to the clock, the history and the
  subscribers: the clock is ahead of everything the buffer has seen, so that a timestamp it hands out is
  new; the version has observed everything the snapshot contains; the history is well formed.
\<close>

section \<open>Invariant\<close>

text \<open>The clock is ahead of the bytes, their deletions, the undo operations, the transactions and everything that the
  version has observed.\<close>

definition clock_ahead :: "buffer \<Rightarrow> piece list \<Rightarrow> bool" where
  "clock_ahead b ps \<longleftrightarrow> newest (lamport_clock b) ps
     \<and> (\<forall>e \<in> set (items (undo_map (snapshot b))). fst (undo_key e) < lamport_clock b \<and> snd (undo_key e) < lamport_clock b)
     \<and> (\<forall>i \<in> set (stack_ids (buffer_history b)). i < lamport_clock b)
     \<and> (\<forall>i \<in> set (stack_edits (undo_stack (buffer_history b))) \<union> set (stack_edits (redo_stack (buffer_history b))). i < lamport_clock b)
     \<and> (\<forall>r. global_get (buffer_version b) r < lamport_value (lamport_clock b))
     \<and> base_timestamp \<le> lamport_clock b \<and> (0 < transaction_depth (buffer_history b) \<longrightarrow> base_timestamp < lamport_clock b)"

definition history_ok :: "history \<Rightarrow> bool" where
  "history_ok h \<longleftrightarrow> hist_wf h \<and> map_wf (operations h)
     \<and> base_timestamp \<notin> set (stack_edits (undo_stack h)) \<union> set (stack_edits (redo_stack h))"

definition buffer_ok :: "buffer \<Rightarrow> piece list \<Rightarrow> bool" where
  "buffer_ok b ps \<longleftrightarrow> snapshot_ok (snapshot b) ps \<and> undo_wf (undo_map (snapshot b)) \<and> prescribed (undo_map (snapshot b)) ps
     \<and> saw_all (snapshot b) ps \<and> (\<forall>c \<in> set (cells ps). lamport_value (c_timestamp c) \<noteq> 0)
     \<and> clock_ahead b ps \<and> history_ok (buffer_history b) \<and> topic_wf (subscriptions b)"

text \<open>The depth the stacks of the cursors allow.\<close>

definition buffer_fits :: "buffer \<Rightarrow> bool" where
  "buffer_fits b \<longleftrightarrow> heights_ok (snapshot b) \<and> height (operations (buffer_history b)) < STACK_CAPACITY"

lemma snapshot_ok_version [simp]: "snapshot_ok (s\<lparr>version := v\<rparr>) ps = snapshot_ok s ps" "heights_ok (s\<lparr>version := v\<rparr>) = heights_ok s"
  by (simp_all add: snapshot_ok_def heights_ok_def)

section \<open>Clocks\<close>

text \<open>The timestamp of an edit is the one after the transaction's, which is only taken at depth 0.\<close>

lemma succ_below_top:
  fixes n :: "32 word"
  assumes "n < - 2"
  shows "n \<noteq> - 1" "n + 1 \<noteq> - 1"
proof -
  have "\<not> (- 1 :: 32 word) < - 2" by simp
  then show "n \<noteq> - 1" using assms by auto
  have "n = - 2" if "n + 1 = - 1"
    using that by (metis add_diff_cancel_right' diff_minus_eq_add minus_add_distrib one_add_one uminus_add_conv_diff)
  then show "n + 1 \<noteq> - 1" using assms by auto
qed

definition edit_clock :: "buffer \<Rightarrow> lamport" where
  "edit_clock b = (if transaction_depth (buffer_history b) = 0 then snd (tick (lamport_clock b)) else lamport_clock b)"

lemma edit_clock_ok:
  assumes "clock_ahead b ps" "lamport_value (lamport_clock b) < - 2"
  shows "lamport_clock b \<le> edit_clock b" "base_timestamp < edit_clock b" "edit_clock b < snd (tick (edit_clock b))" "lamport_value (edit_clock b) \<noteq> 0"
    "global_get (buffer_version b) r < lamport_value (edit_clock b)" "lamport_value (edit_clock b) < lamport_value (snd (tick (edit_clock b)))"
    "lamport_value (edit_clock b) \<noteq> - 1"
proof -
  note small = succ_below_top [OF assms(2)]
  have less: "lamport_clock b < snd (tick (lamport_clock b))" using small(1) by (rule tick_less)
  then show le: "lamport_clock b \<le> edit_clock b" by (simp add: edit_clock_def less_imp_le)
  have "lamport_value (lamport_clock b) \<le> lamport_value (edit_clock b)" using le by (auto simp: order.order_iff_strict lamport_less_iff)
  moreover have "global_get (buffer_version b) r < lamport_value (lamport_clock b)" using assms(1) by (simp add: clock_ahead_def)
  ultimately show "global_get (buffer_version b) r < lamport_value (edit_clock b)" by simp
  have "base_timestamp \<le> lamport_clock b" "0 < transaction_depth (buffer_history b) \<longrightarrow> base_timestamp < lamport_clock b"
    using assms(1) by (simp_all add: clock_ahead_def)
  then show base: "base_timestamp < edit_clock b" using less by (auto simp: edit_clock_def)
  show top: "lamport_value (edit_clock b) \<noteq> - 1" using small by (simp add: edit_clock_def tick_def)
  then show "edit_clock b < snd (tick (edit_clock b))" by (rule tick_less)
  show "lamport_value (edit_clock b) < lamport_value (snd (tick (edit_clock b)))" using top by (simp add: tick_def word_less_plus_1)
  show "lamport_value (edit_clock b) \<noteq> 0"
    using base by (auto simp: lamport_less_iff base_timestamp_def lamport_new_def)
qed

lemma newest_mono: "newest ts ps \<Longrightarrow> ts \<le> ts' \<Longrightarrow> newest ts' ps"
  by (auto simp: newest_def intro: less_le_trans)

section \<open>The bytes after an edit\<close>

lemma edited_cell:
  assumes "cells_edited ts dl ps ps'" "c \<in> set (cells ps')"
  obtains c0 where "c0 \<in> set (cells ps)" "c = c0 \<or> c = mark ts c0" | "c_timestamp c = ts" "c_deletions c = []"
proof (cases "old_cell ts c")
  case True
  then have "c \<in> set (filter (old_cell ts) (cells ps'))" using assms(2) by simp
  then have "c \<in> set (marks ts dl 0 (cells ps))" using assms(1) by (simp only: cells_edited_def)
  then show ?thesis using marks_origin that(1) by blast
next
  case False
  then have "c \<in> set (filter (\<lambda>c. \<not> old_cell ts c) (cells ps'))" using assms(2) by simp
  moreover obtain t where "filter (\<lambda>c. \<not> old_cell ts c) (cells ps') = map (\<lambda>(i, b). new_cell ts i b) (enumerate 0 t)"
    using assms(1) by (auto simp: cells_edited_def)
  ultimately have "c \<in> set (map (\<lambda>(i, b). new_cell ts i b) (enumerate 0 t))" by simp
  then show ?thesis using that(2) by (auto simp: new_cell_def)
qed

lemma newest_edited:
  assumes "cells_edited ts dl ps ps'" "newest ts ps" "ts < ts'"
  shows "newest ts' ps'"
  unfolding newest_def
proof
  fix c assume "c \<in> set (cells ps')"
  from assms(1) this show "c_timestamp c < ts' \<and> (\<forall>d \<in> set (c_deletions c). d < ts')"
  proof (cases rule: edited_cell)
    case (1 c0)
    then have "c_timestamp c0 < ts" "\<forall>d \<in> set (c_deletions c0). d < ts" using assms(2) by (auto simp: newest_def)
    then show ?thesis using 1(2) assms(3) by (auto simp: mark_def intro: less_trans)
  qed (use assms(3) in simp)
qed

lemma saw_all_edited:
  assumes "cells_edited ts dl ps ps'" "saw_all s ps" "undo_map s' = undo_map s" "version s' = global_observe (version s) ts"
  shows "saw_all s' ps'"
proof -
  have obs: "observed (version s') t" if "observed (version s) t \<or> t = ts" for t
    using that by (auto simp: assms(4) vv.has_obs)
  have "observed (version s') (c_timestamp c) \<and> (\<forall>d \<in> set (c_deletions c). observed (version s') d)" if "c \<in> set (cells ps')" for c
    using assms(1) that
  proof (cases rule: edited_cell)
    case (1 c0)
    then have "observed (version s) (c_timestamp c0)" "\<forall>d \<in> set (c_deletions c0). observed (version s) d"
      using assms(2) by (auto simp: saw_all_def)
    then show ?thesis using 1(2) obs by (auto simp: mark_def)
  qed (use obs in simp)
  then show ?thesis using assms(2,3) obs by (simp add: saw_all_def)
qed

lemma counted_edited:
  assumes "cells_edited ts dl ps ps'" "\<forall>c \<in> set (cells ps). lamport_value (c_timestamp c) \<noteq> 0" "lamport_value ts \<noteq> 0"
  shows "\<forall>c \<in> set (cells ps'). lamport_value (c_timestamp c) \<noteq> 0"
proof
  fix c assume "c \<in> set (cells ps')"
  from assms(1) this show "lamport_value (c_timestamp c) \<noteq> 0"
    by (cases rule: edited_cell) (use assms(2,3) in \<open>auto simp: mark_def\<close>)
qed

lemma not_undone_new:
  assumes "\<forall>e \<in> set (items m). fst (undo_key e) \<noteq> d"
  shows "\<not> undone m d"
proof -
  have "edit_counts (\<lambda>_. True) d m = []" using assms by (simp add: edit_counts_def filter_empty_conv)
  then show ?thesis by (simp add: undone_def max_count_def)
qed

section \<open>History\<close>

lemma resolve_ranges_ok: "edits_ok (visible_text s) a es \<Longrightarrow> resolve_ranges debug s es = Some es"
  by (induction "visible_text s" a es rule: edits_ok.induct) (auto simp: usize_to_offset_def)

lemma end_transaction_operations: "end_transaction now h = Some (r, h') \<Longrightarrow> operations h' = operations h"
  by (auto simp: end_transaction_def Let_def split: if_splits bind_splits)

lemma end_transaction_ids: "end_transaction now h = Some (r, h') \<Longrightarrow> set (stack_ids h') \<subseteq> set (stack_ids h)"
  by (auto simp: end_transaction_def Let_def stack_ids_def list_last_Some split: if_splits bind_splits)

lemma end_transaction_entry: "end_transaction now h = Some (Some e, h') \<Longrightarrow> undo_stack h' \<noteq> []"
  by (auto simp: end_transaction_def Let_def split: if_splits bind_splits)

lemma group_operations: "group h = Some (r, h') \<Longrightarrow> operations h' = operations h"
  by (auto simp: group_def group_trailing_def Let_def split: if_splits bind_splits option.splits list.splits)

text \<open>Ending a transaction keeps the edits on the undo stack; the \<^verbatim>\<open>unwrap\<close> of the group's identifier succeeds.\<close>

lemma end_transaction_at_ok:
  assumes "hist_wf (buffer_history b)" "0 < transaction_depth (buffer_history b)"
  shows "\<exists>r h. end_transaction_at now b = Some (r, b\<lparr>buffer_history := h\<rparr>) \<and> hist_wf h \<and> operations h = operations (buffer_history b)
    \<and> stack_edits (undo_stack h) = stack_edits (undo_stack (buffer_history b)) \<and> set (stack_ids h) \<subseteq> set (stack_ids (buffer_history b))
    \<and> set (stack_edits (redo_stack h)) \<subseteq> set (stack_edits (redo_stack (buffer_history b)))
    \<and> transaction_depth h = transaction_depth (buffer_history b) - 1"
proof -
  let ?h = "buffer_history b"
  from end_transaction_ok [OF assms] obtain r h1 where 1: "end_transaction now ?h = Some (r, h1)" "hist_wf h1"
      "transaction_depth h1 = transaction_depth ?h - 1" "stack_edits (undo_stack h1) = stack_edits (undo_stack ?h)"
      "redo_stack h1 = redo_stack ?h \<or> redo_stack h1 = []" by blast
  note 2 = end_transaction_operations [OF 1(1)] end_transaction_ids [OF 1(1)]
  show ?thesis
  proof (cases r)
    case None
    then show ?thesis using 1 2 by (intro exI [of _ None] exI [of _ h1]) (auto simp: end_transaction_at_def)
  next
    case (Some e)
    from group_ok [OF 1(2)] obtain r' h2 where g: "group h1 = Some (r', h2)" "hist_wf h2"
        "stack_edits (undo_stack h2) = stack_edits (undo_stack h1)" "redo_stack h2 = redo_stack h1"
        "undo_stack h1 \<noteq> [] \<longrightarrow> undo_stack h2 \<noteq> []" "r' = map_option entry_id (list_last (undo_stack h2))"
        "transaction_depth h2 = transaction_depth h1" "set (map entry_id (undo_stack h2)) \<subseteq> set (map entry_id (undo_stack h1))" by blast
    have "undo_stack h2 \<noteq> []" using g(5) end_transaction_entry [OF 1(1) [unfolded Some]] by simp
    then obtain tid where tid: "r' = Some tid" using g(6) by (cases "undo_stack h2" rule: rev_cases) auto
    have "set (stack_ids h2) \<subseteq> set (stack_ids h1)" using g(4,8) by (auto simp: stack_ids_def)
    then show ?thesis
      using 1 2 g(1-4,7) group_operations [OF g(1)] Some tid
      by (intro exI [of _ "Some (tid, transaction_start (entry_transaction e))"] exI [of _ h2]) (auto simp: end_transaction_at_def)
  qed
qed

lemma start_edit_transaction:
  assumes "hist_wf h" "clock \<notin> set (stack_ids h)"
  shows "\<exists>r h'. start_transaction since now clock h = (r, if transaction_depth h = 0 then snd (tick clock) else clock, h')
    \<and> hist_wf h' \<and> 0 < transaction_depth h' \<and> operations h' = operations h \<and> redo_stack h' = redo_stack h
    \<and> stack_edits (undo_stack h') = stack_edits (undo_stack h) \<and> set (stack_ids h') \<subseteq> insert clock (set (stack_ids h))"
proof -
  from start_transaction_ok [OF assms, of since now] obtain r c' h' where
    s: "start_transaction since now clock h = (r, c', h')" "hist_wf h'" "transaction_depth h' = transaction_depth h + 1"
      "redo_stack h' = redo_stack h" "operations h' = operations h"
      "if transaction_depth h = 0
       then r = Some clock \<and> (\<exists>e. undo_stack h' = undo_stack h @ [e] \<and> entry_id e = clock \<and> entry_edits e = [])
       else r = None \<and> undo_stack h' = undo_stack h" by blast
  have "c' = (if transaction_depth h = 0 then snd (tick clock) else clock)"
    using s(1) by (auto simp: start_transaction_def Let_def tick_def split: if_splits)
  then show ?thesis using s by (auto simp: stack_ids_def split: if_splits)
qed

text \<open>Recording an operation and pushing it on the open transaction.\<close>

lemma record_edit_ok:
  assumes "hist_wf h" "0 < transaction_depth h" "map_wf (operations h)" "height (operations h) < STACK_CAPACITY"
  shows "\<exists>h1 h2. history_push (EditOp e) h = Some h1 \<and> push_undo (edit_timestamp e) h1 = Some h2 \<and> hist_wf h2 \<and> map_wf (operations h2)
    \<and> map_get (edit_timestamp e) (operations h2) = Some (EditOp e) \<and> redo_stack h2 = redo_stack h
    \<and> transaction_depth h2 = transaction_depth h \<and> set (stack_ids h2) = set (stack_ids h)
    \<and> stack_edits (undo_stack h2) = stack_edits (undo_stack h) @ [edit_timestamp e]"
proof -
  from map_insert_ok [OF assms(3,4), of "edit_timestamp e" "EditOp e"] obtain m where
    m: "map_insert (edit_timestamp e) (EditOp e) (operations h) = Some m" "map_wf m" "map_abs m (edit_timestamp e) = Some (EditOp e)" by auto
  let ?h = "h\<lparr>operations := m\<rparr>"
  have get: "map_get (edit_timestamp e) m = Some (EditOp e)" using map_get_ok [OF m(2)] m(3) by simp
  have wf: "hist_wf ?h" using assms(1) by (simp add: hist_wf_def stack_ids_def)
  from push_undo_ok [OF wf, of "edit_timestamp e"] assms(2) get obtain h2 where
    h2: "push_undo (edit_timestamp e) ?h = Some h2" "hist_wf h2" "redo_stack h2 = redo_stack h" "transaction_depth h2 = transaction_depth h"
      "stack_edits (undo_stack h2) = stack_edits (undo_stack h) @ [edit_timestamp e]" by auto
  have "operations h2 = m" "set (stack_ids h2) = set (stack_ids h)"
    using h2(1) get assms(2) by (auto simp: push_undo_def Let_def stack_ids_def list_last_Some split: if_splits bind_splits)
  then show ?thesis using m(1,2) h2 get by (simp add: history_push_def timestamp_def)
qed

lemma history_push_ok:
  assumes "history_ok h" "height (operations h) < STACK_CAPACITY"
  shows "\<exists>m. history_push op h = Some (h\<lparr>operations := m\<rparr>) \<and> map_wf m \<and> map_get (timestamp op) m = Some op"
proof -
  have "map_wf (operations h)" using assms(1) by (simp add: history_ok_def)
  from map_insert_ok [OF this assms(2), of "timestamp op" op] obtain m where
    "map_insert (timestamp op) op (operations h) = Some m" "map_wf m" "map_abs m (timestamp op) = Some op" by auto
  then show ?thesis using map_get_ok [of m "timestamp op"] by (intro exI [of _ m]) (simp add: history_push_def)
qed

lemma history_ok_operations: "history_ok h \<Longrightarrow> map_wf m \<Longrightarrow> history_ok (h\<lparr>operations := m\<rparr>)"
  by (simp add: history_ok_def hist_wf_def stack_ids_def)

section \<open>Editing\<close>

lemma apply_local_edit_ok:
  assumes b: "snapshot_ok (snapshot b) ps" "heights_ok (snapshot b)" "topic_wf (subscriptions b)"
    and ts: "newest ts ps" "lamport_MIN < ts"
    and ra: "replaces_line_separators ra" and es: "edits_ok (visible_text (snapshot b)) 0 es" "length (concat (map snd es)) < 2 ^ 32"
  shows "\<exists>e s subs ps'. apply_local_edit ra debug es ts b = Some (e, b\<lparr>snapshot := s, subscriptions := subs\<rparr>)
    \<and> snapshot_ok s ps' \<and> same_frame (snapshot b) s \<and> topic_wf subs \<and> cells_edited ts (deletes ps es) ps ps'
    \<and> visible_text s = splice (visible_text (snapshot b)) 0 (normalized es) \<and> edit_timestamp e = ts \<and> edit_version e = buffer_version b
    \<and> (\<exists>p. apply_edit_internal ra es ts (snapshot b) = Some (e, p, s))"
proof -
  have "list_all piece_ok ps" using edit_base_root(4) snapshot_base b(1,2) by blast
  note fresh = newest_fresh(1) [OF ts(1) this]
  have "ts \<noteq> lamport_MIN" using ts(2) by auto
  from apply_edit_internal_ok [OF b(1,2) fresh this ra es] obtain e p s ps' where
    e: "apply_edit_internal ra es ts (snapshot b) = Some (e, p, s)" "snapshot_ok s ps'" "same_frame (snapshot b) s"
      "visible_text s = splice (visible_text (snapshot b)) 0 (normalized es)" "cells_edited ts (deletes ps es) ps ps'" "patch_wf p"
      "edit_timestamp e = ts" "edit_version e = buffer_version b" by blast
  from publish_ok [OF b(3) e(6)] obtain subs where "publish p (subscriptions b) = Some subs" "topic_wf subs" by blast
  then show ?thesis
    using e resolve_ranges_ok [OF es(1)]
    by (intro exI [of _ e] exI [of _ s] exI [of _ subs] exI [of _ ps']) (simp add: apply_local_edit_def)
qed

text \<open>The whole handler: open a transaction, edit under a new timestamp, record the operation, close.\<close>

lemma buffer_edit_ok:
  assumes b: "buffer_ok b ps" "buffer_fits b" and clock: "lamport_value (lamport_clock b) < - 2"
    and ra: "replaces_line_separators ra" and es: "edits_ok (visible_text (snapshot b)) 0 es" "length (concat (map snd es)) < 2 ^ 32"
  shows "\<exists>e b' ps' p s'. buffer_edit ra debug now later es b = Some (EditOp e, b') \<and> buffer_ok b' ps'
    \<and> visible_text (snapshot b') = splice (visible_text (snapshot b)) 0 (normalized es)
    \<and> edit_timestamp e = edit_clock b \<and> edit_version e = buffer_version b
    \<and> buffer_version b' = global_observe (buffer_version b) (edit_timestamp e)
    \<and> map_get (edit_timestamp e) (operations (buffer_history b')) = Some (EditOp e)
    \<and> stack_edits (undo_stack (buffer_history b')) = stack_edits (undo_stack (buffer_history b)) @ [edit_timestamp e]
    \<and> apply_edit_internal ra es (edit_clock b) (snapshot b) = Some (e, p, s') \<and> snapshot b' = s'\<lparr>version := buffer_version b'\<rparr>
    \<and> undo_map s' = undo_map (snapshot b)"
proof -
  let ?h = "buffer_history b" and ?ts = "edit_clock b" and ?s = "snapshot b"
  let ?c2 = "snd (tick ?ts)"
  have ok: "snapshot_ok ?s ps" "undo_wf (undo_map ?s)" "prescribed (undo_map ?s) ps" "saw_all ?s ps"
      "\<forall>c \<in> set (cells ps). lamport_value (c_timestamp c) \<noteq> 0" "clock_ahead b ps" "history_ok ?h" "topic_wf (subscriptions b)"
    using b(1) by (simp_all add: buffer_ok_def)
  have h: "hist_wf ?h" "map_wf (operations ?h)" "base_timestamp \<notin> set (stack_edits (undo_stack ?h)) \<union> set (stack_edits (redo_stack ?h))"
    using ok(7) by (simp_all add: history_ok_def)
  have ahead: "newest (lamport_clock b) ps" "\<forall>i \<in> set (stack_ids ?h). i < lamport_clock b"
      "\<forall>e \<in> set (items (undo_map ?s)). fst (undo_key e) < lamport_clock b \<and> snd (undo_key e) < lamport_clock b"
      "\<forall>i \<in> set (stack_edits (undo_stack ?h)) \<union> set (stack_edits (redo_stack ?h)). i < lamport_clock b"
    using ok(6) by (simp_all add: clock_ahead_def)
  note ts = edit_clock_ok [OF ok(6) clock]
  have new: "newest ?ts ps" using newest_mono [OF ahead(1) ts(1)] .
  have ids: "lamport_clock b \<notin> set (stack_ids ?h)" using ahead(2) by auto
  obtain r h1 where st: "start_transaction (version ?s) now (lamport_clock b) ?h = (r, ?ts, h1)" "hist_wf h1" "0 < transaction_depth h1"
      "operations h1 = operations ?h" "redo_stack h1 = redo_stack ?h" "stack_edits (undo_stack h1) = stack_edits (undo_stack ?h)"
      "set (stack_ids h1) \<subseteq> insert (lamport_clock b) (set (stack_ids ?h))"
    using start_edit_transaction [OF h(1) ids, of "version ?s" now] unfolding edit_clock_def by blast
  let ?b1 = "b\<lparr>buffer_history := h1, lamport_clock := ?c2\<rparr>"
  have "lamport_MIN < ?ts" using ts(2) lamport_MIN_least(2) [of base_timestamp] by (rule order_le_less_trans [rotated])
  with apply_local_edit_ok [of ?b1 ps ?ts ra es debug] ok(1,8) b(2) new ra es obtain e s subs ps' p where
    le: "apply_local_edit ra debug es ?ts ?b1 = Some (e, ?b1\<lparr>snapshot := s, subscriptions := subs\<rparr>)"
      "snapshot_ok s ps'" "same_frame ?s s" "topic_wf subs" "cells_edited ?ts (deletes ps es) ps ps'"
      "visible_text s = splice (visible_text ?s) 0 (normalized es)" "edit_timestamp e = ?ts" "edit_version e = version ?s"
      "apply_edit_internal ra es ?ts ?s = Some (e, p, s)"
    by (auto simp: buffer_fits_def)
  have "height (operations h1) < STACK_CAPACITY" "map_wf (operations h1)" using b(2) h(2) st(4) by (simp_all add: buffer_fits_def)
  from record_edit_ok [OF st(2,3) this(2,1), of e] obtain h2 h3 where
    rec: "history_push (EditOp e) h1 = Some h2" "push_undo (edit_timestamp e) h2 = Some h3" "hist_wf h3" "map_wf (operations h3)"
      "map_get ?ts (operations h3) = Some (EditOp e)" "redo_stack h3 = redo_stack h1" "transaction_depth h3 = transaction_depth h1"
      "set (stack_ids h3) = set (stack_ids h1)" "stack_edits (undo_stack h3) = stack_edits (undo_stack h1) @ [?ts]" unfolding le(7) by blast
  let ?s' = "s\<lparr>version := global_observe (version s) ?ts\<rparr>"
  let ?b2 = "?b1\<lparr>subscriptions := subs, buffer_history := h3, snapshot := ?s'\<rparr>"
  from end_transaction_at_ok [of ?b2 later] rec(3,7) st(3) obtain r' h4 where
    en: "end_transaction_at later ?b2 = Some (r', ?b2\<lparr>buffer_history := h4\<rparr>)" "hist_wf h4" "operations h4 = operations h3"
      "stack_edits (undo_stack h4) = stack_edits (undo_stack h3)" "set (stack_ids h4) \<subseteq> set (stack_ids h3)"
      "set (stack_edits (redo_stack h4)) \<subseteq> set (stack_edits (redo_stack h3))" by auto
  let ?b' = "?b2\<lparr>buffer_history := h4\<rparr>"
  have frame: "undo_map s = undo_map ?s" "version s = version ?s" using le(3) by (simp_all add: same_frame_def)
  have "buffer_edit ra debug now later es b = Some (EditOp e, ?b')"
    using st(1) le(1,7) rec(1,2) en(1)
    by (simp add: buffer_edit_def start_transaction_at_def Let_def timestamp_def case_prod_unfold tick_fst)
  moreover have "clock_ahead ?b' ps'"
  proof -
    have lt: "i < ?c2" if "i \<le> lamport_clock b" for i using that ts(1,3) by (meson order_le_less_trans)
    have "set (stack_ids h4) \<subseteq> insert (lamport_clock b) (set (stack_ids ?h))" using en(5) rec(8) st(7) by auto
    then have "\<forall>i \<in> set (stack_ids h4). i < ?c2" using ahead(2) lt by (auto simp: less_imp_le)
    moreover have "\<forall>i \<in> set (stack_edits (undo_stack h4)) \<union> set (stack_edits (redo_stack h4)). i < ?c2"
    proof
      fix i assume "i \<in> set (stack_edits (undo_stack h4)) \<union> set (stack_edits (redo_stack h4))"
      then have "i = ?ts \<or> i \<in> set (stack_edits (undo_stack ?h)) \<union> set (stack_edits (redo_stack ?h))"
        using en(4,6) rec(6,9) st(5,6) by auto
      then show "i < ?c2" using ahead(4) lt ts(3) by (metis less_imp_le)
    qed
    moreover have "newest ?c2 ps'" by (rule newest_edited [OF le(5) new ts(3)])
    moreover have "base_timestamp < ?c2" using ts(2,3) by (rule less_trans)
    moreover have "global_get (global_observe (version ?s) ?ts) r < lamport_value ?c2" for r
      using ts(5) [of r] ts(6) by (auto simp: vv.get_obs intro: less_trans)
    ultimately show ?thesis using ahead(3) lt frame by (auto simp: clock_ahead_def less_imp_le)
  qed
  moreover have "history_ok h4"
    using en rec(3,4,6,9) h(3) st(5,6) ts(2) by (auto simp: history_ok_def)
  moreover have "saw_all ?s' ps'" by (rule saw_all_edited [OF le(5) ok(4)]) (simp_all add: frame)
  moreover have "\<forall>e \<in> set (items (undo_map ?s)). fst (undo_key e) \<noteq> ?ts" using ahead(3) ts(1) by fastforce
  then have "prescribed (undo_map ?s) ps'" by (intro prescribed_edited [OF le(5) ok(3)] not_undone_new)
  ultimately have "buffer_ok ?b' ps'"
    using le(2,4) ok(2) frame counted_edited [OF le(5) ok(5) ts(4)] by (simp add: buffer_ok_def)
  moreover have "snapshot ?b' = ?s'" "buffer_history ?b' = h4" by simp_all
  moreover have "stack_edits (undo_stack h4) = stack_edits (undo_stack ?h) @ [?ts]" using en(4) rec(9) st(6) by simp
  ultimately show ?thesis
    using le(6-9) rec(5) en(3) frame \<open>buffer_edit ra debug now later es b = Some (EditOp e, ?b')\<close>
    by (intro exI [of _ e] exI [of _ ?b'] exI [of _ ps'] exI [of _ p] exI [of _ s]) simp
qed

section \<open>New buffers\<close>

lemma new_snapshot_clock:
  assumes "new_snapshot rid bid ending text = Some (s, clock)"
  shows "version s = (if text = [] then global_new else global_observe global_new base_timestamp)
    \<and> clock = (if text = [] then lamport_new rid else lamport_observe (lamport_new rid) base_timestamp)"
  using assms by (auto simp: new_snapshot_def Let_def base_timestamp_def split: if_splits bind_splits)

lemma base_cells: "c \<in> set (cells (base_pieces text)) \<Longrightarrow> c_timestamp c = base_timestamp \<and> c_deletions c = [] \<and> text \<noteq> []"
  by (auto simp: base_pieces_def piece_cells_def mk_cell_def new_fragment_def split: if_splits)

lemma new_normalized_ok:
  assumes "starts_char text" "length text < 2 ^ 32"
  shows "\<exists>b. new_normalized rid bid ending text = Some b \<and> buffer_ok b (base_pieces text) \<and> buffer_fits b \<and> visible_text (snapshot b) = text
    \<and> undo_map (snapshot b) = tree_new undo_ops \<and> lamport_value (lamport_clock b) \<le> 2 \<and> transaction_depth (buffer_history b) = 0
    \<and> deferred_ops b = queue_new timestamp \<and> deferred_replicas b = {}
    \<and> buffer_version b = (if text = [] then global_new else global_observe global_new base_timestamp)"
proof -
  from new_snapshot_shown [OF assms, of rid bid ending] obtain s clock where
    s: "new_snapshot rid bid ending text = Some (s, clock)" "snapshot_ok s (base_pieces text)" "heights_ok s" "visible_text s = text"
      "undo_map s = tree_new undo_ops" "prescribed (undo_map s) (base_pieces text)" by blast
  let ?b = "mk_buffer s (history_new text) clock" and ?ps = "base_pieces text"
  have v: "version s = (if text = [] then global_new else global_observe global_new base_timestamp)"
    "clock = (if text = [] then lamport_new rid else lamport_observe (lamport_new rid) base_timestamp)"
    using new_snapshot_clock [OF s(1)] by auto
  have val: "clock = Lamport (if text = [] then 1 else 2) rid"
    using v(2) by (simp add: lamport_new_def lamport_observe_def base_timestamp_def)
  have base: "base_timestamp \<le> clock" "text \<noteq> [] \<Longrightarrow> base_timestamp < clock"
    by (auto simp: val base_timestamp_def lamport_new_def LOCAL_def lamport_less_iff order.order_iff_strict word_gt_0)
  have "global_get global_new r = 0" for r by (simp add: global_get_def global_new_def)
  then have get: "global_get (version s) r < lamport_value clock" for r
    by (simp add: v(1) val vv.get_obs base_timestamp_def lamport_new_def)
  have "saw_all s ?ps" using base_cells [of _ "text"] s(5) by (auto simp: saw_all_def v(1) vv.has_obs tree_new_def)
  moreover have "newest clock ?ps" using base_cells [of _ "text"] base(2) by (auto simp: newest_def)
  moreover have "\<forall>c \<in> set (cells ?ps). lamport_value (c_timestamp c) \<noteq> 0"
    using base_cells [of _ "text"] by (auto simp: base_timestamp_def lamport_new_def)
  moreover have "history_ok (history_new text)"
    by (simp add: history_ok_def history_new_def hist_wf_def stack_ids_def map_wf_def tree_map_default_def tree_new_def sum_summaries_def key_sorted_def)
  moreover have "topic_wf topic_default" by (simp add: topic_wf_def topic_default_def)
  ultimately have "buffer_ok ?b ?ps"
    using s(2,5,6) base(1) get
    by (simp add: buffer_ok_def clock_ahead_def mk_buffer_def history_new_def stack_ids_def tree_new_def [of undo_ops] undo_wf_def sum_summaries_def)
  moreover have "buffer_fits ?b"
    using s(3) by (simp add: buffer_fits_def mk_buffer_def history_new_def tree_map_default_def tree_new_def STACK_CAPACITY_def)
  ultimately show ?thesis
    using s v(1) by (simp add: new_normalized_def mk_buffer_def history_new_def val)
qed

section \<open>Edited snapshots\<close>

text \<open>A clock that is ahead of a version moves on by one for every entry of it.\<close>

lemma observe_behind:
  "\<forall>t \<in> set ts. lamport_value t \<le> lamport_value c \<Longrightarrow> unat (lamport_value c) + length ts < 2 ^ 32
    \<Longrightarrow> c \<le> foldl lamport_observe c ts \<and> lamport_value c \<le> lamport_value (foldl lamport_observe c ts)"
proof (induction ts arbitrary: c)
  case (Cons t ts)
  let ?c = "lamport_observe c t"
  have "lamport_value c \<noteq> - 1"
  proof
    assume "lamport_value c = - 1"
    then have "unat (lamport_value c) = 2 ^ 32 - 1" by (simp add: unsigned_minus_1_eq_mask mask_eq_exp_minus_1)
    then show False using Cons.prems(2) by simp
  qed
  then have less: "lamport_value c < lamport_value c + 1" by (rule word_less_plus_1)
  have val: "lamport_value ?c = lamport_value c + 1" using Cons.prems(1) by (simp add: lamport_observe_def max_absorb1)
  moreover have "1 + lamport_value c \<noteq> 0" using \<open>lamport_value c \<noteq> - 1\<close> by (metis add.commute eq_neg_iff_add_eq_0)
  ultimately have "unat (lamport_value ?c) = Suc (unat (lamport_value c))" using unatSuc [of "lamport_value c"] by (simp add: add.commute)
  then have "?c \<le> foldl lamport_observe ?c ts \<and> lamport_value ?c \<le> lamport_value (foldl lamport_observe ?c ts)"
    using Cons.prems less val by (intro Cons.IH) (auto intro: order_trans less_imp_le)
  moreover have "c < ?c" using less val by (simp add: lamport_less_iff)
  ultimately show ?case using less val by auto
qed simp

text \<open>Editing a copy and moving the buffer to it.\<close>

lemma fast_forward_ok:
  assumes b: "buffer_ok b ps" "buffer_fits b" "global_wf (buffer_version b)"
    and clock: "unat (lamport_value (lamport_clock b)) + 2 ^ 16 + 1 < 2 ^ 32"
    and ra: "replaces_line_separators ra"
    and es: "es \<noteq> []" "edits_ok (visible_text (snapshot b)) 0 es" "length (concat (map snd es)) < 2 ^ 32"
    and base: "base_timestamp < lamport_clock b"
  shows "\<exists>ed b1 b2 ps'. snapshot_with_edits ra debug es b = Some (ed, b1) \<and> snapshot b1 = snapshot b \<and> did_edit ed
    \<and> fast_forward ed b1 = Some b2 \<and> buffer_ok b2 ps'
    \<and> visible_text (snapshot b2) = splice (visible_text (snapshot b)) 0 (normalized es)"
proof -
  let ?s = "snapshot b" and ?ts = "lamport_clock b" and ?c = "snd (tick (lamport_clock b))"
  have ok: "snapshot_ok ?s ps" "undo_wf (undo_map ?s)" "prescribed (undo_map ?s) ps" "saw_all ?s ps"
      "\<forall>c \<in> set (cells ps). lamport_value (c_timestamp c) \<noteq> 0" "clock_ahead b ps" "history_ok (buffer_history b)" "topic_wf (subscriptions b)"
    using b(1) by (simp_all add: buffer_ok_def)
  have ahead: "newest ?ts ps" "\<forall>e \<in> set (items (undo_map ?s)). fst (undo_key e) < ?ts \<and> snd (undo_key e) < ?ts"
      "\<forall>r. global_get (version ?s) r < lamport_value ?ts"
    using ok(6) by (simp_all add: clock_ahead_def)
  have top: "lamport_value ?ts \<noteq> - 1"
    using clock by (auto simp: unsigned_minus_1_eq_mask mask_eq_exp_minus_1)
  note less = tick_less [OF top] and val = word_less_plus_1 [OF top]
  have pos: "lamport_MIN < ?ts" "lamport_value ?ts \<noteq> 0"
    using order_le_less_trans [OF lamport_MIN_least(2) base] base by (auto simp: lamport_less_iff base_timestamp_def lamport_new_def)
  have "heights_ok ?s" using b(2) by (simp add: buffer_fits_def)
  from apply_local_edit_ok [OF ok(1) this ok(8) ahead(1) pos(1) ra es(2,3)] obtain e s' ps' p where
    e: "snapshot_ok s' ps'" "same_frame ?s s'" "cells_edited ?ts (deletes ps es) ps ps'"
      "visible_text s' = splice (visible_text ?s) 0 (normalized es)" "apply_edit_internal ra es ?ts ?s = Some (e, p, s')" by blast
  let ?v = "global_observe (version ?s) ?ts"
  let ?ed = "\<lparr>base_version = version ?s, edited_snapshot = s'\<lparr>version := ?v\<rparr>, did_edit = True\<rparr>"
  let ?c' = "foldl lamport_observe ?c (global_iter ?v)"
  have frame: "undo_map s' = undo_map ?s" "version s' = version ?s" using e(2) by (simp_all add: same_frame_def)
  have get: "global_get ?v r \<le> lamport_value ?ts" for r using ahead(3) by (simp add: vv.get_obs less_imp_le)
  have wf: "global_wf ?v" using b(3) by (rule vv.wf_obs)
  have "lamport_value t \<le> lamport_value ?c" if t: "t \<in> set (global_iter ?v)" for t
  proof -
    obtain i where i: "i < length (global_values ?v)" "t = global_iter ?v ! i" using t unfolding in_set_conv_nth length_global_iter by blast
    then have "lamport_value t = global_get ?v (of_nat i)"
      using wf unat_of_nat_replica_id [of i] by (simp add: nth_global_iter global_get_def global_wf_def)
    then show ?thesis using get [of "of_nat i"] val by (simp add: tick_def)
  qed
  moreover have "unat (lamport_value ?c) \<le> Suc (unat (lamport_value ?ts))"
    using unatSuc [of "lamport_value ?ts"] by (cases "1 + lamport_value ?ts = 0") (simp_all add: tick_def add.commute)
  then have "unat (lamport_value ?c) + length (global_iter ?v) < 2 ^ 32" using clock wf by (simp add: global_wf_def)
  ultimately have "?c \<le> ?c'" "lamport_value ?c \<le> lamport_value ?c'" using observe_behind [of "global_iter ?v" ?c] by auto
  then have lt: "i < ?c'" if "i \<le> ?ts" for i using that less by (meson order_le_less_trans order_less_le_trans)
  let ?b' = "b\<lparr>lamport_clock := ?c', snapshot := s'\<lparr>version := ?v\<rparr>\<rparr>"
  have "snapshot_with_edits ra debug es b = Some (?ed, b\<lparr>lamport_clock := ?c\<rparr>)"
    using e(5) es(1) resolve_ranges_ok [OF es(2)] frame(2) by (simp add: snapshot_with_edits_def Let_def case_prod_unfold tick_fst)
  moreover have "fast_forward ?ed (b\<lparr>lamport_clock := ?c\<rparr>) = Some ?b'"
    using vv.all_refl [OF b(3)] by (simp add: fast_forward_def changed_since_iff)
  moreover have "clock_ahead ?b' ps'"
  proof -
    have "newest ?c' ps'" by (rule newest_edited [OF e(3) ahead(1) lt]) simp
    moreover have "lamport_value ?ts < lamport_value ?c'" using val \<open>lamport_value ?c \<le> lamport_value ?c'\<close> by (simp add: tick_def)
    then have "global_get ?v r < lamport_value ?c'" for r using get [of r] by (rule order_le_less_trans [rotated])
    ultimately show ?thesis using ok(6) lt base frame by (auto simp: clock_ahead_def less_imp_le)
  qed
  moreover have "saw_all (s'\<lparr>version := ?v\<rparr>) ps'" by (rule saw_all_edited [OF e(3) ok(4)]) (simp_all add: frame)
  moreover have "\<forall>e \<in> set (items (undo_map ?s)). fst (undo_key e) \<noteq> ?ts" using ahead(2) by auto
  then have "prescribed (undo_map ?s) ps'" by (intro prescribed_edited [OF e(3) ok(3)] not_undone_new)
  ultimately have "buffer_ok ?b' ps'"
    using e(1) ok(2,7,8) frame counted_edited [OF e(3) ok(5) pos(2)] by (simp add: buffer_ok_def)
  then show ?thesis
    using \<open>snapshot_with_edits ra debug es b = _\<close> \<open>fast_forward ?ed _ = _\<close> e(4)
    by (intro exI [of _ ?ed] exI [of _ "b\<lparr>lamport_clock := ?c\<rparr>"] exI [of _ ?b'] exI [of _ ps']) simp
qed

end
