(* ===== verification/Delivery.thy ===== *)
theory Delivery
  imports BufferState
begin

text \<open>
  Causal delivery: \<^verbatim>\<open>apply_ops\<close> and \<^verbatim>\<open>flush_deferred_ops\<close>.  An operation is applied only when everything it depends on has
  been observed; one pass over the deferred operations in the order of their timestamps applies all that
  can be applied; and no operation is lost.
\<close>

section \<open>Causal histories\<close>

text \<open>What the versions of operations satisfy when replicas observe the operations they make and receive.  An
  operation knows a prefix of the operations of each replica; it knows all earlier ones of its own
  replica; and it knows only operations with smaller timestamps.\<close>

definition knows :: "operation \<Rightarrow> operation \<Rightarrow> bool" where
  "knows op t \<longleftrightarrow> observed (operation_version op) (timestamp t)"

definition causal :: "operation set \<Rightarrow> bool" where
  "causal A \<longleftrightarrow> inj_on timestamp A \<and> (\<forall>op \<in> A. global_wf (operation_version op) \<and> lamport_MIN < timestamp op)
     \<and> (\<forall>op \<in> A. \<forall>t \<in> A.
          (knows op t \<longrightarrow> timestamp t < timestamp op)
        \<and> (knows op t \<or> global_get (operation_version op) (operation_replica_id t) \<le> global_get (operation_version t) (operation_replica_id t))
        \<and> (operation_replica_id t = operation_replica_id op \<longrightarrow> timestamp t < timestamp op \<longrightarrow> knows op t))"

text \<open>A version is closed when it has observed the dependencies of the operations it has observed.\<close>

definition closed :: "operation set \<Rightarrow> global \<Rightarrow> bool" where
  "closed A v \<longleftrightarrow> global_wf v \<and> (\<forall>op \<in> A. observed v (timestamp op) \<longrightarrow> observed_all v (operation_version op))"

text \<open>An operation waits when a dependency is missing.\<close>

definition waits :: "global \<Rightarrow> operation \<Rightarrow> bool" where
  "waits v op \<longleftrightarrow> \<not> observed_all v (operation_version op)"

lemma causalD:
  assumes "causal A" "op \<in> A" "t \<in> A"
  shows "knows op t \<Longrightarrow> timestamp t < timestamp op"
    and "knows op t \<or> global_get (operation_version op) (operation_replica_id t) \<le> global_get (operation_version t) (operation_replica_id t)"
    and "operation_replica_id t = operation_replica_id op \<Longrightarrow> timestamp t < timestamp op \<Longrightarrow> knows op t"
    and "global_wf (operation_version op)" and "timestamp op = timestamp t \<Longrightarrow> op = t"
  using assms by (auto simp: causal_def inj_on_def)

lemma knows_get: "knows op t \<longleftrightarrow> lamport_value (timestamp t) \<le> global_get (operation_version op) (operation_replica_id t)"
  by (simp add: knows_def observed_def operation_replica_id_def)

lemma waits_iff:
  "causal A \<Longrightarrow> op \<in> A \<Longrightarrow> waits v op \<longleftrightarrow> (\<exists>r. global_get v r < global_get (operation_version op) r)"
  by (simp add: waits_def vv.all_iff causalD(4) not_le)

text \<open>Applying an operation satisfies no dependency of an operation with a smaller timestamp.\<close>

lemma waits_observe:
  assumes A: "causal A" "op \<in> A" "t \<in> A" and "timestamp op < timestamp t" "waits v op" "\<not> waits v t"
  shows "waits (global_observe v (timestamp t)) op"
proof (rule ccontr)
  let ?r = "operation_replica_id t"
  assume "\<not> waits (global_observe v (timestamp t)) op"
  then have all: "global_get (operation_version op) r \<le> global_get (global_observe v (timestamp t)) r" for r
    using waits_iff [OF A(1,2)] by (auto simp: not_less)
  obtain r where r: "global_get v r < global_get (operation_version op) r" using assms(5) waits_iff [OF A(1,2)] by blast
  then have "r = ?r" "global_get (operation_version op) ?r \<le> lamport_value (timestamp t)"
    using all [of r] by (auto simp: vv.get_obs operation_replica_id_def le_max_iff_disj split: if_splits)
  moreover have "global_get (operation_version t) ?r \<le> global_get v ?r"
    using assms(6) waits_iff [OF A(1,3)] by (auto simp: not_less)
  ultimately have "knows op t" using causalD(2) [OF A] r by auto
  then show False using causalD(1) [OF A] assms(4) by auto
qed

lemma closed_observe:
  assumes A: "causal A" "t \<in> A" and "closed A v" "\<not> waits v t"
  shows "closed A (global_observe v (timestamp t))"
  unfolding closed_def
proof (intro conjI ballI impI)
  have wf: "global_wf v" using assms(3) by (simp add: closed_def)
  then show "global_wf (global_observe v (timestamp t))" by (rule vv.wf_obs)
  fix op assume op: "op \<in> A" "observed (global_observe v (timestamp t)) (timestamp op)"
  have "observed_all v (operation_version op)"
  proof (cases "observed v (timestamp op)")
    case True
    then show ?thesis using assms(3) op(1) by (simp add: closed_def)
  next
    case False
    then have same: "operation_replica_id op = operation_replica_id t" "lamport_value (timestamp op) \<le> lamport_value (timestamp t)"
      using op(2) by (auto simp: vv.has_obs operation_replica_id_def)
    show ?thesis
    proof (cases "op = t")
      case True
      then show ?thesis using assms(4) by (simp add: waits_def)
    next
      case False
      then have "timestamp op < timestamp t"
        using same causalD(5) [OF A(1) op(1) A(2)] by (metis lamport_less_iff operation_replica_id_def order_le_less lamport.expand)
      then have "knows t op" using causalD(3) [OF A(1,2) op(1)] same(1) by simp
      then have "observed v (timestamp op)"
        using assms(4) vv.has_mono [OF causalD(4) [OF A(1,2,2)]] by (auto simp: knows_def waits_def)
      with \<open>\<not> observed v (timestamp op)\<close> show ?thesis by simp
    qed
  qed
  then show "observed_all (global_observe v (timestamp t)) (operation_version op)"
    using vv.all_trans [OF vv.wf_obs [OF wf] wf causalD(4) [OF A(1) op(1,1)] vv.all_obs [OF wf]] by blast
qed

lemma waits_same_replica:
  assumes A: "causal A" "op \<in> A" "t \<in> A" and "closed A v" "waits v op"
    and "operation_replica_id op = operation_replica_id t" "timestamp op < timestamp t"
  shows "waits v t"
proof -
  have "knows t op" using causalD(3) [OF A(1,3,2)] assms(6,7) by simp
  moreover have "\<not> observed v (timestamp op)" using assms(4,5) A(2) by (auto simp: closed_def waits_def)
  ultimately show ?thesis using vv.has_mono [OF causalD(4) [OF A(1,3,3)]] by (auto simp: knows_def waits_def)
qed

section \<open>What applying an operation leaves alone\<close>

lemma edit_state_finish_version: "edit_state_finish dm at st s = Some s' \<Longrightarrow> version s' = version s"
  by (auto simp: edit_state_finish_def split: bind_splits prod.splits)

lemma apply_remote_edit_version: "apply_remote_edit v rs ts t s = Some (p, s') \<Longrightarrow> version s' = version s"
  by (auto simp: apply_remote_edit_def edit_state_finish_version split: if_splits bind_splits)

lemma apply_undo_version: "apply_undo u s = Some (p, s') \<Longrightarrow> version s' = version s"
  by (auto simp: apply_undo_def Let_def split: bind_splits prod.splits)

definition same_delivery :: "buffer \<Rightarrow> buffer \<Rightarrow> bool" where
  "same_delivery b b' \<longleftrightarrow> deferred_ops b' = deferred_ops b \<and> deferred_replicas b' = deferred_replicas b
     \<and> buffer_history b' = buffer_history b"

lemma notify_waiters_simps [simp]:
  "snapshot (notify_waiters b) = snapshot b" "deferred_ops (notify_waiters b) = deferred_ops b"
  "deferred_replicas (notify_waiters b) = deferred_replicas b" "buffer_history (notify_waiters b) = buffer_history b"
  "lamport_clock (notify_waiters b) = lamport_clock b" "subscriptions (notify_waiters b) = subscriptions b"
  by (simp_all add: notify_waiters_def Let_def)

lemma resolve_edit_simps [simp]:
  "snapshot (resolve_edit e b) = snapshot b" "deferred_ops (resolve_edit e b) = deferred_ops b"
  "deferred_replicas (resolve_edit e b) = deferred_replicas b" "buffer_history (resolve_edit e b) = buffer_history b"
  "lamport_clock (resolve_edit e b) = lamport_clock b" "subscriptions (resolve_edit e b) = subscriptions b"
  by (simp_all add: resolve_edit_def split: option.split)

lemma apply_op_frame:
  assumes "apply_op op b = Some b'" "global_wf (buffer_version b)"
  shows "buffer_version b' = global_observe (buffer_version b) (timestamp op)" "same_delivery b b'"
proof -
  have "buffer_version b' = (if observed (buffer_version b) (timestamp op) then buffer_version b
      else global_observe (buffer_version b) (timestamp op)) \<and> same_delivery b b'"
    using assms(1)
    by (auto simp: apply_op_def timestamp_def buffer_apply_remote_edit_def buffer_apply_undo_def observe_operation_def
        apply_remote_edit_version apply_undo_version same_delivery_def split: operation.splits if_splits bind_splits)
  then show "buffer_version b' = global_observe (buffer_version b) (timestamp op)" "same_delivery b b'"
    using vv.obs_absorb [OF assms(2)] by auto
qed

section \<open>One pass over the deferred operations\<close>

text \<open>The operations passed over so far, and those of them that were deferred again.\<close>

definition flushed :: "operation set \<Rightarrow> operation set \<Rightarrow> buffer \<times> operation list \<Rightarrow> bool" where
  "flushed A done st = (case st of (b, deferred) \<Rightarrow>
     closed A (buffer_version b) \<and> set deferred \<subseteq> done \<and> (\<forall>op \<in> set deferred. waits (buffer_version b) op)
   \<and> (\<forall>op \<in> done. op \<in> set deferred \<or> observed (buffer_version b) (timestamp op))
   \<and> deferred_replicas b = operation_replica_id ` set deferred)"

lemma observed_observe_mono: "observed v t \<Longrightarrow> observed (global_observe v u) t"
  by (simp add: vv.has_obs)

lemma observed_observe [simp]: "observed (global_observe v t) t"
  by (simp add: vv.has_obs)

lemma deliver_flushed:
  assumes A: "causal A" "t \<in> A" "done \<subseteq> A" and "flushed A done st" "\<forall>op \<in> done. timestamp op < timestamp t"
    and "deliver t st = Some st'"
  shows "flushed A (insert t done) st'" "deferred_ops (fst st') = deferred_ops (fst st)"
    and "distinct (map timestamp (snd st)) \<Longrightarrow> distinct (map timestamp (snd st'))"
    and "buffer_history (fst st') = buffer_history (fst st)"
proof -
  obtain b ds where st: "st = (b, ds)" by (cases st)
  let ?v = "buffer_version b"
  have inv: "closed A ?v" "set ds \<subseteq> done" "\<forall>op \<in> set ds. waits ?v op" "deferred_replicas b = operation_replica_id ` set ds"
      "\<forall>op \<in> done. op \<in> set ds \<or> observed ?v (timestamp op)" using assms(4) by (simp_all add: flushed_def st)
  have *: "flushed A (insert t done) st' \<and> deferred_ops (fst st') = deferred_ops b \<and> buffer_history (fst st') = buffer_history b
      \<and> (snd st' = ds \<or> snd st' = ds @ [t])"
  proof (cases "can_apply_op t b")
    case True
    then obtain b' where b': "apply_op t b = Some b'" "st' = (b', ds)"
      using assms(6) by (auto simp: deliver_def st split: bind_splits)
    have no: "\<not> waits ?v t" using True by (simp add: can_apply_op_def waits_def split: if_splits)
    have wf: "global_wf ?v" using inv(1) by (simp add: closed_def)
    note frame = apply_op_frame [OF b'(1) wf]
    have "waits (buffer_version b') op" if "op \<in> set ds" for op
      unfolding frame(1) using that inv(2,3) A assms(5) no by (intro waits_observe [OF A(1)]) auto
    then show ?thesis
      using frame inv closed_observe [OF A(1,2) inv(1) no] observed_observe_mono
      by (auto simp: flushed_def b'(2) same_delivery_def)
  next
    case False
    then have st': "st' = (b\<lparr>deferred_replicas := insert (operation_replica_id t) (deferred_replicas b)\<rparr>, ds @ [t])"
      using assms(6) by (simp add: deliver_def st)
    have "waits ?v t"
    proof (cases "operation_replica_id t \<in> deferred_replicas b")
      case True
      then obtain op where op: "op \<in> set ds" "operation_replica_id op = operation_replica_id t" using inv(4) by auto
      have "op \<in> A" "waits ?v op" "timestamp op < timestamp t" using op(1) inv(2,3) A(3) assms(5) by auto
      then show ?thesis using waits_same_replica [OF A(1) _ A(2) inv(1)] op(2) by blast
    next
      case False
      then show ?thesis using \<open>\<not> can_apply_op t b\<close> by (simp add: can_apply_op_def waits_def)
    qed
    then show ?thesis using inv by (auto simp: flushed_def st')
  qed
  then show "flushed A (insert t done) st'" "deferred_ops (fst st') = deferred_ops (fst st)" "buffer_history (fst st') = buffer_history (fst st)"
    by (simp_all add: st)
  show "distinct (map timestamp (snd st'))" if "distinct (map timestamp (snd st))"
    using * that inv(2) assms(5) by (fastforce simp: st)
qed

lemma flush_loop_flushed:
  assumes A: "causal A"
  shows "flushed A done st \<Longrightarrow> set ops \<subseteq> A \<Longrightarrow> done \<subseteq> A \<Longrightarrow> key_sorted timestamp ops
    \<Longrightarrow> \<forall>op \<in> done. \<forall>t \<in> set ops. timestamp op < timestamp t \<Longrightarrow> distinct (map timestamp (snd st)) \<Longrightarrow> flush_loop ops st = Some st'
    \<Longrightarrow> flushed A (set ops \<union> done) st' \<and> deferred_ops (fst st') = deferred_ops (fst st) \<and> distinct (map timestamp (snd st'))
      \<and> buffer_history (fst st') = buffer_history (fst st)"
proof (induction ops arbitrary: st "done")
  case (Cons t ops)
  then obtain st1 where st1: "deliver t st = Some st1" "flush_loop ops st1 = Some st'" by (auto split: bind_splits)
  have "t \<in> A" using Cons.prems(2) by simp
  note step = deliver_flushed [OF A this Cons.prems(3,1) _ st1(1)]
  have "flushed A (set ops \<union> insert t done) st' \<and> deferred_ops (fst st') = deferred_ops (fst st1) \<and> distinct (map timestamp (snd st'))
      \<and> buffer_history (fst st') = buffer_history (fst st1)"
    using Cons.prems step by (intro Cons.IH [OF _ _ _ _ _ _ st1(2)]) auto
  then show ?case using step Cons.prems by auto
qed auto

section \<open>Deliveries\<close>

text \<open>What holds between calls: the queue holds operations that wait, and the replicas it holds operations
  of are known.\<close>

definition settled :: "operation set \<Rightarrow> buffer \<Rightarrow> bool" where
  "settled A b \<longleftrightarrow> closed A (buffer_version b) \<and> queue_wf timestamp (deferred_ops b) \<and> set (items (deferred_ops b)) \<subseteq> A
     \<and> (\<forall>op \<in> set (items (deferred_ops b)). waits (buffer_version b) op)
     \<and> deferred_replicas b = operation_replica_id ` set (items (deferred_ops b))"

lemma queue_members:
  assumes "queue_wf timestamp q" "queue_wf timestamp q'" "inj_on timestamp A" "set xs \<subseteq> A" "set (items q) \<subseteq> A"
    and "\<forall>k. lookup_key timestamp (items q') k = (case find (\<lambda>x. timestamp x = k) xs of Some x \<Rightarrow> Some x | None \<Rightarrow> lookup_key timestamp (items q) k)"
  shows "set (items q') = set xs \<union> set (items q)"
proof -
  have sorted: "key_sorted timestamp (items q)" "key_sorted timestamp (items q')" using assms(1,2) by (simp_all add: queue_wf_def)
  have find: "find (\<lambda>x. timestamp x = timestamp op) xs = (if op \<in> set xs then Some op else None)" if "op \<in> A" for op
    using assms(3,4) that by (induction xs) (auto simp: inj_on_def)
  have mem: "op \<in> set (items q') \<longleftrightarrow> lookup_key timestamp (items q') (timestamp op) = Some op" for op
    using lookup_key_Some [OF sorted(2)] by simp
  have in_A: "op \<in> A" if "op \<in> set (items q')" for op
    using that assms(4-6) lookup_key_Some [OF sorted(1)] unfolding mem by (auto split: option.splits simp: find_Some_iff)
  show ?thesis
  proof (intro set_eqI)
    fix op
    show "op \<in> set (items q') \<longleftrightarrow> op \<in> set xs \<union> set (items q)"
      using mem [of op] in_A [of op] assms(4,5) find [of op] lookup_key_Some [OF sorted(1), of "timestamp op" op]
      by (cases "op \<in> A"; cases "op \<in> set xs") (auto simp: assms(6) [rule_format])
  qed
qed

lemma deliver_kept:
  assumes A: "causal A" "t \<in> A" and "closed A (buffer_version b)" "deliver t (b, ds) = Some (b', ds')"
  shows "closed A (buffer_version b') \<and> deferred_ops b' = deferred_ops b \<and> (ds' = ds \<or> ds' = ds @ [t])
    \<and> (t \<in> set ds' \<or> observed (buffer_version b') (timestamp t))
    \<and> (\<forall>u. observed (buffer_version b) u \<longrightarrow> observed (buffer_version b') u)"
proof (cases "can_apply_op t b")
  case True
  then have b': "apply_op t b = Some b'" "ds' = ds" using assms(4) by (auto simp: deliver_def split: bind_splits)
  have "\<not> waits (buffer_version b) t" using True by (simp add: can_apply_op_def waits_def split: if_splits)
  note cl = closed_observe [OF A assms(3) this]
  have "global_wf (buffer_version b)" using assms(3) by (simp add: closed_def)
  from apply_op_frame [OF b'(1) this] show ?thesis
    using b'(2) cl observed_observe_mono by (simp add: same_delivery_def)
qed (use assms in \<open>auto simp: deliver_def\<close>)

lemma flush_loop_mono:
  assumes A: "causal A"
  shows "set ops \<subseteq> A \<Longrightarrow> closed A (buffer_version b) \<Longrightarrow> flush_loop ops (b, ds) = Some (b', ds')
    \<Longrightarrow> observed (buffer_version b) u \<Longrightarrow> observed (buffer_version b') u"
proof (induction ops arbitrary: b ds)
  case (Cons t ops)
  then obtain b1 ds1 where s: "deliver t (b, ds) = Some (b1, ds1)" "flush_loop ops (b1, ds1) = Some (b', ds')" by (auto split: bind_splits)
  have "t \<in> A" "set ops \<subseteq> A" using Cons.prems by simp_all
  with deliver_kept [OF A this(1) Cons.prems(2) s(1)] Cons.IH [OF _ _ s(2)] Cons.prems(4) show ?case by simp
qed auto

lemma flush_settled:
  assumes A: "causal A" and "closed A (buffer_version b)" "queue_wf timestamp (deferred_ops b)" "set (items (deferred_ops b)) \<subseteq> A"
    and "height (deferred_ops b) < STACK_CAPACITY" "flush_deferred_ops b = Some b'"
  shows "settled A b' \<and> (\<forall>op \<in> set (items (deferred_ops b)). op \<in> set (items (deferred_ops b')) \<or> observed (buffer_version b') (timestamp op))
    \<and> (\<forall>u. observed (buffer_version b) u \<longrightarrow> observed (buffer_version b') u)"
proof -
  let ?q = "deferred_ops b" and ?b = "b\<lparr>deferred_replicas := {}, deferred_ops := queue_new timestamp\<rparr>"
  from assms(6) obtain b1 ds q' where run: "flush_loop (items ?q) (?b, []) = Some (b1, ds)"
      "queue_insert timestamp ds (deferred_ops b1) = Some q'" "b' = b1\<lparr>deferred_ops := q'\<rparr>"
    using queue_iter_ok [OF assms(3,5)] by (auto simp: flush_deferred_ops_def queue_drain_def split: bind_splits)
  have "flushed A {} (?b, [])" using assms(2) by (simp add: flushed_def)
  then have fl: "flushed A (set (items ?q)) (b1, ds)" "deferred_ops b1 = queue_new timestamp" "distinct (map timestamp ds)"
    using flush_loop_flushed [OF A _ assms(4) _ _ _ _ run(1), of "{}"] assms(3) by (auto simp: queue_wf_def)
  have ds: "set ds \<subseteq> A" using fl(1) assms(4) by (auto simp: flushed_def)
  then have "\<forall>x \<in> set ds. lamport_MIN < timestamp x" using A by (auto simp: causal_def)
  from queue.refill [OF this fl(3)] run(2) fl(2)
  have q': "queue_wf timestamp q'" "\<forall>k x. lookup_key timestamp (items q') k = Some x \<longleftrightarrow> x \<in> set ds \<and> timestamp x = k" by auto
  have "set (items q') = set ds"
    using q' lookup_key_Some [of timestamp "items q'"] by (auto simp: queue_wf_def)
  moreover have "observed (buffer_version b') u" if "observed (buffer_version b) u" for u
    using flush_loop_mono [OF A assms(4) _ run(1)] assms(2) that by (simp add: run(3))
  ultimately show ?thesis using fl(1) q'(1) ds by (auto simp: settled_def run(3) flushed_def)
qed

lemma apply_ops_loop_kept:
  assumes A: "causal A"
  shows "set ops \<subseteq> A \<Longrightarrow> closed A (buffer_version b) \<Longrightarrow> set ds \<subseteq> A \<Longrightarrow> apply_ops_loop ops (b, ds) = Some (b', ds')
    \<Longrightarrow> closed A (buffer_version b') \<and> deferred_ops b' = deferred_ops b \<and> set ds' \<subseteq> A \<and> set ds \<subseteq> set ds'
      \<and> (\<forall>op \<in> set ops. op \<in> set ds' \<or> observed (buffer_version b') (timestamp op))
      \<and> (\<forall>u. observed (buffer_version b) u \<longrightarrow> observed (buffer_version b') u)"
proof (induction ops arbitrary: b ds)
  case (Cons t ops)
  then obtain h b1 ds1 where s: "deliver t (b\<lparr>buffer_history := h\<rparr>, ds) = Some (b1, ds1)" "apply_ops_loop ops (b1, ds1) = Some (b', ds')"
    by (auto split: bind_splits)
  have t: "t \<in> A" and cl: "closed A (buffer_version (b\<lparr>buffer_history := h\<rparr>))" using Cons.prems by simp_all
  note 1 = deliver_kept [OF A t cl s(1)]
  have "set ds1 \<subseteq> A" using 1 Cons.prems(3) t by auto
  note 2 = Cons.IH [OF _ _ this s(2)]
  have "set ops \<subseteq> A" using Cons.prems(1) by simp
  with 1 2 show ?case by auto
qed auto

text \<open>Everything delivered is applied as soon as its dependencies are, and waits otherwise.\<close>

lemma apply_ops_settled:
  assumes A: "causal A" and "settled A b" "set ops \<subseteq> A" "height (deferred_ops b) < STACK_CAPACITY"
    and room: "\<forall>b1 ds q1. apply_ops_loop ops (b, []) = Some (b1, ds) \<longrightarrow> queue_insert timestamp ds (deferred_ops b) = Some q1
      \<longrightarrow> height q1 < STACK_CAPACITY"
    and run: "apply_ops ops b = Some b'"
  shows "settled A b' \<and> (\<forall>op \<in> set ops \<union> set (items (deferred_ops b)).
      op \<in> set (items (deferred_ops b')) \<or> observed (buffer_version b') (timestamp op))"
proof -
  from run obtain b1 ds q where r: "apply_ops_loop ops (b, []) = Some (b1, ds)" "queue_insert timestamp ds (deferred_ops b1) = Some q"
      "flush_deferred_ops (b1\<lparr>deferred_ops := q\<rparr>) = Some b'"
    by (auto simp: apply_ops_def split: bind_splits)
  have s: "closed A (buffer_version b)" "queue_wf timestamp (deferred_ops b)" "set (items (deferred_ops b)) \<subseteq> A"
    using assms(2) by (simp_all add: settled_def)
  have 1: "closed A (buffer_version b1)" "deferred_ops b1 = deferred_ops b" "set ds \<subseteq> A"
      "\<forall>op \<in> set ops. op \<in> set ds \<or> observed (buffer_version b1) (timestamp op)"
    using apply_ops_loop_kept [OF A assms(3) s(1) _ r(1)] by auto
  have "\<forall>x \<in> set ds. lamport_MIN < timestamp x" using 1(3) A by (auto simp: causal_def)
  from queue_insert_ok [OF s(2) assms(4) this] r(2) 1(2) have q: "queue_wf timestamp q"
      "\<forall>k. lookup_key timestamp (items q) k = (case find (\<lambda>x. timestamp x = k) ds of Some x \<Rightarrow> Some x | None \<Rightarrow> lookup_key timestamp (items (deferred_ops b)) k)"
    by auto
  have inj: "inj_on timestamp A" using A by (simp add: causal_def)
  have mem: "set (items q) = set ds \<union> set (items (deferred_ops b))" by (rule queue_members [OF s(2) q(1) inj 1(3) s(3) q(2)])
  have "height q < STACK_CAPACITY" using room r(1,2) 1(2) by auto
  then have "settled A b' \<and> (\<forall>op \<in> set (items q). op \<in> set (items (deferred_ops b')) \<or> observed (buffer_version b') (timestamp op))
      \<and> (\<forall>u. observed (buffer_version b1) u \<longrightarrow> observed (buffer_version b') u)"
    using flush_settled [OF A _ _ _ _ r(3)] 1(1) q(1) mem 1(3) s(3) by simp
  then show ?thesis using 1(4) unfolding mem by blast
qed

end
