(* ===== verification/BufferSync.thy ===== *)
theory BufferSync
  imports Buffer_Correct Delivery
begin

text \<open>
  Two buffers that are replicas of each other: an edit made at one of them and delivered to the other with
  \<^verbatim>\<open>apply_ops\<close> leaves them with the same bytes, the same versions and the same text again.
\<close>

section \<open>Delivering the edit of another replica\<close>

text \<open>No operation waits.\<close>

definition quiet :: "buffer \<Rightarrow> bool" where
  "quiet b \<longleftrightarrow> queue_wf timestamp (deferred_ops b) \<and> items (deferred_ops b) = [] \<and> height (deferred_ops b) < STACK_CAPACITY
     \<and> deferred_replicas b = {}"

lemma queue_insert_none: "queue_insert ts [] q = Some q"
  by (simp add: queue_insert_def keyed_edit_def)

lemma flush_quiet: "quiet b \<Longrightarrow> flush_deferred_ops b = Some (b\<lparr>deferred_ops := queue_new timestamp\<rparr>)"
  using queue_iter_ok [of timestamp "deferred_ops b"]
  by (simp add: flush_deferred_ops_def quiet_def queue_drain_def queue_insert_none)

lemma quiet_new: "quiet (b\<lparr>deferred_ops := queue_new timestamp\<rparr>) \<longleftrightarrow> deferred_replicas b = {}"
  by (simp add: quiet_def STACK_CAPACITY_def)

text \<open>An operation that can be applied to a quiet buffer is applied, and nothing else happens.\<close>

lemma apply_ops_single:
  assumes "quiet b" "history_push op (buffer_history b) = Some h" "observed_all (buffer_version b) (operation_version op)"
    and "apply_op op (b\<lparr>buffer_history := h\<rparr>) = Some b1" "quiet b1"
  shows "apply_ops [op] b = Some (b1\<lparr>deferred_ops := queue_new timestamp\<rparr>)"
  using assms flush_quiet [OF assms(5)]
  by (simp add: apply_ops_def deliver_def can_apply_op_def quiet_def queue_insert_none)

section \<open>Replicas in step\<close>

text \<open>A snapshot determines its pieces.\<close>

lemma pieces_unique:
  "list_all piece_ok ps \<Longrightarrow> list_all piece_ok qs \<Longrightarrow> map fst ps = map fst qs \<Longrightarrow> vis ps = vis qs \<Longrightarrow> del ps = del qs \<Longrightarrow> ps = qs"
proof (induction ps arbitrary: qs)
  case (Cons x ps)
  then obtain y ys where y: "qs = y # ys" "fst y = fst x" by (cases qs) auto
  have "length (snd x) = length (snd y)" using Cons.prems(1,2) y by (auto simp: piece_ok_def)
  then have "snd x = snd y" "vis ps = vis ys" "del ps = del ys" using Cons.prems(4,5) y by (auto simp: vis_def del_def split: if_splits)
  with Cons y show ?case by (auto simp: prod_eq_iff)
qed simp

lemma snapshot_pieces_unique: "snapshot_ok s ps \<Longrightarrow> snapshot_ok s qs \<Longrightarrow> ps = qs"
  by (rule pieces_unique) (simp_all add: snapshot_ok_def pieces_ok_def)

definition in_step :: "buffer \<Rightarrow> buffer \<Rightarrow> piece list \<Rightarrow> piece list \<Rightarrow> bool" where
  "in_step a b ps qs \<longleftrightarrow> buffer_ok a ps \<and> buffer_ok b qs \<and> quiet a \<and> quiet b \<and> cells qs = cells ps
     \<and> undo_map (snapshot b) = undo_map (snapshot a) \<and> buffer_version b = buffer_version a \<and> global_wf (buffer_version a)"

lemma in_step_text: "in_step a b ps qs \<Longrightarrow> visible_text (snapshot b) = visible_text (snapshot a)"
  by (simp add: in_step_def buffer_ok_def snapshot_ok_def vis_cells)

lemma buffer_edit_quiet:
  assumes "buffer_edit ra debug now later es b = Some (op, b')"
  shows "deferred_ops b' = deferred_ops b \<and> deferred_replicas b' = deferred_replicas b"
  using assms by (auto simp: buffer_edit_def start_transaction_at_def apply_local_edit_def end_transaction_at_def Let_def tick_def
      split: bind_splits prod.splits option.splits)

text \<open>The invariant at the receiver.  Its bytes are those of the sender, and its clock moves past the edit.\<close>

lemma receive_ok:
  assumes b: "buffer_ok b qs" "cells qs = cells ps" and ts: "newest ts ps" "lamport_value ts \<noteq> 0" "lamport_value ts \<noteq> - 1" "lamport_value (lamport_clock b) \<noteq> - 1"
    and undo: "\<forall>e \<in> set (items (undo_map (snapshot b))). fst (undo_key e) \<noteq> ts" and base: "base_timestamp < ts"
    and s: "snapshot_ok s qs'" "same_frame (snapshot b) s" "cells_edited ts dl ps ps'" "cells qs' = cells ps'"
    and subs: "topic_wf subs" and m: "map_wf m"
    and b': "snapshot b' = s\<lparr>version := global_observe (version s) ts\<rparr>" "lamport_clock b' = lamport_observe (lamport_clock b) ts"
      "buffer_history b' = (buffer_history b)\<lparr>operations := m\<rparr>" "subscriptions b' = subs"
  shows "buffer_ok b' qs'"
proof -
  have edited: "cells_edited ts dl qs qs'" using s(3,4) b(2) by (simp add: cells_edited_def)
  have ok: "undo_wf (undo_map (snapshot b))" "prescribed (undo_map (snapshot b)) qs" "saw_all (snapshot b) qs"
      "\<forall>c \<in> set (cells qs). lamport_value (c_timestamp c) \<noteq> 0" "clock_ahead b qs" "history_ok (buffer_history b)"
    using b(1) by (simp_all add: buffer_ok_def)
  have frame: "undo_map s = undo_map (snapshot b)" "version s = buffer_version b" using s(2) by (simp_all add: same_frame_def)
  note gt = lamport_observe_greater [OF ts(4,3)]
  have new: "newest ts qs" using ts(1) b(2) by (simp add: newest_def)
  have "clock_ahead b' qs'"
  proof -
    let ?c = "lamport_observe (lamport_clock b) ts"
    have "newest ?c qs'" by (rule newest_edited [OF edited new gt(2)])
    moreover have "i < ?c" if "i < lamport_clock b" for i using that gt(1) by (rule less_trans)
    moreover have "max (lamport_value (lamport_clock b)) (lamport_value ts) < lamport_value ?c"
      using ts(3,4) by (simp add: lamport_observe_def word_less_plus_1 max_def)
    then have "global_get (global_observe (buffer_version b) ts) r < lamport_value ?c" for r
      using ok(5) by (auto simp: vv.get_obs clock_ahead_def) (meson less_trans)+
    moreover have "base_timestamp < ?c" using base gt(2) by (rule less_trans)
    ultimately show ?thesis
      using ok(5) by (auto simp: clock_ahead_def b' frame stack_ids_def less_imp_le)
  qed
  moreover have "saw_all (snapshot b') qs'" by (rule saw_all_edited [OF edited ok(3)]) (simp_all add: b' frame)
  moreover have "prescribed (undo_map (snapshot b)) qs'" by (rule prescribed_edited [OF edited ok(2) not_undone_new [OF undo]])
  moreover have "history_ok (buffer_history b')" using history_ok_operations [OF ok(6) m] b'(3) by simp
  ultimately show ?thesis
    using s(1) ok(1) counted_edited [OF edited ok(4) ts(2)] subs by (simp add: buffer_ok_def b' frame)
qed

lemma edit_replicates:
  assumes sync: "in_step a b ps qs" and fits: "buffer_fits a" "buffer_fits b"
    and clock: "lamport_value (lamport_clock a) < - 2" "lamport_value (lamport_clock b) \<noteq> - 1"
    and ra: "replaces_line_separators ra"
    and es: "es \<noteq> []" "edits_ok (visible_text (snapshot a)) 0 es" "length (concat (map snd es)) < 2 ^ 32"
  shows "\<exists>op a' b' ps' qs'. buffer_edit ra debug now later es a = Some (op, a') \<and> apply_ops [op] b = Some b' \<and> in_step a' b' ps' qs'
    \<and> visible_text (snapshot a') = splice (visible_text (snapshot a)) 0 (normalized es)"
proof -
  let ?ts = "edit_clock a"
  have ok: "buffer_ok a ps" "buffer_ok b qs" "quiet a" "quiet b" "cells qs = cells ps" "undo_map (snapshot b) = undo_map (snapshot a)"
      "buffer_version b = buffer_version a" "global_wf (buffer_version a)" using sync by (simp_all add: in_step_def)
  have A: "snapshot_ok (snapshot a) ps" "prescribed (undo_map (snapshot a)) ps" "saw_all (snapshot a) ps" "clock_ahead a ps"
      "\<forall>c \<in> set (cells ps). lamport_value (c_timestamp c) \<noteq> 0" "undo_wf (undo_map (snapshot a))"
    using ok(1) by (simp_all add: buffer_ok_def)
  have B: "snapshot_ok (snapshot b) qs" "topic_wf (subscriptions b)" "history_ok (buffer_history b)" using ok(2) by (simp_all add: buffer_ok_def)
  have H: "heights_ok (snapshot a)" "heights_ok (snapshot b)" using fits by (simp_all add: buffer_fits_def)
  note ts = edit_clock_ok [OF A(4) clock(1)]
  have new: "newest ?ts ps" using newest_mono [OF _ ts(1)] A(4) by (simp add: clock_ahead_def)
  have min: "?ts \<noteq> lamport_MIN" using ts(4) by (auto simp: lamport_MIN_def)
  from buffer_edit_ok [OF ok(1) fits(1) clock(1) ra es(2,3), of debug now later] obtain e a' ps1 p s' where
    e: "buffer_edit ra debug now later es a = Some (EditOp e, a')" "buffer_ok a' ps1"
      "visible_text (snapshot a') = splice (visible_text (snapshot a)) 0 (normalized es)" "edit_timestamp e = ?ts"
      "edit_version e = buffer_version a" "buffer_version a' = global_observe (buffer_version a) ?ts"
      "apply_edit_internal ra es ?ts (snapshot a) = Some (e, p, s')" "snapshot a' = s'\<lparr>version := buffer_version a'\<rparr>"
      "undo_map s' = undo_map (snapshot a)"
    by fastforce
  have "undo_map_ok (undo_map (snapshot a))" using A(6) H(1) by (simp add: undo_map_ok_def heights_ok_def)
  from replay_ok [OF A(1) H(1) this A(2,3) new min A(5) ra es B(1) H(2) ok(6,5)] e(4,5,7) obtain ps' q r' qs' where
    r: "snapshot_ok s' ps'" "apply_remote_edit (edit_version e) (edit_ranges e) (edit_new_text e) (edit_timestamp e) (snapshot b) = Some (Some q, r')"
      "snapshot_ok r' qs'" "cells qs' = cells ps'" "patch_wf q" "same_frame (snapshot b) r'" "cells_edited ?ts (deletes ps es) ps ps'"
    by auto
  have "snapshot_ok (s'\<lparr>version := buffer_version a'\<rparr>) ps1" using e(2) unfolding buffer_ok_def e(8) [symmetric] by blast
  then have same: "ps1 = ps'" using r(1) snapshot_pieces_unique [of s' ps1 ps'] by simp
  obtain m where h: "history_push (EditOp e) (buffer_history b) = Some ((buffer_history b)\<lparr>operations := m\<rparr>)" "map_wf m"
    using history_push_ok [OF B(3)] fits(2) by (auto simp: buffer_fits_def)
  obtain subs where subs: "publish q (subscriptions b) = Some subs" "topic_wf subs" using publish_ok [OF B(2) r(5)] by blast
  let ?b0 = "b\<lparr>buffer_history := (buffer_history b)\<lparr>operations := m\<rparr>\<rparr>"
  define b1 where "b1 = notify_waiters (resolve_edit ?ts (observe_operation ?ts (?b0\<lparr>snapshot := r', subscriptions := subs\<rparr>)))"
  have unseen: "\<not> observed (buffer_version b) ?ts" using ts(5) [of "lamport_replica_id ?ts"] ok(7) by (simp add: observed_def)
  have "apply_op (EditOp e) ?b0 = Some b1"
    using r(2) subs(1) unseen e(4) by (simp add: apply_op_def buffer_apply_remote_edit_def b1_def)
  moreover have q1: "quiet b1" using ok(4) by (simp add: b1_def quiet_def observe_operation_def)
  moreover have "observed_all (buffer_version b) (operation_version (EditOp e))"
    using e(5) ok(7,8) vv.all_refl by (simp add: operation_version_def)
  ultimately have run: "apply_ops [EditOp e] b = Some (b1\<lparr>deferred_ops := queue_new timestamp\<rparr>)"
    using apply_ops_single [OF ok(4) h(1)] by blast
  let ?b' = "b1\<lparr>deferred_ops := queue_new timestamp\<rparr>"
  have undo: "\<forall>e \<in> set (items (undo_map (snapshot b))). fst (undo_key e) \<noteq> ?ts"
    using A(4) ts(1) ok(6) by (fastforce simp: clock_ahead_def)
  have frame: "version r' = buffer_version b" "undo_map r' = undo_map (snapshot b)" using r(6) by (simp_all add: same_frame_def)
  have "buffer_ok ?b' qs'"
    by (rule receive_ok [OF ok(2,5) new ts(4,7) clock(2) undo ts(2) r(3,6,7,4) subs(2) h(2)])
      (simp_all add: b1_def observe_operation_def)
  moreover have "quiet a'" using buffer_edit_quiet [OF e(1)] ok(3) by (simp add: quiet_def)
  moreover have "quiet ?b'" using q1 by (simp add: quiet_new) (simp add: quiet_def)
  moreover have "buffer_version ?b' = buffer_version a'" using e(6) frame(1) ok(7) by (simp add: b1_def observe_operation_def)
  moreover have "undo_map (snapshot ?b') = undo_map r'" by (simp add: b1_def observe_operation_def)
  ultimately have "in_step a' ?b' ps' qs'"
    using e(2,6,8,9) same r(4) ok(6,8) frame(2) vv.wf_obs by (simp add: in_step_def)
  then show ?thesis using e(1,3) run by blast
qed

text \<open>Two new buffers with the same text are in step.\<close>

lemma new_normalized_in_step:
  assumes "starts_char text" "length text < 2 ^ 32"
  shows "\<exists>a b. new_normalized rid bid ending text = Some a \<and> new_normalized rid' bid ending text = Some b
    \<and> in_step a b (base_pieces text) (base_pieces text) \<and> buffer_fits a \<and> buffer_fits b
    \<and> lamport_value (lamport_clock a) < - 2 \<and> lamport_value (lamport_clock b) \<noteq> - 1 \<and> visible_text (snapshot a) = text"
proof -
  note new = new_normalized_ok [OF assms]
  from new [of rid bid ending] obtain a where
    a: "new_normalized rid bid ending text = Some a" "buffer_ok a (base_pieces text)" "buffer_fits a" "visible_text (snapshot a) = text"
      "undo_map (snapshot a) = tree_new undo_ops" "lamport_value (lamport_clock a) \<le> 2" "deferred_ops a = queue_new timestamp" "deferred_replicas a = {}"
      "buffer_version a = (if text = [] then global_new else global_observe global_new base_timestamp)" by blast
  from new [of rid' bid ending] obtain b where
    b: "new_normalized rid' bid ending text = Some b" "buffer_ok b (base_pieces text)" "buffer_fits b"
      "undo_map (snapshot b) = tree_new undo_ops" "lamport_value (lamport_clock b) \<le> 2" "deferred_ops b = queue_new timestamp" "deferred_replicas b = {}"
      "buffer_version b = (if text = [] then global_new else global_observe global_new base_timestamp)" by blast
  have top: "n < - 2" if "n \<le> (2 :: seq)" for n
  proof -
    have "(2 :: seq) < - 2" by simp
    then show ?thesis using that by (rule order_le_less_trans [rotated])
  qed
  have "lamport_value (lamport_clock a) < - 2" using a(6) by (rule top)
  moreover have "lamport_value (lamport_clock b) \<noteq> - 1" using succ_below_top(1) [OF top [OF b(5)]] .
  moreover have "quiet a" "quiet b" using a(7,8) b(6,7) by (simp_all add: quiet_def STACK_CAPACITY_def)
  moreover have "global_wf (buffer_version a)" using a(9) vv.wf_obs global_wf_new by simp
  ultimately show ?thesis using a b by (simp add: in_step_def)
qed

section \<open>Sessions\<close>

text \<open>Two replicas that send each other every edit.  A step is an edit at one of them, delivered to the other.\<close>

definition can_edit :: "((nat \<times> nat) \<times> char list) list \<Rightarrow> buffer \<Rightarrow> buffer \<Rightarrow> bool" where
  "can_edit es a b \<longleftrightarrow> buffer_fits a \<and> buffer_fits b \<and> lamport_value (lamport_clock a) < - 2 \<and> lamport_value (lamport_clock b) \<noteq> - 1
     \<and> es \<noteq> [] \<and> edits_ok (visible_text (snapshot a)) 0 es \<and> length (concat (map snd es)) < 2 ^ 32"

inductive session :: "(char list \<Rightarrow> cow) \<Rightarrow> buffer \<times> buffer \<Rightarrow> buffer \<times> buffer \<Rightarrow> bool" for ra :: "char list \<Rightarrow> cow" where
  session_start: "session ra st st"
| session_first: "session ra st (a, b) \<Longrightarrow> can_edit es a b \<Longrightarrow> buffer_edit ra debug now later es a = Some (op, a')
    \<Longrightarrow> apply_ops [op] b = Some b' \<Longrightarrow> session ra st (a', b')"
| session_second: "session ra st (a, b) \<Longrightarrow> can_edit es b a \<Longrightarrow> buffer_edit ra debug now later es b = Some (op, b')
    \<Longrightarrow> apply_ops [op] a = Some a' \<Longrightarrow> session ra st (a', b')"

lemma in_step_sym: "in_step a b ps qs \<Longrightarrow> in_step b a qs ps"
  by (simp add: in_step_def)

lemma edit_in_step:
  assumes "in_step a b ps qs" "replaces_line_separators ra" "can_edit es a b" "buffer_edit ra debug now later es a = Some (op, a')"
    "apply_ops [op] b = Some b'"
  shows "\<exists>ps' qs'. in_step a' b' ps' qs'"
proof -
  have "\<exists>op a' b' ps' qs'. buffer_edit ra debug now later es a = Some (op, a') \<and> apply_ops [op] b = Some b' \<and> in_step a' b' ps' qs'
    \<and> visible_text (snapshot a') = splice (visible_text (snapshot a)) 0 (normalized es)"
    using assms(1-3) unfolding can_edit_def by (intro edit_replicates) auto
  then show ?thesis using assms(4,5) by auto
qed

lemma session_in_step:
  assumes "session ra st st'" "in_step (fst st) (snd st) ps qs" "replaces_line_separators ra"
  shows "\<exists>ps' qs'. in_step (fst st') (snd st') ps' qs'"
  using assms(1,2)
proof induction
  case (session_first st a b es debug now later op a' b')
  then show ?case using edit_in_step [OF _ assms(3)] by fastforce
next
  case (session_second st a b es debug now later op b' a')
  then obtain ps' qs' where "in_step b a qs' ps'" using in_step_sym by fastforce
  from edit_in_step [OF this assms(3) session_second.hyps(2-4)] show ?case using in_step_sym by fastforce
qed auto

end
