(* ===== verification/BufferUndo.thy ===== *)
theory BufferUndo
  imports Buffer_Correct Delivery
begin

text \<open>
  Undo and redo of a buffer.  Both raise the undo counts of the edits of a transaction by one, so that each flips
  whether these edits are undone; undo followed by redo restores the text.
\<close>

section \<open>Undo counts\<close>

definition undo_level :: "undo_map \<Rightarrow> lamport \<Rightarrow> 32 word" where
  "undo_level m d = max_count (edit_counts (\<lambda>_. True) d m)"

lemma undone_level: "undone m d \<longleftrightarrow> odd (undo_level m d)"
  by (simp add: undone_def undo_level_def odd_iff_mod_2_eq_one)

lemma undo_count_level: "undo_map_ok m \<Longrightarrow> undo_count (undo_fuel m) d m = Some (undo_level m d)"
  by (simp add: undo_count_def undo_level_def undo_count_where_ok undo_map_ok_def undo_fuel_def)

lemma saturating_succ: "n \<le> u32_saturating_add n 1" "n \<noteq> - 1 \<Longrightarrow> u32_saturating_add n 1 = n + 1"
proof -
  have "n < n + 1" if "n \<noteq> - 1" using that by (rule word_less_plus_1)
  then show "n \<noteq> - 1 \<Longrightarrow> u32_saturating_add n 1 = n + 1" by (auto simp: u32_saturating_add_def dest: less_asym)
  then show "n \<le> u32_saturating_add n 1"
    using \<open>n \<noteq> - 1 \<Longrightarrow> n < n + 1\<close> by (cases "n = - 1") (auto simp: u32_saturating_add_def word_gt_0)
qed

text \<open>The loop of \<^verbatim>\<open>undo_or_redo\<close>.\<close>

lemma redo_counts_ok:
  assumes "undo_map_ok m"
  shows "distinct (map fst counts) \<Longrightarrow> \<exists>counts'. redo_counts m ids counts = Some counts' \<and> distinct (map fst counts')
    \<and> map_of counts' = (\<lambda>d. if d \<in> set ids then Some (u32_saturating_add (undo_level m d) 1) else map_of counts d)"
proof (induction ids arbitrary: counts)
  case (Cons i ids)
  let ?counts = "AList.update i (u32_saturating_add (undo_level m i) 1) counts"
  have "distinct (map fst ?counts)" using Cons.prems by (rule distinct_update)
  from Cons.IH [OF this] show ?case
    by (auto simp: undo_count_level [OF assms] update_conv fun_eq_iff)
qed auto

text \<open>Inserting an undo operation under a new timestamp.\<close>

lemma max_count_insert:
  assumes "set ns = insert n (set ms)" "max_count ms \<le> n"
  shows "max_count ns = n"
proof -
  have "max_count ns \<in> insert 0 (insert n (set ms))" using max_count_in [of ns] assms(1) by simp
  moreover have "x \<le> n" if "x \<in> set ms" for x using max_count_ge [OF that] assms(2) by simp
  ultimately have "max_count ns \<le> n" by auto
  moreover have "n \<le> max_count ns" using max_count_ge [of n ns] assms(1) by simp
  ultimately show ?thesis by simp
qed

lemma undo_level_insert:
  assumes "undo_wf m" "undo_wf m'" "undo_abs m' = (\<lambda>d u. if u = ts
        then (case map_of counts d of Some n \<Rightarrow> Some n | None \<Rightarrow> undo_abs m d u) else undo_abs m d u)"
    and "\<forall>e \<in> set (items m). snd (undo_key e) \<noteq> ts" "\<forall>d n. map_of counts d = Some n \<longrightarrow> undo_level m d \<le> n"
  shows "undo_level m' d = (case map_of counts d of Some n \<Rightarrow> n | None \<Rightarrow> undo_level m d)"
proof -
  have fresh: "undo_abs m d ts = None" for d
    using assms(1,4) lookup_key_Some [of undo_key "items m" "(d, ts)"] by (cases "undo_abs m d ts") (auto simp: undo_abs_def undo_wf_def)
  show ?thesis
  proof (cases "map_of counts d")
    case None
    then have "undo_abs m' d = undo_abs m d" by (auto simp: assms(3) fun_eq_iff)
    then have "set (edit_counts (\<lambda>_. True) d m') = set (edit_counts (\<lambda>_. True) d m)" by (simp add: set_edit_counts assms(1,2))
    then have "undo_level m' d = undo_level m d" unfolding undo_level_def by (rule max_count_cong)
    then show ?thesis using None by simp
  next
    case (Some n)
    have "undo_abs m' d = (undo_abs m d)(ts \<mapsto> n)" using Some by (auto simp: assms(3) fun_eq_iff)
    then have "ran (undo_abs m' d) = insert n (ran (undo_abs m d))" using ran_map_upd [of "undo_abs m d" ts n] fresh by simp
    then have "set (edit_counts (\<lambda>_. True) d m') = insert n (set (edit_counts (\<lambda>_. True) d m))"
      unfolding set_edit_counts [OF assms(1)] set_edit_counts [OF assms(2)] ran_def .
    then show ?thesis using max_count_insert [of "edit_counts (\<lambda>_. True) d m'"] assms(5) Some unfolding undo_level_def by simp
  qed
qed

lemma undo_map_keys:
  assumes "undo_wf m" "undo_wf m'" "undo_abs m' = (\<lambda>d u. if u = ts
        then (case map_of counts d of Some n \<Rightarrow> Some n | None \<Rightarrow> undo_abs m d u) else undo_abs m d u)"
    and "e \<in> set (items m')"
  shows "undo_key e \<in> undo_key ` set (items m) \<or> snd (undo_key e) = ts \<and> fst (undo_key e) \<in> fst ` set counts"
proof -
  have "lookup_key undo_key (items m') (undo_key e) = Some e" using assms(2,4) by (simp add: lookup_key_Some undo_wf_def)
  then have "undo_abs m' (fst (undo_key e)) (snd (undo_key e)) \<noteq> None" by (simp add: undo_abs_def)
  then consider "undo_abs m (fst (undo_key e)) (snd (undo_key e)) \<noteq> None"
    | "snd (undo_key e) = ts" "map_of counts (fst (undo_key e)) \<noteq> None"
    unfolding assms(3) by (auto split: if_splits option.splits)
  then show ?thesis
  proof cases
    case 1
    then obtain x where "lookup_key undo_key (items m) (undo_key e) = Some x" by (auto simp: undo_abs_def)
    then have "x \<in> set (items m)" "undo_key x = undo_key e" using assms(1) by (auto simp: lookup_key_Some undo_wf_def)
    then show ?thesis by (metis image_eqI)
  next
    case 2
    then show ?thesis by (auto simp: map_of_eq_None_iff)
  qed
qed

section \<open>One step of undo or redo\<close>

text \<open>The undo operation, and that the undo map has room for it.\<close>

definition next_undo :: "(lamport \<times> 32 word) list \<Rightarrow> buffer \<Rightarrow> undo_operation" where
  "next_undo counts b = \<lparr>undo_timestamp = lamport_clock b, undo_version = buffer_version b, undo_counts = counts\<rparr>"

definition undo_room :: "transaction \<Rightarrow> buffer \<Rightarrow> bool" where
  "undo_room t b = (case redo_counts (undo_map (snapshot b)) (edit_ids t) [] of
     None \<Rightarrow> True
   | Some counts \<Rightarrow>
       (case undo_map_insert (next_undo counts b) (undo_map (snapshot b)) of
          None \<Rightarrow> True
        | Some m \<Rightarrow> height m < STACK_CAPACITY))"

lemma origin_fields:
  assumes "map cell_origin (cells ps') = map cell_origin (cells ps)" "c' \<in> set (cells ps')"
  obtains c where "c \<in> set (cells ps)" "c_timestamp c' = c_timestamp c" "c_deletions c' = c_deletions c"
proof -
  have "cell_origin c' \<in> set (map cell_origin (cells ps))" using assms by (metis image_eqI list.set_map)
  then obtain c where "c \<in> set (cells ps)" "cell_origin c' = cell_origin c" by auto
  then show ?thesis using that by (auto simp: cell_origin_def)
qed

lemma undo_or_redo_ok:
  assumes b: "buffer_ok b ps" "buffer_fits b" and clock: "lamport_value (lamport_clock b) \<noteq> - 1" and room: "undo_room t b"
    and t: "\<forall>d \<in> set (edit_ids t). d \<noteq> base_timestamp \<and> d < lamport_clock b"
  shows "\<exists>op b' ps' m. undo_or_redo t b = Some (op, b') \<and> buffer_ok b' ps' \<and> map cell_origin (cells ps') = map cell_origin (cells ps)
    \<and> (\<forall>d. undo_level (undo_map (snapshot b')) d = (if d \<in> set (edit_ids t)
        then u32_saturating_add (undo_level (undo_map (snapshot b)) d) 1 else undo_level (undo_map (snapshot b)) d))
    \<and> buffer_history b' = (buffer_history b)\<lparr>operations := m\<rparr> \<and> lamport_clock b' = snd (tick (lamport_clock b))"
proof -
  let ?s = "snapshot b" and ?m = "undo_map (snapshot b)" and ?ts = "lamport_clock b"
  have ok: "snapshot_ok ?s ps" "undo_wf ?m" "prescribed ?m ps" "saw_all ?s ps" "\<forall>c \<in> set (cells ps). lamport_value (c_timestamp c) \<noteq> 0"
      "clock_ahead b ps" "history_ok (buffer_history b)" "topic_wf (subscriptions b)"
    using b(1) by (simp_all add: buffer_ok_def)
  have H: "heights_ok ?s" "undo_map_ok ?m" using b(2) ok(2) by (simp_all add: buffer_fits_def heights_ok_def undo_map_ok_def)
  from redo_counts_ok [OF H(2), of "[]" "edit_ids t"] obtain counts where
    counts: "redo_counts ?m (edit_ids t) [] = Some counts" "distinct (map fst counts)"
      "map_of counts = (\<lambda>d. if d \<in> set (edit_ids t) then Some (u32_saturating_add (undo_level ?m d) 1) else None)"
    unfolding map_of.simps by auto
  have dom: "fst ` set counts = set (edit_ids t)"
    unfolding dom_map_of_conv_image_fst [symmetric] counts(3) by (auto simp: dom_def split: if_splits)
  let ?u = "next_undo counts b" and ?sv = "?s\<lparr>version := global_observe (version ?s) ?ts\<rparr>"
  have base: "base_timestamp \<le> ?ts" using ok(6) by (simp add: clock_ahead_def)
  then have min: "undo_timestamp ?u \<noteq> lamport_MIN"
    by (auto simp: next_undo_def lamport_MIN_def base_timestamp_def lamport_new_def order.order_iff_strict lamport_less_iff)
  have hm: "height ?m < STACK_CAPACITY" using H(2) by (simp add: undo_map_ok_def)
  have dist: "distinct (map fst (undo_counts ?u))" using counts(2) by (simp add: next_undo_def)
  from undo_map_insert_ok [OF ok(2) hm dist min] obtain m where
    m: "undo_map_insert ?u ?m = Some m" "undo_wf m" "undo_abs m = (\<lambda>d u. if u = ?ts
        then (case map_of counts d of Some n \<Rightarrow> Some n | None \<Rightarrow> undo_abs ?m d u) else undo_abs ?m d u)"
    unfolding undo_operation.simps next_undo_def by blast
  have "height m < STACK_CAPACITY" using room counts(1) m(1) by (simp add: undo_room_def)
  then obtain p s' ps' where
    u: "apply_undo ?u ?sv = Some (p, s')" "undo_map s' = m" "snapshot_ok s' ps'" "prescribed m ps'"
      "map cell_origin (cells ps') = map cell_origin (cells ps)" "patch_upto p (visible_text ?s) (visible_text s')"
    using apply_undo_ok [of ?sv ps ?u m] ok(1-3) H(1) dist min m(1) t dom by (auto simp: next_undo_def)
  have v: "version s' = global_observe (version ?s) ?ts" using apply_undo_version [OF u(1)] by simp
  obtain subs where subs: "publish p (subscriptions b) = Some subs" "topic_wf subs"
    using publish_ok [OF ok(8)] patch_upto_wf [OF u(6)] by blast
  obtain ops where ops: "history_push (UndoOp ?u) (buffer_history b) = Some ((buffer_history b)\<lparr>operations := ops\<rparr>)" "map_wf ops"
    using history_push_ok [OF ok(7)] b(2) by (auto simp: buffer_fits_def)
  let ?c = "snd (tick ?ts)"
  let ?b' = "b\<lparr>lamport_clock := ?c, snapshot := s', subscriptions := subs, buffer_history := (buffer_history b)\<lparr>operations := ops\<rparr>\<rparr>"
  have run: "undo_or_redo t b = Some (UndoOp ?u, ?b')"
    using counts(1) u(1) subs(1) ops(1)
    by (simp add: undo_or_redo_def undo_operations_def buffer_apply_undo_def Let_def case_prod_unfold tick_fst next_undo_def)
  have less: "?ts < ?c" by (rule tick_less [OF clock])
  have ahead: "newest ?ts ps" "\<forall>e \<in> set (items ?m). fst (undo_key e) < ?ts \<and> snd (undo_key e) < ?ts" "\<forall>r. global_get (version ?s) r < lamport_value ?ts"
    using ok(6) by (simp_all add: clock_ahead_def)
  have keys: "fst (undo_key e) < ?c \<and> snd (undo_key e) < ?c \<and> (snd (undo_key e) = ?ts \<or> undo_key e \<in> undo_key ` set (items ?m))" if "e \<in> set (items m)" for e
    using undo_map_keys [OF ok(2) m(2,3) that] ahead(2) less t dom by (auto intro: less_trans)
  have "newest ?c ps'"
    unfolding newest_def
  proof
    fix c' assume "c' \<in> set (cells ps')"
    with u(5) obtain c where "c \<in> set (cells ps)" "c_timestamp c' = c_timestamp c" "c_deletions c' = c_deletions c" by (rule origin_fields)
    then show "c_timestamp c' < ?c \<and> (\<forall>d \<in> set (c_deletions c'). d < ?c)" using ahead(1) less by (auto simp: newest_def intro: less_trans)
  qed
  moreover have "global_get (global_observe (version ?s) ?ts) r < lamport_value ?c" for r
    using ahead(3) word_less_plus_1 [OF clock] by (auto simp: vv.get_obs tick_def intro: less_trans)
  ultimately have "clock_ahead ?b' ps'"
    using ok(6) less keys u(2) v base by (auto simp: clock_ahead_def stack_ids_def intro: less_trans)
  moreover have "saw_all s' ps'"
    using ok(4) keys unfolding saw_all_def u(2) v by (fastforce simp: vv.has_obs elim: origin_fields [OF u(5)])
  moreover have "\<forall>c \<in> set (cells ps'). lamport_value (c_timestamp c) \<noteq> 0"
    using ok(5) by (auto elim: origin_fields [OF u(5)])
  ultimately have "buffer_ok ?b' ps'"
    using u(2-4) m(2) subs(2) history_ok_operations [OF ok(7) ops(2)] by (simp add: buffer_ok_def)
  moreover have "undo_level m d = (if d \<in> set (edit_ids t) then u32_saturating_add (undo_level ?m d) 1 else undo_level ?m d)" for d
  proof -
    have "\<forall>e \<in> set (items ?m). snd (undo_key e) \<noteq> ?ts" using ahead(2) by auto
    moreover have "\<forall>d n. map_of counts d = Some n \<longrightarrow> undo_level ?m d \<le> n" using saturating_succ(1) by (auto simp: counts(3))
    ultimately show ?thesis using undo_level_insert [OF ok(2) m(2,3)] by (simp add: counts(3))
  qed
  ultimately show ?thesis
    using run u(2,5) by (intro exI [of _ "UndoOp ?u"] exI [of _ ?b'] exI [of _ ps'] exI [of _ ops]) simp
qed

section \<open>Undo, then redo\<close>

lemma undo_room_history [simp]: "undo_room t (b\<lparr>buffer_history := h\<rparr>) = undo_room t b"
  by (simp add: undo_room_def next_undo_def cong: option.case_cong)

text \<open>Moving transactions between the stacks keeps the invariant.\<close>

lemma moved_sets:
  assumes "moved h h'"
  shows "set (stack_ids h') = set (stack_ids h)"
    "set (stack_edits (undo_stack h')) \<union> set (stack_edits (redo_stack h')) = set (stack_edits (undo_stack h)) \<union> set (stack_edits (redo_stack h))"
proof -
  have "mset (undo_stack h' @ redo_stack h') = mset (undo_stack h @ redo_stack h)" using assms by (simp add: moved_def)
  then have all: "set (undo_stack h' @ redo_stack h') = set (undo_stack h @ redo_stack h)" by (rule mset_eq_setD)
  then show "set (stack_ids h') = set (stack_ids h)" unfolding stack_ids_def set_map by (rule arg_cong)
  have "set (stack_edits us) \<union> set (stack_edits rs) = (\<Union>e \<in> set (us @ rs). set (entry_edits e))" for us rs
    by (auto simp: stack_edits_def)
  then show "set (stack_edits (undo_stack h')) \<union> set (stack_edits (redo_stack h')) = set (stack_edits (undo_stack h)) \<union> set (stack_edits (redo_stack h))"
    unfolding all by (simp only: all)
qed

lemma buffer_ok_moved:
  assumes "buffer_ok b ps" "moved (buffer_history b) h"
  shows "buffer_ok (b\<lparr>buffer_history := h\<rparr>) ps"
proof -
  have "hist_wf h" "transaction_depth h = 0" "operations h = operations (buffer_history b)" using assms(2) by (simp_all add: moved_def)
  then show ?thesis
    using assms(1) moved_sets [OF assms(2)] unfolding buffer_ok_def history_ok_def clock_ahead_def by simp
qed

lemma buffer_fits_moved: "buffer_fits b \<Longrightarrow> moved (buffer_history b) h \<Longrightarrow> buffer_fits (b\<lparr>buffer_history := h\<rparr>)"
  by (simp add: buffer_fits_def moved_def)

lemma pop_redo_operations:
  "pop_redo h = Some (Some e, h') \<Longrightarrow> pop_redo (h\<lparr>operations := m\<rparr>) = Some (Some e, h'\<lparr>operations := m\<rparr>)"
  by (auto simp: pop_redo_def split: if_splits option.splits)

lemma entry_edits_ok:
  assumes "buffer_ok b ps" "entry \<in> set (undo_stack (buffer_history b)) \<union> set (redo_stack (buffer_history b))" "d \<in> set (entry_edits entry)"
  shows "d \<noteq> base_timestamp \<and> d < lamport_clock b"
proof -
  have "d \<in> set (stack_edits (undo_stack (buffer_history b))) \<union> set (stack_edits (redo_stack (buffer_history b)))"
    using assms(2,3) by (auto simp: stack_edits_def)
  then show ?thesis using assms(1) by (auto simp: buffer_ok_def history_ok_def clock_ahead_def)
qed

text \<open>Taking an entry off a stack and changing the undo counts of its edits.\<close>

lemma undo_entry_ok:
  assumes b: "buffer_ok b ps" "buffer_fits b" and clock: "lamport_value (lamport_clock b) \<noteq> - 1" and room: "undo_room (entry_transaction entry) b"
    and h: "moved (buffer_history b) h" "entry \<in> set (undo_stack (buffer_history b)) \<union> set (redo_stack (buffer_history b))"
  shows "\<exists>op b' ps' m. undo_or_redo (entry_transaction entry) (b\<lparr>buffer_history := h\<rparr>) = Some (op, b') \<and> buffer_ok b' ps'
    \<and> map cell_origin (cells ps') = map cell_origin (cells ps)
    \<and> (\<forall>d. undo_level (undo_map (snapshot b')) d = (if d \<in> set (entry_edits entry)
        then u32_saturating_add (undo_level (undo_map (snapshot b)) d) 1 else undo_level (undo_map (snapshot b)) d))
    \<and> buffer_history b' = h\<lparr>operations := m\<rparr> \<and> lamport_clock b' = snd (tick (lamport_clock b))"
  using undo_or_redo_ok [OF buffer_ok_moved [OF b(1) h(1)] buffer_fits_moved [OF b(2) h(1)], of "entry_transaction entry"]
    clock room entry_edits_ok [OF b(1) h(2)] by (simp cong: if_cong)

lemma undo_redo_ok:
  assumes b: "buffer_ok b ps" "buffer_fits b" and clock: "lamport_value (lamport_clock b) < - 2"
    and h: "transaction_depth (buffer_history b) = 0" "list_last (undo_stack (buffer_history b)) = Some entry"
    and room: "undo_room (entry_transaction entry) b"
    and level: "\<forall>d \<in> set (entry_edits entry). undo_level (undo_map (snapshot b)) d < - 2"
    and later: "\<forall>r b1. buffer_undo b = Some (r, b1) \<longrightarrow> buffer_fits b1 \<and> undo_room (entry_transaction entry) b1"
  shows "\<exists>op1 b1 op2 b2 ps1 ps2. buffer_undo b = Some (Some (entry_id entry, op1), b1) \<and> buffer_ok b1 ps1
    \<and> (\<forall>d. undone (undo_map (snapshot b1)) d = (undone (undo_map (snapshot b)) d \<noteq> (d \<in> set (entry_edits entry))))
    \<and> visible_text (snapshot b1) = shown_text (undo_map (snapshot b1)) (cells ps)
    \<and> buffer_redo b1 = Some (Some (entry_id entry, op2), b2) \<and> buffer_ok b2 ps2
    \<and> visible_text (snapshot b2) = visible_text (snapshot b)
    \<and> undo_stack (buffer_history b2) = undo_stack (buffer_history b) \<and> redo_stack (buffer_history b2) = redo_stack (buffer_history b)"
proof -
  let ?h = "buffer_history b" and ?t = "entry_transaction entry"
  have wf: "hist_wf ?h" using b(1) by (simp add: buffer_ok_def history_ok_def)
  note c1 = succ_below_top [OF clock]
  have mem: "entry \<in> set (undo_stack ?h)" using h(2) by (auto simp: list_last_Some)
  from pop_undo_ok [OF wf h(1)] h(2) obtain h1 where p: "pop_undo ?h = Some (Some entry, h1)" "moved ?h h1" by auto
  have mem1: "entry \<in> set (redo_stack h1)" using p(1) by (auto simp: pop_undo_def split: if_splits option.splits)
  from undo_entry_ok [OF b c1(1) room p(2)] mem obtain op1 b1 ps1 m1 where
    1: "undo_or_redo ?t (b\<lparr>buffer_history := h1\<rparr>) = Some (op1, b1)" "buffer_ok b1 ps1" "map cell_origin (cells ps1) = map cell_origin (cells ps)"
      "\<forall>d. undo_level (undo_map (snapshot b1)) d = (if d \<in> set (entry_edits entry)
        then u32_saturating_add (undo_level (undo_map (snapshot b)) d) 1 else undo_level (undo_map (snapshot b)) d)"
      "buffer_history b1 = h1\<lparr>operations := m1\<rparr>" "lamport_clock b1 = snd (tick (lamport_clock b))" by blast
  have undo: "buffer_undo b = Some (Some (entry_id entry, op1), b1)" using p(1) 1(1) by (simp add: buffer_undo_def)
  have fits1: "buffer_fits b1" "undo_room ?t b1" using later undo by auto
  have wfb: "hist_wf (buffer_history b1)" using 1(2) by (simp add: buffer_ok_def history_ok_def)
  have d1: "transaction_depth (buffer_history b1) = 0" using p(2) 1(5) by (simp add: moved_def)
  have redo: "pop_redo (buffer_history b1) = Some (Some entry, ?h\<lparr>operations := m1\<rparr>)"
    unfolding 1(5) by (rule pop_redo_operations [OF pop_undo_pop_redo [OF p(1)]])
  then have mv: "moved (buffer_history b1) (?h\<lparr>operations := m1\<rparr>)" using pop_redo_ok [OF wfb d1] by auto
  have c2: "lamport_value (lamport_clock b1) \<noteq> - 1" using c1(2) 1(6) by (simp add: tick_def)
  from undo_entry_ok [OF 1(2) fits1(1) c2 fits1(2) mv] mem1 1(5) obtain op2 b2 ps2 m2 where
    2: "undo_or_redo ?t (b1\<lparr>buffer_history := ?h\<lparr>operations := m1\<rparr>\<rparr>) = Some (op2, b2)" "buffer_ok b2 ps2"
      "map cell_origin (cells ps2) = map cell_origin (cells ps1)"
      "\<forall>d. undo_level (undo_map (snapshot b2)) d = (if d \<in> set (entry_edits entry)
        then u32_saturating_add (undo_level (undo_map (snapshot b1)) d) 1 else undo_level (undo_map (snapshot b1)) d)"
      "buffer_history b2 = ?h\<lparr>operations := m1\<rparr>\<lparr>operations := m2\<rparr>" by auto
  have redo_run: "buffer_redo b1 = Some (Some (entry_id entry, op2), b2)" using redo 2(1) by (simp add: buffer_redo_def)
  have succ: "u32_saturating_add n 1 = n + 1 \<and> u32_saturating_add (n + 1) 1 = n + 1 + 1" if "n < - 2" for n :: "32 word"
    using succ_below_top [OF that] by (simp add: saturating_succ(2))
  have flip: "undone (undo_map (snapshot b1)) d = (undone (undo_map (snapshot b)) d \<noteq> (d \<in> set (entry_edits entry)))" for d
    using 1(4) succ level by (auto simp: undone_level)
  have restored: "undone (undo_map (snapshot b2)) d = undone (undo_map (snapshot b)) d" for d
    using 1(4) 2(4) succ level by (auto simp: undone_level)
  have shown: "visible_text (snapshot c) = shown_text (undo_map (snapshot c)) (cells qs)" if "buffer_ok c qs" for c qs
    using that prescribed_text by (simp add: buffer_ok_def)
  have "visible_text (snapshot b1) = shown_text (undo_map (snapshot b1)) (cells ps)"
    unfolding shown [OF 1(2)] by (rule shown_text_cong [OF 1(3) refl])
  moreover have "visible_text (snapshot b2) = visible_text (snapshot b)"
    unfolding shown [OF 2(2)] shown [OF b(1)] using 1(3) 2(3) restored by (intro shown_text_cong) simp_all
  moreover have "undo_stack (buffer_history b2) = undo_stack ?h" "redo_stack (buffer_history b2) = redo_stack ?h" using 2(5) by simp_all
  ultimately show ?thesis using undo 1(2) flip redo_run 2(2) by blast
qed

end
