(* ===== verification/Spec2Isabelle.thy ===== *)
theory Spec2Isabelle
  imports Locator Points Selection LineEnding TextSummary Convergence BufferSync BufferUndo
begin

text \<open>
  \<^bold>\<open>The collaborative text buffer.\<close>  The editor keeps every open file in a replicated text type: replicas edit
  concurrently and exchange operations.  This library models the crates that implement it,
  \<^verbatim>\<open>clock\<close>, \<^verbatim>\<open>sum_tree\<close>, \<^verbatim>\<open>text\<close> and parts of \<^verbatim>\<open>rope\<close> (under \<^verbatim>\<open>src/crates\<close>), and proves what makes
  them correct.

  \<^bold>\<open>Parts and how they interact.\<close>  A buffer snapshot (\<^verbatim>\<open>BufferSnapshot\<close>) holds the visible and the deleted text
  in two ropes and describes them by a sequence of fragments: a fragment is a run of bytes of one
  insertion, with a position identifier (a locator), the timestamps of its insertion and of its
  deletions, and a visibility flag.  The fragments are the items of a B-tree with cached summaries
  (\<^verbatim>\<open>SumTree\<close>); cursors walk it by any dimension of the summaries and cut it in slices.  A second tree
  indexes the fragments by insertion and offset, a tree map holds the slices each edit touched, and an
  undo map counts how often each edit has been undone.  An edit walks the fragments once, copies,
  splits and marks them, pushes new ones, and publishes a patch to the subscribers.  The history
  groups edits into transactions for undo and redo.

  \<^bold>\<open>Theories.\<close>
  \<^item> \<^verbatim>\<open>Prelude\<close>: results of checked operations, comparisons, lists and words used throughout.
  \<^item> \<^verbatim>\<open>Clock\<close> (\<^verbatim>\<open>clock/src/clock.rs\<close>): Lamport timestamps at 32 bits and version vectors; the laws of
    the vectors are the locale of a bounded join semilattice with a meet.
  \<^item> \<^verbatim>\<open>Locator\<close> (\<^verbatim>\<open>text/src/locator.rs\<close>): dense identifiers and \<^verbatim>\<open>between\<close>.
  \<^item> \<^verbatim>\<open>SumTree\<close>, \<^verbatim>\<open>SumTree_Correct\<close> (\<^verbatim>\<open>sum_tree/src/sum_tree.rs\<close>): the tree and its construction.  The locale
    \<^verbatim>\<open>summary_laws\<close> is the contract of a summary; it is interpreted for every tree of the program.
  \<^item> \<^verbatim>\<open>Cursor\<close>, \<^verbatim>\<open>Cursor_Correct\<close> (\<^verbatim>\<open>sum_tree/src/cursor.rs\<close>): stack cursors; seeking, slicing, moving.  The
    locales \<^verbatim>\<open>seek_aggregates\<close> and \<^verbatim>\<open>dimension_laws\<close> are the contracts of what a seek collects and measures.
  \<^item> \<^verbatim>\<open>Iteration\<close> (\<^verbatim>\<open>cursor.rs\<close>): the iterator without positions, and that it ends.
  \<^item> \<^verbatim>\<open>KeyedTree\<close>, \<^verbatim>\<open>TreeMap\<close> (\<^verbatim>\<open>sum_tree.rs\<close>, \<^verbatim>\<open>tree_map.rs\<close>): keyed edits and tree maps, refining finite maps.
  \<^item> \<^verbatim>\<open>UndoMap\<close> (\<^verbatim>\<open>text/src/undo_map.rs\<close>): counts of undo operations.
  \<^item> \<^verbatim>\<open>Points\<close>, \<^verbatim>\<open>TextSummary\<close> (\<^verbatim>\<open>rope/src\<close>: \<^verbatim>\<open>point.rs\<close>, \<^verbatim>\<open>offset_utf16.rs\<close>, \<^verbatim>\<open>unclipped.rs\<close>, summaries and dimensions
    of \<^verbatim>\<open>rope.rs\<close>): positions as rows and columns, and the summary of a text.
  \<^item> \<^verbatim>\<open>Selection\<close>, \<^verbatim>\<open>Patch\<close>, \<^verbatim>\<open>Subscription\<close>, \<^verbatim>\<open>LineEnding\<close>, \<^verbatim>\<open>History\<close> (\<^verbatim>\<open>text/src\<close>: \<^verbatim>\<open>selection.rs\<close>, \<^verbatim>\<open>patch.rs\<close>,
    \<^verbatim>\<open>subscription.rs\<close>, \<^verbatim>\<open>text.rs\<close>): selections, patches and their composition, delivery to subscribers,
    line endings and indentation, transactions and the undo and redo stacks.
  \<^item> \<^verbatim>\<open>Fragment\<close>, \<^verbatim>\<open>LocalEdit\<close>, \<^verbatim>\<open>Buffer\<close> (\<^verbatim>\<open>text/src/text.rs\<close>): fragments with their summaries and dimensions, the
    index and slices of insertions, the builders of new trees and ropes, \<^verbatim>\<open>apply_edit_internal\<close>, and the
    construction of a buffer.
  \<^item> \<^verbatim>\<open>Pieces\<close>, \<^verbatim>\<open>Pass\<close>: the abstract view.  A piece is a fragment with its text, a cell is one byte with its
    identity; an edit pass is a step relation on pieces, with its invariants proved by rule induction.
  \<^item> \<^verbatim>\<open>EditSim\<close>, \<^verbatim>\<open>Snapshot\<close>, \<^verbatim>\<open>LocalEdit_Correct\<close>: the code simulates such a pass, the invariant of a snapshot is
    restored at its end, and the edit does what it should.
  \<^item> \<^verbatim>\<open>UndoEdit\<close>, \<^verbatim>\<open>UndoFragments\<close>, \<^verbatim>\<open>UndoEdit_Correct\<close> (\<^verbatim>\<open>text/src/text.rs\<close>): \<^verbatim>\<open>fragment_ids_for_edits\<close> and \<^verbatim>\<open>apply_undo\<close>;
    the search finds every fragment the edits touched, and the pass restores the prescribed visibility.
  \<^item> \<^verbatim>\<open>RemoteEdit\<close>, \<^verbatim>\<open>RemotePositions\<close>, \<^verbatim>\<open>RemotePass\<close>, \<^verbatim>\<open>RemoteEdit_Correct\<close> (\<^verbatim>\<open>text/src/text.rs\<close>): \<^verbatim>\<open>apply_remote_edit\<close>; positions
    among the bytes a version has observed, the specification of the edit on cells, and the simulation.
  \<^item> \<^verbatim>\<open>Replication\<close>, \<^verbatim>\<open>Convergence\<close>: an operation does the same at the replica that made it and at the others, and
    concurrent edits commute.
  \<^item> \<^verbatim>\<open>OperationQueue\<close> (\<^verbatim>\<open>text/src/operation_queue.rs\<close>): the queue of deferred operations; the locale \<^verbatim>\<open>timestamp_queue\<close> is what
    the buffer relies on.
  \<^item> \<^verbatim>\<open>BufferState\<close> (\<^verbatim>\<open>Buffer\<close> of \<^verbatim>\<open>text/src/text.rs\<close>): the state of a buffer and its operations: edits, delivery,
    transactions, undo and redo, waiting.
  \<^item> \<^verbatim>\<open>Buffer_Correct\<close>, \<^verbatim>\<open>Delivery\<close>, \<^verbatim>\<open>BufferSync\<close>, \<^verbatim>\<open>BufferUndo\<close>: the invariant of a buffer and the edits that keep it;
    causal delivery; sessions of two replicas, as a step relation; undo and redo.

  \<^bold>\<open>What is shown.\<close>  Local edits: a batch succeeds, replaces exactly its ranges, keeps every byte's identity,
  reports the change, and keeps the invariant that a new buffer satisfies.  Undo: applying an undo
  operation shows exactly the bytes the undo map prescribes, although it visits only the fragments found
  through the insertion slices.  Remote edits: an edit of another replica is applied at the place its
  version denotes, behind concurrent insertions with a higher timestamp; the operation of a local edit does
  at another replica what the edit did at its own, and two concurrent edits give the same bytes in either
  order.  Buffers: an edit keeps clock, version, history and snapshot consistent; delivered to another replica
  that was in step, it leaves both in step, so that the texts agree after any session; operations that arrive
  early wait exactly until what they depend on has arrived, and none is lost; undo followed by redo
  restores the text.  Clocks and identifiers: version vectors, timestamps and locators are
  ordered as replication needs.  Trees: trees, cursors, keyed trees and tree maps implement sequences and
  finite maps.  Undo counts do not depend on the order of arrival.  Points and selections keep their
  order.  Patches compose as relations and every subscriber learns of every change.  The history loses no
  edit.  Summaries, line endings and indentation agree with their definitions on whole texts; what an indentation calls
  blank is narrower than its comment says.

  \<^bold>\<open>Conventions and bounds.\<close>  A panic (a failed assertion, an index out of bounds, an unwrap of nothing, a
  subtraction of \<^verbatim>\<open>usize\<close> below zero) is the result \<^term>\<open>None\<close>, so that a theorem of the form
  \<^term>\<open>\<exists>y. f x = Some y\<close> says that the code does not panic.  \<^verbatim>\<open>u16\<close>, \<^verbatim>\<open>u32\<close> and \<^verbatim>\<open>u64\<close> are words
  that wrap; \<^verbatim>\<open>usize\<close> is a natural number, since memory bounds it before 64 bits do.  The stacks of the
  cursors hold \<^term>\<open>STACK_CAPACITY\<close> entries as in the code; theorems on cursors assume a height below it.
  Loops that read a cursor to its
  end carry fuel, and the theorems ask for more fuel than there are items; the deletion loop of an edit
  is a partial function, proved to return, and so is the loop over an iterator.  Edits are below 4 GiB in total, where the 32-bit offsets
  within an insertion do not wrap.  A rope stands for its text, and a cut of a rope away from a character
  boundary is a panic.  The regular expression that replaces line separators is a parameter with its
  documented behaviour as a hypothesis.  A batch edit of a keyed tree sorts its edits with an unstable sort, modelled by
  a stable one: the theorems ask for distinct keys, where the two agree, and every caller in the text buffer
  provides them.  The assertions in the summaries of the operation queue are not part of the sums; they are
  proved for all neighbouring runs of items.

  \<^bold>\<open>Not modelled.\<close>  The chunks of the rope and its bitmaps, anchors and the queries over a snapshot
  (edited ranges, edits since a version) are left out.  The futures that wait for operations are outside the
  buffer: the model records which channels a message is sent on.  The crates around the
  text type (user interface, language servers, collaboration transport, agents, settings) are views and
  I/O over it.
\<close>

section \<open>Clocks and identifiers\<close>

text \<open>C16: version vectors form a join semilattice.  On vectors built by \<^verbatim>\<open>new\<close>, \<^verbatim>\<open>observe\<close> and \<^verbatim>\<open>join\<close>,
  \<^verbatim>\<open>observed_all\<close> means that every timestamp the other vector has observed is observed too.  It is a
  partial order (reflexive, transitive, antisymmetric).  \<^verbatim>\<open>join\<close> observes exactly the timestamps that either
  vector has observed; it is their least upper bound, associative and commutative, so the order in which
  replicas learn of each other's versions does not matter.\<close>

theorem join_is_least_upper_bound:
  assumes "global_wf g" "global_wf h" "global_wf k"
  shows "(observed_all g h \<longleftrightarrow> (\<forall>t. observed h t \<longrightarrow> observed g t))
    \<and> observed_all g g
    \<and> (observed_all g h \<and> observed_all h k \<longrightarrow> observed_all g k)
    \<and> (observed_all k g \<and> observed_all g k \<longrightarrow> g = k)
    \<and> (\<forall>t. observed (global_join g h) t \<longleftrightarrow> observed g t \<or> observed h t)
    \<and> observed_all (global_join g h) g \<and> observed_all (global_join g h) h
    \<and> (observed_all k g \<and> observed_all k h \<longrightarrow> observed_all k (global_join g h))
    \<and> global_join (global_join g h) k = global_join g (global_join h k)
    \<and> global_join g h = global_join h g \<and> global_wf (global_join g h)"
proof (intro conjI)
  show "observed_all g h \<longleftrightarrow> (\<forall>t. observed h t \<longrightarrow> observed g t)" by (rule vv.all_has [OF assms(1,2)])
  show "observed_all g h \<and> observed_all h k \<longrightarrow> observed_all g k" using vv.all_trans [OF assms] by blast
  show "observed_all k g \<and> observed_all g k \<longrightarrow> g = k" using vv.all_antisym [OF assms(1,3)] by blast
  show "observed_all k g \<and> observed_all k h \<longrightarrow> observed_all k (global_join g h)" using vv.all_join_iff [OF assms(1,2)] by blast
  show "global_join (global_join g h) k = global_join g (global_join h k)" by (rule vv.join_assoc [OF assms])
  show "global_join g h = global_join h g" by (rule vv.join_commute [OF assms(1,2)])
qed (use assms in \<open>simp_all add: vv.all_refl vv.has_join vv.join_upper vv.wf_join\<close>)

theorem join_is_least_upper_bound_witness:
  "observed_all (global_join (global_observe global_new (Lamport 3 0)) (global_observe global_new (Lamport 5 2))) (global_observe global_new (Lamport 5 2))
    \<and> observed (global_join (global_observe global_new (Lamport 3 0)) (global_observe global_new (Lamport 5 2))) (Lamport 3 0)
    \<and> \<not> observed_all (global_observe global_new (Lamport 3 0)) (global_observe global_new (Lamport 5 2))"
proof -
  have "global_wf (global_observe global_new (Lamport 3 0))" "global_wf (global_observe global_new (Lamport 5 2))"
    by (simp_all add: global_wf_intros)
  note laws = join_is_least_upper_bound [OF this global_wf_new]
  have "observed (global_observe global_new (Lamport 3 0)) (Lamport 3 0)"
    "\<not> observed_all (global_observe global_new (Lamport 3 0)) (global_observe global_new (Lamport 5 2))" by code_simp+
  with laws show ?thesis by blast
qed

text \<open>C17: the packed 64-bit form of a timestamp has the order of the timestamps, and \<^verbatim>\<open>tick\<close> and
  \<^verbatim>\<open>observe\<close> move the clock past every timestamp it has given out or seen (below the top of the
  32-bit counter).\<close>

theorem lamport_clock_moves_forward:
  assumes "lamport_value c \<noteq> - 1" "lamport_value t \<noteq> - 1"
  shows "(as_u64 a < as_u64 b \<longleftrightarrow> lamport_cmp a b = Less)
    \<and> fst (tick c) = c \<and> c < snd (tick c) \<and> c < lamport_observe c t \<and> t < lamport_observe c t"
  using assms by (simp add: as_u64_less_iff less_lamport_def [symmetric] tick_fst tick_less lamport_observe_greater)

theorem lamport_clock_moves_forward_witness:
  "Lamport 9 1 < lamport_observe (Lamport 4 0) (Lamport 9 1)"
  using lamport_clock_moves_forward [of "Lamport 4 0" "Lamport 9 1"] by simp

text \<open>C18: \<^verbatim>\<open>Locator::between\<close> gives a valid locator strictly between its arguments.\<close>

theorem locator_between_is_between:
  assumes "lhs < rhs" "locator_valid rhs"
  shows "lhs < between lhs rhs \<and> between lhs rhs < rhs \<and> locator_valid (between lhs rhs)"
  using assms between_greater between_less between_valid by blast

theorem locator_between_is_between_witness:
  "[0] < between [0] [7] \<and> between [0] [7] < [7]"
  using locator_between_is_between [of "[0]" "[7]"] by simp

section \<open>The sum tree\<close>

text \<open>C19: building a tree from a sequence.  For every summary monoid, \<^verbatim>\<open>from_iter\<close> and the parallel
  \<^verbatim>\<open>from_par_iter\<close> build the same tree, it satisfies the B-tree invariant with correct cached
  summaries, and its items are the sequence.\<close>

theorem from_iter_builds_the_sequence:
  assumes "summary_laws ops valid ok" "list_all ok xs"
  shows "\<exists>t. from_iter ops xs = Some t \<and> from_par_iter ops xs = Some t \<and> tree_wf ops t \<and> items t = xs"
  using summary_laws.from_iter_ok [OF assms] by blast

theorem from_iter_builds_the_sequence_witness:
  "\<exists>t. from_iter undo_ops (map (mk_undo_entry lamport_MIN lamport_MIN \<circ> of_nat) [0..<40]) = Some t
    \<and> items t = map (mk_undo_entry lamport_MIN lamport_MIN \<circ> of_nat) [0..<40]"
  using from_iter_builds_the_sequence
    [OF um.summary_laws_axioms, of "map (mk_undo_entry lamport_MIN lamport_MIN \<circ> of_nat) [0..<40]"]
  by (auto simp: list_all_iff)

text \<open>C20: \<^verbatim>\<open>append\<close> never panics on well-formed trees, whatever their heights, keeps the invariant
  and concatenates the items; \<^verbatim>\<open>push\<close> and \<^verbatim>\<open>extend\<close> add items at the end.\<close>

theorem append_concatenates:
  assumes "summary_laws ops valid ok" "tree_wf ops a" "list_all ok (items a)" "tree_wf ops b" "list_all ok (items b)"
    and "ok x"
  shows "(\<exists>t. append_tree ops a b = Some t \<and> tree_wf ops t \<and> items t = items a @ items b)
    \<and> (\<exists>t. push ops a x = Some t \<and> tree_wf ops t \<and> items t = items a @ [x])
    \<and> (\<exists>t. tree_extend ops a (items b) = Some t \<and> tree_wf ops t \<and> items t = items a @ items b)"
  using summary_laws.append_ok [OF assms(1), of a b] summary_laws.push_ok [OF assms(1), of a x]
    summary_laws.extend_ok [OF assms(1), of a "items b"] assms(2-)
  by blast

theorem append_concatenates_witness:
  "\<exists>t. push undo_ops (tree_new undo_ops) (mk_undo_entry lamport_MIN lamport_MIN 1) = Some t
    \<and> items t = [mk_undo_entry lamport_MIN lamport_MIN 1]"
  using append_concatenates [OF um.summary_laws_axioms, of "tree_new undo_ops" "tree_new undo_ops" "mk_undo_entry lamport_MIN lamport_MIN 1"]
  by (auto simp: tree_new_def sum_summaries_def)

text \<open>C21: the root summary of a well-formed tree is the sum of its items' summaries, and \<^verbatim>\<open>items\<close>
  (a cursor moved over the whole tree) returns exactly the items, in order.\<close>

theorem cursor_walks_all_items:
  assumes "summary_laws ops valid ok" "tree_wf ops t" "list_all ok (items t)"
    and "height t < STACK_CAPACITY" "length (items t) < n"
  shows "tree_items n t = Some (items t)
    \<and> summary t = sum_summaries ops (map (item_summary ops) (items t))"
  using summary_laws.tree_items_ok [OF assms(1), of t n] summary_laws.summary_items [OF assms(1), of t] assms(2-)
  by blast

theorem cursor_walks_all_items_witness:
  "tree_items 2 (Leaf (Lamport 1 0, Lamport 2 0) [mk_undo_entry (Lamport 1 0) (Lamport 2 0) 1] [(Lamport 1 0, Lamport 2 0)]) = Some [mk_undo_entry (Lamport 1 0) (Lamport 2 0) 1]"
  using cursor_walks_all_items [OF um.summary_laws_axioms, of "(Leaf (Lamport 1 0, Lamport 2 0) [mk_undo_entry (Lamport 1 0) (Lamport 2 0) 1] [(Lamport 1 0, Lamport 2 0)])" 2]
  by (simp add: sum_summaries_def TREE_BASE_def mk_undo_entry_def STACK_CAPACITY_def)

text \<open>C22: \<^verbatim>\<open>slice\<close> followed by \<^verbatim>\<open>suffix\<close> splits a tree in two at the target without losing an item:
  the slice holds the items whose end the target lies past, the suffix the others.\<close>

theorem slice_then_suffix_partitions:
  assumes "dimension_laws ops valid ok dm" "tree_wf ops t" "list_all ok (items t)" "height t < STACK_CAPACITY"
    and "tgt (dim_zero dm) \<noteq> Less" "seekable ops dm (seek_past tgt b) (dim_zero dm) (items t)"
  shows "\<exists>l c r c'. slice ops dm tgt b (cursor_new dm t) = Some (l, c) \<and> Cursor.suffix ops dm c = Some (r, c')
    \<and> items l = take_past ops dm (seek_past tgt b) (dim_zero dm) (items t) \<and> items l @ items r = items t
    \<and> tree_wf ops l \<and> tree_wf ops r"
  using dimension_laws.slice_suffix_ok [OF assms(1)] assms(2-) by blast

theorem slice_then_suffix_partitions_witness:
  "\<exists>l c r c'. slice undo_ops undo_dim (ord_target (lamport_MIN, lamport_MIN)) Left (cursor_new undo_dim (tree_new undo_ops)) = Some (l, c)
    \<and> Cursor.suffix undo_ops undo_dim c = Some (r, c') \<and> items l @ items r = []"
  using slice_then_suffix_partitions [OF um.dimension_laws_axioms, of "tree_new undo_ops"
      "ord_target (lamport_MIN, lamport_MIN)" Left]
  by (auto simp: tree_new_def sum_summaries_def STACK_CAPACITY_def ord_target_def seekable_def)

text \<open>C23: \<^verbatim>\<open>find\<close> descends to the first item whose end the target does not lie past, and returns its
  start, its end and the item; when there is none, the end of the tree.\<close>

theorem find_finds_first_at_or_after:
  assumes "dimension_laws ops valid ok dm" "tree_wf ops t" "list_all ok (items t)" "items t \<noteq> []"
    and "seekable ops dm (seek_past tgt b) (dim_zero dm) (items t)"
  shows "tree_find dm tgt b t =
    (let p = pos_after ops dm (dim_zero dm) (take_past ops dm (seek_past tgt b) (dim_zero dm) (items t));
         x = list_first (drop_past ops dm (seek_past tgt b) (dim_zero dm) (items t))
     in (p, (case x of Some x \<Rightarrow> item_end ops dm p x | None \<Rightarrow> p), x))"
  using dimension_laws.find_ok [OF assms(1) _ assms(4,5) refl refl] assms(2,3) by (simp add: Let_def)

theorem find_finds_first_at_or_after_witness:
  "snd (snd (tree_find map_key_dim (ord_target (Some (4 :: nat))) Left
      (Leaf (Some 7) [mk_map_entry 3 (), mk_map_entry 7 ()] [Some 3, Some 7]))) = Some (mk_map_entry (7 :: nat) ())"
proof -
  let ?xs = "[mk_map_entry 3 (), mk_map_entry (7::nat) ()]"
  have "seekable map_ops map_key_dim (seek_past (ord_target (Some 4)) Left) (dim_zero map_key_dim) ?xs"
    using tm.seekable_below [OF tm.below_zero, of ?xs "Some 4"] by simp
  then show ?thesis
    using find_finds_first_at_or_after [OF tm.dimension_laws_axioms, of "Leaf (Some 7) ?xs [Some 3, Some 7]" "ord_target (Some 4)" Left]
    by (simp add: sum_summaries_def TREE_BASE_def seek_past_def ord_target_def item_end_def list_first_def Let_def)
qed

text \<open>C24: keyed trees implement a finite map.  \<^verbatim>\<open>insert_or_replace\<close> and \<^verbatim>\<open>remove\<close> return the item that
  had the key and leave a well-formed tree sorted by key whose lookup function is updated at that
  key only.\<close>

theorem keyed_tree_is_a_map:
  assumes "keyed_laws ops valid ok kd key" "tree_wf ops t" "list_all ok (items t)" "height t < STACK_CAPACITY"
    and "key_sorted key (items t)" "ok x" "dim_zero kd \<le> k"
  shows "(\<exists>t'. insert_or_replace ops kd key x t = Some (lookup_key key (items t) (key x), t') \<and> tree_wf ops t'
      \<and> key_sorted key (items t') \<and> lookup_key key (items t') = (lookup_key key (items t))(key x \<mapsto> x))
    \<and> (\<exists>t'. keyed_remove ops kd key k t = Some (lookup_key key (items t) k, t') \<and> tree_wf ops t'
      \<and> key_sorted key (items t') \<and> lookup_key key (items t') = (lookup_key key (items t))(k := None))"
proof -
  have good: "tree_wf ops t \<and> list_all ok (items t)" using assms(2,3) by blast
  from keyed_laws.insert_or_replace_ok [OF assms(1) good assms(4,5,6)]
    keyed_laws.keyed_remove_ok [OF assms(1) good assms(4,5,7)]
  show ?thesis
    using insert_item_sorted [OF assms(5), of x] remove_key_sorted [OF assms(5), of k]
      lookup_insert_item [OF assms(5), of x] lookup_remove_key [OF assms(5), of k]
    by (auto simp: fun_eq_iff)
qed

theorem keyed_tree_is_a_map_witness:
  "\<exists>t'. keyed_remove undo_ops undo_dim undo_key (Lamport 1 0, Lamport 2 0)
        (Leaf (Lamport 1 0, Lamport 2 0) [mk_undo_entry (Lamport 1 0) (Lamport 2 0) 1] [(Lamport 1 0, Lamport 2 0)]) = Some (Some (mk_undo_entry (Lamport 1 0) (Lamport 2 0) 1), t')
    \<and> lookup_key undo_key (items t') (Lamport 1 0, Lamport 2 0) = None"
  using keyed_tree_is_a_map [OF um.keyed_laws_axioms, where t = "(Leaf (Lamport 1 0, Lamport 2 0) [mk_undo_entry (Lamport 1 0) (Lamport 2 0) 1] [(Lamport 1 0, Lamport 2 0)])"
      and x = "mk_undo_entry lamport_MIN lamport_MIN 1" and k = "(Lamport 1 0, Lamport 2 0)", THEN conjunct2]
  by (auto simp: sum_summaries_def TREE_BASE_def mk_undo_entry_def STACK_CAPACITY_def lookup_key_def [of _ "[_]"] less_eq_prod_def)

text \<open>C25: a batch \<^verbatim>\<open>edit\<close> whose edits have distinct keys carries all of them out in one pass.  Afterwards a key has the
  item its edit inserted, nothing if its edit removed it, and its old item if no edit named it; the call
  returns exactly the old items whose keys an edit named, in the order of their keys.  That the keys are
  distinct is necessary (\<^verbatim>\<open>extend_repeated_key\<close> in \<^verbatim>\<open>TreeMap\<close> shows two insertions of one key leaving two items);
  it also makes the order that \<^verbatim>\<open>sort_unstable_by_key\<close> leaves open irrelevant.\<close>

theorem batch_edit_applies_every_edit:
  assumes "keyed_laws ops valid ok kd key" "tree_wf ops t" "list_all ok (items t)" "height t < STACK_CAPACITY"
    and "key_sorted key (items t)" "distinct (map (edit_key key) edits)"
    and "list_all (\<lambda>e. dim_zero kd < edit_key key e \<and> (case e of InsertEdit x \<Rightarrow> ok x | RemoveEdit _ \<Rightarrow> True)) edits"
  shows "\<exists>removed t'. keyed_edit ops kd key edits t = Some (removed, t') \<and> tree_wf ops t' \<and> key_sorted key (items t')
    \<and> removed = filter (\<lambda>x. key x \<in> edit_key key ` set edits) (items t)
    \<and> (\<forall>k. lookup_key key (items t') k = (case find (\<lambda>e. edit_key key e = k) edits of
           None \<Rightarrow> lookup_key key (items t) k | Some (InsertEdit x) \<Rightarrow> Some x | Some (RemoveEdit _) \<Rightarrow> None))"
proof -
  have good: "tree_wf ops t \<and> list_all ok (items t)" using assms(2,3) by blast
  have ok: "\<And>x. InsertEdit x \<in> set edits \<Longrightarrow> ok x" "\<And>e. e \<in> set edits \<Longrightarrow> dim_zero kd < edit_key key e"
    using assms(7) by (fastforce simp: list_all_iff)+
  from keyed_laws.keyed_edit_lookup [OF assms(1) good assms(4,5,6) ok] obtain removed t' where
    r: "keyed_edit ops kd key edits t = Some (removed, t')" "tree_wf ops t'" "key_sorted key (items t')"
      "\<forall>k. lookup_key key (items t') k = (case find (\<lambda>e. edit_key key e = k) edits of
           None \<Rightarrow> lookup_key key (items t) k | Some (InsertEdit x) \<Rightarrow> Some x | Some (RemoveEdit _) \<Rightarrow> None)"
    unfolding last_filter_find [OF assms(6)] by blast
  moreover from keyed_laws.keyed_edit_removed [OF assms(1) good assms(4,5,6) ok r(1)] have
    "removed = filter (\<lambda>x. key x \<in> edit_key key ` set edits) (items t)" .
  ultimately show ?thesis by blast
qed

theorem batch_edit_applies_every_edit_witness:
  "\<exists>t'. keyed_edit undo_ops undo_dim undo_key
        [InsertEdit (mk_undo_entry (Lamport 3 0) (Lamport 4 0) 1), RemoveEdit (Lamport 1 0, Lamport 2 0)]
        (Leaf (Lamport 1 0, Lamport 2 0) [mk_undo_entry (Lamport 1 0) (Lamport 2 0) 1] [(Lamport 1 0, Lamport 2 0)])
      = Some ([mk_undo_entry (Lamport 1 0) (Lamport 2 0) 1], t')
    \<and> lookup_key undo_key (items t') (Lamport 3 0, Lamport 4 0) = Some (mk_undo_entry (Lamport 3 0) (Lamport 4 0) 1)
    \<and> lookup_key undo_key (items t') (Lamport 1 0, Lamport 2 0) = None"
proof -
  let ?t = "Leaf (Lamport 1 0, Lamport 2 0) [mk_undo_entry (Lamport 1 0) (Lamport 2 0) 1] [(Lamport 1 0, Lamport 2 0)]"
  have "tree_wf undo_ops ?t" by (simp add: sum_summaries_def TREE_BASE_def mk_undo_entry_def)
  with batch_edit_applies_every_edit [OF um.keyed_laws_axioms, of ?t
      "[InsertEdit (mk_undo_entry (Lamport 3 0) (Lamport 4 0) 1), RemoveEdit (Lamport 1 0, Lamport 2 0)]"]
  show ?thesis
    by (auto simp: mk_undo_entry_def STACK_CAPACITY_def edit_key_def less_prod_def lamport_MIN_def lamport_less_iff)
qed


section \<open>Maps and the undo map\<close>

text \<open>C26: \<^verbatim>\<open>TreeMap\<close> refines a finite map: \<^verbatim>\<open>get\<close> reads it, \<^verbatim>\<open>insert\<close>, \<^verbatim>\<open>remove\<close> and \<^verbatim>\<open>update\<close> change it
  at one key and return what the code returns, and \<^verbatim>\<open>retain\<close> filters it.\<close>

theorem tree_map_refines_map:
  assumes "map_wf m" "height m < STACK_CAPACITY" "length (items m) < n"
  shows "map_get k m = map_abs m k
    \<and> (\<exists>m'. map_insert k v m = Some m' \<and> map_wf m' \<and> map_abs m' = (map_abs m)(k \<mapsto> v))
    \<and> (\<exists>m'. map_remove k m = Some (map_abs m k, m') \<and> map_wf m' \<and> map_abs m' = (map_abs m)(k := None))
    \<and> (\<exists>m'. map_update k f m = Some (map_option (fst \<circ> f) (map_abs m k), m') \<and> map_wf m'
        \<and> map_abs m' = (case map_abs m k of None \<Rightarrow> map_abs m | Some w \<Rightarrow> (map_abs m)(k \<mapsto> snd (f w))))
    \<and> (\<exists>m'. retain n p m = Some m' \<and> map_wf m'
        \<and> map_abs m' = (\<lambda>k. case map_abs m k of Some w \<Rightarrow> if p k w then Some w else None | None \<Rightarrow> None))"
  using map_get_ok [OF assms(1), of k] map_insert_ok [OF assms(1,2), of k v] map_remove_ok [OF assms(1,2), of k]
    map_update_ok [OF assms(1,2), of k f] retain_ok [OF assms, of p]
  by blast

theorem tree_map_refines_map_witness:
  "\<exists>m'. map_insert (5 :: nat) True tree_map_default = Some m' \<and> map_wf m' \<and> map_abs m' = [5 \<mapsto> True]"
proof -
  let ?m = "tree_map_default :: (nat, bool) tree_map"
  have "map_wf ?m" "height ?m < STACK_CAPACITY" "length (items ?m) < 1" "map_abs ?m = Map.empty"
    by (simp_all add: map_wf_def tree_map_default_def tree_new_def sum_summaries_def STACK_CAPACITY_def map_abs_def lookup_key_def fun_eq_iff)
  with tree_map_refines_map [of ?m 1 5 True "\<lambda>v. ((), v)" "\<lambda>_ _. True"] show ?thesis by simp
qed

text \<open>C27: \<^verbatim>\<open>undo_count\<close> is the largest count any undo operation gave the edit, and \<^verbatim>\<open>was_undone\<close> looks only
  at the operations a version has observed; so both depend on the set of undo operations, not on
  the order in which they arrived.\<close>

theorem undo_count_is_the_maximum:
  assumes "undo_wf m" "height m < STACK_CAPACITY" "length (items m) < fuel"
  shows "undo_count fuel edit_id m = Some (max_count (edit_counts (\<lambda>_. True) edit_id m))
    \<and> is_undone fuel edit_id m = Some (max_count (edit_counts (\<lambda>_. True) edit_id m) mod 2 = 1)
    \<and> was_undone fuel edit_id v m = Some (max_count (edit_counts (observed v) edit_id m) mod 2 = 1)"
  using undo_count_where_ok [OF assms] by (simp add: undo_count_def is_undone_def was_undone_def)

theorem undo_count_is_the_maximum_witness:
  "is_undone 2 (Lamport 1 0) (Leaf (Lamport 1 0, Lamport 2 0) [mk_undo_entry (Lamport 1 0) (Lamport 2 0) 1] [(Lamport 1 0, Lamport 2 0)]) = Some True"
  using undo_count_is_the_maximum [of "(Leaf (Lamport 1 0, Lamport 2 0) [mk_undo_entry (Lamport 1 0) (Lamport 2 0) 1] [(Lamport 1 0, Lamport 2 0)])" 2 "Lamport 1 0" global_new]
  by (simp add: undo_wf_def sum_summaries_def TREE_BASE_def mk_undo_entry_def STACK_CAPACITY_def edit_counts_def max_count_def)

section \<open>Points and selections\<close>

text \<open>C28: the point of a concatenation is the sum of the points, and subtraction undoes addition.\<close>

theorem point_add_is_concatenation:
  assumes "count_list t (CHR 0x0A) < 2 ^ 32"
  shows "parse_str (s @ t) = point_add (parse_str s) (parse_str t)
    \<and> point_sub (parse_str (s @ t)) (parse_str s) = parse_str t
    \<and> point_saturating_sub (parse_str (s @ t)) (parse_str (s @ t)) = point_zero"
  using parse_str_append [OF assms, of s] point_add_sub
  by (simp add: point_saturating_sub_def point_cmp_eq point_sub_def point_zero_def)

theorem point_add_is_concatenation_witness:
  "parse_str (''ab'' @ [CHR 0x0A, CHR ''c'']) = point_add (parse_str ''ab'') (parse_str [CHR 0x0A, CHR ''c''])"
  using point_add_is_concatenation [of "[CHR 0x0A, CHR ''c'']" "''ab''"] by simp

text \<open>C29: setting the head, the tail or both of a selection sets exactly that end, keeps the other,
  and keeps \<open>start \<le> end\<close>.\<close>

theorem selection_setters_keep_order:
  assumes "selection_wf s"
  shows "selection_wf (set_head p g s) \<and> head (set_head p g s) = p \<and> tail (set_head p g s) = tail s
    \<and> selection_wf (set_tail p g s) \<and> tail (set_tail p g s) = p \<and> head (set_tail p g s) = head s
    \<and> selection_wf (set_head_tail p q g s) \<and> head (set_head_tail p q g s) = p \<and> tail (set_head_tail p q g s) = q
    \<and> selection_wf (collapse_to p g s) \<and> selection_is_empty (collapse_to p g s)"
  by (simp add: set_head_ok [OF assms] set_tail_ok [OF assms] set_head_tail_ok collapse_to_ok)

theorem selection_setters_keep_order_witness:
  "head (set_head 2 () \<lparr>sel_id = 0, sel_start = 5, sel_end = 9, reversed = False, goal = ()\<rparr>) = (2 :: nat)"
  using selection_setters_keep_order [of "\<lparr>sel_id = 0, sel_start = 5, sel_end = (9 :: nat), reversed = False, goal = ()\<rparr>" 2]
  by (simp add: selection_wf_def)

text \<open>C30: \<^verbatim>\<open>swap_head_tail\<close> exchanges head and tail, but a non-empty selection that is not reversed
  ends up with its end before its start.\<close>

theorem swap_head_tail_inverts_forward_selections:
  assumes "selection_wf s"
  shows "head (swap_head_tail s) = tail s \<and> tail (swap_head_tail s) = head s
    \<and> (selection_wf (swap_head_tail s) \<longleftrightarrow> reversed s \<or> selection_is_empty s)"
  using swap_head_tail_swaps swap_head_tail_breaks_wf [OF assms] by blast

theorem swap_head_tail_inverts_forward_selections_witness:
  "\<not> selection_wf (swap_head_tail \<lparr>sel_id = 0, sel_start = 1, sel_end = (3 :: nat), reversed = False, goal = ()\<rparr>)"
  using swap_head_tail_inverts_forward_selections [of "\<lparr>sel_id = 0, sel_start = 1, sel_end = (3 :: nat), reversed = False, goal = ()\<rparr>"]
  by (simp add: selection_wf_def selection_is_empty_def)

section \<open>Patches and subscriptions\<close>

text \<open>C31: composing patches.  On well-formed patches \<^verbatim>\<open>compose\<close> never subtracts below zero, the result
  keeps exactly the positions both patches keep, and its edits are non-empty and separated as
  \<^verbatim>\<open>Patch::new\<close> requires.\<close>

theorem compose_is_relational_composition:
  assumes "patch_wf p" "patch_wf q"
  shows "\<exists>r. compose p q = Some r \<and> patch_wf r \<and> separated r \<and> no_empty r \<and> keeps r = keeps p O keeps q"
  using assms by (rule compose_ok)

theorem compose_is_relational_composition_witness:
  "\<exists>r. compose [mk_edit 1 3 1 4] [mk_edit 0 0 0 4] = Some r \<and> separated r"
  using compose_is_relational_composition [of "[mk_edit 1 3 1 4]" "[mk_edit 0 0 0 4]"]
  by (auto simp: patch_wf_def)

text \<open>C32: if one patch describes the change from a text to a second and another the change from the
  second to a third, their composition describes the change from the first to the third; and the
  inverse patch describes the change back.\<close>

theorem compose_describes_both_changes:
  assumes "patch_wf p" "patch_wf q" "transforms p s t" "transforms q t u"
  shows "(\<exists>r. compose p q = Some r \<and> transforms r s u) \<and> transforms (invert p) t s"
  using transforms_compose [OF assms] invert_ok(2) [OF assms(1)] assms(3) by (auto simp: transforms_def)

theorem compose_describes_both_changes_witness:
  "\<exists>r. compose [mk_edit 1 2 1 1] [] = Some r \<and> transforms r [0, 1, 2 :: nat] [0, 2]"
proof -
  have "transforms [mk_edit 1 2 1 1] [0, 1, 2 :: nat] [0, 2]" "transforms [] [0, 2 :: nat] [0, 2]"
    by (auto simp: transforms_def keeps_def diag_def nth_Cons' split: if_splits)
  then show ?thesis
    using compose_describes_both_changes [of "[mk_edit 1 2 1 1]" "[]" "[0, 1, 2 :: nat]" "[0, 2]" "[0, 2]"]
    by (simp add: patch_wf_def)
qed

text \<open>C33: a subscriber that consumes after any number of published batches receives one patch with the
  effect of all of them, in the order of publication.\<close>

theorem subscriber_receives_every_batch:
  assumes "topic_wf t" "n \<notin> set (listeners t)" "list_all patch_wf bs"
  shows "\<exists>t' p t''. publish_all bs (subscribe n t) = Some t' \<and> consume n t' = Some (p, t'')
    \<and> keeps p = foldl (\<lambda>k b. k O keeps b) Id bs"
  using assms by (rule subscriber_receives_all)

theorem subscriber_receives_every_batch_witness:
  "\<exists>t' p t''. publish_all [[mk_edit 0 0 0 4], [mk_edit 1 3 1 1]] (subscribe 0 topic_default) = Some t'
    \<and> consume 0 t' = Some (p, t'')"
  using subscriber_receives_every_batch [of topic_default 0 "[[mk_edit 0 0 0 4], [mk_edit 1 3 1 1]]"]
  by (auto simp: topic_wf_def topic_default_def patch_wf_def)

section \<open>The undo history\<close>

text \<open>C34: grouping, by time or up to a given transaction, keeps the sequence of edits on the undo
  stack and the redo stack.\<close>

theorem grouping_keeps_edits:
  assumes "hist_wf h"
  shows "(\<exists>r h'. group h = Some (r, h') \<and> hist_wf h' \<and> stack_edits (undo_stack h') = stack_edits (undo_stack h)
      \<and> redo_stack h' = redo_stack h)
    \<and> (\<exists>h'. group_until tid h = Some h' \<and> hist_wf h' \<and> stack_edits (undo_stack h') = stack_edits (undo_stack h)
      \<and> redo_stack h' = redo_stack h)"
  using group_ok [OF assms] group_until_ok [OF assms, of tid] by blast

theorem grouping_keeps_edits_witness:
  "\<exists>h'. group_until (Lamport 2 0)
        ((history_new ''x'')\<lparr>undo_stack := [\<lparr>entry_transaction = \<lparr>transaction_id = Lamport 2 0, edit_ids = [Lamport 3 0], transaction_start = global_new\<rparr>, first_edit_at = 0, last_edit_at = 0, suppress_grouping = False\<rparr>,
          \<lparr>entry_transaction = \<lparr>transaction_id = Lamport 4 0, edit_ids = [Lamport 5 0], transaction_start = global_new\<rparr>, first_edit_at = 0, last_edit_at = 0, suppress_grouping = False\<rparr>]\<rparr>) = Some h'
    \<and> stack_edits (undo_stack h') = [Lamport 3 0, Lamport 5 0]"
  using grouping_keeps_edits [of "((history_new ''x'')\<lparr>undo_stack := [\<lparr>entry_transaction = \<lparr>transaction_id = Lamport 2 0, edit_ids = [Lamport 3 0], transaction_start = global_new\<rparr>, first_edit_at = 0, last_edit_at = 0, suppress_grouping = False\<rparr>,
          \<lparr>entry_transaction = \<lparr>transaction_id = Lamport 4 0, edit_ids = [Lamport 5 0], transaction_start = global_new\<rparr>, first_edit_at = 0, last_edit_at = 0, suppress_grouping = False\<rparr>]\<rparr>)" "Lamport 2 0"]
  by (auto simp: hist_wf_def history_new_def stack_ids_def)

text \<open>C35: undo and redo move transactions without losing an edit, and redo is the inverse of undo, one
  transaction at a time or back to a given one.\<close>

theorem redo_inverts_undo:
  assumes "hist_wf h" "transaction_depth h = 0" "undo_stack h \<noteq> []" "tid \<in> entry_id ` set (undo_stack h)"
  shows "(\<exists>e h'. pop_undo h = Some (Some e, h') \<and> all_edits h' = all_edits h \<and> hist_wf h' \<and> pop_redo h' = Some (Some e, h))
    \<and> (\<exists>es h'. remove_from_undo_until tid h = Some (es, h') \<and> all_edits h' = all_edits h \<and> hist_wf h'
        \<and> remove_from_redo (entry_id (last (undo_stack h))) h' = Some (rev es, h))"
proof -
  from pop_undo_ok [OF assms(1,2)] assms(3) obtain e h1 where
    "pop_undo h = Some (Some e, h1)" "moved h h1" by (auto simp: list_last_def)
  moreover from remove_from_undo_until_ok [OF assms(1,2), of tid] obtain es h2 where
    "remove_from_undo_until tid h = Some (es, h2)" "moved h h2" by blast
  ultimately show ?thesis
    using pop_undo_pop_redo undo_until_redo [OF assms(1,2,4)] moved_edits by (auto simp: moved_def)
qed

theorem redo_inverts_undo_witness:
  "\<exists>e h'. pop_undo ((history_new ''x'')\<lparr>undo_stack := [new_entry \<lparr>transaction_id = Lamport 1 0, edit_ids = [Lamport 2 0], transaction_start = global_new\<rparr> 7]\<rparr>)
     = Some (Some e, h')"
  using redo_inverts_undo [of "(history_new ''x'')\<lparr>undo_stack := [new_entry \<lparr>transaction_id = Lamport 1 0, edit_ids = [Lamport 2 0], transaction_start = global_new\<rparr> 7]\<rparr>" "Lamport 1 0"]
  by (auto simp: hist_wf_def history_new_def stack_ids_def)

text \<open>C36: merging a transaction into another keeps every edit and removes only the merged one.\<close>

theorem merge_keeps_edits:
  assumes "hist_wf h" "transaction_depth h = 0" "t \<in> set (stack_ids h)" "destination \<in> set (stack_ids h)" "t \<noteq> destination"
  shows "\<exists>h'. merge_transactions t destination h = Some h' \<and> hist_wf h' \<and> all_edits h' = all_edits h
    \<and> set (stack_ids h') = set (stack_ids h) - {t}"
  using assms by (rule merge_transactions_ok)

theorem merge_keeps_edits_witness:
  "\<exists>h'. merge_transactions (Lamport 1 0) (Lamport 2 0) ((history_new ''x'')\<lparr>undo_stack :=
      [new_entry \<lparr>transaction_id = Lamport 1 0, edit_ids = [], transaction_start = global_new\<rparr> 7,
       new_entry \<lparr>transaction_id = Lamport 2 0, edit_ids = [], transaction_start = global_new\<rparr> 7]\<rparr>) = Some h'"
  using merge_keeps_edits [of "(history_new ''x'')\<lparr>undo_stack :=
      [new_entry \<lparr>transaction_id = Lamport 1 0, edit_ids = [], transaction_start = global_new\<rparr> 7,
       new_entry \<lparr>transaction_id = Lamport 2 0, edit_ids = [], transaction_start = global_new\<rparr> 7]\<rparr>" "Lamport 1 0" "Lamport 2 0"]
  by (auto simp: hist_wf_def history_new_def stack_ids_def)

section \<open>Line endings, indentation and text summaries\<close>

text \<open>C38: writing a normalised text with either line ending and reading it back gives the text again,
  however it is chunked (as long as no chunk holds a carriage return), and the ending that was used is
  detected when the first line is shorter than the window that is searched.\<close>

theorem line_endings_round_trip:
  assumes "replaces_line_separators replace_all" "CR \<notin> set (concat cs)"
  shows "normalize replace_all (concat (chunks_with_line_ending e cs)) = concat cs
    \<and> (\<forall>p q. concat cs = p @ LF # q \<and> LF \<notin> set p \<and> (q = [] \<or> \<not> is_continuation (hd q)) \<and> length p < 999
        \<longrightarrow> detect (concat (chunks_with_line_ending e cs)) = e)"
  using assms normalize_eq [OF assms(1)] chunks_with_ending [OF assms(2)] separators_with_ending [OF assms(2)] detect_with_ending [OF assms(2)]
  by auto

theorem line_endings_round_trip_witness:
  "normalize scan_separators (concat (chunks_with_line_ending Windows [''ab'' @ [LF], ''c'']))
      = ''ab'' @ [LF] @ ''c''
    \<and> detect (concat (chunks_with_line_ending Windows [''ab'' @ [LF], ''c''])) = Windows"
proof -
  have cr: "CR \<notin> set (concat [''ab'' @ [LF], ''c''])" by simp
  note rt = line_endings_round_trip [OF replaces_scan_separators cr, of Windows]
  have "detect (concat (chunks_with_line_ending Windows [''ab'' @ [LF], ''c''])) = Windows"
    by (rule rt [THEN conjunct2, THEN spec [of _ "''ab''"], THEN spec [of _ "''c''"], THEN mp]) (simp add: is_continuation_def)
  then show ?thesis using rt by simp
qed

text \<open>C39: the indentation of a line depends only on its text, not on how the text is chunked; its length
  counts the leading tabs and spaces (modulo the 32-bit counters), and \<^verbatim>\<open>LineIndent::is_line_blank\<close> holds exactly
  when the line consists of tabs and spaces.  The comment on it says white space, and so does
  \<^verbatim>\<open>BufferSnapshot::is_line_blank\<close> mean it: a line that is blank for the indentation is blank for the snapshot, but
  one with another white space character, such as a form feed, is blank for the snapshot only.\<close>

theorem indentation_ignores_chunks:
  "fst (line_indent_from_chunks cs) = line_indent_from_iter (concat cs)
    \<and> raw_len (line_indent_from_iter s) = of_nat (length (takeWhile is_indent s))
    \<and> (is_line_blank (line_indent_from_iter s) \<longleftrightarrow> list_all is_indent (hd (split_lines s)))
    \<and> (is_line_blank (line_indent_from_iter s) \<longrightarrow> snapshot_is_line_blank [hd (split_lines s)])
    \<and> snapshot_is_line_blank [[CHR 0x0C]] \<and> \<not> is_line_blank (line_indent_from_iter [CHR 0x0C])"
  using whitespace_not_blank [of "CHR 0x0C"] indent_whitespace [of "hd (split_lines s)"]
  by (simp add: line_indent_from_chunks_def line_indent_from_iter_def [of "concat cs"] from_chunks_concat raw_len_eq blank_first_line
      is_ascii_whitespace_def is_indent_def [of "CHR 0x0C"]) (simp add: snapshot_is_line_blank_def)

theorem indentation_ignores_chunks_witness:
  "is_line_blank (line_indent_from_iter [CHR 0x09, CHR 0x20, LF, CHR 0x61]) \<and> snapshot_is_line_blank [[CHR 0x09, CHR 0x20]]"
  using indentation_ignores_chunks [of "[]" "[CHR 0x09, CHR 0x20, LF, CHR 0x61]"] by (simp add: is_indent_def)

text \<open>C37: for texts below the range of the 32-bit counters, the one-pass \<^verbatim>\<open>TextSummary::from\<close> computes the
  specification (lengths, lines, first and last line, first longest row), and adding summaries is
  concatenating texts, so that the summary a tree caches is the summary of its text.\<close>

theorem text_summary_is_compositional:
  assumes "length s + length t < 2 ^ 32"
  shows "text_summary_from s = summary_of s
    \<and> text_summary_add (text_summary_from s) (text_summary_from t) = text_summary_from (s @ t)"
  using assms text_summary_from_eq [of s] text_summary_from_eq [of t] text_summary_from_eq [of "s @ t"] summary_of_append [OF assms]
  by simp

theorem text_summary_is_compositional_witness:
  "text_summary_add (text_summary_from [104, 10]) (text_summary_from [105]) = text_summary_from [104, 10, 105]"
  using text_summary_is_compositional [of "[104, 10]" "[105]", THEN conjunct2] by (simp del: of_nat_numeral)

text \<open>C40: \<^verbatim>\<open>TextSummary::add_newline\<close> is not the sum with the summary of a newline: it leaves the number of
  characters unchanged and doubles the UTF-16 length before adding one.\<close>

theorem add_newline_miscounts:
  assumes "summary_fits s"
  shows "text_summary_add s text_summary_newline =
      (add_newline s)\<lparr>ts_chars := ts_chars s + 1, ts_len_utf16 := offset_utf16_add (ts_len_utf16 s) (OffsetUtf16 1)\<rparr>
    \<and> ts_chars (add_newline s) = ts_chars s
    \<and> the_offset (ts_len_utf16 (add_newline s)) = 2 * the_offset (ts_len_utf16 s) + 1"
  using add_newline_diff [OF assms] by (cases "ts_len_utf16 s") (simp add: add_newline_def Let_def offset_utf16_add_def)

theorem add_newline_miscounts_witness:
  "ts_chars (add_newline (text_summary_from [104])) = ts_chars (text_summary_from [104])"
  using add_newline_miscounts [OF summary_fits_of, of "[104]"] text_summary_from_eq [of "[104]"] by simp

section \<open>Local edits\<close>

text \<open>C4: a new buffer is consistent: the fragment tree, the two ropes, the index of insertions and the
  insertion slices describe the same text, for every normalised text below 4 GiB.\<close>

theorem new_buffer_is_consistent:
  assumes "starts_char t" "length t < 2 ^ 32"
  shows "\<exists>s clock. new_snapshot rid bid ending t = Some (s, clock) \<and> snapshot_ok s (base_pieces t) \<and> heights_ok s
    \<and> visible_text s = t \<and> line_ending s = ending"
  by (rule new_snapshot_ok [OF assms])

theorem new_buffer_is_consistent_witness:
  "\<exists>s clock. new_snapshot 0 1 Unix ''hello'' = Some (s, clock) \<and> snapshot_ok s (base_pieces ''hello'') \<and> heights_ok s
    \<and> visible_text s = ''hello'' \<and> line_ending s = Unix"
  by (rule new_buffer_is_consistent) (simp_all add: starts_char_def is_continuation_def)

text \<open>C1: a batch of edits succeeds on ordered ranges at character boundaries and replaces exactly these
  ranges of the visible text by the normalised new texts; nothing else of the buffer changes.\<close>

theorem local_edit_replaces_the_ranges:
  assumes "snapshot_ok s ps" "heights_ok s" "fresh ts ps" "ts \<noteq> lamport_MIN" "replaces_line_separators replace_all"
    and "edits_ok (visible_text s) 0 es" "length (concat (map snd es)) < 2 ^ 32"
  shows "\<exists>op patch s'. apply_edit_internal replace_all es ts s = Some (op, patch, s')
    \<and> visible_text s' = splice (visible_text s) 0 (normalized es)
    \<and> same_frame s s' \<and> (\<exists>ps'. snapshot_ok s' ps')"
  using apply_edit_internal_ok [OF assms] by blast

theorem local_edit_replaces_the_ranges_witness:
  "\<exists>s op patch s'. visible_text s = ''hello''
    \<and> apply_edit_internal scan_separators [((1, 3), ''ipp'')] (Lamport 2 0) s = Some (op, patch, s')
    \<and> visible_text s' = ''hipplo''"
proof -
  obtain s clock where s: "snapshot_ok s (base_pieces ''hello'')" "heights_ok s" "visible_text s = ''hello''"
    using new_snapshot_ok [of "''hello''" 0 1 Unix] by (auto simp: starts_char_def is_continuation_def)
  have ts: "fresh (Lamport 2 0) (base_pieces ''hello'')" "Lamport 2 0 \<noteq> lamport_MIN"
    by (rule fresh_base) (simp_all add: base_timestamp_def lamport_new_def lamport_MIN_def)
  have es: "edits_ok (visible_text s) 0 [((1, 3), ''ipp'')]" "length (concat (map snd [((1, 3), ''ipp'')])) < 2 ^ 32"
    unfolding s(3) by (simp_all add: is_char_boundary_def is_continuation_def starts_char_def)
  from local_edit_replaces_the_ranges [OF s(1,2) ts replaces_scan_separators es] obtain op patch s' where
    r: "apply_edit_internal scan_separators [((1, 3), ''ipp'')] (Lamport 2 0) s = Some (op, patch, s')"
      "visible_text s' = splice (visible_text s) 0 (normalized [((1, 3), ''ipp'')])" by blast
  have "splice ''hello'' 0 (normalized [((1, 3), ''ipp'')]) = ''hipplo''" by (simp add: eval_nat_numeral)
  with r s(3) show ?thesis by metis
qed

text \<open>C2: a local edit keeps the identity of every byte.  The bytes that were in the buffer stay, in the same
  order and with the same insertion and offset; exactly those that are visible and in one of the ranges
  gain the deletion, and the new bytes are numbered from zero under the new timestamp.\<close>

theorem local_edit_deletes_exactly_the_ranges:
  assumes "snapshot_ok s ps" "heights_ok s" "fresh ts ps" "ts \<noteq> lamport_MIN" "replaces_line_separators replace_all"
    and "edits_ok (visible_text s) 0 es" "length (concat (map snd es)) < 2 ^ 32"
  shows "\<exists>op patch s' ps'. apply_edit_internal replace_all es ts s = Some (op, patch, s') \<and> snapshot_ok s' ps'
    \<and> cells_edited ts (deletes ps es) ps ps'"
  using apply_edit_internal_ok [OF assms] by blast

theorem local_edit_deletes_exactly_the_ranges_witness:
  "\<exists>s op patch s' ps'. apply_edit_internal scan_separators [((0, 1), [])] (Lamport 2 0) s = Some (op, patch, s')
    \<and> cells_edited (Lamport 2 0) (deletes (base_pieces ''ab'') [((0, 1), [] :: string)]) (base_pieces ''ab'') ps'"
proof -
  obtain s clock where s: "snapshot_ok s (base_pieces ''ab'')" "heights_ok s" "visible_text s = ''ab''"
    using new_snapshot_ok [of "''ab''" 0 1 Unix] by (auto simp: starts_char_def is_continuation_def)
  have ts: "fresh (Lamport 2 0) (base_pieces ''ab'')" "Lamport 2 0 \<noteq> lamport_MIN"
    by (rule fresh_base) (simp_all add: base_timestamp_def lamport_new_def lamport_MIN_def)
  have es: "edits_ok (visible_text s) 0 [((0, 1), [])]" "length (concat (map snd [((0, 1), [])])) < 2 ^ 32"
    unfolding s(3) by (simp_all add: is_char_boundary_def is_continuation_def starts_char_def)
  from local_edit_deletes_exactly_the_ranges [OF s(1,2) ts replaces_scan_separators es] show ?thesis by blast
qed

text \<open>C3: the patch that a local edit publishes is well formed, has separated edits, and describes the change
  from the old visible text to the new one; the operation that is sent to other replicas carries the
  normalised texts, the version of the buffer, and ranges that denote the same positions counted over
  deleted text too.\<close>

theorem local_edit_reports_the_change:
  assumes "snapshot_ok s ps" "heights_ok s" "fresh ts ps" "ts \<noteq> lamport_MIN" "replaces_line_separators replace_all"
    and "edits_ok (visible_text s) 0 es" "length (concat (map snd es)) < 2 ^ 32"
  shows "\<exists>op patch s'. apply_edit_internal replace_all es ts s = Some (op, patch, s')
    \<and> patch_wf patch \<and> separated patch \<and> transforms patch (visible_text s) (visible_text s')
    \<and> edit_timestamp op = ts \<and> edit_version op = version s \<and> edit_new_text op = map snd (normalized es)
    \<and> ranges_denote ps es (edit_ranges op)"
  using apply_edit_internal_ok [OF assms] by blast

theorem local_edit_reports_the_change_witness:
  "\<exists>s op patch s'. apply_edit_internal scan_separators [((2, 2), ''c'')] (Lamport 2 0) s = Some (op, patch, s')
    \<and> transforms patch (visible_text s) (visible_text s') \<and> edit_new_text op = [''c'']"
proof -
  obtain s clock where s: "snapshot_ok s (base_pieces ''ab'')" "heights_ok s" "visible_text s = ''ab''"
    using new_snapshot_ok [of "''ab''" 0 1 Unix] by (auto simp: starts_char_def is_continuation_def)
  have ts: "fresh (Lamport 2 0) (base_pieces ''ab'')" "Lamport 2 0 \<noteq> lamport_MIN"
    by (rule fresh_base) (simp_all add: base_timestamp_def lamport_new_def lamport_MIN_def)
  have es: "edits_ok (visible_text s) 0 [((2, 2), ''c'')]" "length (concat (map snd [((2, 2), ''c'')])) < 2 ^ 32"
    unfolding s(3) by (simp_all add: is_char_boundary_def is_continuation_def starts_char_def)
  from local_edit_reports_the_change [OF s(1,2) ts replaces_scan_separators es] obtain op patch s' where
    r: "apply_edit_internal scan_separators [((2, 2), ''c'')] (Lamport 2 0) s = Some (op, patch, s')"
      "transforms patch (visible_text s) (visible_text s')" "edit_new_text op = map snd (normalized [((2, 2), ''c'')])" by blast
  have "map snd (normalized [((2 :: nat, 2 :: nat), ''c'')]) = [''c'']" by simp
  with r show ?thesis by metis
qed

section \<open>Undo\<close>

text \<open>C6: applying an undo operation.  It never fails on a consistent snapshot; afterwards the visibility of
  every byte of the buffer is the one the new undo map prescribes (its insertion is not undone and all
  its deletions are), although only the fragments found through the insertion slices of the operation's
  edits were visited; order, identity, deletions and content of the bytes are unchanged; and the patch
  sent to the subscribers turns the old visible text into the new one.\<close>

theorem undo_shows_what_the_map_prescribes:
  assumes "snapshot_ok s ps" "heights_ok s" "undo_wf (undo_map s)" "prescribed (undo_map s) ps"
    and "distinct (map fst (undo_counts undo))" "undo_timestamp undo \<noteq> lamport_MIN" "base_timestamp \<notin> fst ` set (undo_counts undo)"
    and "undo_map_insert undo (undo_map s) = Some m" "height m < STACK_CAPACITY"
  shows "\<exists>p s' ps'. apply_undo undo s = Some (p, s') \<and> undo_map s' = m \<and> undo_wf m \<and> snapshot_ok s' ps' \<and> prescribed m ps'
    \<and> map cell_origin (cells ps') = map cell_origin (cells ps)
    \<and> visible_text s' = shown_text m (cells ps)
    \<and> patch_wf p \<and> separated p \<and> transforms p (visible_text s) (visible_text s')"
proof -
  from apply_undo_ok [OF assms] obtain p s' ps' where
    1: "apply_undo undo s = Some (p, s')" "undo_map s' = m" "undo_wf m" "snapshot_ok s' ps'" "prescribed m ps'"
      "map cell_origin (cells ps') = map cell_origin (cells ps)" "patch_upto p (visible_text s) (visible_text s')" by blast
  have "visible_text s' = shown_text m (cells ps)" using prescribed_text [OF 1(4,5)] shown_text_cong [OF 1(6)] by simp
  then show ?thesis using 1 patch_upto_wf [OF 1(7)] by blast
qed

theorem undo_shows_what_the_map_prescribes_witness:
  "\<exists>s p s' m. visible_text s = ''hello''
    \<and> apply_undo \<lparr>undo_timestamp = Lamport 9 1, undo_version = global_new, undo_counts = [(Lamport 7 1, 1)]\<rparr> s = Some (p, s')
    \<and> visible_text s' = shown_text m (cells (base_pieces ''hello''))"
proof -
  let ?u = "\<lparr>undo_timestamp = Lamport 9 1, undo_version = global_new, undo_counts = [(Lamport 7 1, 1)]\<rparr>"
  obtain s where s: "snapshot_ok s (base_pieces ''hello'')" "heights_ok s" "visible_text s = ''hello''"
      "undo_map s = tree_new undo_ops" "prescribed (undo_map s) (base_pieces ''hello'')"
    using new_snapshot_shown [of "''hello''" 0 1 Unix] by (auto simp: starts_char_def is_continuation_def)
  have "case undo_map_insert ?u (tree_new undo_ops) of None \<Rightarrow> False | Some m \<Rightarrow> height m < STACK_CAPACITY" by code_simp
  then obtain m where m: "undo_map_insert ?u (undo_map s) = Some m" "height m < STACK_CAPACITY" unfolding s(4) by (auto split: option.splits)
  from undo_shows_what_the_map_prescribes [OF s(1,2) _ s(5) _ _ _ m] s(4) obtain p s' where
    "apply_undo ?u s = Some (p, s')" "visible_text s' = shown_text m (cells (base_pieces ''hello''))"
    by (auto simp: base_timestamp_def lamport_new_def lamport_MIN_def)
  then show ?thesis using s(3) by blast
qed

section \<open>Remote edits\<close>

text \<open>C8: applying the edit of another replica.  On a consistent snapshot that has observed what the edit depends
  on, ordered ranges at character boundaries of the text its version has observed are applied without
  failure.  The result is the specified function of the bytes with their identity: each new text goes behind
  the bytes it followed at its origin and behind concurrent insertions there with a higher timestamp; the
  deletion is added to exactly the bytes of the ranges that the version has observed and that were visible
  in it; nothing else changes.  The snapshot stays consistent, and the patch sent to the subscribers turns
  the old visible text into the new one.\<close>

theorem remote_edit_refines_cell_specification:
  assumes "snapshot_ok s ps" "heights_ok s" "undo_map_ok (undo_map s)"
    and "fresh ts ps" "ts \<noteq> lamport_MIN" "counted ps"
    and "\<And>x. x \<in> set ps \<Longrightarrow> known v x \<Longrightarrow> \<not> ts < frag_timestamp (fst x)"
    and "es \<noteq> []" "edits_ok (obs v ps) 0 es" "length (concat (map snd es)) < 2 ^ 32"
  shows "\<exists>patch s' ps'. apply_remote_edit v (map fst es) (map snd es) ts s = Some (Some patch, s')
    \<and> snapshot_ok s' ps' \<and> same_frame s s'
    \<and> cells ps' = remote_cells v (undo_map s) ts es (cells ps)
    \<and> visible_text s' = map c_byte (filter c_visible (remote_cells v (undo_map s) ts es (cells ps)))
    \<and> patch_wf patch \<and> separated patch \<and> transforms patch (visible_text s) (visible_text s')"
proof -
  from apply_remote_edit_ok [OF assms] obtain patch s' ps' where
    1: "apply_remote_edit v (map fst es) (map snd es) ts s = Some (Some patch, s')" "snapshot_ok s' ps'" "same_frame s s'"
      "cells ps' = remote_cells v (undo_map s) ts es (cells ps)"
      "patch_wf patch \<and> separated patch \<and> transforms patch (visible_text s) (visible_text s')" by blast
  have "visible_text s' = vis ps'" using 1(2) by (simp add: snapshot_ok_def)
  then show ?thesis using 1 by (auto simp: vis_cells)
qed

theorem remote_edit_refines_cell_specification_witness:
  "\<exists>s patch s'. visible_text s = ''hello''
    \<and> apply_remote_edit (global_observe global_new base_timestamp) [(1, 3), (4, 4)] [''xy'', ''z''] (Lamport 7 1) s = Some (Some patch, s')
    \<and> visible_text s' = ''hxylzo''"
proof -
  let ?v = "global_observe global_new base_timestamp" and ?ps = "base_pieces ''hello''" and ?es = "[((1::nat, 3::nat), ''xy''), ((4, 4), ''z'')]"
  obtain s where s: "snapshot_ok s ?ps" "heights_ok s" "visible_text s = ''hello''" "undo_map s = tree_new undo_ops"
    using new_snapshot_shown [of "''hello''" 0 1 Unix] by (auto simp: starts_char_def is_continuation_def)
  have "undo_map_ok (undo_map s)" using s(4) undo_wf_new by (simp add: undo_map_ok_def STACK_CAPACITY_def tree_new_def)
  moreover have "fresh (Lamport 7 1) ?ps" "counted ?ps" "\<And>x. x \<in> set ?ps \<Longrightarrow> known ?v x \<Longrightarrow> \<not> Lamport 7 1 < frag_timestamp (fst x)"
    "Lamport 7 1 \<noteq> lamport_MIN"
    by (auto simp: fresh_def counted_def base_pieces_def new_fragment_def base_timestamp_def lamport_new_def lamport_MIN_def less_lamport_def lamport_cmp_def then_with_def cmp_def)
  moreover have "edits_ok (obs ?v ?ps) 0 ?es" by code_simp
  moreover have "length (concat (map snd ?es)) < 2 ^ 32" by simp
  ultimately obtain patch s' where
    "apply_remote_edit ?v (map fst ?es) (map snd ?es) (Lamport 7 1) s = Some (Some patch, s')"
    "visible_text s' = map c_byte (filter c_visible (remote_cells ?v (undo_map s) (Lamport 7 1) ?es (cells ?ps)))"
    using remote_edit_refines_cell_specification [OF s(1,2), of "Lamport 7 1" ?v ?es] by auto
  moreover have "map c_byte (filter c_visible (remote_cells ?v (tree_new undo_ops) (Lamport 7 1) ?es (cells ?ps))) = ''hxylzo''" by code_simp
  ultimately show ?thesis using s(3,4) by auto
qed

section \<open>Replication\<close>

text \<open>C10: an operation means the same at every replica.  A local edit yields an operation; applied at a replica
  with the same bytes (however they are cut into fragments) whose version the origin had observed in full,
  it gives the same bytes, with the same identities, deletions and visibility, and so the same text.\<close>

theorem operation_replays_on_other_replicas:
  assumes "snapshot_ok s ps" "heights_ok s" "undo_map_ok (undo_map s)" "prescribed (undo_map s) ps"
    and "saw_all s ps" "newest ts ps" "ts \<noteq> lamport_MIN" "\<forall>c \<in> set (cells ps). lamport_value (c_timestamp c) \<noteq> 0"
    and "replaces_line_separators ra" "es \<noteq> []" "edits_ok (visible_text s) 0 es" "length (concat (map snd es)) < 2 ^ 32"
    and "snapshot_ok r qs" "heights_ok r" "undo_map r = undo_map s" "cells qs = cells ps"
  shows "\<exists>op p s' ps' p' r' qs'. apply_edit_internal ra es ts s = Some (op, p, s') \<and> snapshot_ok s' ps'
    \<and> apply_remote_edit (edit_version op) (edit_ranges op) (edit_new_text op) (edit_timestamp op) r = Some (Some p', r')
    \<and> snapshot_ok r' qs' \<and> cells qs' = cells ps' \<and> visible_text r' = visible_text s'"
  using replay_ok [OF assms] by blast

theorem operation_replays_on_other_replicas_witness:
  "\<exists>s r op p s' p' r'. visible_text s = ''hello'' \<and> visible_text r = ''hello''
    \<and> apply_edit_internal scan_separators [((1, 3), ''xy'')] (Lamport 7 1) s = Some (op, p, s')
    \<and> apply_remote_edit (edit_version op) (edit_ranges op) (edit_new_text op) (edit_timestamp op) r = Some (Some p', r')
    \<and> visible_text r' = visible_text s'"
proof -
  let ?ps = "base_pieces ''hello''" and ?es = "[((1::nat, 3::nat), ''xy'')]"
  have "starts_char ''hello''" "length ''hello'' < 2 ^ 32" by (simp_all add: starts_char_def is_continuation_def)
  note new = new_snapshot_shown [OF this]
  from new [of 0 1 Unix] obtain s c where s: "new_snapshot 0 1 Unix ''hello'' = Some (s, c)" "snapshot_ok s ?ps" "heights_ok s"
      "visible_text s = ''hello''" "undo_map s = tree_new undo_ops" "prescribed (undo_map s) ?ps" by blast
  from new [of 2 1 Unix] obtain r where r: "snapshot_ok r ?ps" "heights_ok r" "visible_text r = ''hello''" "undo_map r = tree_new undo_ops" by blast
  have "undo_map_ok (undo_map s)" using s(5) undo_wf_new by (simp add: undo_map_ok_def STACK_CAPACITY_def tree_new_def)
  moreover have "case new_snapshot 0 1 Unix ''hello'' of None \<Rightarrow> False | Some (s, c) \<Rightarrow> saw_all s ?ps" by code_simp
  then have "saw_all s ?ps" using s(1) by simp
  moreover have "newest (Lamport 7 1) ?ps" "Lamport 7 1 \<noteq> lamport_MIN" "\<forall>c \<in> set (cells ?ps). lamport_value (c_timestamp c) \<noteq> 0" by code_simp+
  moreover have "edits_ok ''hello'' 0 ?es" by code_simp
  ultimately show ?thesis
    using operation_replays_on_other_replicas [OF s(2,3) _ s(6), of "Lamport 7 1" scan_separators ?es r ?ps]
      r s(4,5) by fastforce
qed

text \<open>C9: concurrent edits converge.  Two edits of which neither has observed the other, applicable to the same
  snapshot, may arrive in either order: both orders succeed, and the bytes end up in the same sequence with
  the same identities, the same deletions and the same visibility, and so with the same text.\<close>

theorem concurrent_remote_edits_converge:
  assumes "snapshot_ok s ps" "heights_ok s" "undo_map_ok (undo_map s)"
    and "edit_ready v ts es (cells ps)" "edit_ready v' ts' es' (cells ps)"
    and "ts \<noteq> ts'" "\<not> observed v ts'" "\<not> observed v' ts"
    and "\<forall>p s1. apply_remote_edit v (map fst es) (map snd es) ts s = Some (p, s1) \<longrightarrow> heights_ok s1"
    and "\<forall>p s1. apply_remote_edit v' (map fst es') (map snd es') ts' s = Some (p, s1) \<longrightarrow> heights_ok s1"
  shows "\<exists>p1 s1 p2 s2 qs q1 r1 q2 r2 rs.
      apply_remote_edit v (map fst es) (map snd es) ts s = Some (p1, s1)
    \<and> apply_remote_edit v' (map fst es') (map snd es') ts' s1 = Some (p2, s2) \<and> snapshot_ok s2 qs
    \<and> apply_remote_edit v' (map fst es') (map snd es') ts' s = Some (q1, r1)
    \<and> apply_remote_edit v (map fst es) (map snd es) ts r1 = Some (q2, r2) \<and> snapshot_ok r2 rs
    \<and> map cell_state (cells qs) = map cell_state (cells rs) \<and> visible_text s2 = visible_text r2"
proof -
  let ?m = "undo_map s" and ?cs = "cells ps"
  from apply_ready [OF assms(1-4)] obtain p1 s1 ps1 where
    1: "apply_remote_edit v (map fst es) (map snd es) ts s = Some (Some p1, s1)" "snapshot_ok s1 ps1" "undo_map s1 = ?m"
      "cells ps1 = remote_cells v ?m ts es ?cs" by blast
  from apply_ready [OF assms(1-3,5)] obtain q1 r1 rs1 where
    2: "apply_remote_edit v' (map fst es') (map snd es') ts' s = Some (Some q1, r1)" "snapshot_ok r1 rs1" "undo_map r1 = ?m"
      "cells rs1 = remote_cells v' ?m ts' es' ?cs" by blast
  from apply_ready [OF 1(2) assms(9) [rule_format, OF 1(1)], of v' ts' es'] edit_ready_after [OF assms(4,5,6,8), of ?m] assms(3) 1(3,4)
  obtain p2 s2 qs where
    3: "apply_remote_edit v' (map fst es') (map snd es') ts' s1 = Some (Some p2, s2)" "snapshot_ok s2 qs"
      "cells qs = remote_cells v' ?m ts' es' (remote_cells v ?m ts es ?cs)" by auto
  from apply_ready [OF 2(2) assms(10) [rule_format, OF 2(1)], of v ts es] edit_ready_after [OF assms(5,4) assms(6) [symmetric] assms(7), of ?m] assms(3) 2(3,4)
  obtain q2 r2 rs where
    4: "apply_remote_edit v (map fst es) (map snd es) ts r1 = Some (Some q2, r2)" "snapshot_ok r2 rs"
      "cells rs = remote_cells v ?m ts es (remote_cells v' ?m ts' es' ?cs)" by auto
  have same: "map cell_state (cells qs) = map cell_state (cells rs)"
    unfolding 3(3) 4(3) by (rule concurrent_edits_commute [OF edit_ready_fits [OF assms(4)] edit_ready_fits [OF assms(5)] assms(6-8)])
  have "visible_text s2 = visible_text r2"
    using cell_states_text [OF same] 3(2) 4(2) by (simp add: snapshot_ok_def vis_cells)
  then show ?thesis using 1(1) 2(1) 3(1,2) 4(1,2) same by blast
qed

theorem concurrent_remote_edits_converge_witness:
  "\<exists>s p1 s1 p2 s2 q1 r1 q2 r2. visible_text s = ''hello''
    \<and> apply_remote_edit (global_observe global_new base_timestamp) [(1, 1)] [''xy''] (Lamport 7 1) s = Some (p1, s1)
    \<and> apply_remote_edit (global_observe global_new base_timestamp) [(1, 3)] [''AB''] (Lamport 7 2) s1 = Some (p2, s2)
    \<and> apply_remote_edit (global_observe global_new base_timestamp) [(1, 3)] [''AB''] (Lamport 7 2) s = Some (q1, r1)
    \<and> apply_remote_edit (global_observe global_new base_timestamp) [(1, 1)] [''xy''] (Lamport 7 1) r1 = Some (q2, r2)
    \<and> visible_text s2 = visible_text r2"
proof -
  let ?v = "global_observe global_new base_timestamp" and ?ps = "base_pieces ''hello''"
  let ?es = "[((1::nat, 1::nat), ''xy'')]" and ?es' = "[((1::nat, 3::nat), ''AB'')]"
  have "starts_char ''hello''" "length ''hello'' < 2 ^ 32" by (simp_all add: starts_char_def is_continuation_def)
  from new_snapshot_shown [OF this, of 0 1 Unix] obtain s c where
    s: "new_snapshot 0 1 Unix ''hello'' = Some (s, c)" "snapshot_ok s ?ps" "heights_ok s" "visible_text s = ''hello''"
      "undo_map s = tree_new undo_ops" by blast
  have m: "undo_map_ok (undo_map s)" using s(5) undo_wf_new by (simp add: undo_map_ok_def STACK_CAPACITY_def tree_new_def)
  have ready: "edit_ready ?v (Lamport 7 1) ?es (cells ?ps)" "edit_ready ?v (Lamport 7 2) ?es' (cells ?ps)" by code_simp+
  have conc: "Lamport 7 1 \<noteq> Lamport 7 2" "\<not> observed ?v (Lamport 7 2)" "\<not> observed ?v (Lamport 7 1)" by code_simp+
  have "case new_snapshot 0 1 Unix ''hello'' of None \<Rightarrow> False | Some (s, c) \<Rightarrow>
      (case apply_remote_edit ?v (map fst ?es) (map snd ?es) (Lamport 7 1) s of None \<Rightarrow> True | Some (p, s1) \<Rightarrow> heights_ok s1)" by code_simp
  then have h: "\<forall>p s1. apply_remote_edit ?v (map fst ?es) (map snd ?es) (Lamport 7 1) s = Some (p, s1) \<longrightarrow> heights_ok s1"
    using s(1) by (auto simp del: list.map split: option.splits)
  have "case new_snapshot 0 1 Unix ''hello'' of None \<Rightarrow> False | Some (s, c) \<Rightarrow>
      (case apply_remote_edit ?v (map fst ?es') (map snd ?es') (Lamport 7 2) s of None \<Rightarrow> True | Some (p, s1) \<Rightarrow> heights_ok s1)" by code_simp
  then have h': "\<forall>p s1. apply_remote_edit ?v (map fst ?es') (map snd ?es') (Lamport 7 2) s = Some (p, s1) \<longrightarrow> heights_ok s1"
    using s(1) by (auto simp del: list.map split: option.splits)
  have "map fst ?es = [(1, 1)]" "map snd ?es = [''xy'']" "map fst ?es' = [(1, 3)]" "map snd ?es' = [''AB'']" by simp_all
  note eval = this
  from concurrent_remote_edits_converge [OF s(2,3) m ready conc h h', unfolded eval] s(4) show ?thesis by blast
qed

section \<open>Buffers\<close>

text \<open>C5: a local edit of a buffer, the whole handler.  Opening the transaction, taking the next timestamp,
  editing, recording the operation, observing it and closing the transaction never fail on a consistent
  buffer.  The visible text is the specified one, the operation carries the version the buffer had before and
  a new timestamp, it is found in the history and stands last on the undo stack, and the buffer is
  consistent again: the clock is ahead of everything the buffer has seen, and its version has observed it.\<close>

theorem editing_keeps_the_buffer_consistent:
  assumes "buffer_ok b ps" "buffer_fits b" "lamport_value (lamport_clock b) < - 2"
    and "replaces_line_separators ra" "edits_ok (visible_text (snapshot b)) 0 es" "length (concat (map snd es)) < 2 ^ 32"
  shows "\<exists>e b' ps'. buffer_edit ra debug now later es b = Some (EditOp e, b') \<and> buffer_ok b' ps'
    \<and> visible_text (snapshot b') = splice (visible_text (snapshot b)) 0 (normalized es)
    \<and> edit_version e = buffer_version b \<and> \<not> observed (buffer_version b) (edit_timestamp e)
    \<and> buffer_version b' = global_observe (buffer_version b) (edit_timestamp e)
    \<and> map_get (edit_timestamp e) (operations (buffer_history b')) = Some (EditOp e)
    \<and> stack_edits (undo_stack (buffer_history b')) = stack_edits (undo_stack (buffer_history b)) @ [edit_timestamp e]"
proof -
  have "clock_ahead b ps" using assms(1) by (simp add: buffer_ok_def)
  from edit_clock_ok(5) [OF this assms(3)] have "\<not> observed (buffer_version b) (edit_clock b)" by (simp add: observed_def not_le)
  then show ?thesis using buffer_edit_ok [OF assms, of debug now later] by fastforce
qed

theorem editing_keeps_the_buffer_consistent_witness:
  "\<exists>b e b'. new_normalized 1 1 Unix ''hello'' = Some b \<and> buffer_edit scan_separators True 5 6 [((1, 3), ''xy'')] b = Some (EditOp e, b')
    \<and> visible_text (snapshot b') = ''hxylo''"
proof -
  have "starts_char ''hello''" "length ''hello'' < 2 ^ 32" by (simp_all add: starts_char_def is_continuation_def)
  from new_normalized_ok [OF this, of 1 1 Unix] obtain b where
    b: "new_normalized 1 1 Unix ''hello'' = Some b" "buffer_ok b (base_pieces ''hello'')" "buffer_fits b" "visible_text (snapshot b) = ''hello''"
      "lamport_value (lamport_clock b) \<le> 2" by blast
  have "(2 :: seq) < - 2" by simp
  then have clock: "lamport_value (lamport_clock b) < - 2" using b(5) by (rule order_le_less_trans [rotated])
  have es: "edits_ok (visible_text (snapshot b)) 0 [((1, 3), ''xy'')]" "length (concat (map snd [((1::nat, 3::nat), ''xy'')])) < 2 ^ 32"
    unfolding b(4) by code_simp simp
  have "splice ''hello'' 0 (normalized [((1, 3), ''xy'')]) = ''hxylo''" by code_simp
  then show ?thesis
    using editing_keeps_the_buffer_consistent [OF b(2,3) clock replaces_scan_separators es, of True 5 6] b(1,4) by auto
qed

text \<open>C11: replicas stay in step.  Two buffers are in step when both are consistent, hold the same bytes with the
  same identities, deletions and visibility, have the same version and undo map, and no operation waits.  An
  edit at one of them succeeds, its operation is applied by \<^verbatim>\<open>apply_ops\<close> at the other one, and they are in
  step again, with the text the edit specifies.\<close>

theorem edits_keep_replicas_in_step:
  assumes "in_step a b ps qs" "buffer_fits a" "buffer_fits b"
    and "lamport_value (lamport_clock a) < - 2" "lamport_value (lamport_clock b) \<noteq> - 1"
    and "replaces_line_separators ra" "es \<noteq> []" "edits_ok (visible_text (snapshot a)) 0 es" "length (concat (map snd es)) < 2 ^ 32"
  shows "\<exists>op a' b' ps' qs'. buffer_edit ra debug now later es a = Some (op, a') \<and> apply_ops [op] b = Some b' \<and> in_step a' b' ps' qs'
    \<and> visible_text (snapshot a') = splice (visible_text (snapshot a)) 0 (normalized es) \<and> visible_text (snapshot b') = visible_text (snapshot a')"
  using edit_replicates [OF assms, of debug now later] in_step_text by metis

theorem edits_keep_replicas_in_step_witness:
  "\<exists>a b op a' b'. new_normalized 1 1 Unix ''hello'' = Some a \<and> new_normalized 2 1 Unix ''hello'' = Some b
    \<and> buffer_edit scan_separators True 5 6 [((1, 3), ''xy'')] a = Some (op, a') \<and> apply_ops [op] b = Some b'
    \<and> visible_text (snapshot b') = ''hxylo''"
proof -
  have "starts_char ''hello''" "length ''hello'' < 2 ^ 32" by (simp_all add: starts_char_def is_continuation_def)
  note new = new_normalized_in_step [OF this, of 1 1 Unix 2]
  then obtain a b where
    s: "new_normalized 1 1 Unix ''hello'' = Some a" "new_normalized 2 1 Unix ''hello'' = Some b"
      "in_step a b (base_pieces ''hello'') (base_pieces ''hello'')" "buffer_fits a" "buffer_fits b"
      "lamport_value (lamport_clock a) < - 2" "lamport_value (lamport_clock b) \<noteq> - 1" "visible_text (snapshot a) = ''hello''" by blast
  have es: "[((1::nat, 3::nat), ''xy'')] \<noteq> []" "edits_ok (visible_text (snapshot a)) 0 [((1, 3), ''xy'')]" "length (concat (map snd [((1::nat, 3::nat), ''xy'')])) < 2 ^ 32"
    unfolding s(8) by (simp, code_simp, simp)
  have "splice ''hello'' 0 (normalized [((1, 3), ''xy'')]) = ''hxylo''" by code_simp
  then show ?thesis
    using edits_keep_replicas_in_step [OF s(3-7) replaces_scan_separators es, of True 5 6] s(1,2,8) by auto
qed

text \<open>C12: a session.  However many edits two replicas in step make, each delivered to the other one, they stay
  in step and show the same text.\<close>

theorem sessions_agree_on_the_text:
  assumes "session ra (a, b) (a', b')" "in_step a b ps qs" "replaces_line_separators ra"
  shows "visible_text (snapshot a') = visible_text (snapshot b') \<and> buffer_version a' = buffer_version b' \<and> (\<exists>ps' qs'. in_step a' b' ps' qs')"
  using session_in_step [OF assms(1) _ assms(3)] assms(2) in_step_text by (fastforce simp: in_step_def)

theorem sessions_agree_on_the_text_witness:
  "\<exists>a b a' b'. new_normalized 1 1 Unix ''hello'' = Some a \<and> new_normalized 2 1 Unix ''hello'' = Some b
    \<and> session scan_separators (a, b) (a', b') \<and> visible_text (snapshot a') = ''hxylo'' \<and> visible_text (snapshot b') = ''hxylo''"
proof -
  have "starts_char ''hello''" "length ''hello'' < 2 ^ 32" by (simp_all add: starts_char_def is_continuation_def)
  from new_normalized_in_step [OF this, of 1 1 Unix 2] obtain a b where
    s: "new_normalized 1 1 Unix ''hello'' = Some a" "new_normalized 2 1 Unix ''hello'' = Some b"
      "in_step a b (base_pieces ''hello'') (base_pieces ''hello'')" "buffer_fits a" "buffer_fits b"
      "lamport_value (lamport_clock a) < - 2" "lamport_value (lamport_clock b) \<noteq> - 1" "visible_text (snapshot a) = ''hello''" by blast
  have es: "[((1::nat, 3::nat), ''xy'')] \<noteq> []" "edits_ok (visible_text (snapshot a)) 0 [((1, 3), ''xy'')]" "length (concat (map snd [((1::nat, 3::nat), ''xy'')])) < 2 ^ 32"
    unfolding s(8) by (simp, code_simp, simp)
  then have can: "can_edit [((1, 3), ''xy'')] a b" using s(4-7) by (simp add: can_edit_def)
  from edit_replicates [OF s(3-7) replaces_scan_separators es, of True 5 6] obtain op a' b' where
    e: "buffer_edit scan_separators True 5 6 [((1, 3), ''xy'')] a = Some (op, a')" "apply_ops [op] b = Some b'"
      "visible_text (snapshot a') = splice (visible_text (snapshot a)) 0 (normalized [((1, 3), ''xy'')])" by blast
  have ses: "session scan_separators (a, b) (a', b')" by (rule session_first [OF session_start can e(1,2)])
  have "splice ''hello'' 0 (normalized [((1, 3), ''xy'')]) = ''hxylo''" by code_simp
  then show ?thesis
    using sessions_agree_on_the_text [OF ses s(3) replaces_scan_separators] ses s(1,2,8) e(3) by auto
qed

text \<open>C7: undo, then redo.  Both succeed on a consistent buffer.  Undo flips whether the edits of the last
  transaction are undone, and no others, and shows the bytes accordingly; redo restores the text and the
  stacks.  The bounds on the counts exclude the saturation of \<^verbatim>\<open>saturating_add\<close>.\<close>

theorem undo_then_redo_restores_the_text:
  assumes "buffer_ok b ps" "buffer_fits b" "lamport_value (lamport_clock b) < - 2"
    and "transaction_depth (buffer_history b) = 0" "list_last (undo_stack (buffer_history b)) = Some entry"
    and "undo_room (entry_transaction entry) b"
    and "\<forall>d \<in> set (entry_edits entry). undo_level (undo_map (snapshot b)) d < - 2"
    and "\<forall>r b1. buffer_undo b = Some (r, b1) \<longrightarrow> buffer_fits b1 \<and> undo_room (entry_transaction entry) b1"
  shows "\<exists>op1 b1 op2 b2 ps1 ps2. buffer_undo b = Some (Some (entry_id entry, op1), b1) \<and> buffer_ok b1 ps1
    \<and> (\<forall>d. undone (undo_map (snapshot b1)) d = (undone (undo_map (snapshot b)) d \<noteq> (d \<in> set (entry_edits entry))))
    \<and> visible_text (snapshot b1) = shown_text (undo_map (snapshot b1)) (cells ps)
    \<and> buffer_redo b1 = Some (Some (entry_id entry, op2), b2) \<and> buffer_ok b2 ps2
    \<and> visible_text (snapshot b2) = visible_text (snapshot b)
    \<and> undo_stack (buffer_history b2) = undo_stack (buffer_history b) \<and> redo_stack (buffer_history b2) = redo_stack (buffer_history b)"
  by (rule undo_redo_ok [OF assms])

theorem undo_then_redo_restores_the_text_witness:
  "\<exists>b r1 b1 r2 b2. visible_text (snapshot b) = ''hxylo'' \<and> buffer_undo b = Some (r1, b1) \<and> visible_text (snapshot b1) = ''hello''
    \<and> buffer_redo b1 = Some (r2, b2) \<and> visible_text (snapshot b2) = ''hxylo''"
proof -
  let ?es = "[((1, 3), ''xy'')]"
  have "starts_char ''hello''" "length ''hello'' < 2 ^ 32" by (simp_all add: starts_char_def is_continuation_def)
  from new_normalized_ok [OF this, of 1 1 Unix] obtain a where
    a: "new_normalized 1 1 Unix ''hello'' = Some a" "buffer_ok a (base_pieces ''hello'')" "buffer_fits a" "visible_text (snapshot a) = ''hello''"
      "lamport_value (lamport_clock a) \<le> 2" by blast
  have "(2 :: seq) < - 2" by simp
  then have clock: "lamport_value (lamport_clock a) < - 2" using a(5) by (rule order_le_less_trans [rotated])
  have "edits_ok (visible_text (snapshot a)) 0 ?es" "length (concat (map snd [((1::nat, 3::nat), ''xy'')])) < 2 ^ 32"
    unfolding a(4) by code_simp simp
  from buffer_edit_ok [OF a(2,3) clock replaces_scan_separators this, of True 5 6] obtain e b ps where
    b: "buffer_edit scan_separators True 5 6 ?es a = Some (EditOp e, b)" "buffer_ok b ps"
      "visible_text (snapshot b) = splice (visible_text (snapshot a)) 0 (normalized ?es)" by blast
  have "case new_normalized 1 1 Unix ''hello'' of None \<Rightarrow> False | Some a \<Rightarrow>
      (case buffer_edit scan_separators True 5 6 ?es a of None \<Rightarrow> False | Some (op, b) \<Rightarrow>
        buffer_fits b \<and> lamport_value (lamport_clock b) < - 2 \<and> transaction_depth (buffer_history b) = 0
        \<and> (case list_last (undo_stack (buffer_history b)) of None \<Rightarrow> False | Some entry \<Rightarrow>
            undo_room (entry_transaction entry) b \<and> (\<forall>d \<in> set (entry_edits entry). undo_level (undo_map (snapshot b)) d < - 2)
            \<and> (case buffer_undo b of None \<Rightarrow> False | Some (r, b1) \<Rightarrow>
                buffer_fits b1 \<and> undo_room (entry_transaction entry) b1 \<and> visible_text (snapshot b1) = ''hello'')))" by code_simp
  then have "buffer_fits b \<and> lamport_value (lamport_clock b) < - 2 \<and> transaction_depth (buffer_history b) = 0
        \<and> (case list_last (undo_stack (buffer_history b)) of None \<Rightarrow> False | Some entry \<Rightarrow>
            undo_room (entry_transaction entry) b \<and> (\<forall>d \<in> set (entry_edits entry). undo_level (undo_map (snapshot b)) d < - 2)
            \<and> (case buffer_undo b of None \<Rightarrow> False | Some (r, b1) \<Rightarrow>
                buffer_fits b1 \<and> undo_room (entry_transaction entry) b1 \<and> visible_text (snapshot b1) = ''hello''))"
    unfolding a(1) option.case b(1) prod.case .
  then obtain entry r b1 where h: "buffer_fits b" "lamport_value (lamport_clock b) < - 2" "transaction_depth (buffer_history b) = 0"
      "list_last (undo_stack (buffer_history b)) = Some entry" "undo_room (entry_transaction entry) b"
      "\<forall>d \<in> set (entry_edits entry). undo_level (undo_map (snapshot b)) d < - 2" "buffer_undo b = Some (r, b1)"
      "buffer_fits b1 \<and> undo_room (entry_transaction entry) b1" "visible_text (snapshot b1) = ''hello''"
    by (auto split: option.splits)
  have "\<forall>r b1. buffer_undo b = Some (r, b1) \<longrightarrow> buffer_fits b1 \<and> undo_room (entry_transaction entry) b1" using h(7,8) by simp
  from undo_then_redo_restores_the_text [OF b(2) h(1-6) this] h(7) obtain op2 b2 where
    "buffer_redo b1 = Some (Some (entry_id entry, op2), b2)" "visible_text (snapshot b2) = visible_text (snapshot b)" by auto
  moreover have "splice ''hello'' 0 (normalized ?es) = ''hxylo''" by code_simp
  ultimately show ?thesis using b(3) a(4) h(7,9) by auto
qed

section \<open>Causal delivery\<close>

text \<open>C13: operations that arrive early.  After \<^verbatim>\<open>apply_ops\<close> every operation that was delivered or was waiting has been
  observed, or it is still in the queue and a dependency of it is missing: one pass over the deferred
  operations in the order of their timestamps is enough, no operation is lost, and the version contains
  the dependencies of every operation it contains.  The hypothesis \<open>causal\<close> says how versions and timestamps of
  operations relate when every replica observes what it makes and receives.\<close>

theorem deferred_operations_wait_for_dependencies:
  assumes "causal A" "settled A b" "set ops \<subseteq> A" "height (deferred_ops b) < STACK_CAPACITY"
    and "\<forall>b1 ds q1. apply_ops_loop ops (b, []) = Some (b1, ds) \<longrightarrow> queue_insert timestamp ds (deferred_ops b) = Some q1
      \<longrightarrow> height q1 < STACK_CAPACITY"
    and "apply_ops ops b = Some b'"
  shows "(\<forall>op \<in> set ops \<union> set (items (deferred_ops b)). observed (buffer_version b') (timestamp op)
      \<or> op \<in> set (items (deferred_ops b')) \<and> \<not> observed_all (buffer_version b') (operation_version op))
    \<and> (\<forall>op \<in> A. observed (buffer_version b') (timestamp op) \<longrightarrow> observed_all (buffer_version b') (operation_version op))
    \<and> settled A b'"
  using apply_ops_settled [OF assms] unfolding settled_def closed_def waits_def by blast

theorem deferred_operations_wait_for_dependencies_witness:
  "\<exists>b op b'. new_normalized 2 1 Unix ''hello'' = Some b \<and> apply_ops [op] b = Some b'
    \<and> items (deferred_ops b') = [op] \<and> \<not> observed_all (buffer_version b') (operation_version op) \<and> visible_text (snapshot b') = ''hello''"
proof -
  let ?v = "global_observe global_new base_timestamp"
  let ?op = "EditOp \<lparr>edit_timestamp = Lamport 5 1, edit_version = global_observe ?v (Lamport 3 1), edit_ranges = [(0, 0)], edit_new_text = [''y'']\<rparr>"
  have "starts_char ''hello''" "length ''hello'' < 2 ^ 32" by (simp_all add: starts_char_def is_continuation_def)
  from new_normalized_ok [OF this, of 2 1 Unix] obtain b where
    b: "new_normalized 2 1 Unix ''hello'' = Some b" "deferred_ops b = queue_new timestamp" "deferred_replicas b = {}" "buffer_version b = ?v" by auto
  have run: "case new_normalized 2 1 Unix ''hello'' of None \<Rightarrow> False | Some b \<Rightarrow>
      (case apply_ops_loop [?op] (b, []) of None \<Rightarrow> False | Some (b1, ds) \<Rightarrow>
        (case queue_insert timestamp ds (deferred_ops b) of None \<Rightarrow> False | Some q \<Rightarrow> height q < STACK_CAPACITY))
      \<and> (case apply_ops [?op] b of None \<Rightarrow> False | Some b' \<Rightarrow>
          items (deferred_ops b') = [?op] \<and> visible_text (snapshot b') = ''hello'' \<and> \<not> observed (buffer_version b') (timestamp ?op))" by code_simp
  then obtain b' where b': "apply_ops [?op] b = Some b'" "items (deferred_ops b') = [?op]" "visible_text (snapshot b') = ''hello''"
      "\<not> observed (buffer_version b') (timestamp ?op)"
    and room: "\<forall>b1 ds q1. apply_ops_loop [?op] (b, []) = Some (b1, ds) \<longrightarrow> queue_insert timestamp ds (deferred_ops b) = Some q1 \<longrightarrow> height q1 < STACK_CAPACITY"
    unfolding b(1) option.case by (auto simp del: apply_ops_loop.simps split: option.splits)
  have wf: "global_wf ?v" "global_wf (operation_version ?op)" by (simp_all add: vv.wf_obs global_wf_new operation_version_def)
  have facts: "lamport_MIN < timestamp ?op" "\<not> knows ?op ?op" "\<not> observed ?v (timestamp ?op)" by code_simp+
  have causal: "causal {?op}" using facts wf by (simp add: causal_def)
  have "closed {?op} ?v" using facts wf by (simp add: closed_def)
  then have "settled {?op} b" using b(2-4) by (simp add: settled_def)
  moreover have "height (deferred_ops b) < STACK_CAPACITY" using b(2) by (simp add: STACK_CAPACITY_def)
  ultimately have "\<not> observed_all (buffer_version b') (operation_version ?op)"
    using deferred_operations_wait_for_dependencies [OF causal _ _ _ room b'(1)] b'(4) by simp
  then show ?thesis using b(1) b' by blast
qed

text \<open>C14: the queue of deferred operations is a sorted finite map from timestamps.  Inserting keeps the first of
  the new operations with one timestamp and replaces what was there; the cached length is the number of
  operations; the iterator returns them by timestamp; draining leaves an empty queue.  The assertion of
  \<^verbatim>\<open>add_summary\<close> holds for any two neighbouring runs of operations.\<close>

theorem operation_queue_is_a_sorted_map:
  assumes "queue_wf ts q" "height q < STACK_CAPACITY" "\<forall>x \<in> set xs. lamport_MIN < ts x"
  shows "(\<exists>q'. queue_insert ts xs q = Some q' \<and> queue_wf ts q'
      \<and> (\<forall>k. lookup_key ts (items q') k = (case find (\<lambda>x. ts x = k) xs of Some x \<Rightarrow> Some x | None \<Rightarrow> lookup_key ts (items q) k)))
    \<and> queue_len q = length (items q) \<and> (queue_is_empty q \<longleftrightarrow> items q = [])
    \<and> queue_iter q = Some (items q) \<and> sorted_wrt (<) (map ts (items q))
    \<and> (\<exists>q'. queue_drain ts q = (q, q') \<and> queue_wf ts q' \<and> items q' = [])
    \<and> (\<forall>us vs ws zs. items q = us @ vs @ ws @ zs \<longrightarrow> ws \<noteq> []
        \<longrightarrow> op_key (sum_summaries (queue_ops ts) (map (operation_item_summary ts) vs)) < op_key (sum_summaries (queue_ops ts) (map (operation_item_summary ts) ws)))"
proof -
  have "sorted_wrt (<) (map ts (items q))" using assms(1) by (simp add: queue_wf_def key_sorted_def)
  then show ?thesis
    using queue_insert_ok [OF assms] queue_summary [OF assms(1)] queue_iter_ok [OF assms(1,2)] queue_assertion [OF assms(1)]
    by (auto simp: queue_len_def queue_is_empty_def queue_drain_def)
qed

theorem operation_queue_is_a_sorted_map_witness:
  "\<exists>q. queue_insert (\<lambda>t. t) [Lamport 5 1, Lamport 2 3, Lamport 5 1] (queue_new (\<lambda>t. t)) = Some q \<and> items q = [Lamport 2 3, Lamport 5 1]
    \<and> queue_len q = 2 \<and> queue_iter q = Some [Lamport 2 3, Lamport 5 1]"
proof -
  let ?ts = "\<lambda>t :: lamport. t" and ?xs = "[Lamport 5 1, Lamport 2 3, Lamport 5 1]"
  have pos: "\<forall>x \<in> set ?xs. lamport_MIN < ?ts x" by code_simp
  have small: "height (queue_new ?ts) < STACK_CAPACITY" by (simp add: STACK_CAPACITY_def)
  from operation_queue_is_a_sorted_map [OF queue_new_ok(1) small pos] obtain q where
    q: "queue_insert ?ts ?xs (queue_new ?ts) = Some q" "queue_wf ?ts q" by blast
  have "case queue_insert ?ts ?xs (queue_new ?ts) of None \<Rightarrow> False | Some q \<Rightarrow> items q = [Lamport 2 3, Lamport 5 1] \<and> height q < STACK_CAPACITY" by code_simp
  then have i: "items q = [Lamport 2 3, Lamport 5 1]" "height q < STACK_CAPACITY" using q(1) by auto
  from operation_queue_is_a_sorted_map [OF q(2) i(2) pos] have "queue_len q = length (items q)" "queue_iter q = Some (items q)" by blast+
  then show ?thesis using q(1) i(1) by auto
qed

text \<open>C15: the iterator of a tree returns each of its items once, in order, and then ends.\<close>

theorem tree_iterator_returns_the_items:
  assumes "tree_wf ops t" "height t < STACK_CAPACITY"
  shows "tree_iter t = Some (items t)"
  by (rule tree_iter_ok [OF assms])

theorem tree_iterator_returns_the_items_witness:
  "\<exists>t. from_iter undo_ops (map (\<lambda>n. mk_undo_entry (Lamport n 0) (Lamport 9 0) 1) [1, 2, 3]) = Some t
    \<and> tree_iter t = Some (map (\<lambda>n. mk_undo_entry (Lamport n 0) (Lamport 9 0) 1) [1, 2, 3])"
proof -
  let ?xs = "map (\<lambda>n. mk_undo_entry (Lamport n 0) (Lamport 9 0) 1) [1, 2, 3]"
  have "case from_iter undo_ops ?xs of None \<Rightarrow> False | Some t \<Rightarrow> tree_wf undo_ops t \<and> height t < STACK_CAPACITY \<and> items t = ?xs" by code_simp
  then obtain t where t: "from_iter undo_ops ?xs = Some t" "tree_wf undo_ops t" "height t < STACK_CAPACITY" "items t = ?xs"
    by (auto simp del: list.map split: option.splits)
  from tree_iterator_returns_the_items [OF t(2,3)] t(1,4) show ?thesis by metis
qed

end
